(* ===== verification/Prelude.thy ===== *)
theory Prelude
  imports Main "HOL-Library.Multiset" "HOL-Library.Word"
begin

text \<open>
  Shared vocabulary of the development.  The sections hold, in order: the lemma
  collections; the result type used for Rust's \<open>Result\<close>; facts about lists, counts and
  finite acyclic relations used by the scheduler graph; the iteration order of Rust's hash
  containers.
\<close>

section \<open>Lemma collections\<close>

named_theorems status_simps \<open>unfolding rules of the status predicates\<close>
named_theorems op_simps \<open>unfolding rules of state-changing operations\<close>
named_theorems inv_intros \<open>introduction rules: an operation keeps an invariant\<close>

section \<open>Results\<close>

text \<open>Rust's \<open>Result<T, E>\<close> is a sum with the error on the left.\<close>

abbreviation Err :: "'e \<Rightarrow> 'e + 'a" where
  "Err e \<equiv> Inl e"

abbreviation Ok :: "'a \<Rightarrow> 'e + 'a" where
  "Ok x \<equiv> Inr x"

text \<open>The \<open>?\<close> operator: an error returns at once, a value is passed on.\<close>

fun and_then :: "'e + 'a \<Rightarrow> ('a \<Rightarrow> 'e + 'b) \<Rightarrow> 'e + 'b" where
  "and_then (Inl e) f = Inl e"
| "and_then (Inr x) f = f x"

lemma and_then_Inr_iff [simp]:
  "and_then r f = Inr y \<longleftrightarrow> (\<exists>x. r = Inr x \<and> f x = Inr y)"
  by (cases r) auto

lemma and_then_Inl_iff:
  "and_then r f = Inl e \<longleftrightarrow> r = Inl e \<or> (\<exists>x. r = Inr x \<and> f x = Inl e)"
  by (cases r) auto

text \<open>\<open>Result::map_err\<close>, also the conversion that \<open>?\<close> applies to an error.\<close>

fun map_err :: "('e \<Rightarrow> 'f) \<Rightarrow> 'e + 'a \<Rightarrow> 'f + 'a" where
  "map_err g (Inl e) = Inl (g e)"
| "map_err g (Inr x) = Inr x"

lemma map_err_Inr_iff [simp]: "map_err g r = Inr y \<longleftrightarrow> r = Inr y"
  by (cases r) auto

section \<open>Lists\<close>

text \<open>
  Iterating over a \<open>HashSet\<close> or \<open>HashMap\<close> visits every key once, in an order that depends
  on the hasher.  The model passes that order as a function that permutes a duplicate-free
  key list.
\<close>

definition hash_order :: "('a list \<Rightarrow> 'a list) \<Rightarrow> bool" where
  "hash_order it \<longleftrightarrow> (\<forall>xs. distinct xs \<longrightarrow> distinct (it xs) \<and> set (it xs) = set xs)"

lemma hash_orderD:
  assumes "hash_order it" and "distinct xs"
  shows "distinct (it xs)" and "set (it xs) = set xs"
  using assms by (auto simp: hash_order_def)

lemma hash_order_id [simp]: "hash_order (\<lambda>xs. xs)"
  by (simp add: hash_order_def)

lemma hash_order_rev [simp]: "hash_order rev"
  by (simp add: hash_order_def)

text \<open>Two sorted duplicate-free lists over the same elements are equal.\<close>

lemma sort_eq_of_set_eq:
  fixes xs ys :: "'a::linorder list"
  assumes "distinct xs" "distinct ys" "set xs = set ys"
  shows "sort xs = sort ys"
  using assms by (metis distinct_sort set_sort sorted_distinct_set_unique sorted_sort)

lemma find_SomeE:
  assumes "find P xs = Some x"
  shows "x \<in> set xs \<and> P x"
  using assms by (metis find_Some_iff nth_mem)

section \<open>Finite relations\<close>

text \<open>In a finite acyclic relation every nonempty set has an element with no predecessor in it.\<close>

lemma acyclic_minimal:
  assumes "finite r" and "acyclic r" and "x \<in> S"
  obtains m where "m \<in> S" and "\<And>y. (y, m) \<in> r \<Longrightarrow> y \<notin> S"
  using wfE_min[OF finite_acyclic_wf[OF assms(1,2)] assms(3)] by blast

section \<open>Reachable states\<close>

inductive reachable :: "('s \<Rightarrow> bool) \<Rightarrow> ('s \<Rightarrow> 's \<Rightarrow> bool) \<Rightarrow> 's \<Rightarrow> bool"
  for init :: "'s \<Rightarrow> bool" and step :: "'s \<Rightarrow> 's \<Rightarrow> bool" where
  start: "init s \<Longrightarrow> reachable init step s"
| more: "reachable init step s \<Longrightarrow> step s t \<Longrightarrow> reachable init step t"

text \<open>
  The contract a state machine gives its observers: an invariant that holds at the start and
  that every step keeps.  Each machine of the development interprets it.
\<close>

locale invariant_system =
  fixes init :: "'s \<Rightarrow> bool"
    and step :: "'s \<Rightarrow> 's \<Rightarrow> bool"
    and inv :: "'s \<Rightarrow> bool"
  assumes inv_init: "init s \<Longrightarrow> inv s"
    and inv_step: "inv s \<Longrightarrow> step s t \<Longrightarrow> inv t"
begin

lemma reachable_inv: "reachable init step s \<Longrightarrow> inv s"
  by (induction rule: reachable.induct) (auto intro: inv_init inv_step)

lemma steps_inv: "step\<^sup>*\<^sup>* s t \<Longrightarrow> inv s \<Longrightarrow> inv t"
  by (induction rule: rtranclp_induct) (auto intro: inv_step)

end

end
