(* ===== verification/Graph.thy ===== *)
theory Graph
  imports Prelude
begin

text \<open>
  The graph primitives of \<open>cosmon-graph\<close> (\<open>crates/cosmon-graph/src/lib.rs\<close>): Kahn's
  topological sort and the ready frontier.  An edge \<open>(a, b)\<close> says that \<open>a\<close> completes
  before \<open>b\<close> starts.  The hash containers' iteration order is the argument \<open>it\<close>.
\<close>

section \<open>Definitions\<close>

datatype 'n cycle_error = CycleError 'n

type_synonym 'n edges = "('n \<times> 'n) list"

text \<open>The set both functions collect first: every endpoint of an edge.\<close>

fun edge_nodes :: "'n edges \<Rightarrow> 'n list" where
  "edge_nodes [] = []"
| "edge_nodes ((a, b) # es) = a # b # edge_nodes es"

definition node_keys :: "'n edges \<Rightarrow> 'n list" where
  "node_keys es = remdups (edge_nodes es)"

text \<open>The in-degree map starts at zero for every node, then counts the edges.\<close>

fun count_edges :: "'n edges \<Rightarrow> ('n \<rightharpoonup> nat) \<Rightarrow> ('n \<rightharpoonup> nat)" where
  "count_edges [] deg = deg"
| "count_edges ((dep, step) # es) deg =
     count_edges es (deg(step \<mapsto> Suc (case deg step of None \<Rightarrow> 0 | Some d \<Rightarrow> d)))"

fun push_dependents :: "'n edges \<Rightarrow> ('n \<rightharpoonup> 'n list) \<Rightarrow> ('n \<rightharpoonup> 'n list)" where
  "push_dependents [] m = m"
| "push_dependents ((dep, step) # es) m =
     push_dependents es (m(dep \<mapsto> (case m dep of None \<Rightarrow> [] | Some l \<Rightarrow> l) @ [step]))"

definition in_degree :: "'n edges \<Rightarrow> ('n \<rightharpoonup> nat)" where
  "in_degree es = count_edges es (\<lambda>n. if n \<in> set (node_keys es) then Some 0 else None)"

definition dependents :: "'n edges \<Rightarrow> ('n \<rightharpoonup> 'n list)" where
  "dependents es = push_dependents es Map.empty"

text \<open>
  The inner loop over the dependents of the node just emitted.  \<open>*deg -= 1\<close> on an unsigned
  zero does not return a value: \<open>None\<close>.
\<close>

fun relax :: "'n list \<Rightarrow> ('n \<rightharpoonup> nat) \<Rightarrow> 'n list \<Rightarrow> (('n \<rightharpoonup> nat) \<times> 'n list) option" where
  "relax [] deg newly = Some (deg, newly)"
| "relax (d # ds) deg newly =
     (case deg d of
        None \<Rightarrow> relax ds deg newly
      | Some 0 \<Rightarrow> None
      | Some (Suc k) \<Rightarrow> relax ds (deg(d \<mapsto> k)) (if k = 0 then newly @ [d] else newly))"

text \<open>The main loop.  \<open>None\<close> also stands for a loop that never ends.\<close>

partial_function (option) kahn ::
  "('n::linorder \<rightharpoonup> 'n list) \<Rightarrow> 'n list \<Rightarrow> ('n \<rightharpoonup> nat) \<Rightarrow> 'n list \<Rightarrow> ('n list \<times> ('n \<rightharpoonup> nat)) option"
where
  "kahn deps queue deg result =
     (case queue of
        [] \<Rightarrow> Some (result, deg)
      | node # rest \<Rightarrow>
          (case deps node of
             None \<Rightarrow> kahn deps rest deg (result @ [node])
           | Some ds \<Rightarrow>
               Option.bind (relax ds deg [])
                 (\<lambda>(deg', newly). kahn deps (rest @ sort newly) deg' (result @ [node]))))"

definition toposort ::
  "('n::linorder list \<Rightarrow> 'n list) \<Rightarrow> 'n edges \<Rightarrow> ('n cycle_error + 'n list) option"
where
  "toposort it es =
     (let keys = it (node_keys es);
          deg = in_degree es;
          queue = sort (filter (\<lambda>n. deg n = Some 0) keys)
      in Option.bind (kahn (dependents es) queue deg [])
           (\<lambda>(result, deg').
              if length result \<noteq> length (node_keys es) then
                (case find (\<lambda>n. case deg' n of None \<Rightarrow> False | Some d \<Rightarrow> d > 0) keys of
                   Some stuck \<Rightarrow> Some (Err (CycleError stuck))
                 | None \<Rightarrow>
                     (case rev result of
                        x # _ \<Rightarrow> Some (Err (CycleError x))
                      | [] \<Rightarrow> (case es of [] \<Rightarrow> None | (a, _) # _ \<Rightarrow> Some (Err (CycleError a)))))
              else Some (Ok result)))"

text \<open>\<open>deps_of\<close>: node to the list of its dependencies.\<close>

fun push_deps :: "'n edges \<Rightarrow> ('n \<rightharpoonup> 'n list) \<Rightarrow> ('n \<rightharpoonup> 'n list)" where
  "push_deps [] m = m"
| "push_deps ((dep, step) # es) m =
     push_deps es (m(step \<mapsto> (case m step of None \<Rightarrow> [] | Some l \<Rightarrow> l) @ [dep]))"

definition deps_of :: "'n edges \<Rightarrow> ('n \<rightharpoonup> 'n list)" where
  "deps_of es = push_deps es Map.empty"

definition deps_all_in :: "'n edges \<Rightarrow> 'n set \<Rightarrow> 'n \<Rightarrow> bool" where
  "deps_all_in es S node =
     (case deps_of es node of None \<Rightarrow> True | Some deps \<Rightarrow> list_all (\<lambda>d. d \<in> S) deps)"

definition ready_frontier ::
  "('n::linorder list \<Rightarrow> 'n list) \<Rightarrow> 'n edges \<Rightarrow> 'n set \<Rightarrow> 'n list"
where
  "ready_frontier it es completed =
     sort (filter (\<lambda>node. node \<notin> completed \<and> deps_all_in es completed node) (it (node_keys es)))"

section \<open>The tables built from the edge list\<close>

definition nodes :: "'n edges \<Rightarrow> 'n set" where
  "nodes es = fst ` set es \<union> snd ` set es"

definition preds :: "'n edges \<Rightarrow> 'n \<Rightarrow> 'n set" where
  "preds es n = {a. (a, n) \<in> set es}"

lemma set_edge_nodes [simp]: "set (edge_nodes es) = nodes es"
  by (induction es rule: edge_nodes.induct) (auto simp: nodes_def)

lemma set_node_keys [simp]: "set (node_keys es) = nodes es"
  by (simp add: node_keys_def)

lemma distinct_node_keys [simp]: "distinct (node_keys es)"
  by (simp add: node_keys_def)

lemma finite_nodes [simp]: "finite (nodes es)"
  by (metis List.finite_set set_node_keys)

lemma length_node_keys: "length (node_keys es) = card (nodes es)"
  by (metis distinct_card distinct_node_keys set_node_keys)

lemma edge_in_nodes: "(a, b) \<in> set es \<Longrightarrow> a \<in> nodes es \<and> b \<in> nodes es"
  by (force simp: nodes_def)

lemma preds_subset_nodes: "preds es n \<subseteq> nodes es"
  using edge_in_nodes by (fastforce simp: preds_def)

lemma nodes_subset: "set es \<subseteq> nodes es \<times> nodes es"
  using edge_in_nodes by fast

lemma filter_key_Nil: "n \<notin> f ` set es \<Longrightarrow> filter (\<lambda>e. f e = n) es = []"
  by (induction es) auto

lemma push_dependents_eq:
  "push_dependents es m n =
     (if n \<in> fst ` set es
      then Some ((case m n of None \<Rightarrow> [] | Some l \<Rightarrow> l) @ map snd (filter (\<lambda>e. fst e = n) es))
      else m n)"
  by (induction es arbitrary: m rule: edge_nodes.induct) (simp_all add: filter_key_Nil)

lemma dependents_eq:
  "dependents es n =
     (if n \<in> fst ` set es then Some (map snd (filter (\<lambda>e. fst e = n) es)) else None)"
  by (simp add: dependents_def push_dependents_eq)

lemma push_deps_eq:
  "push_deps es m n =
     (if n \<in> snd ` set es
      then Some ((case m n of None \<Rightarrow> [] | Some l \<Rightarrow> l) @ map fst (filter (\<lambda>e. snd e = n) es))
      else m n)"
  by (induction es arbitrary: m rule: edge_nodes.induct) (simp_all add: filter_key_Nil)

lemma deps_all_in_iff: "deps_all_in es S n \<longleftrightarrow> preds es n \<subseteq> S"
  by (force simp: deps_all_in_def deps_of_def push_deps_eq preds_def list_all_iff)

lemma count_edges_eq:
  "count_edges es deg n =
     (if n \<in> snd ` set es
      then Some ((case deg n of None \<Rightarrow> 0 | Some d \<Rightarrow> d) + count_list (map snd es) n)
      else deg n)"
  by (induction es arbitrary: deg rule: edge_nodes.induct) (simp_all add: count_list_0_iff eq_commute)

lemma in_degree_eq:
  "in_degree es n = (if n \<in> nodes es then Some (count_list (map snd es) n) else None)"
  by (auto simp: in_degree_def count_edges_eq nodes_def count_list_0_iff)

section \<open>The loop\<close>

text \<open>The edges into \<open>n\<close> whose source is not yet emitted.\<close>

definition open_in :: "'n edges \<Rightarrow> 'n list \<Rightarrow> 'n \<Rightarrow> nat" where
  "open_in es res n = length (filter (\<lambda>(a, b). b = n \<and> a \<notin> set res) es)"

lemma open_in_Nil: "open_in es [] n = count_list (map snd es) n"
  by (induction es) (auto simp: open_in_def)

lemma open_in_snoc:
  assumes "x \<notin> set res"
  shows "open_in es res n = open_in es (res @ [x]) n
           + count_list (map snd (filter (\<lambda>e. fst e = x) es)) n"
  using assms by (induction es) (auto simp: open_in_def)

lemma open_in_0_iff: "open_in es res n = 0 \<longleftrightarrow> preds es n \<subseteq> set res"
  by (fastforce simp: open_in_def preds_def filter_empty_conv)

text \<open>What the inner loop computes when no counter underflows.\<close>

lemma relax_correct:
  assumes "\<And>n. count_list ds n \<le> (case deg n of None \<Rightarrow> 0 | Some d \<Rightarrow> d)"
  shows "\<exists>deg' newly'. relax ds deg newly = Some (deg', newly @ newly')
     \<and> (\<forall>n. deg' n = map_option (\<lambda>d. d - count_list ds n) (deg n))
     \<and> distinct newly'
     \<and> set newly' = {n. 0 < count_list ds n \<and> deg n = Some (count_list ds n)}"
  using assms
proof (induction ds arbitrary: deg newly)
  case Nil
  then show ?case by (auto simp: option.map_ident)
next
  case (Cons d ds)
  from Cons.prems[of d] obtain k where k: "deg d = Some (Suc k)"
    by (cases "deg d"; cases "the (deg d)") auto
  let ?deg = "deg(d \<mapsto> k)"
  have "count_list ds n \<le> (case ?deg n of None \<Rightarrow> 0 | Some d \<Rightarrow> d)" for n
    using Cons.prems[of n] k by (auto split: if_splits)
  note IH = Cons.IH[OF this, where newly = "if k = 0 then newly @ [d] else newly"]
  obtain deg' newly' where r: "relax ds ?deg (if k = 0 then newly @ [d] else newly)
        = Some (deg', (if k = 0 then newly @ [d] else newly) @ newly')"
    and deg': "\<And>n. deg' n = map_option (\<lambda>x. x - count_list ds n) (?deg n)"
    and dis: "distinct newly'"
    and newly': "set newly' = {n. 0 < count_list ds n \<and> ?deg n = Some (count_list ds n)}"
    using IH by blast
  have ck: "count_list ds d \<le> k" using Cons.prems[of d] k by simp
  show ?case
  proof (cases "k = 0")
    case True
    with ck have c0: "count_list ds d = 0" by simp
    with r True have "relax (d # ds) deg newly = Some (deg', newly @ (d # newly'))"
      using k by simp
    moreover have "n \<in> set (d # newly') \<longleftrightarrow>
        0 < count_list (d # ds) n \<and> deg n = Some (count_list (d # ds) n)" for n
      using k True c0 by (cases "n = d") (simp_all add: newly')
    moreover have "distinct (d # newly')" using dis newly' c0 by auto
    ultimately show ?thesis
      using deg' k by (intro exI[of _ deg'] exI[of _ "d # newly'"]) (simp add: set_eq_iff fun_eq_iff)
  next
    case False
    with r have "relax (d # ds) deg newly = Some (deg', newly @ newly')"
      using k by simp
    moreover have "n \<in> set newly' \<longleftrightarrow>
        0 < count_list (d # ds) n \<and> deg n = Some (count_list (d # ds) n)" for n
      using k False by (cases "n = d") (auto simp add: newly')
    ultimately show ?thesis
      using deg' k dis by (intro exI[of _ deg'] exI[of _ newly']) (simp add: set_eq_iff fun_eq_iff)
  qed
qed

text \<open>An order is topological when every node comes after all its predecessors.\<close>

fun topo_from :: "'n edges \<Rightarrow> 'n set \<Rightarrow> 'n list \<Rightarrow> bool" where
  "topo_from es seen [] = True"
| "topo_from es seen (n # ns) = (preds es n \<subseteq> seen \<and> topo_from es (insert n seen) ns)"

lemma topo_from_snoc:
  "topo_from es seen (ns @ [n]) \<longleftrightarrow> topo_from es seen ns \<and> preds es n \<subseteq> seen \<union> set ns"
  by (induction ns arbitrary: seen) auto

lemma topo_from_split:
  "topo_from es seen (xs @ n # ys) \<Longrightarrow> preds es n \<subseteq> seen \<union> set xs"
  by (induction xs arbitrary: seen) auto

definition kahn_inv :: "'n edges \<Rightarrow> 'n list \<Rightarrow> ('n \<rightharpoonup> nat) \<Rightarrow> 'n list \<Rightarrow> bool" where
  "kahn_inv es queue deg res \<longleftrightarrow>
     distinct (res @ queue) \<and> set (res @ queue) \<subseteq> nodes es
     \<and> deg = (\<lambda>n. if n \<in> nodes es then Some (open_in es res n) else None)
     \<and> (\<forall>n\<in>nodes es. open_in es res n = 0 \<longleftrightarrow> n \<in> set (res @ queue))
     \<and> topo_from es {} res"

lemma kahn_invD:
  assumes "kahn_inv es queue deg res"
  shows "distinct (res @ queue)" and "set (res @ queue) \<subseteq> nodes es"
    and "deg = (\<lambda>n. if n \<in> nodes es then Some (open_in es res n) else None)"
    and "\<And>n. n \<in> nodes es \<Longrightarrow> open_in es res n = 0 \<longleftrightarrow> n \<in> set (res @ queue)"
    and "topo_from es {} res"
  using assms by (auto simp: kahn_inv_def)

lemma kahn_inv_init:
  assumes "hash_order it"
  shows "kahn_inv es (sort (filter (\<lambda>n. in_degree es n = Some 0) (it (node_keys es))))
           (in_degree es) []"
  using hash_orderD[OF assms distinct_node_keys]
  by (auto simp: kahn_inv_def in_degree_eq open_in_Nil fun_eq_iff)

text \<open>Emitting the head of the queue: its out-edges close.\<close>

lemma kahn_inv_step:
  assumes inv: "kahn_inv es (n # q) deg res"
    and deg': "\<And>m. deg' m = map_option (\<lambda>d. d - count_list (map snd (filter (\<lambda>e. fst e = n) es)) m) (deg m)"
    and newly: "distinct newly" "set newly = {m. 0 < count_list (map snd (filter (\<lambda>e. fst e = n) es)) m
          \<and> deg m = Some (count_list (map snd (filter (\<lambda>e. fst e = n) es)) m)}"
  shows "kahn_inv es (q @ newly) deg' (res @ [n])"
proof -
  let ?c = "count_list (map snd (filter (\<lambda>e. fst e = n) es))"
  note I = kahn_invD[OF inv]
  have n_new: "n \<notin> set res" using I(1) by auto
  note op = open_in_snoc[OF n_new, of es]
  have deg'_eq: "deg' = (\<lambda>m. if m \<in> nodes es then Some (open_in es (res @ [n]) m) else None)"
    using deg' op by (simp add: I(3) fun_eq_iff)
  have new_iff: "m \<in> set newly \<longleftrightarrow> m \<in> nodes es \<and> 0 < ?c m \<and> open_in es (res @ [n]) m = 0" for m
    using op[of m] by (auto simp: newly(2) I(3) split: if_splits)
  have zero_iff: "open_in es (res @ [n]) m = 0 \<longleftrightarrow> m \<in> set ((res @ [n]) @ q @ newly)"
    if "m \<in> nodes es" for m
    using I(4)[OF that] op[of m] new_iff[of m] that by auto
  have "m \<notin> set (res @ n # q)" if "m \<in> set newly" for m
    using that new_iff[of m] I(4)[of m] op[of m] by auto
  then have "distinct ((res @ [n]) @ q @ newly)"
    using I(1) newly(1) by auto
  moreover have "topo_from es {} (res @ [n])"
    using I(4)[of n] I(2,5) by (simp add: topo_from_snoc open_in_0_iff)
  ultimately show ?thesis
    unfolding kahn_inv_def using I(2) new_iff zero_iff deg'_eq by auto
qed

text \<open>The loop always ends without a counter underflow, and every node left has open in-edges.\<close>

lemma kahn_total:
  assumes "kahn_inv es q deg res"
  shows "\<exists>res' deg'. kahn (dependents es) q deg res = Some (res', deg') \<and> kahn_inv es [] deg' res'"
  using assms
proof (induction "card (nodes es) - length res" arbitrary: q deg res rule: less_induct)
  case less
  show ?case
  proof (cases q)
    case Nil
    with less.prems show ?thesis by (simp add: kahn.simps)
  next
    case (Cons n rest)
    note I = kahn_invD[OF less.prems[unfolded Cons]]
    let ?ds = "map snd (filter (\<lambda>e. fst e = n) es)"
    have "card (set (res @ n # rest)) \<le> card (nodes es)"
      by (rule card_mono) (use I(2) in auto)
    then have "length (res @ n # rest) \<le> card (nodes es)"
      using I(1) by (simp only: distinct_card)
    then have dec: "card (nodes es) - length (res @ [n]) < card (nodes es) - length res" by simp
    have n_new: "n \<notin> set res" using I(1) by auto
    have "count_list ?ds m \<le> (case deg m of None \<Rightarrow> 0 | Some d \<Rightarrow> d)" for m
      using open_in_snoc[OF n_new, of es m] edge_in_nodes[of n m es]
      by (auto simp: I(3) count_list_0_iff)
    from relax_correct[OF this, of "[]"] obtain deg' newly where
      r: "relax ?ds deg [] = Some (deg', newly)"
      and nd: "\<And>m. deg' m = map_option (\<lambda>d. d - count_list ?ds m) (deg m)" "distinct newly"
        "set newly = {m. 0 < count_list ?ds m \<and> deg m = Some (count_list ?ds m)}"
      by auto
    have inv': "kahn_inv es (rest @ sort newly) deg' (res @ [n])"
      by (rule kahn_inv_step[OF less.prems[unfolded Cons]]) (simp_all add: nd)
    note IH = less.hyps[OF dec inv']
    show ?thesis
    proof (cases "n \<in> fst ` set es")
      case True
      then have "kahn (dependents es) q deg res
          = kahn (dependents es) (rest @ sort newly) deg' (res @ [n])"
        by (subst kahn.simps) (simp add: Cons dependents_eq r)
      with IH show ?thesis by simp
    next
      case False
      then have "filter (\<lambda>e. fst e = n) es = []" by (rule filter_key_Nil)
      with r have "deg' = deg" "newly = []" by auto
      with False have "kahn (dependents es) q deg res
          = kahn (dependents es) (rest @ sort newly) deg' (res @ [n])"
        by (subst kahn.simps) (simp add: Cons dependents_eq)
      with IH show ?thesis by simp
    qed
  qed
qed

text \<open>A completed run covers all nodes exactly when the graph is acyclic.\<close>

lemma topo_from_acyclic:
  assumes "topo_from es {} ord" and "nodes es \<subseteq> set ord"
  shows "acyclic (set es)"
proof -
  define pos where "pos n = length (takeWhile (\<lambda>x. x \<noteq> n) ord)" for n
  have step: "pos a < pos b" if e: "(a, b) \<in> set es" for a b
  proof -
    have "b \<in> set ord" using edge_in_nodes[OF e] assms(2) by auto
    then obtain xs ys where b: "ord = xs @ b # ys" "b \<notin> set xs"
      by (metis split_list_first)
    then have pb: "pos b = length xs" by (auto simp: pos_def takeWhile_append)
    have "a \<in> set xs" using topo_from_split[of es "{}" xs b ys] assms(1) b e by (auto simp: preds_def)
    then obtain us vs where "xs = us @ a # vs" "a \<notin> set us"
      by (metis split_list_first)
    then have "pos a = length us" "length us < length xs"
      using b by (auto simp: pos_def takeWhile_append)
    with pb show ?thesis by simp
  qed
  have "pos a < pos b" if "(a, b) \<in> (set es)\<^sup>+" for a b
    using that by induction (auto dest: step)
  then show ?thesis by (force simp: acyclic_def)
qed

lemma kahn_inv_done:
  assumes inv: "kahn_inv es [] deg res"
  shows "length res = card (nodes es) \<longleftrightarrow> acyclic (set es)"
proof
  note I = kahn_invD[OF inv]
  assume "length res = card (nodes es)"
  then have "card (set res) = card (nodes es)" using I(1) by (simp add: distinct_card)
  then have "set res = nodes es" using I(2) by (simp add: card_subset_eq)
  with I(5) show "acyclic (set es)" by (intro topo_from_acyclic) auto
next
  note I = kahn_invD[OF inv]
  assume ac: "acyclic (set es)"
  have "nodes es \<subseteq> set res"
  proof
    fix x assume x: "x \<in> nodes es"
    show "x \<in> set res"
    proof (rule ccontr)
      assume "x \<notin> set res"
      with x have "x \<in> nodes es - set res" by simp
      from acyclic_minimal[OF _ ac this] obtain m
        where m: "m \<in> nodes es - set res" and min: "\<And>y. (y, m) \<in> set es \<Longrightarrow> y \<notin> nodes es - set res"
        by auto
      have "preds es m \<subseteq> set res" using min edge_in_nodes by (fastforce simp: preds_def)
      with m I(4)[of m] show False by (simp add: open_in_0_iff)
    qed
  qed
  with I(2) have "set res = nodes es" by auto
  with I(1) show "length res = card (nodes es)" by (metis append_Nil2 distinct_card)
qed

section \<open>Topological sort\<close>

lemma toposort_run:
  assumes "hash_order it"
  obtains res deg where
    "kahn (dependents es) (sort (filter (\<lambda>n. in_degree es n = Some 0) (it (node_keys es))))
       (in_degree es) [] = Some (res, deg)"
    and "kahn_inv es [] deg res"
  using kahn_total[OF kahn_inv_init[OF assms]] by blast

lemma toposort_acyclic:
  assumes "hash_order it" and "acyclic (set es)"
  obtains ord where "toposort it es = Some (Ok ord)" and "distinct ord"
    and "set ord = nodes es" and "topo_from es {} ord"
proof -
  from toposort_run[OF assms(1)] obtain res deg where
    k: "kahn (dependents es) (sort (filter (\<lambda>n. in_degree es n = Some 0) (it (node_keys es))))
       (in_degree es) [] = Some (res, deg)" and inv: "kahn_inv es [] deg res" .
  note I = kahn_invD[OF inv]
  have len: "length res = card (nodes es)" using kahn_inv_done[OF inv] assms(2) by simp
  have "set res = nodes es"
    by (rule card_subset_eq) (use I(1,2) len in \<open>auto simp: distinct_card\<close>)
  moreover have "toposort it es = Some (Ok res)"
    using len by (simp add: toposort_def Let_def k length_node_keys)
  ultimately show thesis using that I(1,5) by simp
qed

lemma toposort_cyclic:
  assumes it: "hash_order it" and cyc: "\<not> acyclic (set es)"
  obtains n S where "toposort it es = Some (Err (CycleError n))" and "n \<in> S" and "S \<subseteq> nodes es"
    and "\<And>m. m \<in> S \<Longrightarrow> \<exists>y\<in>S. (y, m) \<in> set es"
proof -
  from toposort_run[OF it] obtain res deg where
    k: "kahn (dependents es) (sort (filter (\<lambda>n. in_degree es n = Some 0) (it (node_keys es))))
       (in_degree es) [] = Some (res, deg)" and inv: "kahn_inv es [] deg res" .
  note I = kahn_invD[OF inv]
  note keys = hash_orderD[OF it distinct_node_keys]
  let ?S = "nodes es - set res"
  have len: "length res \<noteq> card (nodes es)" using kahn_inv_done[OF inv] cyc by simp
  then have "set res \<noteq> nodes es" using I(1) by (metis append_Nil2 distinct_card)
  then obtain x where x: "x \<in> ?S" using I(2) by auto
  let ?P = "\<lambda>n. case deg n of None \<Rightarrow> False | Some d \<Rightarrow> d > 0"
  have P_iff: "?P m \<longleftrightarrow> m \<in> ?S" for m
    using I(2) I(4)[of m] by (auto simp: I(3))
  then obtain n where n: "find ?P (it (node_keys es)) = Some n"
    using x keys(2) by (cases "find ?P (it (node_keys es))") (auto simp: find_None_iff)
  have "toposort it es = Some (Err (CycleError n))"
    using len n by (simp add: toposort_def Let_def k length_node_keys)
  moreover have "n \<in> ?S" using find_SomeE[OF n] P_iff by blast
  moreover have "\<exists>y\<in>?S. (y, m) \<in> set es" if "m \<in> ?S" for m
  proof -
    from that I(4)[of m] have "\<not> preds es m \<subseteq> set res" by (simp add: open_in_0_iff)
    then show ?thesis using preds_subset_nodes[of es m] by (auto simp: preds_def)
  qed
  ultimately show thesis using that[of n ?S] by blast
qed

lemma backward_closed_cycle:
  assumes fin: "finite (set es)" and n: "n \<in> S"
    and bwd: "\<And>m. m \<in> S \<Longrightarrow> \<exists>y\<in>S. (y, m) \<in> set es"
  shows "\<exists>c. (c, c) \<in> (set es)\<^sup>+ \<and> (c, n) \<in> (set es)\<^sup>*"
proof (rule ccontr)
  assume none: "\<not> ?thesis"
  let ?T = "{m \<in> S. (m, n) \<in> (set es)\<^sup>*}"
  let ?R = "set es \<inter> ?T \<times> ?T"
  have "acyclic ?R"
  proof (rule acyclicI, rule allI, rule notI)
    fix c assume c: "(c, c) \<in> ?R\<^sup>+"
    then have "(c, c) \<in> (set es)\<^sup>+" by (rule trancl_mono) simp
    moreover have "c \<in> ?T" using tranclD[OF c] by blast
    ultimately show False using none by auto
  qed
  moreover have "finite ?R" using fin by simp
  moreover have "n \<in> ?T" using n by simp
  ultimately obtain m where m: "m \<in> ?T" and min: "\<And>y. (y, m) \<in> ?R \<Longrightarrow> y \<notin> ?T"
    using acyclic_minimal[of ?R n ?T] by blast
  from bwd m obtain y where "y \<in> S" "(y, m) \<in> set es" by auto
  with m min[of y] show False by (auto intro: converse_rtrancl_into_rtrancl)
qed

section \<open>The sorting contract\<close>

text \<open>
  What the crate promises to the code that sorts its own dependency lists: an order for an
  acyclic edge list, an error for a cyclic one, under any hash order.
\<close>

locale topo_sorter =
  fixes sorter :: "('n list \<Rightarrow> 'n list) \<Rightarrow> 'n edges \<Rightarrow> ('e + 'n list) option"
  assumes sorter_acyclic:
    "hash_order it \<Longrightarrow> acyclic (set es) \<Longrightarrow>
       \<exists>ord. sorter it es = Some (Ok ord) \<and> distinct ord \<and> set ord = nodes es \<and> topo_from es {} ord"
    and sorter_cyclic:
    "hash_order it \<Longrightarrow> \<not> acyclic (set es) \<Longrightarrow> \<exists>e. sorter it es = Some (Err e)"
begin

lemma sorter_total: "hash_order it \<Longrightarrow> sorter it es \<noteq> None"
  using sorter_acyclic sorter_cyclic by (cases "acyclic (set es)") fastforce+

lemma sorter_OkD:
  assumes "hash_order it" and "sorter it es = Some (Ok ord)"
  shows "acyclic (set es)" and "distinct ord" and "set ord = nodes es" and "topo_from es {} ord"
proof -
  show "acyclic (set es)" using assms sorter_cyclic by fastforce
  from sorter_acyclic[OF assms(1) this] assms(2)
  show "distinct ord" "set ord = nodes es" "topo_from es {} ord" by auto
qed

lemma sorter_ErrD:
  assumes "hash_order it" and "sorter it es = Some (Err e)"
  shows "\<not> acyclic (set es)"
  using assms sorter_acyclic by fastforce

text \<open>Nodes without edges may be appended to the order.\<close>

lemma sorter_append_isolated:
  assumes "hash_order it" and "sorter it es = Some (Ok ord)"
    and "distinct lone" and "set lone \<inter> nodes es = {}"
  shows "distinct (ord @ lone) \<and> topo_from es {} (ord @ lone)"
proof -
  have "topo_from es seen lone" for seen
    using assms(4)
  proof (induction lone arbitrary: seen)
    case (Cons n ns)
    then have "preds es n = {}" using edge_in_nodes by (fastforce simp: preds_def)
    with Cons show ?case by auto
  qed simp
  moreover have "topo_from es seen (xs @ ys) \<longleftrightarrow> topo_from es seen xs \<and> topo_from es (seen \<union> set xs) ys"
    for seen xs ys
    by (induction xs arbitrary: seen) auto
  ultimately show ?thesis using sorter_OkD[OF assms(1,2)] assms(3,4) by auto
qed

end

interpretation graph_sort: topo_sorter toposort
proof
  fix it :: "'n::linorder list \<Rightarrow> 'n list" and es :: "'n edges"
  assume it: "hash_order it"
  show "acyclic (set es) \<Longrightarrow> \<exists>ord. toposort it es = Some (Ok ord) \<and> distinct ord \<and>
      set ord = nodes es \<and> topo_from es {} ord"
    using toposort_acyclic[OF it] by metis
  show "\<not> acyclic (set es) \<Longrightarrow> \<exists>e. toposort it es = Some (Err e)"
    using toposort_cyclic[OF it] by metis
qed

text \<open>
  C1. \<open>toposort\<close> always returns (no counter underflow, no endless loop, the fallback branch
  is never reached), and it returns an order exactly when the graph has no cycle.
\<close>

theorem toposort_decides_acyclicity:
  assumes "hash_order it"
  shows "if acyclic (set es) then \<exists>ord. toposort it es = Some (Ok ord)
         else \<exists>n. toposort it es = Some (Err (CycleError n))"
  using graph_sort.sorter_acyclic[OF assms] toposort_cyclic[OF assms] by (metis (full_types))

theorem toposort_decides_acyclicity_witness:
  "(\<exists>ord. toposort rev [(1::nat, 2), (2, 3)] = Some (Ok ord))
   \<and> (\<exists>n. toposort rev [(1::nat, 2), (2, 1)] = Some (Err (CycleError n)))"
proof -
  have "acyclic (set [(1::nat, 2), (2, 3)])"
    by (rule topo_from_acyclic[of _ "[1, 2, 3]"]) (auto simp: preds_def nodes_def)
  moreover have "(1::nat, 1) \<in> (set [(1, 2), (2, 1)])\<^sup>+"
    by (rule trancl_into_trancl[OF r_into_trancl, of _ 2]) auto
  then have "\<not> acyclic (set [(1::nat, 2), (2, 1)])" by (auto simp: acyclic_def)
  ultimately show ?thesis
    using toposort_decides_acyclicity[of rev "[(1::nat, 2), (2, 3)]"]
      toposort_decides_acyclicity[of rev "[(1::nat, 2), (2, 1)]"] by simp
qed

text \<open>
  C2. The order lists every node exactly once, and a dependency always stands before the
  node that depends on it.
\<close>

theorem toposort_order_correct:
  assumes "hash_order it" and "toposort it es = Some (Ok ord)"
  shows "distinct ord \<and> set ord = nodes es
    \<and> (\<forall>a b. (a, b) \<in> set es \<longrightarrow> (\<exists>xs ys zs. ord = xs @ a # ys @ b # zs))"
proof -
  note ord = graph_sort.sorter_OkD(2-4)[OF assms]
  have "\<exists>xs ys zs. ord = xs @ a # ys @ b # zs" if e: "(a, b) \<in> set es" for a b
  proof -
    from e ord(2) edge_in_nodes obtain us zs where b: "ord = us @ b # zs"
      by (metis split_list)
    with topo_from_split[of es "{}" us b zs] ord(3) e have "a \<in> set us"
      by (auto simp: preds_def)
    then show ?thesis using b by (metis append.assoc append_Cons split_list)
  qed
  with ord show ?thesis by blast
qed

theorem toposort_order_correct_witness:
  "toposort rev [(3::nat, 1), (1, 2)] = Some (Ok [3, 1, 2]) \<and> distinct [3::nat, 1, 2]
   \<and> set [3, 1, 2] = nodes [(3::nat, 1), (1, 2)]"
proof -
  have "toposort rev [(3::nat, 1), (1, 2)] = Some (Ok [3, 1, 2])"
    by (simp add: toposort_def node_keys_def in_degree_def dependents_def kahn.simps)
  with toposort_order_correct[OF hash_order_rev this] show ?thesis by blast
qed

text \<open>
  The order does not depend on the hash order: two runs on the same acyclic edge list
  return the same list.
\<close>

theorem toposort_deterministic:
  assumes "hash_order it" and "hash_order it'" and "acyclic (set es)"
  shows "toposort it es = toposort it' es"
proof -
  have "sort (filter P (it (node_keys es))) = sort (filter P (it' (node_keys es)))" for P
    by (rule sort_eq_of_set_eq)
      (use hash_orderD[OF assms(1) distinct_node_keys] hash_orderD[OF assms(2) distinct_node_keys]
        in auto)
  moreover obtain ord where "toposort it es = Some (Ok ord)"
    using toposort_acyclic[OF assms(1,3)] .
  moreover obtain ord' where "toposort it' es = Some (Ok ord')"
    using toposort_acyclic[OF assms(2,3)] .
  ultimately show ?thesis
    by (auto simp: toposort_def Let_def bind_eq_Some_conv split: if_splits option.splits list.splits)
qed

theorem toposort_deterministic_witness:
  "toposort rev [(3::nat, 1), (3, 2)] = toposort (\<lambda>xs. xs) [(3, 1), (3, 2)]"
proof (rule toposort_deterministic)
  show "acyclic (set [(3::nat, 1), (3, 2)])"
    by (rule topo_from_acyclic[of _ "[3, 1, 2]"]) (auto simp: preds_def nodes_def)
qed simp_all

text \<open>
  The node a cycle error names lies on a cycle or is reachable from one.
\<close>

theorem cycle_error_node_below_cycle:
  assumes "hash_order it" and "toposort it es = Some (Err (CycleError n))"
  shows "n \<in> nodes es \<and> (\<exists>c. (c, c) \<in> (set es)\<^sup>+ \<and> (c, n) \<in> (set es)\<^sup>*)"
proof -
  have "\<not> acyclic (set es)"
    using toposort_acyclic[OF assms(1), of es] assms(2) by fastforce
  from toposort_cyclic[OF assms(1) this] obtain n' S where
    "toposort it es = Some (Err (CycleError n'))" and S: "n' \<in> S" "S \<subseteq> nodes es"
      "\<And>m. m \<in> S \<Longrightarrow> \<exists>y\<in>S. (y, m) \<in> set es"
    by metis
  with assms(2) have "n' = n" by simp
  with S(1,2) backward_closed_cycle[OF _ S(1,3)] show ?thesis by auto
qed

theorem cycle_error_node_below_cycle_witness:
  "toposort rev [(1::nat, 1)] = Some (Err (CycleError 1)) \<and> 1 \<in> nodes [(1::nat, 1)]"
proof -
  have "toposort rev [(1::nat, 1)] = Some (Err (CycleError 1))"
    by (simp add: toposort_def node_keys_def in_degree_def dependents_def kahn.simps)
  with cycle_error_node_below_cycle[OF hash_order_rev this] show ?thesis by blast
qed

text \<open>
  The documentation says the error names a node of the cycle.  It may name a node that
  is on no cycle: with the edges \<open>1 \<rightarrow> 2\<close>, \<open>2 \<rightarrow> 1\<close>, \<open>2 \<rightarrow> 3\<close> and a hash order that
  visits \<open>3\<close> first, the error names \<open>3\<close>.
\<close>

theorem cycle_error_may_name_node_off_cycle:
  "\<exists>it es n. hash_order it \<and> toposort it es = Some (Err (CycleError (n::nat)))
     \<and> (n, n) \<notin> (set es)\<^sup>+"
proof -
  let ?es = "[(1::nat, 2), (2, 1), (2, 3)]"
  have "toposort rev ?es = Some (Err (CycleError 3))"
    by (simp add: toposort_def node_keys_def in_degree_def dependents_def kahn.simps)
  moreover have "(3, y) \<notin> set ?es" for y by simp
  then have "(3, 3) \<notin> (set ?es)\<^sup>+" by (meson tranclD)
  ultimately show ?thesis using hash_order_rev by blast
qed

section \<open>The ready frontier\<close>

lemma set_ready_frontier:
  assumes "hash_order it"
  shows "set (ready_frontier it es done) = {n \<in> nodes es. n \<notin> done \<and> preds es n \<subseteq> done}"
  using hash_orderD[OF assms distinct_node_keys]
  by (auto simp: ready_frontier_def deps_all_in_iff)

text \<open>
  The frontier is the sorted duplicate-free list of the uncompleted nodes all of whose
  dependencies are completed, whatever the hash order.
\<close>

theorem ready_frontier_correct:
  assumes "hash_order it"
  shows "ready_frontier it es done
    = sorted_list_of_set {n \<in> nodes es. n \<notin> done \<and> preds es n \<subseteq> done}"
proof -
  have "distinct (ready_frontier it es done)" "sorted (ready_frontier it es done)"
    using hash_orderD[OF assms distinct_node_keys] by (auto simp: ready_frontier_def)
  then show ?thesis
    by (metis set_ready_frontier[OF assms] sorted_list_of_set.idem_if_sorted_distinct)
qed

theorem ready_frontier_correct_witness:
  "ready_frontier rev [(3::nat, 1), (2, 1), (1, 4)] {3, 2} = [1]
   \<and> sorted_list_of_set {n \<in> nodes [(3::nat, 1), (2, 1), (1, 4)]. n \<notin> {3, 2} \<and> preds [(3, 1), (2, 1), (1, 4)] n \<subseteq> {3, 2}} = [1]"
proof -
  have "ready_frontier rev [(3::nat, 1), (2, 1), (1, 4)] {3, 2} = [1]"
    by (simp add: ready_frontier_def node_keys_def deps_all_in_def deps_of_def)
  with ready_frontier_correct[OF hash_order_rev, of "[(3::nat, 1), (2, 1), (1, 4)]" "{3, 2}"]
  show ?thesis by metis
qed

end
