(* ===== verification/Plan.thy ===== *)
theory Plan
  imports Graph
begin

text \<open>
  The execution plan of \<open>crates/cosmon-graph/src/plan.rs\<close>: a pure reducer that tracks which
  nodes of a dependency graph are ready, running, done or skipped.  The resident runtime
  drives it by \<open>mark_running\<close>, \<open>mark_ready\<close> and \<open>mark_done\<close>.
\<close>

section \<open>Definitions\<close>

record 'n plan =
  plan_edges :: "('n \<times> 'n) list"
  plan_ready :: "'n set"
  plan_running :: "'n set"
  plan_done :: "'n set"
  plan_skipped :: "'n set"

definition new_with_roots ::
  "('n::linorder list \<Rightarrow> 'n list) \<Rightarrow> 'n edges \<Rightarrow> 'n set \<Rightarrow> 'n set \<Rightarrow> ('n cycle_error + 'n plan) option"
where
  "new_with_roots it es skip roots =
     Option.bind (toposort it es) (\<lambda>r. Some (and_then r (\<lambda>_.
       let universe = roots \<union> set (edge_nodes es);
           rdy = {node \<in> universe. node \<notin> skip \<and> deps_all_in es skip node}
       in Ok \<lparr>plan_edges = es, plan_ready = rdy, plan_running = {}, plan_done = {},
              plan_skipped = skip\<rparr>)))"

definition new_plan ::
  "('n::linorder list \<Rightarrow> 'n list) \<Rightarrow> 'n edges \<Rightarrow> 'n set \<Rightarrow> ('n cycle_error + 'n plan) option"
where
  "new_plan it es skip = new_with_roots it es skip {}"

definition mark_running :: "'n plan \<Rightarrow> 'n \<Rightarrow> 'n plan" where
  "mark_running p i =
     (if i \<in> plan_ready p
      then p\<lparr>plan_ready := plan_ready p - {i}, plan_running := insert i (plan_running p)\<rparr>
      else p)"

definition mark_ready :: "'n plan \<Rightarrow> 'n \<Rightarrow> 'n plan" where
  "mark_ready p i =
     (if i \<in> plan_running p
      then p\<lparr>plan_running := plan_running p - {i}, plan_ready := insert i (plan_ready p)\<rparr>
      else p)"

text \<open>The dependents a completion unlocks, in the order of the \<open>BTreeSet\<close> of candidates.\<close>

definition newly_ready :: "'n::linorder plan \<Rightarrow> 'n \<Rightarrow> 'n list" where
  "newly_ready p i =
     filter (\<lambda>s. \<not> (s \<in> plan_done p \<or> s \<in> plan_running p \<or> s \<in> plan_skipped p \<or> s \<in> plan_ready p)
                \<and> list_all (\<lambda>(d, _). d \<in> plan_done p \<or> d \<in> plan_skipped p)
                    (filter (\<lambda>(_, t). t = s) (plan_edges p)))
       (sort (remdups (map snd (filter (\<lambda>(d, _). d = i) (plan_edges p)))))"

definition mark_done :: "'n::linorder plan \<Rightarrow> 'n \<Rightarrow> 'n list \<times> 'n plan" where
  "mark_done p i =
     (if i \<in> plan_done p \<or> i \<in> plan_skipped p then ([], p)
      else
        let p1 = p\<lparr>plan_running := plan_running p - {i}, plan_ready := plan_ready p - {i},
                   plan_done := insert i (plan_done p)\<rparr>;
            newly = sort (newly_ready p1 i)
        in (newly, p1\<lparr>plan_ready := plan_ready p1 \<union> set newly\<rparr>))"

definition is_drained :: "'n plan \<Rightarrow> bool" where
  "is_drained p \<longleftrightarrow> plan_ready p = {} \<and> plan_running p = {}"

section \<open>The plan as a state machine\<close>

text \<open>The calls the runtime may make, in any order and on any id, known or not.\<close>

inductive plan_step :: "'n::linorder plan \<Rightarrow> 'n plan \<Rightarrow> bool" where
  step_running: "plan_step p (mark_running p i)"
| step_ready: "plan_step p (mark_ready p i)"
| step_done: "plan_step p (snd (mark_done p i))"

text \<open>A fresh plan, whatever order the hasher iterates in.\<close>

definition plan_init :: "'n::linorder edges \<Rightarrow> 'n set \<Rightarrow> 'n set \<Rightarrow> 'n plan \<Rightarrow> bool" where
  "plan_init es skip roots p \<longleftrightarrow>
     (\<exists>it. hash_order it \<and> new_with_roots it es skip roots = Some (Ok p))"

definition satisfied :: "'n plan \<Rightarrow> 'n set" where
  "satisfied p = plan_done p \<union> plan_skipped p"

definition tracked :: "'n plan \<Rightarrow> 'n set" where
  "tracked p = plan_ready p \<union> plan_running p \<union> plan_done p \<union> plan_skipped p"

definition plan_disjoint :: "'n plan \<Rightarrow> bool" where
  "plan_disjoint p \<longleftrightarrow>
     plan_ready p \<inter> plan_running p = {} \<and> plan_ready p \<inter> plan_done p = {}
     \<and> plan_ready p \<inter> plan_skipped p = {} \<and> plan_running p \<inter> plan_done p = {}
     \<and> plan_running p \<inter> plan_skipped p = {} \<and> plan_done p \<inter> plan_skipped p = {}"

definition plan_inv :: "'n edges \<Rightarrow> 'n set \<Rightarrow> 'n set \<Rightarrow> 'n plan \<Rightarrow> bool" where
  "plan_inv es skip roots p \<longleftrightarrow>
     plan_edges p = es \<and> plan_skipped p = skip \<and> acyclic (set es) \<and> plan_disjoint p
     \<and> plan_ready p \<union> plan_running p \<subseteq> roots \<union> nodes es
     \<and> (\<forall>n \<in> plan_ready p \<union> plan_running p. preds es n \<subseteq> satisfied p)
     \<and> (\<forall>n \<in> roots \<union> nodes es. n \<notin> tracked p \<longrightarrow> \<not> preds es n \<subseteq> satisfied p)"

lemmas plan_sets = plan_disjoint_def satisfied_def tracked_def

lemma newly_ready_iff:
  "s \<in> set (newly_ready p i) \<longleftrightarrow>
     (i, s) \<in> set (plan_edges p) \<and> s \<notin> tracked p \<and> preds (plan_edges p) s \<subseteq> satisfied p"
  by (force simp: newly_ready_def plan_sets preds_def list_all_iff)

lemma new_with_roots_iff:
  assumes "hash_order it"
  shows "new_with_roots it es skip roots = Some (Ok p) \<longleftrightarrow>
     acyclic (set es) \<and>
     p = \<lparr>plan_edges = es,
          plan_ready = {n \<in> roots \<union> nodes es. n \<notin> skip \<and> preds es n \<subseteq> skip},
          plan_running = {}, plan_done = {}, plan_skipped = skip\<rparr>"
proof (cases "acyclic (set es)")
  case True
  from toposort_acyclic[OF assms this] obtain ord where "toposort it es = Some (Ok ord)" .
  with True show ?thesis by (auto simp: new_with_roots_def Let_def deps_all_in_iff)
next
  case False
  from toposort_cyclic[OF assms this] obtain n where "toposort it es = Some (Err (CycleError n))"
    by metis
  with False show ?thesis by (simp add: new_with_roots_def)
qed

lemma plan_inv_init:
  "plan_init es skip roots p \<Longrightarrow> plan_inv es skip roots p"
  by (auto simp: plan_init_def new_with_roots_iff plan_inv_def plan_sets)

lemma plan_inv_mark_running [inv_intros]:
  "plan_inv es skip roots p \<Longrightarrow> plan_inv es skip roots (mark_running p i)"
  by (auto simp: mark_running_def plan_inv_def plan_sets)

lemma plan_inv_mark_ready [inv_intros]:
  "plan_inv es skip roots p \<Longrightarrow> plan_inv es skip roots (mark_ready p i)"
  by (auto simp: mark_ready_def plan_inv_def plan_sets)

lemma plan_inv_mark_done [inv_intros]:
  assumes inv: "plan_inv es skip roots p"
  shows "plan_inv es skip roots (snd (mark_done p i))"
proof (cases "i \<in> plan_done p \<or> i \<in> plan_skipped p")
  case True
  with inv show ?thesis by (simp add: mark_done_def)
next
  case False
  define p1 where "p1 = p\<lparr>plan_running := plan_running p - {i}, plan_ready := plan_ready p - {i},
                   plan_done := insert i (plan_done p)\<rparr>"
  define q where "q = snd (mark_done p i)"
  note new = newly_ready_iff[of _ p1 i]
  have q: "q = p1\<lparr>plan_ready := plan_ready p1 \<union> set (newly_ready p1 i)\<rparr>"
    using False by (simp add: q_def mark_done_def p1_def Let_def)
  have same: "plan_edges q = es" "plan_skipped q = skip" "acyclic (set es)"
    using inv by (auto simp: q p1_def plan_inv_def)
  have sat: "satisfied q = insert i (satisfied p)" by (auto simp: q p1_def plan_sets)
  have es1: "plan_edges p1 = es" "satisfied p1 = insert i (satisfied p)"
    using inv by (auto simp: p1_def plan_inv_def plan_sets)
  have rr: "plan_ready q = (plan_ready p - {i}) \<union> set (newly_ready p1 i)"
    "plan_running q = plan_running p - {i}"
    by (simp_all add: q p1_def)
  have old: "\<And>n. n \<in> plan_ready p \<union> plan_running p \<Longrightarrow> preds es n \<subseteq> satisfied p"
    using inv by (auto simp: plan_inv_def)
  have disj: "plan_disjoint q"
    using inv False new by (auto simp: q p1_def plan_inv_def plan_sets)
  have univ: "plan_ready q \<union> plan_running q \<subseteq> roots \<union> nodes es"
    using inv new es1 edge_in_nodes[of i _ es] by (fastforce simp: q p1_def plan_inv_def)
  have ok: "preds es n \<subseteq> satisfied q" if "n \<in> plan_ready q \<union> plan_running q" for n
    using that old[of n] new[of n] unfolding rr sat es1 by blast
  have complete: "\<not> preds es n \<subseteq> satisfied q"
    if n: "n \<in> roots \<union> nodes es" "n \<notin> tracked q" for n
  proof
    assume sub: "preds es n \<subseteq> satisfied q"
    have nt: "n \<notin> tracked p" "n \<notin> tracked p1" "n \<notin> set (newly_ready p1 i)"
      using n(2) by (auto simp: q p1_def plan_sets)
    with inv n(1) have "\<not> preds es n \<subseteq> satisfied p" by (auto simp: plan_inv_def)
    with sub sat have "i \<in> preds es n" by auto
    with new[of n] nt es1 sub sat show False by (auto simp: preds_def)
  qed
  from same disj univ ok complete show ?thesis by (auto simp: plan_inv_def q_def)
qed

lemma plan_inv_step [inv_intros]:
  "plan_inv es skip roots p \<Longrightarrow> plan_step p q \<Longrightarrow> plan_inv es skip roots q"
  by (auto elim!: plan_step.cases intro: inv_intros)

interpretation pl: invariant_system "plan_init es skip roots" plan_step "plan_inv es skip roots"
  for es :: "'n::linorder edges" and skip roots
  by unfold_locales (auto intro: plan_inv_init inv_intros)

section \<open>Properties\<close>

lemma plan_inv_in_flight:
  assumes "plan_inv es skip roots p" and "n \<in> roots \<union> nodes es"
  shows "n \<in> plan_ready p \<union> plan_running p \<longleftrightarrow> n \<notin> satisfied p \<and> preds es n \<subseteq> satisfied p"
  using assms by (auto simp: plan_inv_def plan_sets)

lemma plan_inv_drained:
  assumes inv: "plan_inv es skip roots p" and dr: "is_drained p"
  shows "roots \<union> nodes es \<subseteq> satisfied p"
proof (rule ccontr)
  assume "\<not> ?thesis"
  then obtain x where x: "x \<in> (roots \<union> nodes es) - satisfied p" by auto
  have ac: "acyclic (set es)" using inv by (simp add: plan_inv_def)
  from acyclic_minimal[OF _ ac x] obtain m where
    m: "m \<in> (roots \<union> nodes es) - satisfied p"
    and min: "\<And>y. (y, m) \<in> set es \<Longrightarrow> y \<notin> (roots \<union> nodes es) - satisfied p" by auto
  then have "preds es m \<subseteq> satisfied p" using edge_in_nodes by (fastforce simp: preds_def)
  with plan_inv_in_flight[OF inv, of m] m dr show False by (auto simp: is_drained_def)
qed

text \<open>
  C4. The loop invariant of the reducer: from \<open>new_with_roots\<close> on, after any sequence of
  calls, the four sets are pairwise disjoint, the skip set is unchanged, and a node is in
  flight (ready or running) exactly when it is neither done nor skipped while all its
  dependencies are.
\<close>

theorem plan_loop_invariant:
  assumes "reachable (plan_init es skip roots) plan_step p"
  shows "plan_disjoint p \<and> plan_skipped p = skip
    \<and> (\<forall>n \<in> roots \<union> nodes es. n \<in> plan_ready p \<union> plan_running p \<longleftrightarrow>
          n \<notin> plan_done p \<union> plan_skipped p \<and> preds es n \<subseteq> plan_done p \<union> plan_skipped p)"
proof -
  have inv: "plan_inv es skip roots p" by (rule pl.reachable_inv[OF assms])
  then have "plan_disjoint p" "plan_skipped p = skip" by (auto simp: plan_inv_def)
  with plan_inv_in_flight[OF inv] show ?thesis by (simp add: satisfied_def)
qed

abbreviation chain_plan :: "nat plan" where
  "chain_plan \<equiv> \<lparr>plan_edges = [(1, 2)], plan_ready = {1}, plan_running = {}, plan_done = {},
                 plan_skipped = {}\<rparr>"

lemma chain_plan_acyclic: "acyclic (set [(1::nat, 2)])"
  by (rule topo_from_acyclic[of _ "[1, 2]"]) (auto simp: preds_def nodes_def)

lemma chain_plan_init: "plan_init [(1::nat, 2)] {} {} chain_plan"
proof -
  have "{n \<in> nodes [(1::nat, 2)]. preds [(1, 2)] n = {}} = {1}"
    by (auto simp: nodes_def preds_def)
  then have "new_with_roots rev [(1::nat, 2)] {} {} = Some (Ok chain_plan)"
    using chain_plan_acyclic by (simp add: new_with_roots_iff)
  then show ?thesis unfolding plan_init_def using hash_order_rev by blast
qed

lemma chain_plan_reachable: "reachable (plan_init [(1, 2)] {} {}) plan_step (mark_running chain_plan 1)"
  by (rule reachable.more, rule reachable.start, rule chain_plan_init, rule plan_step.step_running)

theorem plan_loop_invariant_witness:
  "plan_disjoint (mark_running chain_plan 1) \<and> plan_running (mark_running chain_plan 1) = {1}"
  using plan_loop_invariant[OF chain_plan_reachable] by (simp add: mark_running_def)

text \<open>
  The incremental reducer refines the batch function: the nodes in flight are the ready
  frontier recomputed from scratch on the done and skipped nodes.
\<close>

theorem plan_refines_frontier:
  assumes "hash_order it" and "reachable (plan_init es skip {}) plan_step p"
  shows "plan_ready p \<union> plan_running p
    = set (ready_frontier it es (plan_done p \<union> plan_skipped p))"
proof -
  have inv: "plan_inv es skip {} p" by (rule pl.reachable_inv[OF assms(2)])
  then have "plan_ready p \<union> plan_running p \<subseteq> nodes es" by (simp add: plan_inv_def)
  with plan_inv_in_flight[OF inv] show ?thesis
    unfolding set_ready_frontier[OF assms(1)] satisfied_def by blast
qed

theorem plan_refines_frontier_witness:
  "plan_ready (mark_running chain_plan 1) \<union> plan_running (mark_running chain_plan 1)
     = set (ready_frontier rev [(1, 2)] {})"
  using plan_refines_frontier[OF hash_order_rev chain_plan_reachable] by (simp add: mark_running_def)

text \<open>
  No deadlock: a drained plan (nothing ready, nothing running) has every node of the
  graph and every registered root done or skipped.
\<close>

theorem drained_plan_is_complete:
  assumes "reachable (plan_init es skip roots) plan_step p" and "is_drained p"
  shows "roots \<union> nodes es \<subseteq> plan_done p \<union> plan_skipped p"
  using plan_inv_drained[OF pl.reachable_inv[OF assms(1)] assms(2)] by (simp add: satisfied_def)

lemma chain_plan_run:
  "reachable (plan_init [(1, 2)] {} {}) plan_step
     (snd (mark_done (snd (mark_done (mark_running chain_plan 1) 1)) 2))"
  by (rule reachable.more, rule reachable.more, rule chain_plan_reachable)
    (rule plan_step.step_done)+

theorem drained_plan_is_complete_witness:
  "is_drained (snd (mark_done (snd (mark_done (mark_running chain_plan 1) 1)) 2))
   \<and> nodes [(1::nat, 2)] \<subseteq> plan_done (snd (mark_done (snd (mark_done (mark_running chain_plan 1) 1)) 2))"
proof -
  let ?p = "snd (mark_done (snd (mark_done (mark_running chain_plan 1) 1)) 2)"
  have "is_drained ?p" and "plan_skipped ?p = {}"
    by (auto simp: mark_done_def mark_running_def newly_ready_def is_drained_def Let_def)
  with drained_plan_is_complete[OF chain_plan_run this(1)] show ?thesis by simp
qed

text \<open>
  \<open>mark_done\<close> returns exactly the dependents this completion unlocks, sorted and
  without duplicates, adds them to the frontier, and is idempotent.
\<close>

theorem mark_done_correct:
  assumes "i \<notin> plan_done p" and "i \<notin> plan_skipped p" and "mark_done p i = (new, q)"
  shows "new = sorted_list_of_set {s. (i, s) \<in> set (plan_edges p) \<and> s \<noteq> i \<and> s \<notin> tracked p
                 \<and> preds (plan_edges p) s \<subseteq> insert i (plan_done p \<union> plan_skipped p)}
    \<and> plan_ready q = (plan_ready p - {i}) \<union> set new \<and> plan_running q = plan_running p - {i}
    \<and> plan_done q = insert i (plan_done p)
    \<and> mark_done q i = ([], q)"
proof -
  let ?p1 = "p\<lparr>plan_running := plan_running p - {i}, plan_ready := plan_ready p - {i},
                   plan_done := insert i (plan_done p)\<rparr>"
  have new: "new = sort (newly_ready ?p1 i)" and q: "q = ?p1\<lparr>plan_ready := plan_ready ?p1 \<union> set new\<rparr>"
    using assms by (auto simp: mark_done_def Let_def)
  have "sorted new" "distinct new" by (auto simp: new newly_ready_def)
  moreover have "set new = {s. (i, s) \<in> set (plan_edges p) \<and> s \<noteq> i \<and> s \<notin> tracked p
                 \<and> preds (plan_edges p) s \<subseteq> insert i (plan_done p \<union> plan_skipped p)}"
    by (auto simp: new newly_ready_iff plan_sets)
  ultimately have "new = sorted_list_of_set {s. (i, s) \<in> set (plan_edges p) \<and> s \<noteq> i \<and> s \<notin> tracked p
                 \<and> preds (plan_edges p) s \<subseteq> insert i (plan_done p \<union> plan_skipped p)}"
    by (metis sorted_list_of_set.idem_if_sorted_distinct)
  then show ?thesis by (simp add: q mark_done_def)
qed

theorem mark_done_correct_witness:
  "mark_done chain_plan 1 = ([2], chain_plan\<lparr>plan_ready := {2}, plan_done := {1}\<rparr>)
   \<and> mark_done (chain_plan\<lparr>plan_ready := {2}, plan_done := {1}\<rparr>) 1
       = ([], chain_plan\<lparr>plan_ready := {2}, plan_done := {1}\<rparr>)"
proof -
  have m: "mark_done chain_plan 1 = ([2], chain_plan\<lparr>plan_ready := {2}, plan_done := {1}\<rparr>)"
    by (simp add: mark_done_def newly_ready_def del: set_filter set_map)
  show ?thesis using m mark_done_correct[of 1 chain_plan, OF _ _ m] by simp
qed

text \<open>
  A schedule of completions: each id is in flight when it completes, and is either run first
  or completed directly.
\<close>

fun completes :: "'n::linorder plan \<Rightarrow> 'n list \<Rightarrow> bool" where
  "completes p [] = True"
| "completes p (i # is) =
     (i \<in> plan_ready p \<union> plan_running p \<and> completes (snd (mark_done p i)) is)"

definition after_completions :: "'n::linorder plan \<Rightarrow> 'n list \<Rightarrow> 'n plan" where
  "after_completions p is = foldl (\<lambda>q i. snd (mark_done q i)) p is"

lemma after_completions_simps [simp]:
  "after_completions p [] = p"
  "after_completions p (i # is) = after_completions (snd (mark_done p i)) is"
  by (simp_all add: after_completions_def)

lemma completes_count:
  assumes "plan_inv es skip roots p" and "finite roots" and "completes p is"
  shows "plan_inv es skip roots (after_completions p is)
    \<and> card ((roots \<union> nodes es) - satisfied p)
        = length is + card ((roots \<union> nodes es) - satisfied (after_completions p is))"
  using assms
proof (induction "is" arbitrary: p)
  case Nil
  then show ?case by simp
next
  case (Cons i "is")
  let ?q = "snd (mark_done p i)"
  let ?U = "roots \<union> nodes es"
  have i: "i \<in> plan_ready p \<union> plan_running p" using Cons.prems by simp
  then have iU: "i \<in> ?U" "i \<notin> satisfied p"
    using Cons.prems(1) by (auto simp: plan_inv_def plan_sets)
  then have "satisfied ?q = insert i (satisfied p)"
    by (auto simp: mark_done_def Let_def satisfied_def)
  then have "?U - satisfied p = insert i (?U - satisfied ?q)" "i \<notin> ?U - satisfied ?q"
    using iU by auto
  then have "card (?U - satisfied p) = Suc (card (?U - satisfied ?q))"
    using Cons.prems(2) by simp
  with Cons.IH[OF plan_inv_mark_done[OF Cons.prems(1)] Cons.prems(2), of i] Cons.prems(3)
  show ?case by simp
qed

text \<open>
  Termination with exact accounting: however the runtime picks in-flight nodes, a
  schedule of completions is never longer than the number of unfinished nodes, and one that
  drains the plan completes each of them exactly once.
\<close>

theorem completions_bounded:
  assumes "reachable (plan_init es skip roots) plan_step p" and "finite roots"
    and "completes p is"
  shows "length is \<le> card ((roots \<union> nodes es) - (plan_done p \<union> plan_skipped p))
    \<and> (is_drained (after_completions p is) \<longrightarrow>
        length is = card ((roots \<union> nodes es) - (plan_done p \<union> plan_skipped p)))"
proof -
  note c = completes_count[OF pl.reachable_inv[OF assms(1)] assms(2,3)]
  have "is_drained (after_completions p is) \<Longrightarrow>
      (roots \<union> nodes es) - satisfied (after_completions p is) = {}"
    using plan_inv_drained c by blast
  then have "is_drained (after_completions p is) \<Longrightarrow>
      card ((roots \<union> nodes es) - satisfied (after_completions p is)) = 0" by (simp only: card.empty)
  with c show ?thesis by (simp add: satisfied_def)
qed

theorem completions_bounded_witness:
  "completes chain_plan [1, 2] \<and> is_drained (after_completions chain_plan [1, 2])
   \<and> card (nodes [(1::nat, 2)]) = 2"
proof -
  have c: "completes chain_plan [1, 2]" and d: "is_drained (after_completions chain_plan [1, 2])"
    by (auto simp: mark_done_def newly_ready_def is_drained_def Let_def)
  have r: "reachable (plan_init [(1, 2)] {} {}) plan_step chain_plan"
    by (rule reachable.start, rule chain_plan_init)
  from completions_bounded[OF r _ c] d
  have "length [1::nat, 2] = card (nodes [(1::nat, 2)])" by simp
  with c d show ?thesis by simp
qed

end
