(* ===== verification/Scc.thy ===== *)
theory Scc
  imports Prelude
begin

text \<open>
  Strongly connected components of the session-wait graph, \<open>cosmon-graph/src/scc.rs\<close>: interning
  of the vertices, the iterative Tarjan search over an index-keyed adjacency list, and the
  deterministic output.  An array is a function from indices; an index that is not below the
  number of nodes, the \<open>expect\<close> on an unvisited vertex and a loop that does not end are \<open>None\<close>.
  The stacks have their top at the head of the list.
\<close>

section \<open>Model\<close>

definition intern :: "'n \<Rightarrow> 'n list \<Rightarrow> 'n list" where
  "intern x ns = (if x \<in> set ns then ns else ns @ [x])"

definition intern_all :: "'n list \<Rightarrow> ('n \<times> 'n) list \<Rightarrow> 'n list" where
  "intern_all vertices edges =
     fold (\<lambda>(u, v) ns. intern v (intern u ns)) edges (fold intern vertices [])"

definition idx_of :: "'n list \<Rightarrow> 'n \<Rightarrow> nat option" where
  "idx_of ns = map_of (zip ns [0..<length ns])"

text \<open>\<open>adj[idx_of[u]].push(idx_of[v])\<close>; both lookups panic on a missing key.\<close>

fun push_edges :: "('n \<Rightarrow> nat option) \<Rightarrow> ('n \<times> 'n) list \<Rightarrow> nat list list \<Rightarrow> nat list list option" where
  "push_edges ix [] adj = Some adj"
| "push_edges ix ((u, v) # es) adj =
     (case (ix u, ix v) of
        (Some i, Some j) \<Rightarrow>
          if i < length adj then push_edges ix es (adj[i := adj ! i @ [j]]) else None
      | _ \<Rightarrow> None)"

definition build_adjacency :: "'n list \<Rightarrow> ('n \<times> 'n) list \<Rightarrow> ('n list \<times> nat list list) option" where
  "build_adjacency vertices edges =
     (let ns = intern_all vertices edges
      in Option.bind (push_edges (idx_of ns) edges (replicate (length ns) []))
           (\<lambda>adj. Some (ns, map (\<lambda>l. remdups_adj (sort l)) adj)))"

record tarjan =
  t_index :: nat
  indices :: "nat \<Rightarrow> nat option"
  lowlinks :: "nat \<Rightarrow> nat"
  on_stack :: "nat \<Rightarrow> bool"
  t_stack :: "nat list"
  t_sccs :: "nat list list"
  t_work :: "(nat \<times> nat) list"

definition new_tarjan :: tarjan where
  "new_tarjan = \<lparr>t_index = 0, indices = \<lambda>_. None, lowlinks = \<lambda>_. 0, on_stack = \<lambda>_. False,
     t_stack = [], t_sccs = [], t_work = []\<rparr>"

text \<open>Discovery of a vertex: number it, push it and start walking its edges.\<close>

definition discover :: "nat \<Rightarrow> tarjan \<Rightarrow> tarjan" where
  "discover w s =
     s\<lparr>indices := (indices s)(w \<mapsto> t_index s), lowlinks := (lowlinks s)(w := t_index s),
       t_index := t_index s + 1, t_stack := w # t_stack s, on_stack := (on_stack s)(w := True),
       t_work := (w, 0) # t_work s\<rparr>"

text \<open>The loop that pops one component.\<close>

fun pop_component :: "nat \<Rightarrow> nat list \<Rightarrow> (nat \<Rightarrow> bool) \<Rightarrow> nat list \<Rightarrow> nat list \<times> (nat \<Rightarrow> bool) \<times> nat list" where
  "pop_component v [] os component = (component, os, [])"
| "pop_component v (w # st) os component =
     (if w = v then (component @ [w], os(w := False), st)
      else pop_component v st (os(w := False)) (component @ [w]))"

definition fold_parent :: "nat \<Rightarrow> tarjan \<Rightarrow> tarjan" where
  "fold_parent v s =
     (case t_work s of
        [] \<Rightarrow> s
      | (p, _) # _ \<Rightarrow>
          if lowlinks s v < lowlinks s p then s\<lparr>lowlinks := (lowlinks s)(p := lowlinks s v)\<rparr> else s)"

definition finish :: "nat \<Rightarrow> nat \<Rightarrow> (nat \<times> nat) list \<Rightarrow> tarjan \<Rightarrow> tarjan" where
  "finish v v_idx ws s =
     fold_parent v
       ((if lowlinks s v = v_idx
         then (let (component, os, st) = pop_component v (t_stack s) (on_stack s) []
               in s\<lparr>t_stack := st, on_stack := os, t_sccs := t_sccs s @ [component]\<rparr>)
         else s)\<lparr>t_work := ws\<rparr>)"

definition tarjan_step :: "nat list list \<Rightarrow> tarjan \<Rightarrow> tarjan option" where
  "tarjan_step adj s =
     (case t_work s of
        [] \<Rightarrow> None
      | (v, next) # ws \<Rightarrow>
          if \<not> v < length adj then None
          else if next < length (adj ! v) then
            (let w = adj ! v ! next; s1 = s\<lparr>t_work := (v, next + 1) # ws\<rparr>
             in if \<not> w < length adj then None
                else case indices s w of
                       None \<Rightarrow> Some (discover w s1)
                     | Some wi \<Rightarrow>
                         if on_stack s w \<and> wi < lowlinks s v
                         then Some (s1\<lparr>lowlinks := (lowlinks s)(v := wi)\<rparr>) else Some s1)
          else
            (case indices s v of None \<Rightarrow> None | Some v_idx \<Rightarrow> Some (finish v v_idx ws s)))"

partial_function (option) tarjan_loop :: "nat list list \<Rightarrow> tarjan \<Rightarrow> tarjan option" where
  "tarjan_loop adj s =
     (if t_work s = [] then Some s else Option.bind (tarjan_step adj s) (tarjan_loop adj))"

fun search_from :: "nat list list \<Rightarrow> nat list \<Rightarrow> tarjan \<Rightarrow> tarjan option" where
  "search_from adj [] s = Some s"
| "search_from adj (start # rest) s =
     (if indices s start \<noteq> None then search_from adj rest s
      else Option.bind (tarjan_loop adj (discover start (s\<lparr>t_work := []\<rparr>))) (search_from adj rest))"

definition find_sccs :: "nat list list \<Rightarrow> nat list list option" where
  "find_sccs adj = map_option t_sccs (search_from adj [0..<length adj] new_tarjan)"

definition materialise :: "'n::linorder list \<Rightarrow> nat list list \<Rightarrow> 'n list list" where
  "materialise ns sccs = sort_key hd (map (\<lambda>ixs. sort (map (\<lambda>i. ns ! i) ixs)) sccs)"

definition tarjan_scc :: "'n::linorder list \<Rightarrow> ('n \<times> 'n) list \<Rightarrow> 'n list list option" where
  "tarjan_scc vertices edges =
     Option.bind (build_adjacency vertices edges)
       (\<lambda>(ns, adj). map_option (materialise ns) (find_sccs adj))"

definition non_trivial_sccs :: "'n::linorder list \<Rightarrow> ('n \<times> 'n) list \<Rightarrow> 'n list list option" where
  "non_trivial_sccs vertices edges =
     (let self_loops = set (map fst (filter (\<lambda>(u, v). u = v) edges))
      in map_option (filter (\<lambda>component. length component \<ge> 2 \<or> (length component = 1 \<and> component ! 0 \<in> self_loops)))
           (tarjan_scc vertices edges))"

section \<open>The search invariant\<close>

definition edge :: "nat list list \<Rightarrow> (nat \<times> nat) set" where
  "edge adj = {(v, w). v < length adj \<and> w \<in> set (adj ! v)}"

definition adj_ok :: "nat list list \<Rightarrow> bool" where
  "adj_ok adj \<longleftrightarrow> (\<forall>l\<in>set adj. \<forall>w\<in>set l. w < length adj)"

abbreviation num :: "tarjan \<Rightarrow> nat \<Rightarrow> nat" where
  "num s v \<equiv> the (indices s v)"

abbreviation stk :: "tarjan \<Rightarrow> nat set" where
  "stk s \<equiv> set (t_stack s)"

abbreviation frames :: "tarjan \<Rightarrow> nat set" where
  "frames s \<equiv> fst ` set (t_work s)"

definition emitted :: "tarjan \<Rightarrow> nat set" where
  "emitted s = \<Union> (set ` set (t_sccs s))"

text \<open>The edges walked so far, from the vertices that are on the stack.\<close>

definition walked :: "nat list list \<Rightarrow> tarjan \<Rightarrow> (nat \<times> nat) set" where
  "walked adj s = {(x, y). x \<in> stk s \<and> y \<in> set (adj ! x) \<and>
     (\<forall>k. (x, k) \<in> set (t_work s) \<longrightarrow> y \<in> set (take k (adj ! x)))}"

definition nums_ok :: "nat list list \<Rightarrow> tarjan \<Rightarrow> bool" where
  "nums_ok adj s \<longleftrightarrow>
     (\<forall>v i. indices s v = Some i \<longrightarrow> i < t_index s \<and> v < length adj) \<and>
     (\<forall>v w i. indices s v = Some i \<longrightarrow> indices s w = Some i \<longrightarrow> v = w)"

definition stack_ok :: "tarjan \<Rightarrow> bool" where
  "stack_ok s \<longleftrightarrow>
     sorted_wrt (\<lambda>a b. num s b < num s a) (t_stack s) \<and> (\<forall>v. on_stack s v \<longleftrightarrow> v \<in> stk s) \<and>
     dom (indices s) = stk s \<union> emitted s \<and> stk s \<inter> emitted s = {}"

text \<open>Every frame is on the stack and reaches what is above it there; below the lowest frame is nothing.\<close>

definition frames_ok :: "nat list list \<Rightarrow> tarjan \<Rightarrow> bool" where
  "frames_ok adj s \<longleftrightarrow>
     sorted_wrt (\<lambda>a b. num s b < num s a) (map fst (t_work s)) \<and> frames s \<subseteq> stk s \<and>
     (\<forall>v\<in>frames s. \<forall>u\<in>stk s. num s v \<le> num s u \<longrightarrow> (v, u) \<in> (edge adj)\<^sup>*) \<and>
     (\<forall>u\<in>stk s. \<exists>f\<in>frames s. num s f \<le> num s u)"

definition walked_ok :: "nat list list \<Rightarrow> tarjan \<Rightarrow> bool" where
  "walked_ok adj s \<longleftrightarrow>
     (\<forall>(x, y)\<in>walked adj s. indices s y \<noteq> None \<and> (y \<in> stk s \<longrightarrow> lowlinks s x \<le> num s y))"

definition lows_ok :: "nat list list \<Rightarrow> tarjan \<Rightarrow> bool" where
  "lows_ok adj s \<longleftrightarrow>
     (\<forall>v\<in>stk s. lowlinks s v \<le> num s v \<and> (\<exists>u\<in>stk s. num s u = lowlinks s v \<and> (v, u) \<in> (edge adj)\<^sup>*)) \<and>
     (\<forall>v\<in>stk s - frames s. lowlinks s v < num s v) \<and>
     (\<forall>v\<in>frames s. \<forall>u\<in>stk s. num s v \<le> num s u \<longrightarrow>
        (\<forall>f\<in>frames s. num s v < num s f \<longrightarrow> num s u < num s f) \<longrightarrow> lowlinks s v \<le> lowlinks s u)"

definition mutual :: "('a \<times> 'a) set \<Rightarrow> 'a \<Rightarrow> 'a set" where
  "mutual E x = {y. (x, y) \<in> E\<^sup>* \<and> (y, x) \<in> E\<^sup>*}"

definition comps_ok :: "nat list list \<Rightarrow> tarjan \<Rightarrow> bool" where
  "comps_ok adj s \<longleftrightarrow>
     edge adj `` emitted s \<subseteq> emitted s \<and> distinct (concat (t_sccs s)) \<and>
     (\<forall>c\<in>set (t_sccs s). c \<noteq> [] \<and> (\<forall>x\<in>set c. set c = mutual (edge adj) x))"

definition tarjan_inv :: "nat list list \<Rightarrow> tarjan \<Rightarrow> bool" where
  "tarjan_inv adj s \<longleftrightarrow>
     nums_ok adj s \<and> stack_ok s \<and> frames_ok adj s \<and> walked_ok adj s \<and> lows_ok adj s \<and> comps_ok adj s"

lemma tarjan_invE:
  assumes "tarjan_inv adj s"
  shows "nums_ok adj s" "stack_ok s" "frames_ok adj s" "walked_ok adj s" "lows_ok adj s" "comps_ok adj s"
  using assms by (simp_all add: tarjan_inv_def)

lemma stk_visited: "stack_ok s \<Longrightarrow> v \<in> stk s \<Longrightarrow> \<exists>i. indices s v = Some i"
  by (auto simp: stack_ok_def)

lemma num_inj:
  assumes "nums_ok adj s" "stack_ok s" "v \<in> stk s" "w \<in> stk s" "num s v = num s w"
  shows "v = w"
proof -
  obtain i j where "indices s v = Some i" "indices s w = Some j" using assms stk_visited by blast
  then show ?thesis using assms(1,5) by (auto simp: nums_ok_def)
qed

lemma num_bound: "nums_ok adj s \<Longrightarrow> stack_ok s \<Longrightarrow> v \<in> stk s \<Longrightarrow> num s v < t_index s \<and> v < length adj"
  using stk_visited[of s v] by (auto simp: nums_ok_def)

lemma sorted_num_cong:
  assumes "\<And>x. x \<in> set xs \<Longrightarrow> num s' x = num s x"
  shows "sorted_wrt (\<lambda>a b. num s' b < num s' a) xs \<longleftrightarrow> sorted_wrt (\<lambda>a b. num s b < num s a) xs"
  using assms by (induction xs) auto

lemma sorted_wrt_num_distinct: "sorted_wrt (\<lambda>a b. num s b < num s a) xs \<Longrightarrow> distinct xs"
  by (induction xs) auto

text \<open>The top frame is the youngest.\<close>

lemma top_frame:
  assumes "frames_ok adj s" and "t_work s = (v, k) # ws"
  shows "v \<in> stk s" and "f \<in> frames s \<Longrightarrow> f = v \<or> (f \<in> fst ` set ws \<and> num s f < num s v)"
    and "f \<in> fst ` set ws \<Longrightarrow> num s f < num s v" and "frames s = insert v (fst ` set ws)"
    and "f \<in> frames s \<Longrightarrow> num s f \<le> num s v"
  using assms by (auto simp: frames_ok_def)

lemma lows_okD:
  assumes "lows_ok adj s"
  shows "v \<in> stk s \<Longrightarrow> lowlinks s v \<le> num s v"
    and "v \<in> stk s \<Longrightarrow> \<exists>u\<in>stk s. num s u = lowlinks s v \<and> (v, u) \<in> (edge adj)\<^sup>*"
    and "v \<in> stk s \<Longrightarrow> v \<notin> frames s \<Longrightarrow> lowlinks s v < num s v"
    and "v \<in> frames s \<Longrightarrow> u \<in> stk s \<Longrightarrow> num s v \<le> num s u \<Longrightarrow>
      \<forall>f\<in>frames s. num s v < num s f \<longrightarrow> num s u < num s f \<Longrightarrow> lowlinks s v \<le> lowlinks s u"
  using assms unfolding lows_ok_def by blast+

lemma frames_okD:
  assumes "frames_ok adj s"
  shows "v \<in> frames s \<Longrightarrow> v \<in> stk s"
    and "v \<in> frames s \<Longrightarrow> u \<in> stk s \<Longrightarrow> num s v \<le> num s u \<Longrightarrow> (v, u) \<in> (edge adj)\<^sup>*"
    and "u \<in> stk s \<Longrightarrow> \<exists>f\<in>frames s. num s f \<le> num s u"
  using assms unfolding frames_ok_def by blast+

lemma nums_okD:
  assumes "nums_ok adj s"
  shows "indices s v = Some i \<Longrightarrow> i < t_index s" and "indices s v = Some i \<Longrightarrow> v < length adj"
    and "indices s v = Some i \<Longrightarrow> indices s w = Some i \<Longrightarrow> v = w"
  using assms unfolding nums_ok_def by blast+

text \<open>Walking an edge to a vertex that was seen before.\<close>

lemma inv_seen:
  assumes inv: "tarjan_inv adj s" and work: "t_work s = (v, k) # ws" and k: "k < length (adj ! v)"
    and w: "adj ! v ! k = w" "indices s w = Some wi"
    and m: "m = (if on_stack s w \<and> wi < lowlinks s v then wi else lowlinks s v)"
    and s': "s' = s\<lparr>t_work := (v, k + 1) # ws, lowlinks := (lowlinks s)(v := m)\<rparr>"
  shows "tarjan_inv adj s'"
proof -
  note I = tarjan_invE[OF inv]
  note top = top_frame[OF I(3) work]
  have same: "indices s' = indices s" "t_stack s' = t_stack s" "t_sccs s' = t_sccs s" "on_stack s' = on_stack s"
    "t_index s' = t_index s" "frames s' = frames s" "map fst (t_work s') = map fst (t_work s)" "emitted s' = emitted s"
    using work by (simp_all add: s' emitted_def)
  have low: "lowlinks s' x = (if x = v then m else lowlinks s x)" for x by (simp add: s')
  have mle: "m \<le> lowlinks s v" and mw: "w \<in> stk s \<Longrightarrow> m \<le> num s w"
    using w(2) I(2) by (auto simp: m stack_ok_def)
  have E: "(v, w) \<in> edge adj"
    using num_bound[OF I(1,2) top(1)] w(1) k by (auto simp: edge_def)
  have "walked adj s' \<subseteq> insert (v, w) (walked adj s)"
    using w(1) k by (auto simp: walked_def s' work take_Suc_conv_app_nth)
  then have "walked_ok adj s'"
    unfolding walked_ok_def same low
  proof (intro ballI, clarify)
    fix x y
    assume "walked adj s' \<subseteq> insert (v, w) (walked adj s)" "(x, y) \<in> walked adj s'"
    then consider "x = v" "y = w" | "(x, y) \<in> walked adj s" by blast
    then show "indices s y \<noteq> None \<and> (y \<in> stk s \<longrightarrow> (if x = v then m else lowlinks s x) \<le> num s y)"
    proof cases
      case 2
      then have "indices s y \<noteq> None \<and> (y \<in> stk s \<longrightarrow> lowlinks s x \<le> num s y)"
        using I(4) unfolding walked_ok_def by blast
      then show ?thesis using mle by auto
    qed (use w(2) mw in simp)
  qed
  moreover have "lows_ok adj s'"
  proof -
    have "m \<le> num s v \<and> (\<exists>u\<in>stk s. num s u = m \<and> (v, u) \<in> (edge adj)\<^sup>*)"
    proof (cases "on_stack s w \<and> wi < lowlinks s v")
      case True
      then have "w \<in> stk s" "num s w = m" "m \<le> lowlinks s v" using I(2) w(2) mle by (auto simp: stack_ok_def m)
      moreover have "lowlinks s v \<le> num s v" using I(5) top(1) by (simp add: lows_ok_def)
      ultimately show ?thesis using E by (intro conjI bexI[of _ w]) auto
    next
      case False
      then have "m = lowlinks s v" by (simp add: m)
      then show ?thesis using lows_okD(1,2)[OF I(5) top(1)] by simp
    qed
    moreover have "lowlinks s' x \<le> lowlinks s' u"
      if "x \<in> frames s" "u \<in> stk s" "num s x \<le> num s u"
        "\<forall>f\<in>frames s. num s x < num s f \<longrightarrow> num s u < num s f" for x u
    proof -
      have "lowlinks s x \<le> lowlinks s u" using I(5) that unfolding lows_ok_def by blast
      moreover have "u = v \<Longrightarrow> x = v" using that top(2)[of x] top(4) by auto
      ultimately show ?thesis using mle by (auto simp: low)
    qed
    ultimately show ?thesis using I(5) top(4) unfolding lows_ok_def same low by auto
  qed
  ultimately show ?thesis
    using I unfolding tarjan_inv_def nums_ok_def stack_ok_def frames_ok_def comps_ok_def same by blast
qed

text \<open>Walking an edge to a new vertex.\<close>

lemma inv_discover:
  assumes inv: "tarjan_inv adj s" and work: "t_work s = (v, k) # ws" and k: "k < length (adj ! v)"
    and w: "adj ! v ! k = w" "indices s w = None" "w < length adj"
    and s': "s' = discover w (s\<lparr>t_work := (v, k + 1) # ws\<rparr>)"
  shows "tarjan_inv adj s'"
proof -
  note I = tarjan_invE[OF inv]
  note top = top_frame[OF I(3) work]
  let ?E = "edge adj"
  have ind: "indices s' = (indices s)(w \<mapsto> t_index s)" and low: "lowlinks s' = (lowlinks s)(w := t_index s)"
    and st: "t_stack s' = w # t_stack s" and ws: "t_work s' = (w, 0) # (v, k + 1) # ws"
    and sc: "t_sccs s' = t_sccs s" "emitted s' = emitted s" "t_index s' = t_index s + 1"
      "on_stack s' = (on_stack s)(w := True)"
    by (simp_all add: s' discover_def emitted_def)
  have new: "w \<notin> stk s" using stk_visited[OF I(2), of w] w(2) by auto
  then have num: "num s' u = num s u" "num s u < t_index s" if "u \<in> stk s" for u
    using that num_bound[OF I(1,2)] by (auto simp: ind)
  have numw: "num s' w = t_index s" by (simp add: ind)
  have fr: "frames s' = insert w (frames s)" by (simp add: ws work insert_commute)
  have sub: "frames s \<subseteq> stk s" using I(3) by (simp add: frames_ok_def)
  have E: "(v, w) \<in> ?E" using num_bound[OF I(1,2) top(1)] w(1) k by (auto simp: edge_def)
  have "nums_ok adj s'"
    unfolding nums_ok_def ind sc
  proof (intro conjI allI impI)
    fix x y i
    assume a: "((indices s)(w \<mapsto> t_index s)) x = Some i"
    show "i < t_index s + 1" "x < length adj"
      using a nums_okD(1,2)[OF I(1), of x i] w(3) by (auto split: if_splits)
    assume b: "((indices s)(w \<mapsto> t_index s)) y = Some i"
    show "x = y"
      using a b nums_okD(1,3)[OF I(1)] by (metis fun_upd_apply less_irrefl option.inject)
  qed
  moreover have "stack_ok s'"
  proof -
    have "sorted_wrt (\<lambda>a b. num s' b < num s' a) (t_stack s)"
      using I(2) unfolding stack_ok_def by (subst sorted_num_cong[of _ s' s]) (simp_all add: num)
    then have "sorted_wrt (\<lambda>a b. num s' b < num s' a) (t_stack s')" using num numw by (simp add: st)
    moreover have "w \<notin> emitted s" using I(2) w(2) by (auto simp: stack_ok_def)
    ultimately show ?thesis
      using I(2) new unfolding stack_ok_def by (simp add: st sc ind)
  qed
  moreover have "frames_ok adj s'"
  proof -
    have "sorted_wrt (\<lambda>a b. num s' b < num s' a) (map fst (t_work s))"
      using I(3) sub unfolding frames_ok_def by (subst sorted_num_cong[of _ s' s]) (auto simp: num)
    then have "sorted_wrt (\<lambda>a b. num s' b < num s' a) (map fst (t_work s'))"
      using sub num numw by (auto simp: ws work)
    moreover have "(x, u) \<in> ?E\<^sup>*"
      if "x \<in> frames s'" "u \<in> stk s'" "num s' x \<le> num s' u" for x u
    proof (cases "u = w")
      case True
      have "(x, v) \<in> ?E\<^sup>*" if "x \<in> frames s"
        using top(1) top(2)[of x] that I(3) unfolding frames_ok_def by (metis le_refl less_imp_le)
      then show ?thesis using True that(1) fr E by (auto intro: rtrancl_into_rtrancl)
    next
      case False
      then have u: "u \<in> stk s" using that(2) st by simp
      then have "x \<noteq> w" using that(3) num[OF u] numw by auto
      then have x: "x \<in> frames s" using that(1) fr by simp
      then have "num s x \<le> num s u" using that(3) num sub u by (simp add: subset_iff)
      then show ?thesis using x u I(3) unfolding frames_ok_def by blast
    qed
    moreover have "\<exists>f\<in>frames s'. num s' f \<le> num s' u" if "u \<in> stk s'" for u
    proof (cases "u = w")
      case False
      then have u: "u \<in> stk s" using that st by simp
      then obtain f where f: "f \<in> frames s" "num s f \<le> num s u" using frames_okD(3)[OF I(3)] by blast
      then have "num s' f \<le> num s' u" using num(1) u frames_okD(1)[OF I(3)] by simp
      then show ?thesis using f(1) fr by blast
    qed (auto simp: fr)
    ultimately show ?thesis using sub unfolding frames_ok_def fr by (auto simp: st)
  qed
  moreover have "walked_ok adj s'"
    unfolding walked_ok_def
  proof (intro ballI, clarify)
    fix x y
    assume xy: "(x, y) \<in> walked adj s'"
    then have "x \<noteq> w" by (auto simp: walked_def ws)
    then have x: "x \<in> stk s" using xy by (auto simp: walked_def st)
    have lx: "lowlinks s' x = lowlinks s x" "lowlinks s x \<le> num s x"
      using \<open>x \<noteq> w\<close> I(5) x by (auto simp: low lows_ok_def)
    show "indices s' y \<noteq> None \<and> (y \<in> stk s' \<longrightarrow> lowlinks s' x \<le> num s' y)"
    proof (cases "y = w")
      case True
      then show ?thesis using lx num[OF x] numw by (simp add: ind)
    next
      case False
      have "(x, y) \<in> walked adj s"
        using xy x False w(1) k \<open>x \<noteq> w\<close> by (auto simp: walked_def ws work take_Suc_conv_app_nth)
      then have "indices s y \<noteq> None \<and> (y \<in> stk s \<longrightarrow> lowlinks s x \<le> num s y)"
        using I(4) unfolding walked_ok_def by blast
      then show ?thesis using False lx num by (auto simp: ind st)
    qed
  qed
  moreover have "lows_ok adj s'"
  proof -
    have a: "lowlinks s' x \<le> num s' x \<and> (\<exists>u\<in>stk s'. num s' u = lowlinks s' x \<and> (x, u) \<in> ?E\<^sup>*)"
      if "x \<in> stk s'" for x
    proof (cases "x = w")
      case True
      then show ?thesis using numw by (auto simp: low st intro!: bexI[of _ w])
    next
      case False
      then have x: "x \<in> stk s" using that st by simp
      then obtain u where "u \<in> stk s" "num s u = lowlinks s x" "(x, u) \<in> ?E\<^sup>*" "lowlinks s x \<le> num s x"
        using I(5) unfolding lows_ok_def by blast
      then show ?thesis using num x False by (auto simp: low st intro!: bexI[of _ u])
    qed
    have b: "lowlinks s' x < num s' x" if "x \<in> stk s' - frames s'" for x
      using that I(5) num new by (auto simp: low st fr lows_ok_def)
    have c: "lowlinks s' x \<le> lowlinks s' u"
      if "x \<in> frames s'" "u \<in> stk s'" "num s' x \<le> num s' u"
        "\<forall>f\<in>frames s'. num s' x < num s' f \<longrightarrow> num s' u < num s' f" for x u
    proof (cases "x = w \<or> u = w")
      case True
      then have "u = w" using that(2,3) num[of u] numw st by (cases "u = w") auto
      moreover have "x = w"
        using that(1,4) \<open>u = w\<close> fr num sub numw by (metis insert_iff less_irrefl subset_iff)
      ultimately show ?thesis by simp
    next
      case False
      then have x: "x \<in> frames s" "u \<in> stk s" "x \<in> stk s" using that fr st sub by auto
      have "num s x \<le> num s u" "\<forall>f\<in>frames s. num s x < num s f \<longrightarrow> num s u < num s f"
        using that(3,4) x num sub fr by (auto simp: subset_iff)
      then have "lowlinks s x \<le> lowlinks s u" using I(5) x unfolding lows_ok_def by blast
      then show ?thesis using False by (simp add: low)
    qed
    show ?thesis unfolding lows_ok_def using a b c by blast
  qed
  moreover have "comps_ok adj s'" using I(6) by (simp add: comps_ok_def sc)
  ultimately show ?thesis by (simp add: tarjan_inv_def)
qed

text \<open>Leaving a vertex that is not the root of its component.\<close>

lemma inv_finish_inner:
  assumes inv: "tarjan_inv adj s" and work: "t_work s = (v, k) # ws" and k: "length (adj ! v) \<le> k"
    and i: "indices s v = Some i" and inner: "lowlinks s v \<noteq> i"
  shows "tarjan_inv adj (finish v i ws s)"
proof -
  note I = tarjan_invE[OF inv]
  note top = top_frame[OF I(3) work]
  let ?E = "edge adj"
  have lv: "lowlinks s v < num s v" using lows_okD(1)[OF I(5) top(1)] inner i by simp
  obtain u0 where u0: "u0 \<in> stk s" "num s u0 = lowlinks s v" "(v, u0) \<in> ?E\<^sup>*"
    using lows_okD(2)[OF I(5) top(1)] by blast
  obtain f0 where f0: "f0 \<in> frames s" "num s f0 \<le> num s u0" using frames_okD(3)[OF I(3) u0(1)] by blast
  then have "f0 \<in> fst ` set ws" using top(2)[of f0] lv u0(2) by auto
  then obtain p kp ws' where ws: "ws = (p, kp) # ws'" by (cases ws) auto
  define s' where "s' = finish v i ws s"
  define m where "m = min (lowlinks s p) (lowlinks s v)"
  have s': "s' = s\<lparr>t_work := ws, lowlinks := (lowlinks s)(p := m)\<rparr>"
    using inner by (auto simp: s'_def finish_def fold_parent_def ws m_def min_def fun_upd_idem)
  have same: "indices s' = indices s" "t_stack s' = t_stack s" "t_sccs s' = t_sccs s" "on_stack s' = on_stack s"
    "t_index s' = t_index s" "emitted s' = emitted s"
    by (simp_all add: s' emitted_def)
  have fr: "frames s = insert v (frames s')" "t_work s' = ws" by (simp_all add: work s')
  have p: "p \<in> frames s'" "p \<in> stk s" "num s p < num s v" "p \<noteq> v"
    using top(3)[of p] frames_okD(1)[OF I(3), of p] by (auto simp: s' ws work)
  have below: "num s f < num s p" if "f \<in> frames s'" "f \<noteq> p" for f
    using I(3) that by (auto simp: frames_ok_def work ws s')
  have low: "lowlinks s' x = (if x = p then m else lowlinks s x)" for x by (simp add: s')
  have nv: "v \<notin> frames s'" using top(3)[of v] by (auto simp: s')
  have "frames_ok adj s'"
  proof -
    have "\<exists>f\<in>frames s'. num s f \<le> num s u" if "u \<in> stk s" for u
    proof -
      obtain f where f: "f \<in> frames s" "num s f \<le> num s u" using frames_okD(3)[OF I(3) \<open>u \<in> stk s\<close>] by blast
      show ?thesis
      proof (cases "f = v")
        case True
        then show ?thesis using f p(1,3) by (intro bexI[of _ p]) auto
      next
        case False
        then show ?thesis using f fr(1) by blast
      qed
    qed
    then show ?thesis using I(3) unfolding frames_ok_def same fr by (auto simp: work)
  qed
  moreover have "walked_ok adj s'"
    unfolding walked_ok_def same
  proof (intro ballI, clarify)
    fix x y
    assume xy: "(x, y) \<in> walked adj s'"
    have "(x, y) \<in> walked adj s"
      using xy k nv by (auto simp: walked_def same fr(2) work)
    then have "indices s y \<noteq> None \<and> (y \<in> stk s \<longrightarrow> lowlinks s x \<le> num s y)"
      using I(4) unfolding walked_ok_def by blast
    then show "indices s y \<noteq> None \<and> (y \<in> stk s \<longrightarrow> lowlinks s' x \<le> num s y)"
      by (auto simp: low m_def)
  qed
  moreover have "lows_ok adj s'"
  proof -
    have a: "lowlinks s' x \<le> num s x \<and> (\<exists>u\<in>stk s. num s u = lowlinks s' x \<and> (x, u) \<in> ?E\<^sup>*)"
      if "x \<in> stk s" for x
    proof (cases "x = p \<and> lowlinks s v < lowlinks s p")
      case True
      have "(p, v) \<in> ?E\<^sup>*" using frames_okD(2)[OF I(3), of p v] p fr(1) top(1) by simp
      then have "(p, u0) \<in> ?E\<^sup>*" using u0(3) by simp
      moreover have "lowlinks s' x = lowlinks s v" "lowlinks s p \<le> num s p"
        using True lows_okD(1)[OF I(5) p(2)] by (auto simp: low m_def)
      ultimately show ?thesis using True u0 by (intro conjI bexI[of _ u0]) auto
    next
      case False
      then have "lowlinks s' x = lowlinks s x" by (auto simp: low m_def)
      then show ?thesis using lows_okD(1,2)[OF I(5) that] by simp
    qed
    have b: "lowlinks s' x < num s x" if "x \<in> stk s" "x \<notin> frames s'" for x
      using that lv p(1) lows_okD(3)[OF I(5), of x] fr(1) by (cases "x = v") (auto simp: low)
    have c: "lowlinks s' x \<le> lowlinks s' u"
      if x: "x \<in> frames s'" and u: "u \<in> stk s" and xu: "num s x \<le> num s u"
        and btw: "\<forall>f\<in>frames s'. num s x < num s f \<longrightarrow> num s u < num s f" for x u
    proof (cases "x = p")
      case True
      show ?thesis
      proof (cases "num s v \<le> num s u")
        case True
        have "lowlinks s v \<le> lowlinks s u"
        proof (rule lows_okD(4)[OF I(5) _ u True])
          show "v \<in> frames s" using fr(1) by simp
          show "\<forall>f\<in>frames s. num s v < num s f \<longrightarrow> num s u < num s f" using top(5) by (meson leD)
        qed
        then show ?thesis using \<open>x = p\<close> by (auto simp: low m_def)
      next
        case False
        have "lowlinks s p \<le> lowlinks s u"
        proof (rule lows_okD(4)[OF I(5) _ u])
          show "p \<in> frames s" "num s p \<le> num s u" using p(1) fr(1) xu \<open>x = p\<close> by auto
          have "f = v" if "f \<in> frames s" "num s p < num s f" for f
            using that below[of f] fr(1) by fastforce
          then show "\<forall>f\<in>frames s. num s p < num s f \<longrightarrow> num s u < num s f" using False by fastforce
        qed
        then show ?thesis using \<open>x = p\<close> by (auto simp: low m_def)
      qed
    next
      case False
      then have "num s x < num s p" using below x by blast
      then have "num s u < num s p" using btw p(1) by blast
      moreover have "lowlinks s x \<le> lowlinks s u"
        using x u xu btw p(3) calculation fr(1) by (intro lows_okD(4)[OF I(5)]) auto
      ultimately show ?thesis using False by (auto simp: low)
    qed
    show ?thesis unfolding lows_ok_def same using a b c by blast
  qed
  ultimately show ?thesis
    using I unfolding tarjan_inv_def nums_ok_def stack_ok_def comps_ok_def same s'_def[symmetric] by blast
qed

text \<open>Leaving the root of a component.\<close>

lemma pop_component_split:
  assumes "v \<notin> set pre"
  shows "pop_component v (pre @ v # post) os c =
    (c @ pre @ [v], (\<lambda>x. os x \<and> x \<notin> set pre \<and> x \<noteq> v), post)"
  using assms by (induction pre arbitrary: os c) (auto simp: fun_eq_iff)

lemma mutual_eq:
  assumes "\<And>u. u \<in> T \<Longrightarrow> (v, u) \<in> E\<^sup>* \<and> (u, v) \<in> E\<^sup>*" and "v \<in> T" and "v \<notin> D"
    and "E `` T \<subseteq> T \<union> D" and "E `` D \<subseteq> D" and "x \<in> T"
  shows "mutual E x = T"
proof -
  have stay: "y \<in> T \<union> D" if "(z, y) \<in> E\<^sup>*" "z \<in> T \<union> D" for y z
    using that by (induction rule: rtrancl_induct) (use assms(4,5) in auto)
  have stayD: "y \<in> D" if "(z, y) \<in> E\<^sup>*" "z \<in> D" for y z
    using that by (induction rule: rtrancl_induct) (use assms(5) in auto)
  show ?thesis
  proof (intro equalityI subsetI)
    fix y
    assume "y \<in> mutual E x"
    then have xy: "(x, y) \<in> E\<^sup>*" "(y, x) \<in> E\<^sup>*" by (simp_all add: mutual_def)
    then have "(y, v) \<in> E\<^sup>*" using assms(1)[OF assms(6)] by (meson rtrancl_trans)
    then show "y \<in> T" using stay[OF xy(1)] assms(6) stayD[of y v] assms(3) by auto
  next
    fix y
    assume "y \<in> T"
    then show "y \<in> mutual E x" using assms(1)[OF assms(6)] assms(1)[of y] by (auto simp: mutual_def)
  qed
qed

lemma inv_finish_root:
  assumes inv: "tarjan_inv adj s" and work: "t_work s = (v, k) # ws" and k: "length (adj ! v) \<le> k"
    and i: "indices s v = Some i" and root: "lowlinks s v = i"
  shows "tarjan_inv adj (finish v i ws s)"
proof -
  note I = tarjan_invE[OF inv]
  note top = top_frame[OF I(3) work]
  let ?E = "edge adj"
  have nv: "num s v = lowlinks s v" using i root by simp
  obtain pre post where split: "t_stack s = pre @ v # post" using split_list[OF top(1)] by blast
  have srt: "sorted_wrt (\<lambda>a b. num s b < num s a) (pre @ v # post)" using I(2) split by (simp add: stack_ok_def)
  have npre: "\<And>u. u \<in> set pre \<Longrightarrow> num s v < num s u" and npost: "\<And>u. u \<in> set post \<Longrightarrow> num s u < num s v"
    using srt by (auto simp: sorted_wrt_append)
  define T where "T = insert v (set pre)"
  have T: "u \<in> T \<longleftrightarrow> u \<in> stk s \<and> num s v \<le> num s u" for u
    using npre[of u] npost[of u] by (auto simp: T_def split)
  have dj: "T \<inter> set post = {}" using npost T by fastforce
  define s' where "s' = s\<lparr>t_stack := post, on_stack := (\<lambda>x. on_stack s x \<and> x \<notin> T),
      t_sccs := t_sccs s @ [pre @ [v]], t_work := ws\<rparr>"
  have "v \<notin> set pre" using npre by blast
  from pop_component_split[OF this, of post "on_stack s" "[]"]
  have fin: "finish v i ws s = fold_parent v s'"
    unfolding finish_def root split by (simp add: s'_def T_def conj_commute)
  have wsfr: "f \<in> stk s" "num s f < num s v" "f \<in> set post" if "f \<in> fst ` set ws" for f
  proof -
    show f: "f \<in> stk s" "num s f < num s v" using that top(3,4) frames_okD(1)[OF I(3)] by auto
    then show "f \<in> set post" using npre[of f] split by auto
  qed
  have "fold_parent v s' = s'"
  proof (cases ws)
    case (Cons a l)
    then have "fst a \<in> fst ` set ws" by simp
    from wsfr(1,2)[OF this] have "lowlinks s (fst a) \<le> lowlinks s v"
      using lows_okD(1)[OF I(5), of "fst a"] nv by linarith
    then show ?thesis using Cons by (cases a) (simp add: fold_parent_def s'_def)
  qed (simp add: fold_parent_def s'_def)
  with fin have fin: "finish v i ws s = s'" by simp
  have same: "indices s' = indices s" "lowlinks s' = lowlinks s" "t_index s' = t_index s" "t_work s' = ws"
    "t_stack s' = post" "t_sccs s' = t_sccs s @ [pre @ [v]]" "emitted s' = emitted s \<union> T"
    by (auto simp: s'_def emitted_def T_def)
  have fin_low: "u = v \<or> lowlinks s u < num s u" and low_ge: "num s v \<le> lowlinks s u" if "u \<in> T" for u
  proof -
    have u: "u \<in> stk s" "num s v \<le> num s u" using that T by auto
    show "u = v \<or> lowlinks s u < num s u"
      using lows_okD(3)[OF I(5) u(1)] top(2)[of u] u(2) by fastforce
    have "lowlinks s v \<le> lowlinks s u"
    proof (rule lows_okD(4)[OF I(5) _ u])
      show "v \<in> frames s" using top(4) by simp
      show "\<forall>f\<in>frames s. num s v < num s f \<longrightarrow> num s u < num s f" using top(5) by (meson leD)
    qed
    then show "num s v \<le> lowlinks s u" using nv by simp
  qed
  have bwd: "(u, v) \<in> ?E\<^sup>*" if "u \<in> T" for u
    using that
  proof (induction "num s u" arbitrary: u rule: less_induct)
    case less
    show ?case
    proof (cases "u = v")
      case False
      obtain u1 where u1: "u1 \<in> stk s" "num s u1 = lowlinks s u" "(u, u1) \<in> ?E\<^sup>*"
        using lows_okD(2)[OF I(5), of u] less.prems T by blast
      then have "u1 \<in> T" "num s u1 < num s u" using fin_low[OF less.prems] low_ge[OF less.prems] False T by auto
      then show ?thesis using less.hyps[of u1] u1(3) by simp
    qed simp
  qed
  have fwd: "(v, u) \<in> ?E\<^sup>*" if "u \<in> T" for u
    using that T frames_okD(2)[OF I(3), of v u] top(4) by simp
  have dE: "stk s \<inter> emitted s = {}" "dom (indices s) = stk s \<union> emitted s" using I(2) by (auto simp: stack_ok_def)
  have succ: "y \<in> T \<union> emitted s" if "x \<in> T" "(x, y) \<in> ?E" for x y
  proof -
    have "x \<in> frames s \<Longrightarrow> x = v" using top(2)[of x] that(1) T by auto
    moreover have "(x, j) \<notin> set ws" for j using top(3)[of x] that(1) T by force
    ultimately have "(x, y) \<in> walked adj s"
      using that T k work by (auto simp: walked_def edge_def)
    then have "indices s y \<noteq> None" and lo: "y \<in> stk s \<longrightarrow> lowlinks s x \<le> num s y"
      using I(4) unfolding walked_ok_def by blast+
    then have "y \<in> dom (indices s)" by (simp add: domIff)
    then consider "y \<in> emitted s" | "y \<in> stk s" unfolding dE(2) by blast
    then show ?thesis
    proof cases
      case 2
      then have "num s v \<le> num s y" using lo low_ge[OF that(1)] by simp
      then show ?thesis using 2 T by blast
    qed simp
  qed
  have closed: "?E `` emitted s \<subseteq> emitted s" using I(6) by (simp add: comps_ok_def)
  have vT: "v \<in> T" "v \<notin> emitted s" using T top(1) dE by auto
  have scc: "mutual ?E x = T" if "x \<in> T" for x
    by (rule mutual_eq[where v = v and D = "emitted s"]) (use fwd bwd vT succ closed that in auto)
  have "stack_ok s'"
    unfolding stack_ok_def same
  proof (intro conjI)
    show "sorted_wrt (\<lambda>a b. num s b < num s a) post" using srt by (simp add: sorted_wrt_append)
    show "\<forall>x. on_stack s' x = (x \<in> set post)"
      using I(2) dj by (auto simp: s'_def stack_ok_def split T_def)
    show "dom (indices s) = set post \<union> (emitted s \<union> T)" using dE by (auto simp: split T_def)
    show "set post \<inter> (emitted s \<union> T) = {}" using dE dj by (auto simp: split)
  qed
  moreover have "frames_ok adj s'"
    unfolding frames_ok_def same
  proof (intro conjI ballI impI)
    show "sorted_wrt (\<lambda>a b. num s b < num s a) (map fst ws)" using I(3) by (simp add: frames_ok_def work)
    show "fst ` set ws \<subseteq> set post" using wsfr(3) by blast
    show "(f, u) \<in> ?E\<^sup>*" if "f \<in> fst ` set ws" "u \<in> set post" "num s f \<le> num s u" for f u
      using that frames_okD(2)[OF I(3), of f u] top(4) split by simp
    show "\<exists>f\<in>fst ` set ws. num s f \<le> num s u" if "u \<in> set post" for u
    proof -
      have "u \<in> stk s" using that split by simp
      then obtain f where "f \<in> frames s" "num s f \<le> num s u" using frames_okD(3)[OF I(3)] by blast
      then show ?thesis using npost[OF that] top(4) by (intro bexI[of _ f]) auto
    qed
  qed
  moreover have "walked_ok adj s'"
  proof -
    have "walked adj s' \<subseteq> walked adj s"
      using dj vT by (auto simp: walked_def same split work)
    then show ?thesis using I(4) split unfolding walked_ok_def same by auto
  qed
  moreover have "lows_ok adj s'"
    unfolding lows_ok_def same
  proof (intro conjI ballI impI)
    fix x
    assume x: "x \<in> set post"
    then have xs: "x \<in> stk s" using split by simp
    show l: "lowlinks s x \<le> num s x" using lows_okD(1)[OF I(5) xs] .
    obtain u where u: "u \<in> stk s" "num s u = lowlinks s x" "(x, u) \<in> ?E\<^sup>*" using lows_okD(2)[OF I(5) xs] by blast
    then have "u \<notin> T" using l npost[OF x] T by auto
    then have "u \<in> set post" using u(1) split by (auto simp: T_def)
    then show "\<exists>u\<in>set post. num s u = lowlinks s x \<and> (x, u) \<in> ?E\<^sup>*" using u by blast
  next
    fix x
    assume "x \<in> set post - fst ` set ws"
    then show "lowlinks s x < num s x"
      using lows_okD(3)[OF I(5), of x] top(4) dj vT split by auto
  next
    fix x u
    assume a: "x \<in> fst ` set ws" "u \<in> set post" "num s x \<le> num s u"
      "\<forall>f\<in>fst ` set ws. num s x < num s f \<longrightarrow> num s u < num s f"
    show "lowlinks s x \<le> lowlinks s u"
      using a npost[OF a(2)] top(4) split by (intro lows_okD(4)[OF I(5)]) auto
  qed
  moreover have "comps_ok adj s'"
    unfolding comps_ok_def same
  proof (intro conjI ballI)
    show "?E `` (emitted s \<union> T) \<subseteq> emitted s \<union> T" using closed succ by blast
    have "distinct (pre @ v # post)" using srt by (rule sorted_wrt_num_distinct)
    moreover have "set (concat (t_sccs s)) = emitted s" by (simp add: emitted_def)
    moreover have "T \<inter> emitted s = {}" using dE T by blast
    ultimately show "distinct (concat (t_sccs s @ [pre @ [v]]))"
      using I(6) unfolding comps_ok_def T_def by auto
  next
    fix c
    assume c: "c \<in> set (t_sccs s @ [pre @ [v]])"
    then show "c \<noteq> []" using I(6) by (auto simp: comps_ok_def)
    fix x
    assume "x \<in> set c"
    with c consider "c \<in> set (t_sccs s)" | "c = pre @ [v]" "x \<in> T" by (auto simp: T_def)
    then show "set c = mutual ?E x"
      using I(6) \<open>x \<in> set c\<close> scc[of x] by cases (auto simp: comps_ok_def T_def)
  qed
  moreover have "nums_ok adj s'" using I(1) by (simp add: nums_ok_def same)
  ultimately show ?thesis unfolding fin tarjan_inv_def by blast
qed

section \<open>Termination and correctness of the search\<close>

definition unseen :: "nat list list \<Rightarrow> tarjan \<Rightarrow> nat set" where
  "unseen adj s = {v. v < length adj \<and> indices s v = None}"

definition edges_left :: "nat list list \<Rightarrow> tarjan \<Rightarrow> nat" where
  "edges_left adj s = (\<Sum>(v, k)\<leftarrow>t_work s. Suc (length (adj ! v)) - k)"

definition frames_within :: "nat list list \<Rightarrow> tarjan \<Rightarrow> bool" where
  "frames_within adj s \<longleftrightarrow> (\<forall>(v, k)\<in>set (t_work s). k \<le> length (adj ! v))"

lemma finish_work: "t_work (finish v i ws s) = ws" "indices (finish v i ws s) = indices s"
  by (auto simp: finish_def fold_parent_def split: list.splits prod.splits)

lemma tarjan_step_progress:
  assumes ok: "adj_ok adj" and inv: "tarjan_inv adj s" and fw: "frames_within adj s" and ne: "t_work s \<noteq> []"
  shows "\<exists>s'. tarjan_step adj s = Some s' \<and> tarjan_inv adj s' \<and> frames_within adj s' \<and>
    (s', s) \<in> measures [\<lambda>s. card (unseen adj s), edges_left adj] \<and> indices s \<subseteq>\<^sub>m indices s'"
proof -
  note I = tarjan_invE[OF inv]
  obtain v k ws where work: "t_work s = (v, k) # ws" using ne by (metis list.exhaust surj_pair)
  note top = top_frame[OF I(3) work]
  have v: "v < length adj" using num_bound[OF I(1,2) top(1)] by simp
  obtain i where i: "indices s v = Some i" using stk_visited[OF I(2) top(1)] by blast
  have kle: "k \<le> length (adj ! v)" using fw work by (simp add: frames_within_def)
  show ?thesis
  proof (cases "k < length (adj ! v)")
    case True
    define w where "w = adj ! v ! k"
    have w: "w < length adj" using ok nth_mem[OF v] nth_mem[OF True] by (simp add: adj_ok_def w_def)
    show ?thesis
    proof (cases "indices s w")
      case None
      let ?s = "discover w (s\<lparr>t_work := (v, k + 1) # ws\<rparr>)"
      have "unseen adj ?s = unseen adj s - {w}" by (auto simp: unseen_def discover_def)
      moreover have "finite (unseen adj s)" "w \<in> unseen adj s" using w None by (simp_all add: unseen_def)
      ultimately have "card (unseen adj ?s) < card (unseen adj s)" by (metis card_Diff1_less)
      moreover have "tarjan_step adj s = Some ?s" using work v True w None by (simp add: tarjan_step_def Let_def w_def)
      moreover have "tarjan_inv adj ?s" by (rule inv_discover[OF inv work True w_def[symmetric] None w refl])
      moreover have "frames_within adj ?s" using fw work True by (auto simp: frames_within_def discover_def)
      moreover have "indices s \<subseteq>\<^sub>m indices ?s" using None by (auto simp: map_le_def discover_def)
      ultimately show ?thesis by simp
    next
      case (Some wi)
      define m where "m = (if on_stack s w \<and> wi < lowlinks s v then wi else lowlinks s v)"
      let ?s = "s\<lparr>t_work := (v, k + 1) # ws, lowlinks := (lowlinks s)(v := m)\<rparr>"
      have "tarjan_step adj s = Some ?s"
        using work v True w Some by (simp add: tarjan_step_def Let_def w_def m_def)
      moreover have "tarjan_inv adj ?s" by (rule inv_seen[OF inv work True w_def[symmetric] Some m_def refl])
      moreover have "edges_left adj ?s < edges_left adj s" using True by (simp add: edges_left_def work)
      moreover have "frames_within adj ?s" using fw work True by (auto simp: frames_within_def)
      ultimately show ?thesis by (simp add: unseen_def)
    qed
  next
    case False
    let ?s = "finish v i ws s"
    have "tarjan_step adj s = Some ?s" using work v False i by (simp add: tarjan_step_def)
    moreover have "tarjan_inv adj ?s"
      using inv_finish_inner[OF inv work _ i] inv_finish_root[OF inv work _ i] False by (cases "lowlinks s v = i") auto
    moreover have "edges_left adj ?s < edges_left adj s" using kle by (simp add: edges_left_def work finish_work)
    moreover have "frames_within adj ?s" using fw work by (auto simp: frames_within_def finish_work)
    ultimately show ?thesis by (simp add: unseen_def finish_work)
  qed
qed

lemma tarjan_loop_returns:
  assumes "adj_ok adj" and "tarjan_inv adj s" and "frames_within adj s"
  shows "\<exists>s'. tarjan_loop adj s = Some s' \<and> tarjan_inv adj s' \<and> t_work s' = [] \<and> indices s \<subseteq>\<^sub>m indices s'"
  using assms
proof (induction s rule: wf_induct_rule[OF wf_measures, of "[\<lambda>s. card (unseen adj s), edges_left adj]"])
  case (1 s)
  show ?case
  proof (cases "t_work s = []")
    case True
    then show ?thesis using 1 by (simp add: tarjan_loop.simps)
  next
    case False
    obtain s1 where s1: "tarjan_step adj s = Some s1" "tarjan_inv adj s1" "frames_within adj s1"
      "(s1, s) \<in> measures [\<lambda>s. card (unseen adj s), edges_left adj]" "indices s \<subseteq>\<^sub>m indices s1"
      using tarjan_step_progress[OF 1(2-4) False] by blast
    obtain s2 where "tarjan_loop adj s1 = Some s2" "tarjan_inv adj s2" "t_work s2 = []" "indices s1 \<subseteq>\<^sub>m indices s2"
      using "1.IH"[OF s1(4) 1(2) s1(2,3)] by blast
    then show ?thesis using s1 False by (auto simp: tarjan_loop.simps[of _ s] intro: map_le_trans)
  qed
qed

text \<open>Between two searches nothing is on the stack.\<close>

definition between :: "nat list list \<Rightarrow> tarjan \<Rightarrow> bool" where
  "between adj s \<longleftrightarrow> tarjan_inv adj s \<and> t_work s = [] \<and> t_stack s = []"

lemma between_of_inv: "tarjan_inv adj s \<Longrightarrow> t_work s = [] \<Longrightarrow> between adj s"
  using frames_okD(3)[of adj s "hd (t_stack s)"] tarjan_invE(3)[of adj s]
  by (cases "t_stack s") (auto simp: between_def)

lemma between_discover:
  assumes "between adj s" and "indices s w = None" and "w < length adj"
  shows "tarjan_inv adj (discover w (s\<lparr>t_work := []\<rparr>))" (is "tarjan_inv adj ?s")
    and "frames_within adj (discover w (s\<lparr>t_work := []\<rparr>))"
proof -
  have inv: "tarjan_inv adj s" and e: "t_work s = []" "t_stack s = []" using assms(1) by (auto simp: between_def)
  note I = tarjan_invE[OF inv]
  have f: "t_stack ?s = [w]" "t_work ?s = [(w, 0)]" "indices ?s = (indices s)(w \<mapsto> t_index s)"
    "t_sccs ?s = t_sccs s" "emitted ?s = emitted s" "lowlinks ?s w = t_index s" "t_index ?s = t_index s + 1"
    by (simp_all add: discover_def e emitted_def)
  have d: "dom (indices s) = emitted s" using I(2) e by (simp add: stack_ok_def)
  have "nums_ok adj ?s"
    unfolding nums_ok_def f
  proof (intro conjI allI impI)
    fix x y i
    assume a: "((indices s)(w \<mapsto> t_index s)) x = Some i"
    show "i < t_index s + 1" "x < length adj"
      using a nums_okD(1,2)[OF I(1), of x i] assms(3) by (auto split: if_splits)
    assume b: "((indices s)(w \<mapsto> t_index s)) y = Some i"
    show "x = y" using a b nums_okD(1,3)[OF I(1)] by (metis fun_upd_apply less_irrefl option.inject)
  qed
  moreover have "stack_ok ?s"
    using I(2) d assms(2) unfolding stack_ok_def f by (auto simp: discover_def e)
  moreover have "frames_ok adj ?s" by (simp add: frames_ok_def f)
  moreover have "walked_ok adj ?s" by (auto simp: walked_ok_def walked_def f)
  moreover have "lows_ok adj ?s" by (simp add: lows_ok_def f)
  moreover have "comps_ok adj ?s" using I(6) by (simp add: comps_ok_def f)
  ultimately show "tarjan_inv adj ?s" by (simp add: tarjan_inv_def)
  show "frames_within adj ?s" by (simp add: frames_within_def f)
qed

lemma search_from_returns:
  assumes "adj_ok adj" and "between adj s" and "set xs \<subseteq> {..<length adj}"
  shows "\<exists>s'. search_from adj xs s = Some s' \<and> between adj s' \<and> indices s \<subseteq>\<^sub>m indices s' \<and>
    set xs \<subseteq> dom (indices s')"
  using assms(2,3)
proof (induction xs arbitrary: s)
  case (Cons x xs)
  show ?case
  proof (cases "indices s x = None")
    case False
    then obtain s' where "search_from adj xs s = Some s'" "between adj s'" "indices s \<subseteq>\<^sub>m indices s'"
      "set xs \<subseteq> dom (indices s')" using Cons.IH[OF Cons.prems(1)] Cons.prems(2) by auto
    then show ?thesis using False map_le_implies_dom_le[of "indices s" "indices s'"] by (auto simp: domIff subset_iff)
  next
    case True
    let ?s = "discover x (s\<lparr>t_work := []\<rparr>)"
    have "x < length adj" using Cons.prems(2) by simp
    note D = between_discover[OF Cons.prems(1) True this]
    obtain s1 where s1: "tarjan_loop adj ?s = Some s1" "between adj s1" "indices ?s \<subseteq>\<^sub>m indices s1"
      using tarjan_loop_returns[OF assms(1) D] between_of_inv by blast
    obtain s' where s': "search_from adj xs s1 = Some s'" "between adj s'" "indices s1 \<subseteq>\<^sub>m indices s'"
      "set xs \<subseteq> dom (indices s')" using Cons.IH[OF s1(2)] Cons.prems(2) by auto
    have le: "indices ?s \<subseteq>\<^sub>m indices s'" using s1(3) s'(3) by (rule map_le_trans)
    have "indices s \<subseteq>\<^sub>m indices ?s" using True by (auto simp: map_le_def discover_def)
    moreover have "x \<in> dom (indices ?s)" by (simp add: discover_def)
    ultimately show ?thesis
      using True s1(1) s' le map_le_implies_dom_le[OF le] by (auto intro: map_le_trans)
  qed
qed simp

lemma find_sccs_correct:
  assumes "adj_ok adj"
  shows "\<exists>cs. find_sccs adj = Some cs \<and> distinct (concat cs) \<and> set (concat cs) = {..<length adj} \<and>
    (\<forall>c\<in>set cs. c \<noteq> [] \<and> (\<forall>x\<in>set c. set c = mutual (edge adj) x))"
proof -
  have "between adj new_tarjan"
    by (simp add: between_def tarjan_inv_def nums_ok_def stack_ok_def frames_ok_def walked_ok_def walked_def
        lows_ok_def comps_ok_def emitted_def new_tarjan_def)
  from search_from_returns[OF assms this, of "[0..<length adj]"]
  obtain s where s: "search_from adj [0..<length adj] new_tarjan = Some s" "between adj s"
    "{..<length adj} \<subseteq> dom (indices s)" by (auto simp: atLeast0LessThan)
  have inv: "tarjan_inv adj s" and e: "t_stack s = []" using s(2) by (auto simp: between_def)
  note I = tarjan_invE[OF inv]
  have "set (concat (t_sccs s)) = dom (indices s)" using I(2) e by (auto simp: stack_ok_def emitted_def)
  moreover have "dom (indices s) \<subseteq> {..<length adj}" using nums_okD(2)[OF I(1)] by auto
  ultimately have "set (concat (t_sccs s)) = {..<length adj}" using s(3) by blast
  then show ?thesis using I(6) s(1) by (auto simp: find_sccs_def comps_ok_def)
qed

section \<open>Interning and the adjacency lists\<close>

lemma intern_set [simp]: "set (intern x ns) = insert x (set ns)"
  by (auto simp: intern_def)

lemma intern_distinct [simp]: "distinct ns \<Longrightarrow> distinct (intern x ns)"
  by (simp add: intern_def)

lemma fold_intern:
  "set (fold intern xs ns) = set ns \<union> set xs" "distinct ns \<Longrightarrow> distinct (fold intern xs ns)"
  by (induction xs arbitrary: ns) auto

lemma fold_intern_edges:
  "set (fold (\<lambda>(u, v) ns. intern v (intern u ns)) es ns) = set ns \<union> fst ` set es \<union> snd ` set es"
  "distinct ns \<Longrightarrow> distinct (fold (\<lambda>(u, v) ns. intern v (intern u ns)) es ns)"
  by (induction es arbitrary: ns) auto

lemma intern_all_set: "set (intern_all vs es) = set vs \<union> fst ` set es \<union> snd ` set es"
  by (simp add: intern_all_def fold_intern_edges fold_intern)

lemma intern_all_distinct: "distinct (intern_all vs es)"
  by (simp add: intern_all_def fold_intern_edges fold_intern)

lemma idx_of_nth: "distinct ns \<Longrightarrow> idx_of ns x = Some i \<longleftrightarrow> i < length ns \<and> ns ! i = x"
  by (auto simp: idx_of_def map_of_eq_Some_iff set_zip)

lemma idx_of_member: "x \<in> set ns \<Longrightarrow> \<exists>i. idx_of ns x = Some i"
  using map_of_zip_is_Some[of ns "[0..<length ns]" x] by (simp add: idx_of_def)

lemma push_edges_returns:
  assumes "distinct ns" and "fst ` set es \<union> snd ` set es \<subseteq> set ns" and "length adj = length ns"
  shows "\<exists>adj'. push_edges (idx_of ns) es adj = Some adj' \<and> length adj' = length ns \<and>
    (\<forall>i<length ns. set (adj' ! i) = set (adj ! i) \<union> {j. j < length ns \<and> (ns ! i, ns ! j) \<in> set es})"
  using assms(2,3)
proof (induction es arbitrary: adj)
  case (Cons e es)
  obtain u v where e: "e = (u, v)" by force
  obtain i j where ij: "idx_of ns u = Some i" "idx_of ns v = Some j"
    using Cons.prems(1) idx_of_member[of u ns] idx_of_member[of v ns] e by auto
  then have n: "i < length ns" "ns ! i = u" "j < length ns" "ns ! j = v"
    using idx_of_nth[OF assms(1)] by blast+
  let ?adj = "adj[i := adj ! i @ [j]]"
  obtain adj' where a: "push_edges (idx_of ns) es ?adj = Some adj'" "length adj' = length ns"
    "\<forall>k<length ns. set (adj' ! k) = set (?adj ! k) \<union> {l. l < length ns \<and> (ns ! k, ns ! l) \<in> set es}"
    using Cons.IH[of ?adj] Cons.prems by auto
  have "set (adj' ! k) = set (adj ! k) \<union> {l. l < length ns \<and> (ns ! k, ns ! l) \<in> set (e # es)}"
    if k: "k < length ns" for k
  proof -
    have "{l. l < length ns \<and> (ns ! k, ns ! l) = e} = (if k = i then {j} else {})"
      using n k assms(1) e by (auto simp: nth_eq_iff_index_eq)
    moreover have "{l. l < length ns \<and> (ns ! k, ns ! l) \<in> set (e # es)} =
        {l. l < length ns \<and> (ns ! k, ns ! l) = e} \<union> {l. l < length ns \<and> (ns ! k, ns ! l) \<in> set es}"
      by auto
    ultimately show ?thesis using a(3)[rule_format, OF k] k Cons.prems(2) n(1) by (simp add: nth_list_update Un_commute)
  qed
  then show ?case using a n ij Cons.prems(2) by (simp add: e)
qed auto

lemma build_adjacency_correct:
  obtains ns adj where "build_adjacency vs es = Some (ns, adj)" and "distinct ns"
    and "set ns = set vs \<union> fst ` set es \<union> snd ` set es" and "length adj = length ns" and "adj_ok adj"
    and "edge adj = {(i, j). i < length ns \<and> j < length ns \<and> (ns ! i, ns ! j) \<in> set es}"
proof -
  let ?ns = "intern_all vs es"
  have d: "distinct ?ns" by (rule intern_all_distinct)
  obtain adj where a: "push_edges (idx_of ?ns) es (replicate (length ?ns) []) = Some adj" "length adj = length ?ns"
    "\<forall>i<length ?ns. set (adj ! i) = {j. j < length ?ns \<and> (?ns ! i, ?ns ! j) \<in> set es}"
    using push_edges_returns[OF d, of es "replicate (length ?ns) []"] by (auto simp: intern_all_set)
  let ?adj = "map (\<lambda>l. remdups_adj (sort l)) adj"
  have "build_adjacency vs es = Some (?ns, ?adj)" by (simp add: build_adjacency_def Let_def a)
  moreover have "adj_ok ?adj" using a(2,3) by (auto simp: adj_ok_def in_set_conv_nth[of _ adj])
  moreover have "edge ?adj = {(i, j). i < length ?ns \<and> j < length ?ns \<and> (?ns ! i, ?ns ! j) \<in> set es}"
    using a(2,3) by (auto simp: edge_def)
  ultimately show ?thesis using that[of ?ns ?adj] d a(2) intern_all_set[of vs es] by simp
qed

section \<open>From indices back to vertices\<close>

lemma rtrancl_indices:
  assumes f: "inj_on f {..<n}" and E: "Field E \<subseteq> f ` {..<n}" and i: "i < (n :: nat)"
    and R: "R = {(i, j). i < n \<and> j < n \<and> (f i, f j) \<in> E}"
  shows "(i, j) \<in> R\<^sup>* \<longleftrightarrow> j < n \<and> (f i, f j) \<in> E\<^sup>*"
proof
  assume "(i, j) \<in> R\<^sup>*"
  then show "j < n \<and> (f i, f j) \<in> E\<^sup>*"
    by induction (use i in \<open>auto simp: R intro: rtrancl_into_rtrancl\<close>)
next
  have "(f i, y) \<in> E\<^sup>* \<Longrightarrow> \<exists>j<n. y = f j \<and> (i, j) \<in> R\<^sup>*" for y
  proof (induction rule: rtrancl_induct)
    case (step y z)
    then obtain j where j: "j < n" "y = f j" "(i, j) \<in> R\<^sup>*" by blast
    moreover obtain k where "k < n" "z = f k" using E step(2) by (force simp: Field_def)
    ultimately have "(j, k) \<in> R" using step(2) by (simp add: R)
    with j(3) have "(i, k) \<in> R\<^sup>*" by (rule rtrancl_into_rtrancl)
    then show ?case using \<open>k < n\<close> \<open>z = f k\<close> by blast
  qed (use i in auto)
  moreover assume "j < n \<and> (f i, f j) \<in> E\<^sup>*"
  ultimately show "(i, j) \<in> R\<^sup>*" using f by (metis inj_onD lessThan_iff)
qed

lemma mutual_indices:
  assumes "inj_on f {..<n}" "Field E \<subseteq> f ` {..<n}" "i < (n :: nat)"
    "R = {(i, j). i < n \<and> j < n \<and> (f i, f j) \<in> E}"
  shows "f ` mutual R i = mutual E (f i)"
proof -
  have iff: "(k, l) \<in> R\<^sup>* \<longleftrightarrow> l < n \<and> (f k, f l) \<in> E\<^sup>*" if "k < n" for k l
    using rtrancl_indices[OF assms(1,2) that assms(4)] .
  have n: "y \<in> f ` {..<n}" if "(f i, y) \<in> E\<^sup>*" for y
    using that assms(2,3) by (cases rule: rtranclE) (auto simp: Field_def)
  have m: "j \<in> mutual R i \<longleftrightarrow> j < n \<and> f j \<in> mutual E (f i)" for j
    using iff[of i j] iff[of j i] assms(3) by (auto simp: mutual_def)
  show ?thesis
  proof (intro set_eqI iffI)
    fix y
    assume y: "y \<in> mutual E (f i)"
    then have "y \<in> f ` {..<n}" using n by (simp add: mutual_def)
    then obtain j where "j < n" "y = f j" by blast
    then show "y \<in> f ` mutual R i" using m y by simp
  qed (use m in auto)
qed

lemma strictly_sorted_sort: "distinct xs \<Longrightarrow> sorted_wrt (<) (sort xs)"
  by (simp add: strict_sorted_iff)

lemma heads_strict:
  assumes "distinct (concat cs)" and "[] \<notin> set cs" and "sorted (map hd cs)"
  shows "sorted_wrt (<) (map hd cs)"
proof -
  have "distinct (map hd cs)"
    using assms(1,2) by (induction cs) (auto, metis UN_I hd_in_set disjoint_iff list.set_sel(1))
  then show ?thesis using assms(3) by (simp add: strict_sorted_iff)
qed

lemma length_ge_2_iff:
  assumes "set c = A" and "distinct c" and "x \<in> set c"
  shows "length c \<ge> 2 \<longleftrightarrow> (\<exists>y. y \<noteq> x \<and> y \<in> A)"
proof -
  have "length c = card A" using assms(1,2) distinct_card by fastforce
  also have "2 \<le> card A \<longleftrightarrow> \<not> A \<subseteq> {x}"
  proof
    assume "2 \<le> card A"
    then show "\<not> A \<subseteq> {x}" using card_mono[of "{x}" A] by fastforce
  next
    assume "\<not> A \<subseteq> {x}"
    then obtain y where "{x, y} \<subseteq> A" "x \<noteq> y" using assms(1,3) by blast
    moreover have "finite A" using assms(1) by auto
    ultimately show "2 \<le> card A" using card_mono[of A "{x, y}"] by simp
  qed
  finally show ?thesis by blast
qed

text \<open>A vertex is on a cycle when it has an edge to itself or shares its component.\<close>

lemma self_reach_iff:
  "(x, x) \<in> E\<^sup>+ \<longleftrightarrow> (x, x) \<in> E \<or> (\<exists>y. y \<noteq> x \<and> (x, y) \<in> E\<^sup>* \<and> (y, x) \<in> E\<^sup>*)"
proof
  assume "(x, x) \<in> E\<^sup>+"
  then obtain y where "(x, y) \<in> E" "(y, x) \<in> E\<^sup>*" by (meson tranclD)
  then show "(x, x) \<in> E \<or> (\<exists>y. y \<noteq> x \<and> (x, y) \<in> E\<^sup>* \<and> (y, x) \<in> E\<^sup>*)" by (cases "x = y") auto
next
  assume "(x, x) \<in> E \<or> (\<exists>y. y \<noteq> x \<and> (x, y) \<in> E\<^sup>* \<and> (y, x) \<in> E\<^sup>*)"
  then show "(x, x) \<in> E\<^sup>+" by (metis r_into_trancl' rtranclD rtrancl_trancl_trancl)
qed

lemma materialise_concat:
  assumes "distinct ns" and "distinct (concat cs)" and "set (concat cs) = {..<length ns}" and "[] \<notin> set cs"
  shows "mset (concat (materialise ns cs)) = mset ns" and "[] \<notin> set (materialise ns cs)"
proof -
  have "mset (concat (map (\<lambda>ixs. sort (map ((!) ns) ixs)) cs)) = image_mset ((!) ns) (mset (concat cs))"
    by (induction cs) auto
  also have "mset (concat cs) = mset [0..<length ns]"
    using mset_set_set[OF assms(2)] assms(3) by (simp only: mset_upt atLeast0LessThan)
  also have "image_mset ((!) ns) (mset [0..<length ns]) = mset ns" by (metis map_nth mset_map)
  finally show "mset (concat (materialise ns cs)) = mset ns"
    unfolding materialise_def mset_concat by (simp add: image_mset.compositionality flip: sum_mset_sum_list)
  have "sort (map ((!) ns) ixs) \<noteq> []" if "ixs \<in> set cs" for ixs
  proof
    assume "sort (map ((!) ns) ixs) = []"
    then have "length ixs = 0" by (metis length_0_conv length_map length_sort)
    then show False using that assms(4) by simp
  qed
  then show "[] \<notin> set (materialise ns cs)" by (auto simp: materialise_def eq_commute[of "[]"])
qed

lemma materialise_correct:
  assumes "distinct ns" and "distinct (concat cs)" and "set (concat cs) = {..<length ns}" and "[] \<notin> set cs"
  shows "distinct (concat (materialise ns cs))" and "set (concat (materialise ns cs)) = set ns"
    and "sorted_wrt (<) (map hd (materialise ns cs))"
    and "\<forall>c\<in>set (materialise ns cs). c \<noteq> [] \<and> sorted_wrt (<) c"
proof -
  note M = materialise_concat[OF assms]
  show d: "distinct (concat (materialise ns cs))" using M(1) assms(1) by (metis mset_eq_imp_distinct_iff)
  show "set (concat (materialise ns cs)) = set ns" using M(1) by (metis set_mset_mset)
  show "sorted_wrt (<) (map hd (materialise ns cs))"
    by (rule heads_strict[OF d M(2)]) (simp add: materialise_def)
  show "\<forall>c\<in>set (materialise ns cs). c \<noteq> [] \<and> sorted_wrt (<) c"
  proof (intro ballI conjI)
    fix c
    assume c: "c \<in> set (materialise ns cs)"
    then show "c \<noteq> []" using M(2) by auto
    have "sorted c" using c by (auto simp: materialise_def)
    moreover have "distinct c" using d c by (simp add: distinct_concat_iff)
    ultimately show "sorted_wrt (<) c" by (simp add: strict_sorted_iff)
  qed
qed

lemma tarjan_scc_correct:
  obtains cs where "tarjan_scc vs es = Some cs" and "distinct (concat cs)"
    and "set (concat cs) = set vs \<union> fst ` set es \<union> snd ` set es" and "sorted_wrt (<) (map hd cs)"
    and "\<forall>c\<in>set cs. c \<noteq> [] \<and> sorted_wrt (<) c \<and> (\<forall>x\<in>set c. set c = mutual (set es) x)"
proof -
  obtain ns adj where b: "build_adjacency vs es = Some (ns, adj)" and d: "distinct ns"
    and ns: "set ns = set vs \<union> fst ` set es \<union> snd ` set es" and l: "length adj = length ns" and ok: "adj_ok adj"
    and e: "edge adj = {(i, j). i < length ns \<and> j < length ns \<and> (ns ! i, ns ! j) \<in> set es}"
    by (rule build_adjacency_correct[of vs es])
  obtain ics where f: "find_sccs adj = Some ics" and ics: "distinct (concat ics)" "set (concat ics) = {..<length ns}"
    "\<And>c. c \<in> set ics \<Longrightarrow> c \<noteq> [] \<and> (\<forall>x\<in>set c. set c = mutual (edge adj) x)"
    using find_sccs_correct[OF ok] l by auto
  have "[] \<notin> set ics" using ics(3) by blast
  note M = materialise_correct[OF d ics(1,2) this]
  have img: "(!) ns ` {..<length ns} = set ns" by (auto simp: in_set_conv_nth)
  have "set c = mutual (set es) x" if c: "c \<in> set (materialise ns ics)" "x \<in> set c" for c x
  proof -
    obtain ixs where ixs: "ixs \<in> set ics" "set c = (!) ns ` set ixs" using c(1) by (auto simp: materialise_def)
    then obtain i where i: "i \<in> set ixs" "x = ns ! i" using c(2) by auto
    have "i < length ns" using ics(2) ixs(1) i(1) by fastforce
    moreover have "inj_on ((!) ns) {..<length ns}" using d by (simp add: inj_on_nth)
    moreover have "Field (set es) \<subseteq> (!) ns ` {..<length ns}" unfolding img ns by (force simp: Field_def)
    ultimately have "(!) ns ` mutual (edge adj) i = mutual (set es) x" using mutual_indices[OF _ _ _ e] i(2) by simp
    moreover have "set ixs = mutual (edge adj) i" using ics(3)[OF ixs(1)] i(1) by blast
    ultimately show ?thesis using ixs(2) by simp
  qed
  then show ?thesis using that[of "materialise ns ics"] b f M ns by (simp add: tarjan_scc_def)
qed

text \<open>
  C3. \<open>tarjan_scc\<close> always returns, and what it returns are exactly the strongly connected
  components of the graph: every vertex that is declared or is the end of an edge occurs exactly
  once, two vertices share a component exactly when each reaches the other, a component is an
  ascending list without repetitions, and the components are ascending by their first vertex.\<close>

theorem tarjan_scc_components:
  "\<exists>cs. tarjan_scc vertices edges = Some cs \<and> distinct (concat cs) \<and>
     set (concat cs) = set vertices \<union> fst ` set edges \<union> snd ` set edges \<and> sorted_wrt (<) (map hd cs) \<and>
     (\<forall>c\<in>set cs. c \<noteq> [] \<and> sorted_wrt (<) c \<and>
        (\<forall>x\<in>set c. \<forall>y. y \<in> set c \<longleftrightarrow> (x, y) \<in> (set edges)\<^sup>* \<and> (y, x) \<in> (set edges)\<^sup>*))"
proof -
  obtain cs where "tarjan_scc vertices edges = Some cs" "distinct (concat cs)"
    "set (concat cs) = set vertices \<union> fst ` set edges \<union> snd ` set edges" "sorted_wrt (<) (map hd cs)"
    "\<forall>c\<in>set cs. c \<noteq> [] \<and> sorted_wrt (<) c \<and> (\<forall>x\<in>set c. set c = mutual (set edges) x)"
    by (rule tarjan_scc_correct[of vertices edges])
  then show ?thesis by (intro exI[of _ cs] conjI ballI allI) (auto simp: mutual_def)
qed

theorem tarjan_scc_components_witness:
  "\<exists>cs. tarjan_scc [1::nat] [(2, 3), (3, 2)] = Some cs \<and> set (concat cs) = {1, 2, 3}"
  using tarjan_scc_components[of "[1::nat]" "[(2, 3), (3, 2)]"] by auto

text \<open>
  The wait-cycle report \<open>non_trivial_sccs\<close> names exactly the sessions that wait on
  themselves, directly or through others, and is empty exactly when the wait graph is acyclic.\<close>

theorem non_trivial_sccs_cycles:
  "\<exists>cs. non_trivial_sccs vertices edges = Some cs \<and>
     (\<forall>x. x \<in> set (concat cs) \<longleftrightarrow> (x, x) \<in> (set edges)\<^sup>+) \<and> (cs = [] \<longleftrightarrow> acyclic (set edges))"
proof -
  let ?E = "set edges"
  obtain cs where cs: "tarjan_scc vertices edges = Some cs"
    "set (concat cs) = set vertices \<union> fst ` ?E \<union> snd ` ?E"
    "\<forall>c\<in>set cs. c \<noteq> [] \<and> sorted_wrt (<) c \<and> (\<forall>x\<in>set c. set c = mutual ?E x)"
    by (rule tarjan_scc_correct[of vertices edges])
  define P where "P c \<longleftrightarrow> length c \<ge> 2 \<or> (length c = 1 \<and> (c ! 0, c ! 0) \<in> ?E)" for c
  have n: "non_trivial_sccs vertices edges = Some (filter P cs)"
    unfolding non_trivial_sccs_def cs(1) P_def by (force simp: Let_def intro!: filter_cong)
  have cyc: "P c \<longleftrightarrow> (x, x) \<in> ?E\<^sup>+" if c: "c \<in> set cs" "x \<in> set c" for c x
  proof -
    have m: "set c = mutual ?E x" and "distinct c" using cs(3) c by (auto simp: strict_sorted_iff)
    then have "length c \<ge> 2 \<longleftrightarrow> (\<exists>y. y \<noteq> x \<and> y \<in> mutual ?E x)"
      using c(2) by (rule length_ge_2_iff)
    then have "length c \<ge> 2 \<longleftrightarrow> (\<exists>y. y \<noteq> x \<and> (x, y) \<in> ?E\<^sup>* \<and> (y, x) \<in> ?E\<^sup>*)" by (simp add: mutual_def)
    moreover have "length c = 1 \<Longrightarrow> c ! 0 = x" using c(2) by (auto simp: length_Suc_conv)
    moreover have "length c \<ge> 2 \<or> length c = 1" using c(2) by (cases c) (auto simp: Suc_le_eq)
    ultimately show ?thesis unfolding self_reach_iff[of x ?E] P_def by metis
  qed
  have mem: "x \<in> set (concat (filter P cs)) \<longleftrightarrow> (x, x) \<in> ?E\<^sup>+" for x
  proof
    assume "(x, x) \<in> ?E\<^sup>+"
    moreover from this have "x \<in> set (concat cs)" unfolding cs(2) by (cases rule: tranclE) force+
    ultimately show "x \<in> set (concat (filter P cs))" using cyc by auto
  qed (use cyc in auto)
  have "filter P cs = [] \<longleftrightarrow> set (concat (filter P cs)) = {}" using cs(3) by (auto simp: filter_empty_conv)
  then have "filter P cs = [] \<longleftrightarrow> acyclic ?E" unfolding acyclic_def mem[symmetric] by (metis equals0I empty_iff)
  then show ?thesis using n mem by (intro exI[of _ "filter P cs"]) blast
qed

end
