(* ===== verification/GraphOps.thy ===== *)
theory GraphOps
  imports Graph "HOL-Library.Product_Lexorder"
begin

text \<open>
  Re-planning and ordering on dependency graphs: \<open>prune_completed\<close> and \<open>insert_subgraph\<close>
  (\<open>crates/cosmon-graph/src/mutation.rs\<close>), and the model-affinity ordering of a ready batch
  (\<open>affinity.rs\<close>).
\<close>

section \<open>Definitions\<close>

definition prune_completed ::
  "('n::linorder list \<Rightarrow> 'n list) \<Rightarrow> 'n edges \<Rightarrow> 'n set \<Rightarrow> 'n edges \<times> 'n list"
where
  "prune_completed it es completed =
     (let pruned = sort (filter (\<lambda>(src, _). src \<notin> completed) es);
          remaining = set (edge_nodes pruned);
          removed = sort (filter (\<lambda>n. n \<notin> remaining) (it (node_keys es)))
      in (pruned, removed))"

text \<open>The chained loop of \<open>insert_subgraph\<close>: an edge is kept the first time it is seen.\<close>

fun merge_edges :: "('n \<times> 'n) set \<Rightarrow> 'n edges \<Rightarrow> 'n edges" where
  "merge_edges seen [] = []"
| "merge_edges seen (e # es) =
     (if e \<in> seen then merge_edges seen es else e # merge_edges (insert e seen) es)"

definition insert_subgraph ::
  "('n::linorder list \<Rightarrow> 'n list) \<Rightarrow> 'n edges \<Rightarrow> 'n edges \<Rightarrow> ('n cycle_error + 'n edges) option"
where
  "insert_subgraph it es new_edges =
     (let merged = merge_edges {} (es @ new_edges)
      in Option.bind (toposort it merged) (\<lambda>r. Some (and_then r (\<lambda>_. Ok (sort merged)))))"

text \<open>A \<open>BTreeMap\<close> of buckets: an association list with ascending keys.\<close>

fun btree_push :: "'m::linorder \<Rightarrow> 'n \<Rightarrow> ('m \<times> 'n list) list \<Rightarrow> ('m \<times> 'n list) list" where
  "btree_push m n [] = [(m, [n])]"
| "btree_push m n ((k, b) # r) =
     (if m < k then (m, [n]) # (k, b) # r
      else if m = k then (k, b @ [n]) # r
      else (k, b) # btree_push m n r)"

fun bucketize ::
  "('n \<Rightarrow> 'm::linorder option) \<Rightarrow> 'n list \<Rightarrow> ('m \<times> 'n list) list \<Rightarrow> 'n list
     \<Rightarrow> ('m \<times> 'n list) list \<times> 'n list"
where
  "bucketize model_of [] named unbound = (named, unbound)"
| "bucketize model_of (n # ns) named unbound =
     (case model_of n of
        Some m \<Rightarrow> bucketize model_of ns (btree_push m n named) unbound
      | None \<Rightarrow> bucketize model_of ns named (unbound @ [n]))"

definition affinity_order ::
  "'n list \<Rightarrow> ('n \<Rightarrow> 'm::linorder option) \<Rightarrow> 'm option \<Rightarrow> 'n list"
where
  "affinity_order frontier model_of resident =
     (let (named, unbound) = bucketize model_of frontier [] [];
          (first, rest) =
            (case resident of
               None \<Rightarrow> ([], named)
             | Some r \<Rightarrow>
                 (case map_of named r of
                    None \<Rightarrow> ([], named)
                  | Some bucket \<Rightarrow> (bucket, filter (\<lambda>(k, _). k \<noteq> r) named)))
      in first @ concat (map snd rest) @ unbound)"

fun model_switch_count :: "'n list \<Rightarrow> ('n \<Rightarrow> 'm option) \<Rightarrow> 'm option \<Rightarrow> nat" where
  "model_switch_count [] model_of current = 0"
| "model_switch_count (n # ns) model_of current =
     (case model_of n of
        None \<Rightarrow> model_switch_count ns model_of current
      | Some m \<Rightarrow>
          if current \<noteq> Some m then Suc (model_switch_count ns model_of (Some m))
          else model_switch_count ns model_of current)"

section \<open>Pruning and splicing\<close>

lemma nodes_sort [simp]: "nodes (sort es) = nodes es"
  by (simp add: nodes_def)

lemma preds_sort [simp]: "preds (sort es) n = preds es n"
  by (simp add: preds_def)

lemma preds_prune: "preds (filter (\<lambda>(src, _). src \<notin> S) es) n = preds es n - S"
  by (auto simp: preds_def)

text \<open>
  Pruning commutes with the frontier: on the pruned graph with nothing completed the
  frontier is the original frontier restricted to the nodes the pruned graph still mentions,
  and the second component lists exactly the nodes it no longer mentions.
\<close>

theorem prune_completed_correct:
  assumes "hash_order it" and "prune_completed it es completed = (pruned, removed)"
  shows "set (ready_frontier it pruned {}) = set (ready_frontier it es completed) \<inter> nodes pruned
    \<and> removed = sorted_list_of_set (nodes es - nodes pruned)
    \<and> set pruned = {e \<in> set es. fst e \<notin> completed} \<and> sorted pruned"
proof -
  let ?f = "filter (\<lambda>(src, _). src \<notin> completed) es"
  have p: "pruned = sort ?f" and r: "removed = sort (filter (\<lambda>n. n \<notin> nodes ?f) (it (node_keys es)))"
    using assms(2) by (auto simp: prune_completed_def Let_def)
  note it = hash_orderD[OF assms(1) distinct_node_keys[of es]]
  have "set (ready_frontier it pruned {}) = set (ready_frontier it es completed) \<inter> nodes pruned"
  proof -
    have "n \<notin> completed" if "n \<in> nodes ?f" "preds es n \<subseteq> completed" for n
      using that by (force simp: nodes_def preds_def)
    moreover have "nodes ?f \<subseteq> nodes es" by (auto simp: nodes_def)
    moreover have "set (ready_frontier it pruned {}) = {n \<in> nodes ?f. preds es n \<subseteq> completed}"
      by (simp add: set_ready_frontier[OF assms(1)] p preds_prune)
    ultimately show ?thesis unfolding set_ready_frontier[OF assms(1)] p nodes_sort by blast
  qed
  moreover have "distinct removed" "sorted removed" "set removed = nodes es - nodes pruned"
    using it by (auto simp: r p)
  then have "removed = sorted_list_of_set (nodes es - nodes pruned)"
    by (metis sorted_list_of_set.idem_if_sorted_distinct)
  ultimately show ?thesis by (auto simp: p)
qed

theorem prune_completed_correct_witness:
  "prune_completed rev [(1::nat, 2), (2, 3)] {1} = ([(2, 3)], [1])
   \<and> sorted_list_of_set (nodes [(1::nat, 2), (2, 3)] - nodes [(2, 3)]) = [1]"
proof -
  have e: "prune_completed rev [(1::nat, 2), (2, 3)] {1} = ([(2, 3)], [1])"
    by (simp add: prune_completed_def node_keys_def nodes_def Let_def)
  show ?thesis using e prune_completed_correct[OF hash_order_rev e] by simp
qed

lemma merge_edges_set: "set (merge_edges seen es) = set es - seen"
  by (induction seen es rule: merge_edges.induct) auto

lemma merge_edges_distinct: "distinct (merge_edges seen es)"
  by (induction seen es rule: merge_edges.induct) (auto simp: merge_edges_set)

text \<open>
  Splicing: the union is returned, sorted and without duplicates, exactly when it is
  acyclic; otherwise the call fails with a cycle error.
\<close>

theorem insert_subgraph_correct:
  assumes "hash_order it"
  shows "(acyclic (set es \<union> set new_edges) \<longrightarrow>
       insert_subgraph it es new_edges = Some (Ok (sorted_list_of_set (set es \<union> set new_edges))))
    \<and> (\<not> acyclic (set es \<union> set new_edges) \<longrightarrow>
       (\<exists>n. insert_subgraph it es new_edges = Some (Err (CycleError n))))"
proof -
  let ?m = "merge_edges {} (es @ new_edges)"
  have set: "set ?m = set es \<union> set new_edges" by (simp add: merge_edges_set)
  have sorted: "sort ?m = sorted_list_of_set (set es \<union> set new_edges)"
    by (metis set merge_edges_distinct distinct_sort set_sort sorted_sort
        sorted_list_of_set.idem_if_sorted_distinct)
  show ?thesis
  proof (cases "acyclic (set ?m)")
    case True
    from toposort_acyclic[OF assms this] obtain ord where "toposort it ?m = Some (Ok ord)" .
    with True show ?thesis by (simp add: insert_subgraph_def set sorted)
  next
    case False
    from toposort_cyclic[OF assms this] obtain n where "toposort it ?m = Some (Err (CycleError n))"
      by metis
    with False show ?thesis by (simp add: insert_subgraph_def set)
  qed
qed

theorem insert_subgraph_correct_witness:
  "insert_subgraph rev [(2::nat, 3)] [(1, 2), (2, 3)] = Some (Ok [(1, 2), (2, 3)])"
proof -
  have "acyclic (set [(2::nat, 3)] \<union> set [(1, 2), (2, 3)])"
    using topo_from_acyclic[of "[(2::nat, 3), (1, 2), (2, 3)]" "[1, 2, 3]"]
    by (auto simp: preds_def nodes_def)
  with insert_subgraph_correct[OF hash_order_rev, of "[(2::nat, 3)]" "[(1, 2), (2, 3)]"]
  show ?thesis by simp
qed

section \<open>Model affinity\<close>

abbreviation bound_to :: "('n \<Rightarrow> 'm option) \<Rightarrow> 'm \<Rightarrow> 'n list \<Rightarrow> 'n list" where
  "bound_to model_of m ns \<equiv> filter (\<lambda>n. model_of n = Some m) ns"

definition models :: "('n \<Rightarrow> 'm option) \<Rightarrow> 'n list \<Rightarrow> 'm set" where
  "models model_of ns = {m. \<exists>n\<in>set ns. model_of n = Some m}"

lemma models_simps [simp]:
  "models f [] = {}"
  "models f (n # ns) = (case f n of None \<Rightarrow> models f ns | Some m \<Rightarrow> insert m (models f ns))"
  "models f (xs @ ys) = models f xs \<union> models f ys"
  by (auto simp: models_def split: option.splits)

lemma finite_models [simp]: "finite (models f ns)"
  by (induction ns) (auto split: option.splits)

definition btree_inv :: "('n \<Rightarrow> 'm::linorder option) \<Rightarrow> 'n list \<Rightarrow> ('m \<times> 'n list) list \<Rightarrow> bool" where
  "btree_inv f ns named \<longleftrightarrow>
     named = map (\<lambda>k. (k, bound_to f k ns)) (sorted_list_of_set (models f ns))"

lemma btree_push_keys: "set (map fst (btree_push m n named)) = insert m (set (map fst named))"
  by (induction m n named rule: btree_push.induct) auto

lemma btree_push_sorted:
  "sorted_wrt (<) (map fst named) \<Longrightarrow> sorted_wrt (<) (map fst (btree_push m n named))"
proof (induction m n named rule: btree_push.induct)
  case (2 m n k b r)
  then show ?case using btree_push_keys[of m n r] by (auto simp: less_trans)
qed simp

lemma btree_push_lookup:
  "sorted_wrt (<) (map fst named) \<Longrightarrow>
   map_of (btree_push m n named) = (map_of named)(m \<mapsto> (case map_of named m of None \<Rightarrow> [] | Some b \<Rightarrow> b) @ [n])"
proof (induction m n named rule: btree_push.induct)
  case (2 m n k b r)
  have "map_of r m = None" if "m < k"
    using 2(2) that by (auto simp: map_of_eq_None_iff)
  with 2 show ?case by (auto simp: fun_eq_iff)
qed auto

lemma alist_canonical:
  assumes "distinct (map fst xs)"
  shows "xs = map (\<lambda>k. (k, the (map_of xs k))) (map fst xs)"
proof -
  have "map ((\<lambda>k. (k, the (map_of xs k))) \<circ> fst) xs = xs"
    by (rule map_idI) (use map_of_is_SomeI[OF assms] in auto)
  then show ?thesis by simp
qed

text \<open>The buckets after the whole frontier: one per model, ascending, each a stable filter.\<close>

lemma bucketize_named:
  assumes "sorted_wrt (<) (map fst named)" "set (map fst named) = models f ps"
    "\<And>k. k \<in> models f ps \<Longrightarrow> map_of named k = Some (bound_to f k ps)"
    "bucketize f ns named ub = (named', ub')"
  shows "named' = map (\<lambda>k. (k, bound_to f k (ps @ ns))) (sorted_list_of_set (models f (ps @ ns)))
     \<and> ub' = ub @ filter (\<lambda>n. f n = None) ns"
  using assms
proof (induction ns arbitrary: ps named ub)
  case Nil
  have d: "distinct (map fst named)" using Nil.prems(1) by (simp add: strict_sorted_iff)
  have "map fst named = sorted_list_of_set (models f ps)"
    using Nil.prems(1,2) by (metis strict_sorted_iff sorted_list_of_set.idem_if_sorted_distinct)
  with alist_canonical[OF d]
  have "named = map (\<lambda>k. (k, the (map_of named k))) (sorted_list_of_set (models f ps))" by metis
  also have "\<dots> = map (\<lambda>k. (k, bound_to f k ps)) (sorted_list_of_set (models f ps))"
    by (rule map_cong) (use Nil.prems(3) in auto)
  finally show ?case using Nil.prems(4) by simp
next
  case (Cons n ns)
  show ?case
  proof (cases "f n")
    case None
    then have "models f (ps @ [n]) = models f ps" "\<And>k. bound_to f k (ps @ [n]) = bound_to f k ps"
      by simp_all
    then show ?thesis
      using Cons.IH[of named "ps @ [n]" "ub @ [n]"] Cons.prems None by simp
  next
    case (Some m)
    let ?nm = "btree_push m n named"
    have "map_of named m = None" if "m \<notin> models f ps"
      using that Cons.prems(2) by (auto simp: map_of_eq_None_iff)
    moreover have "bound_to f m ps = []" if "m \<notin> models f ps"
      using that by (auto simp: models_def filter_empty_conv)
    ultimately have "map_of ?nm k = Some (bound_to f k (ps @ [n]))" if "k \<in> models f (ps @ [n])" for k
      using that Cons.prems(3)[of k] Cons.prems(3)[of m] Some
      by (cases "m \<in> models f ps") (auto simp: btree_push_lookup[OF Cons.prems(1)])
    moreover have "set (map fst ?nm) = models f (ps @ [n])"
      using Cons.prems(2) Some btree_push_keys[of m n named] by simp
    ultimately show ?thesis
      using Cons.IH[OF btree_push_sorted[OF Cons.prems(1)], where ps = "ps @ [n]"] Cons.prems(4) Some
      by simp
  qed
qed


abbreviation other_models :: "('n \<Rightarrow> 'm::linorder option) \<Rightarrow> 'n list \<Rightarrow> 'm option \<Rightarrow> 'm list" where
  "other_models f ns resident \<equiv> filter (\<lambda>m. Some m \<noteq> resident) (sorted_list_of_set (models f ns))"

lemma affinity_order_eq:
  "affinity_order ns f resident =
     (case resident of None \<Rightarrow> [] | Some r \<Rightarrow> bound_to f r ns)
     @ concat (map (\<lambda>m. bound_to f m ns) (other_models f ns resident))
     @ filter (\<lambda>n. f n = None) ns"
proof -
  obtain named ub where b: "bucketize f ns [] [] = (named, ub)" by fastforce
  have "named = map (\<lambda>k. (k, bound_to f k ns)) (sorted_list_of_set (models f ns))"
    and "ub = filter (\<lambda>n. f n = None) ns"
    using bucketize_named[of "[]" f "[]", OF _ _ _ b] by auto
  moreover have "bound_to f r ns = []" if "r \<notin> models f ns" for r
    using that by (auto simp: models_def filter_empty_conv)
  moreover have "filter (\<lambda>m. m \<noteq> r) (sorted_list_of_set (models f ns)) = sorted_list_of_set (models f ns)"
    if "r \<notin> models f ns" for r
    using that by (auto simp: filter_id_conv)
  ultimately show ?thesis
    by (auto simp: affinity_order_def b map_of_map_restrict filter_map o_def restrict_map_def
        split: option.splits)
qed

lemma mset_bound_partition:
  "mset (concat (map (\<lambda>m. bound_to f m ns) (sorted_list_of_set (models f ns))))
     + mset (filter (\<lambda>n. f n = None) ns) = mset ns"
proof -
  have "count (mset (concat (map (\<lambda>m. bound_to f m ns) ms))) x
      = (if \<exists>m\<in>set ms. f x = Some m then count (mset ns) x else 0)"
    if "distinct ms" for ms x
    using that by (induction ms) (auto simp: count_mset count_list_0_iff)
  note c = this[OF distinct_sorted_list_of_set, of "models f ns"]
  show ?thesis
  proof (rule multiset_eqI)
    fix x
    show "count (mset (concat (map (\<lambda>m. bound_to f m ns) (sorted_list_of_set (models f ns))))
       + mset (filter (\<lambda>n. f n = None) ns)) x = count (mset ns) x"
    proof (cases "x \<in> set ns")
      case True
      then have "f x = Some m \<Longrightarrow> m \<in> models f ns" for m by (auto simp: models_def)
      with True show ?thesis by (cases "f x") (auto simp: c)
    next
      case False
      then show ?thesis by (simp add: c count_mset_0_iff)
    qed
  qed
qed

lemma mset_concat_split:
  "distinct ms \<Longrightarrow> mset (concat (map g (filter (\<lambda>m. m \<noteq> r) ms)))
     + (if r \<in> set ms then mset (g r) else {#}) = mset (concat (map g ms))"
  by (induction ms) (auto simp: filter_id_conv)

lemma affinity_order_mset: "mset (affinity_order ns f resident) = mset ns"
proof -
  let ?ms = "sorted_list_of_set (models f ns)"
  have split: "mset (concat (map g (filter (\<lambda>m. m \<noteq> r) ?ms)))
     + (if r \<in> models f ns then mset (g r) else {#}) = mset (concat (map g ?ms))"
    for g :: "'b \<Rightarrow> 'a list" and r
    using mset_concat_split[of ?ms g r] by simp
  have "mset (case resident of None \<Rightarrow> [] | Some r \<Rightarrow> bound_to f r ns)
      + mset (concat (map (\<lambda>m. bound_to f m ns) (other_models f ns resident)))
      = mset (concat (map (\<lambda>m. bound_to f m ns) ?ms))"
  proof (cases resident)
    case (Some r)
    moreover have "(if r \<in> models f ns then mset (bound_to f r ns) else {#}) = mset (bound_to f r ns)"
      by (auto simp: models_def filter_mset_eq_mempty_iff)
    ultimately show ?thesis
      using split[where g = "\<lambda>m. bound_to f m ns" and r = r] by (simp add: add.commute)
  qed (simp add: filter_id_conv)
  with mset_bound_partition[of f ns] show ?thesis
    by (simp add: affinity_order_eq add.assoc[symmetric])
qed

text \<open>Counting switches: a lower bound for any order, reached by the affinity order.\<close>

lemma switch_lower_bound:
  "card (models f ns - set_option cur) \<le> model_switch_count ns f cur"
proof (induction ns arbitrary: cur)
  case (Cons n ns)
  show ?case
  proof (cases "f n")
    case None
    with Cons.IH[of cur] show ?thesis by simp
  next
    case (Some m)
    show ?thesis
    proof (cases "cur = Some m")
      case True
      with Some Cons.IH[of cur] show ?thesis by simp
    next
      case False
      have "models f (n # ns) - set_option cur \<subseteq> insert m (models f ns - {m})" using Some by auto
      then have "card (models f (n # ns) - set_option cur) \<le> card (insert m (models f ns - {m}))"
        by (rule card_mono[rotated]) simp
      also have "\<dots> \<le> Suc (card (models f ns - {m}))" by (subst card_insert_disjoint) auto
      also have "\<dots> \<le> Suc (model_switch_count ns f (Some m))" using Cons.IH[of "Some m"] by simp
      finally show ?thesis using Some False by simp
    qed
  qed
qed simp

lemma switch_same: "\<forall>n\<in>set ns. f n = Some m \<Longrightarrow>
    model_switch_count (ns @ ms) f (Some m) = model_switch_count ms f (Some m)"
  by (induction ns) auto

lemma switch_none: "\<forall>n\<in>set ns. f n = None \<Longrightarrow> model_switch_count ns f cur = 0"
  by (induction ns) auto

lemma switch_buckets:
  assumes "distinct ms" and "\<forall>m\<in>set ms. cur \<noteq> Some m \<and> bound_to f m ns \<noteq> []"
    and "\<forall>n\<in>set tail. f n = None"
  shows "model_switch_count (concat (map (\<lambda>m. bound_to f m ns) ms) @ tail) f cur = length ms"
  using assms
proof (induction ms arbitrary: cur)
  case Nil
  then show ?case by (simp add: switch_none)
next
  case (Cons m ms)
  then obtain n b where b: "bound_to f m ns = n # b" by (cases "bound_to f m ns") auto
  have "f x = Some m" if "x \<in> set (bound_to f m ns)" for x using that by simp
  then have nb: "f n = Some m" "\<forall>x\<in>set b. f x = Some m" unfolding b by auto
  have "model_switch_count (concat (map (\<lambda>m. bound_to f m ns) ms) @ tail) f (Some m) = length ms"
    using Cons by auto
  with b nb Cons.prems show ?case by (simp add: switch_same)
qed

lemma models_cong: "set xs = set ys \<Longrightarrow> models f xs = models f ys"
  by (simp add: models_def)

lemma affinity_switches:
  "model_switch_count (affinity_order ns f resident) f resident = card (models f ns - set_option resident)"
proof -
  let ?tail = "filter (\<lambda>n. f n = None) ns"
  have ne: "bound_to f m ns \<noteq> []" if "m \<in> models f ns" for m
    using that by (auto simp: models_def filter_empty_conv)
  have "set (other_models f ns resident) = models f ns - set_option resident" by auto
  then have len: "length (other_models f ns resident) = card (models f ns - set_option resident)"
    by (metis distinct_card distinct_filter distinct_sorted_list_of_set)
  have rest: "model_switch_count (concat (map (\<lambda>m. bound_to f m ns) (other_models f ns resident)) @ ?tail)
      f resident = card (models f ns - set_option resident)"
    unfolding len[symmetric] by (rule switch_buckets) (use ne in auto)
  then show ?thesis
    by (cases resident) (simp_all add: affinity_order_eq switch_same)
qed

text \<open>
  The ordering contract: the affinity order is a permutation of the frontier, made of
  the resident model's molecules, then one block per other model in ascending order, then
  the unbound molecules, each block in the input's order.
\<close>

theorem affinity_order_contract:
  "mset (affinity_order frontier model_of resident) = mset frontier
   \<and> affinity_order frontier model_of resident =
       (case resident of None \<Rightarrow> [] | Some r \<Rightarrow> filter (\<lambda>n. model_of n = Some r) frontier)
       @ concat (map (\<lambda>m. filter (\<lambda>n. model_of n = Some m) frontier)
           (filter (\<lambda>m. Some m \<noteq> resident) (sorted_list_of_set (models model_of frontier))))
       @ filter (\<lambda>n. model_of n = None) frontier"
  using affinity_order_mset affinity_order_eq by blast

text \<open>
  Optimality: no other order of the same molecules needs fewer model switches, and the
  count is the number of models present other than the resident one.
\<close>

theorem affinity_order_minimal:
  assumes "mset order = mset frontier"
  shows "model_switch_count (affinity_order frontier model_of resident) model_of resident
           \<le> model_switch_count order model_of resident
    \<and> model_switch_count (affinity_order frontier model_of resident) model_of resident
        = card (models model_of frontier - set_option resident)"
proof -
  have "models model_of order = models model_of frontier"
    using assms by (intro models_cong) (metis set_mset_mset)
  with switch_lower_bound[of model_of order resident] show ?thesis
    by (simp add: affinity_switches)
qed

theorem affinity_order_minimal_witness:
  "model_switch_count (affinity_order [1::nat, 2, 3, 4] (\<lambda>n. Some (n mod 2)) None) (\<lambda>n. Some (n mod 2)) None
     \<le> model_switch_count [1::nat, 2, 3, 4] (\<lambda>n. Some (n mod 2)) None
   \<and> affinity_order [1::nat, 2, 3, 4] (\<lambda>n. Some (n mod 2)) None = [2, 4, 1, 3]"
  using affinity_order_minimal[of "[1::nat, 2, 3, 4]" "[1::nat, 2, 3, 4]" "\<lambda>n. Some (n mod 2)" None]
  by (simp add: affinity_order_def)

end
