(* ===== verification/CriticalPath.thy ===== *)
theory CriticalPath
  imports Graph
begin

text \<open>
  The longest-path analysis of \<open>crates/cosmon-graph/src/critical_path.rs\<close>.  Scores are
  \<open>u64\<close>: a 64-bit word, whose addition wraps as the release build's does.
\<close>

section \<open>Definitions\<close>

type_synonym u64 = "64 word"

text \<open>The loop over the predecessors of one node: best score and best parent so far.\<close>

fun best_pred ::
  "('n::linorder \<rightharpoonup> u64) \<Rightarrow> u64 \<Rightarrow> 'n list \<Rightarrow> u64 \<times> 'n option \<Rightarrow> u64 \<times> 'n option"
where
  "best_pred dp w [] best = best"
| "best_pred dp w (pred # ps) (best_score, best_parent) =
     (let candidate = (case dp pred of None \<Rightarrow> 0 | Some s \<Rightarrow> s) + w
      in if candidate > best_score then best_pred dp w ps (candidate, Some pred)
         else if candidate = best_score
                 \<and> (case best_parent of None \<Rightarrow> False | Some cur \<Rightarrow> pred < cur)
              then best_pred dp w ps (best_score, Some pred)
              else best_pred dp w ps (best_score, best_parent))"

text \<open>The dynamic program over the topological order.\<close>

fun dp_loop ::
  "'n::linorder edges \<Rightarrow> ('n \<Rightarrow> u64) \<Rightarrow> 'n list \<Rightarrow> ('n \<rightharpoonup> u64) \<Rightarrow> ('n \<rightharpoonup> 'n option)
     \<Rightarrow> ('n \<rightharpoonup> u64) \<times> ('n \<rightharpoonup> 'n option)"
where
  "dp_loop es weight [] dp parent = (dp, parent)"
| "dp_loop es weight (node # rest) dp parent =
     (let w = weight node;
          (best_score, best_parent) =
            (case deps_of es node of
               None \<Rightarrow> (w, None)
             | Some ps \<Rightarrow> best_pred dp w ps (w, None))
      in dp_loop es weight rest (dp(node \<mapsto> best_score)) (parent(node \<mapsto> best_parent)))"

text \<open>
  The comparator of the sink selection: by score, then by the reverse order of the nodes.
  \<open>Iterator::max_by\<close> keeps the later element unless the earlier one compares greater.
\<close>

definition sink_greater :: "('n::linorder \<rightharpoonup> u64) \<Rightarrow> 'n \<Rightarrow> 'n \<Rightarrow> bool" where
  "sink_greater dp a b =
     (let sa = (case dp a of None \<Rightarrow> 0 | Some s \<Rightarrow> s);
          sb = (case dp b of None \<Rightarrow> 0 | Some s \<Rightarrow> s)
      in sa > sb \<or> (sa = sb \<and> b > a))"

fun max_by :: "('n \<Rightarrow> 'n \<Rightarrow> bool) \<Rightarrow> 'n list \<Rightarrow> 'n option" where
  "max_by gt [] = None"
| "max_by gt (x # xs) = Some (foldl (\<lambda>m y. if gt m y then m else y) x xs)"

text \<open>Following the parent pointers back to a source.\<close>

partial_function (option) walk_parents ::
  "('n \<rightharpoonup> 'n option) \<Rightarrow> 'n option \<Rightarrow> 'n list \<Rightarrow> 'n list option"
where
  "walk_parents parent cursor rev_path =
     (case cursor of
        None \<Rightarrow> Some rev_path
      | Some node \<Rightarrow>
          walk_parents parent (case parent node of None \<Rightarrow> None | Some p \<Rightarrow> p) (rev_path @ [node]))"

definition critical_path_weighted ::
  "('n::linorder list \<Rightarrow> 'n list) \<Rightarrow> 'n edges \<Rightarrow> ('n \<Rightarrow> u64) \<Rightarrow> ('n cycle_error + 'n list) option"
where
  "critical_path_weighted it es weight =
     Option.bind (toposort it es) (\<lambda>r.
       (case r of
          Inl e \<Rightarrow> Some (Err e)
        | Inr order \<Rightarrow>
            if order = [] then Some (Ok [])
            else
              (let (dp, parent) = dp_loop es weight order Map.empty Map.empty
               in case max_by (sink_greater dp) order of
                    None \<Rightarrow> Some (Ok [])
                  | Some sink \<Rightarrow>
                      map_option (\<lambda>rev_path. Ok (rev rev_path))
                        (walk_parents parent (Some sink) []))))"

definition critical_path ::
  "('n::linorder list \<Rightarrow> 'n list) \<Rightarrow> 'n edges \<Rightarrow> ('n cycle_error + 'n list) option"
where
  "critical_path it es = critical_path_weighted it es (\<lambda>_. 1)"

section \<open>Paths\<close>

definition is_path :: "'n edges \<Rightarrow> 'n list \<Rightarrow> bool" where
  "is_path es p \<longleftrightarrow> p \<noteq> [] \<and> set p \<subseteq> nodes es \<and> successively (\<lambda>a b. (a, b) \<in> set es) p"

definition path_weight :: "('n \<Rightarrow> u64) \<Rightarrow> 'n list \<Rightarrow> nat" where
  "path_weight weight p = sum_list (map (\<lambda>n. unat (weight n)) p)"

definition total_weight :: "'n edges \<Rightarrow> ('n \<Rightarrow> u64) \<Rightarrow> nat" where
  "total_weight es weight = (\<Sum>n\<in>nodes es. unat (weight n))"

lemma is_path_snoc:
  assumes "p \<noteq> []"
  shows "is_path es (p @ [n]) \<longleftrightarrow> is_path es p \<and> (last p, n) \<in> set es"
  using assms edge_in_nodes[of "last p" n es]
  by (auto simp: is_path_def successively_append_iff)

lemma successively_trancl:
  "successively (\<lambda>a b. (a, b) \<in> r) (a # p) \<Longrightarrow> b \<in> set p \<Longrightarrow> (a, b) \<in> r\<^sup>+"
proof (induction p arbitrary: a)
  case (Cons c p)
  then have "(a, c) \<in> r" by simp
  with Cons show ?case by (cases "b = c") (auto intro: trancl_into_trancl2)
qed simp

lemma path_distinct:
  assumes "acyclic (set es)" and "successively (\<lambda>a b. (a, b) \<in> set es) p"
  shows "distinct p"
  using assms(2)
proof (induction p)
  case (Cons a p)
  then have "a \<notin> set p" using successively_trancl[of "set es" a p a] assms(1) by (auto simp: acyclic_def)
  moreover have "successively (\<lambda>a b. (a, b) \<in> set es) p" using Cons.prems by (cases p) auto
  ultimately show ?case using Cons.IH by simp
qed simp

lemma path_weight_bound:
  assumes "acyclic (set es)" and "is_path es p"
  shows "path_weight weight p \<le> total_weight es weight"
proof -
  have "distinct p" using path_distinct[OF assms(1)] assms(2) by (simp add: is_path_def)
  then have "path_weight weight p = (\<Sum>n\<in>set p. unat (weight n))"
    by (simp add: path_weight_def sum_list_distinct_conv_sum_set)
  also have "\<dots> \<le> total_weight es weight"
    unfolding total_weight_def using assms(2) by (intro sum_mono2) (auto simp: is_path_def)
  finally show ?thesis .
qed

section \<open>The dynamic program\<close>

text \<open>A reversed path that the parent pointers spell out.\<close>

fun chain :: "('n \<rightharpoonup> 'n option) \<Rightarrow> 'n list \<Rightarrow> bool" where
  "chain parent [] = False"
| "chain parent [v] = (parent v = Some None)"
| "chain parent (v # u # xs) = (parent v = Some (Some u) \<and> chain parent (u # xs))"

lemma walk_chain: "chain parent (v # xs) \<Longrightarrow> walk_parents parent (Some v) acc = Some (acc @ v # xs)"
proof (induction xs arbitrary: v acc)
  case Nil
  then show ?case by (simp add: walk_parents.simps[of _ "Some v"] walk_parents.simps[of _ None])
next
  case (Cons u xs)
  then have "walk_parents parent (Some u) (acc @ [v]) = Some ((acc @ [v]) @ u # xs)" by auto
  with Cons.prems show ?case by (simp add: walk_parents.simps[of _ "Some v"])
qed

lemma chain_upd: "n \<notin> set p \<Longrightarrow> chain (parent(n := x)) p = chain parent p"
  by (induction parent p rule: chain.induct) auto

definition scored :: "'n edges \<Rightarrow> ('n \<Rightarrow> u64) \<Rightarrow> ('n \<rightharpoonup> u64) \<Rightarrow> ('n \<rightharpoonup> 'n option) \<Rightarrow> 'n set \<Rightarrow> 'n \<Rightarrow> bool" where
  "scored es weight dp parent seen v \<longleftrightarrow>
     (\<exists>s p. dp v = Some s \<and> is_path es p \<and> last p = v \<and> set p \<subseteq> seen \<and> chain parent (rev p)
        \<and> path_weight weight p = unat s
        \<and> (\<forall>p'. is_path es p' \<and> last p' = v \<longrightarrow> path_weight weight p' \<le> unat s))"

lemma best_pred_correct:
  assumes "\<And>u. u \<in> set ps \<Longrightarrow> \<exists>s. dp u = Some s \<and> unat s + unat w < 2 ^ 64"
    and "best_pred dp w ps (bs0, bp0) = (bs, bp)"
  shows "unat bs0 \<le> unat bs
    \<and> (\<forall>u\<in>set ps. unat (the (dp u)) + unat w \<le> unat bs)
    \<and> (bs = bs0 \<and> bp = bp0 \<or> (\<exists>u\<in>set ps. bp = Some u \<and> unat bs = unat (the (dp u)) + unat w))"
  using assms
proof (induction ps arbitrary: bs0 bp0)
  case (Cons u ps)
  from Cons.prems(1)[of u] obtain s where s: "dp u = Some s" "unat s + unat w < 2 ^ 64" by auto
  then have c: "unat (s + w) = unat s + unat w" by (simp add: unat_add_lem[THEN iffD1])
  define st where "st = (if s + w > bs0 then (s + w, Some u)
      else if s + w = bs0 \<and> (case bp0 of None \<Rightarrow> False | Some cur \<Rightarrow> u < cur) then (bs0, Some u)
      else (bs0, bp0))"
  have run: "best_pred dp w ps (fst st, snd st) = (bs, bp)"
    using Cons.prems(2) s by (auto simp: st_def Let_def split: if_splits)
  have st: "unat bs0 \<le> unat (fst st)" "unat (s + w) \<le> unat (fst st)"
    "st = (bs0, bp0) \<or> (snd st = Some u \<and> unat (fst st) = unat (s + w))"
    by (auto simp: st_def word_less_nat_alt)
  note IH = Cons.IH[OF Cons.prems(1) run]
  show ?case using IH st s c by auto
qed simp


lemma deps_of_eq:
  "deps_of es n = (if n \<in> snd ` set es then Some (map fst (filter (\<lambda>e. snd e = n) es)) else None)"
  by (simp add: deps_of_def push_deps_eq)

lemma set_deps: "deps_of es n = Some ps \<Longrightarrow> set ps = preds es n"
  by (force simp: deps_of_eq preds_def split: if_splits)

text \<open>One node of the dynamic program, given that its predecessors are scored.\<close>

lemma dp_node:
  assumes ac: "acyclic (set es)" and tot: "total_weight es weight < 2 ^ 64"
    and n: "n \<in> nodes es" "n \<notin> seen" "preds es n \<subseteq> seen"
    and seen: "\<And>v. v \<in> seen \<Longrightarrow> scored es weight dp parent seen v"
    and step: "(bs, bp) = (case deps_of es n of None \<Rightarrow> (weight n, None)
                 | Some ps \<Rightarrow> best_pred dp (weight n) ps (weight n, None))"
  shows "scored es weight (dp(n \<mapsto> bs)) (parent(n \<mapsto> bp)) (insert n seen) n"
proof -
  let ?w = "weight n"
  have ext: "is_path es (p @ [n]) \<and> path_weight weight (p @ [n]) = path_weight weight p + unat ?w"
    if "is_path es p" "(last p, n) \<in> set es" for p
    using that is_path_snoc[of p es n] by (auto simp: is_path_def path_weight_def)
  have pre: "\<exists>s. dp u = Some s \<and> unat s + unat ?w < 2 ^ 64" if u: "u \<in> preds es n" for u
  proof -
    from seen[of u] u n(3) obtain s p where sp: "dp u = Some s" "is_path es p" "last p = u"
      "path_weight weight p = unat s" by (auto simp: scored_def)
    with ext[of p] u have "is_path es (p @ [n])" "path_weight weight (p @ [n]) = unat s + unat ?w"
      by (auto simp: preds_def)
    with path_weight_bound[OF ac this(1), of weight] tot sp(1) show ?thesis by auto
  qed
  have cases: "unat ?w \<le> unat bs \<and> (\<forall>u\<in>preds es n. unat (the (dp u)) + unat ?w \<le> unat bs)
    \<and> (bs = ?w \<and> bp = None \<or> (\<exists>u\<in>preds es n. bp = Some u \<and> unat bs = unat (the (dp u)) + unat ?w))"
  proof (cases "deps_of es n")
    case None
    then have "preds es n = {}" by (force simp: deps_of_eq preds_def split: if_splits)
    with None step show ?thesis by simp
  next
    case (Some ps)
    with step have "best_pred dp ?w ps (?w, None) = (bs, bp)" by simp
    from best_pred_correct[OF _ this] pre set_deps[OF Some] show ?thesis by auto
  qed
  have upper: "path_weight weight p' \<le> unat bs" if p': "is_path es p'" "last p' = n" for p'
  proof (cases "butlast p' = []")
    case True
    with p' have "p' = [n]" by (metis append_Nil append_butlast_last_id is_path_def)
    with cases show ?thesis by (simp add: path_weight_def)
  next
    case False
    let ?q = "butlast p'"
    have p: "p' = ?q @ [n]" using p' by (metis append_butlast_last_id is_path_def)
    with p'(1) False is_path_snoc[of ?q es n] have q: "is_path es ?q" "(last ?q, n) \<in> set es" by auto
    then have lq: "last ?q \<in> preds es n" by (simp add: preds_def)
    with seen n(3) q(1) obtain s where "dp (last ?q) = Some s" "path_weight weight ?q \<le> unat s"
      by (fastforce simp: scored_def)
    with ext[OF q] p cases lq show ?thesis by fastforce
  qed
  have "\<exists>p. is_path es p \<and> last p = n \<and> set p \<subseteq> insert n seen \<and> chain (parent(n \<mapsto> bp)) (rev p)
      \<and> path_weight weight p = unat bs"
  proof (cases "bs = ?w \<and> bp = None")
    case True
    then show ?thesis using n(1) by (intro exI[of _ "[n]"]) (simp add: is_path_def path_weight_def)
  next
    case False
    with cases obtain u where u: "u \<in> preds es n" "bp = Some u" "unat bs = unat (the (dp u)) + unat ?w"
      by auto
    from seen[of u] u(1) n(3) obtain s p where sp: "dp u = Some s" "is_path es p" "last p = u"
      "set p \<subseteq> seen" "chain parent (rev p)" "path_weight weight p = unat s"
      by (auto simp: scored_def)
    then obtain xs where rp: "rev p = u # xs"
      by (cases "rev p") (auto simp: is_path_def last_rev[symmetric] hd_rev)
    have "chain (parent(n \<mapsto> bp)) (rev (p @ [n]))"
      using sp(4,5) n(2) u(2) rp chain_upd[of n "rev p" parent] by auto
    with ext[OF sp(2)] sp u show ?thesis
      by (intro exI[of _ "p @ [n]"]) (auto simp: preds_def)
  qed
  with upper show ?thesis by (auto simp: scored_def)
qed

lemma dp_loop_correct:
  assumes ac: "acyclic (set es)" and tot: "total_weight es weight < 2 ^ 64"
    and "topo_from es seen ord" "distinct ord" "set ord \<inter> seen = {}" "set ord \<subseteq> nodes es"
    and "\<And>v. v \<in> seen \<Longrightarrow> scored es weight dp parent seen v"
    and "dp_loop es weight ord dp parent = (dp', parent')"
  shows "\<forall>v \<in> seen \<union> set ord. scored es weight dp' parent' (seen \<union> set ord) v"
  using assms(3-)
proof (induction ord arbitrary: seen dp parent)
  case Nil
  then show ?case by simp
next
  case (Cons n ord)
  obtain bs bp where b: "(bs, bp) = (case deps_of es n of None \<Rightarrow> (weight n, None)
                 | Some ps \<Rightarrow> best_pred dp (weight n) ps (weight n, None))"
    by (metis surj_pair)
  have run: "dp_loop es weight ord (dp(n \<mapsto> bs)) (parent(n \<mapsto> bp)) = (dp', parent')"
    using Cons.prems(6) by (simp add: Let_def b[symmetric])
  have new: "scored es weight (dp(n \<mapsto> bs)) (parent(n \<mapsto> bp)) (insert n seen) n"
    by (rule dp_node[OF ac tot _ _ _ Cons.prems(5) b]) (use Cons.prems in auto)
  have "scored es weight (dp(n \<mapsto> bs)) (parent(n \<mapsto> bp)) (insert n seen) v" if v: "v \<in> insert n seen" for v
  proof (cases "v = n")
    case False
    with v Cons.prems(5)[of v] obtain s p where sp: "dp v = Some s" "is_path es p" "last p = v"
      "set p \<subseteq> seen" "chain parent (rev p)" "path_weight weight p = unat s"
      "\<forall>p'. is_path es p' \<and> last p' = v \<longrightarrow> path_weight weight p' \<le> unat s"
      by (auto simp: scored_def)
    then have "chain (parent(n \<mapsto> bp)) (rev p)"
      using Cons.prems(3) chain_upd[of n "rev p" parent] by auto
    with sp False show ?thesis unfolding scored_def by fastforce
  qed (simp add: new)
  from Cons.IH[OF _ _ _ _ this run] Cons.prems show ?case by auto
qed

lemma max_by_best:
  assumes "max_by (sink_greater dp) ord = Some m"
  shows "m \<in> set ord \<and> (\<forall>v\<in>set ord. (case dp v of None \<Rightarrow> 0 | Some s \<Rightarrow> s) \<le> (case dp m of None \<Rightarrow> 0 | Some s \<Rightarrow> s))"
proof -
  let ?sc = "\<lambda>v. case dp v of None \<Rightarrow> 0 | Some s \<Rightarrow> s"
  let ?f = "foldl (\<lambda>m y. if sink_greater dp m y then m else y)"
  have gen: "?f x xs \<in> insert x (set xs) \<and> (\<forall>v\<in>insert x (set xs). ?sc v \<le> ?sc (?f x xs))" for x xs
  proof (induction xs arbitrary: x)
    case (Cons y ys)
    have ge: "?sc x \<le> ?sc (if sink_greater dp x y then x else y)"
      "?sc y \<le> ?sc (if sink_greater dp x y then x else y)"
      by (auto simp: sink_greater_def Let_def not_less)
    with Cons.IH[of "if sink_greater dp x y then x else y"] show ?case by fastforce
  qed simp
  obtain x xs where "ord = x # xs" using assms by (cases ord) auto
  with assms gen[of x xs] show ?thesis by simp
qed

lemma critical_path_weighted_run:
  assumes it: "hash_order it" and ac: "acyclic (set es)" and tot: "total_weight es weight < 2 ^ 64"
    and ne: "es \<noteq> []"
  obtains p where "critical_path_weighted it es weight = Some (Ok p)" and "is_path es p"
    and "\<And>p'. is_path es p' \<Longrightarrow> path_weight weight p' \<le> path_weight weight p"
proof -
  from toposort_acyclic[OF it ac] obtain ord where
    t: "toposort it es = Some (Ok ord)" and ord: "distinct ord" "set ord = nodes es" "topo_from es {} ord" .
  have "nodes es \<noteq> {}" using ne by (auto simp: nodes_def)
  then have ord_ne: "ord \<noteq> []" using ord(2) by auto
  obtain dp parent where d: "dp_loop es weight ord Map.empty Map.empty = (dp, parent)" by fastforce
  from dp_loop_correct[OF ac tot ord(3,1) _ _ _ d] ord(2)
  have sc: "scored es weight dp parent (nodes es) v" if "v \<in> nodes es" for v using that by auto
  obtain m where m: "max_by (sink_greater dp) ord = Some m" using ord_ne by (cases ord) auto
  note best = max_by_best[OF m]
  from sc[of m] best ord(2) obtain s p where sp: "dp m = Some s" "is_path es p" "last p = m"
    "chain parent (rev p)" "path_weight weight p = unat s"
    by (auto simp: scored_def)
  then obtain xs where rp: "rev p = m # xs"
    by (cases "rev p") (auto simp: is_path_def last_rev[symmetric] hd_rev)
  with walk_chain[of parent m xs "[]"] sp(4) have w: "walk_parents parent (Some m) [] = Some (rev p)" by simp
  have "critical_path_weighted it es weight = Some (Ok p)"
    using t ord_ne by (simp add: critical_path_weighted_def d m w)
  moreover have "path_weight weight p' \<le> path_weight weight p" if p': "is_path es p'" for p'
  proof -
    have l: "last p' \<in> nodes es" using p' by (auto simp: is_path_def)
    from sc[OF this] p' obtain s' where s': "dp (last p') = Some s'" "path_weight weight p' \<le> unat s'"
      by (auto simp: scored_def)
    moreover have "s' \<le> s" using best l ord(2) s'(1) sp(1) by fastforce
    ultimately show ?thesis using sp(5) by (simp add: word_le_nat_alt)
  qed
  ultimately show thesis using that sp(2) by blast
qed

text \<open>
  C34. The weighted critical path is optimal: when the summed weights fit in a \<open>u64\<close>, the
  call on a nonempty acyclic edge list returns a path along dependency edges, and no other
  path of the graph weighs more.
\<close>

theorem critical_path_weighted_optimal:
  assumes "hash_order it" and "acyclic (set es)" and "es \<noteq> []"
    and "total_weight es weight < 2 ^ 64"
  shows "\<exists>p. critical_path_weighted it es weight = Some (Ok p) \<and> is_path es p
    \<and> (\<forall>p'. is_path es p' \<longrightarrow> path_weight weight p' \<le> path_weight weight p)"
  using critical_path_weighted_run[OF assms(1,2,4,3)] by metis

lemma diamond_acyclic: "acyclic (set [(1::nat, 2), (1, 3), (2, 4), (3, 4)])"
  by (rule topo_from_acyclic[of _ "[1, 2, 3, 4]"]) (auto simp: preds_def nodes_def)

lemma diamond_nodes: "nodes [(1::nat, 2), (1, 3), (2, 4), (3, 4)] = {1, 2, 3, 4}"
  by (auto simp: nodes_def)

theorem critical_path_weighted_optimal_witness:
  "\<exists>p. critical_path_weighted rev [(1::nat, 2), (1, 3), (2, 4), (3, 4)] (\<lambda>n. if n = 3 then 5 else 1)
       = Some (Ok p)
     \<and> is_path [(1, 2), (1, 3), (2, 4), (3, 4)] p
     \<and> (\<forall>p'. is_path [(1::nat, 2), (1, 3), (2, 4), (3, 4)] p' \<longrightarrow>
          path_weight (\<lambda>n. if n = 3 then 5 else 1) p' \<le> path_weight (\<lambda>n. if n = 3 then 5 else 1) p)"
proof (rule critical_path_weighted_optimal)
  show "total_weight [(1::nat, 2), (1, 3), (2, 4), (3, 4)] (\<lambda>n. if n = 3 then 5 else 1) < 2 ^ 64"
    unfolding total_weight_def diamond_nodes by simp
qed (simp_all add: diamond_acyclic[simplified])

text \<open>
  The unweighted variant returns a longest chain of the graph.
\<close>

theorem critical_path_longest:
  assumes "hash_order it" and "acyclic (set es)" and "es \<noteq> []" and "card (nodes es) < 2 ^ 64"
  shows "\<exists>p. critical_path it es = Some (Ok p) \<and> is_path es p
    \<and> (\<forall>p'. is_path es p' \<longrightarrow> length p' \<le> length p)"
proof -
  have "total_weight es (\<lambda>_. 1) < 2 ^ 64" using assms(4) by (simp add: total_weight_def)
  from critical_path_weighted_run[OF assms(1,2) this assms(3)] show ?thesis
    unfolding critical_path_def path_weight_def by (auto simp: sum_list_triv)
qed

theorem critical_path_longest_witness:
  "critical_path rev [(1::nat, 2), (1, 3), (2, 4), (3, 4)] = Some (Ok [1, 2, 4])
   \<and> is_path [(1::nat, 2), (1, 3), (2, 4), (3, 4)] [1, 2, 4]"
proof -
  have e: "critical_path rev [(1::nat, 2), (1, 3), (2, 4), (3, 4)] = Some (Ok [1, 2, 4])"
    by (simp add: critical_path_def critical_path_weighted_def toposort_def node_keys_def in_degree_def
        dependents_def kahn.simps deps_of_def walk_parents.simps sink_greater_def Let_def)
  have "card (nodes [(1::nat, 2), (1, 3), (2, 4), (3, 4)]) < 2 ^ 64"
    unfolding diamond_nodes by simp
  from critical_path_longest[OF hash_order_rev diamond_acyclic _ this] e show ?thesis by auto
qed

end
