(* ===== verification/RustStd.thy ===== *)
theory RustStd
  imports Prelude "HOL-Library.Sublist"
begin

text \<open>
  What the sources use of Rust's standard library: fixed-width counters with saturating
  addition, decimal display and parsing, and strings.  A \<open>str\<close> is its UTF-8 byte sequence,
  one HOL \<open>char\<close> per byte, so \<open>length\<close> is \<open>str::len\<close>; the white-space functions decode the
  multi-byte white-space characters.  Instants (\<open>DateTime<Utc>\<close>) are integers on one time
  line, in nanoseconds.
\<close>

type_synonym datetime = int

type_synonym u32 = "32 word"

section \<open>Saturating counters\<close>

definition saturating_add :: "'a::len word \<Rightarrow> 'a word \<Rightarrow> 'a word" where
  "saturating_add a b = (if unat a + unat b < 2 ^ LENGTH('a) then a + b else - 1)"

lemma unat_saturating_add:
  "unat (saturating_add a b) = min (unat a + unat b) (2 ^ LENGTH('a) - 1)"
  for a b :: "'a::len word"
  by (auto simp: saturating_add_def unat_add_lem[THEN iffD1] unsigned_minus_1_eq_mask
      mask_eq_exp_minus_1 min_def)

lemma saturating_add_ge: "a \<le> saturating_add a b"
  for a :: "'a::len word"
proof -
  have "unat a < 2 ^ LENGTH('a)" by (rule unsigned_less)
  then show ?thesis by (simp add: word_le_nat_alt unat_saturating_add less_eq_Suc_le[symmetric] le_diff_conv2 Suc_le_eq)
qed

text \<open>\<open>TimeDelta::num_seconds\<close> rounds towards zero.\<close>

definition num_seconds :: "int \<Rightarrow> int" where
  "num_seconds ns = (if ns < 0 then - ((- ns) div 1000000000) else ns div 1000000000)"

section \<open>Decimal numbers\<close>

definition digit_char :: "nat \<Rightarrow> char" where
  "digit_char d = char_of (48 + d)"

fun show_nat :: "nat \<Rightarrow> string" where
  "show_nat n = (if n < 10 then [digit_char n] else show_nat (n div 10) @ [digit_char (n mod 10)])"

declare show_nat.simps [simp del]

definition show_int :: "int \<Rightarrow> string" where
  "show_int n = (if n < 0 then CHR ''-'' # show_nat (nat (- n)) else show_nat (nat n))"

definition digit_val :: "char \<Rightarrow> nat option" where
  "digit_val c = (let k = of_char c in if 48 \<le> k \<and> k \<le> 57 then Some (k - 48) else None)"

fun parse_digits :: "nat \<Rightarrow> string \<Rightarrow> nat option" where
  "parse_digits acc [] = Some acc"
| "parse_digits acc (c # cs) =
     (case digit_val c of None \<Rightarrow> None | Some d \<Rightarrow> parse_digits (10 * acc + d) cs)"

text \<open>
  \<open>str::parse\<close> at an unsigned type of \<open>bits\<close> bits: an optional plus sign, at least one digit,
  digits only, and the value must fit.
\<close>

definition parse_unsigned :: "nat \<Rightarrow> string \<Rightarrow> nat option" where
  "parse_unsigned bits s =
     (let ds = (case s of c # r \<Rightarrow> if c = CHR ''+'' then r else s | [] \<Rightarrow> s)
      in if ds = [] then None
         else case parse_digits 0 ds of
                None \<Rightarrow> None
              | Some n \<Rightarrow> if n < 2 ^ bits then Some n else None)"

section \<open>Strings\<close>

text \<open>The length in bytes of the white-space character at the head of a string, 0 if none.\<close>

fun ws_len :: "string \<Rightarrow> nat" where
  "ws_len [] = 0"
| "ws_len (c # cs) =
     (let b = of_char c :: nat in
      if (9 \<le> b \<and> b \<le> 13) \<or> b = 32 then 1
      else if b = 194 then
        (case cs of d # _ \<Rightarrow> if (of_char d :: nat) = 133 \<or> (of_char d :: nat) = 160 then 2 else 0 | [] \<Rightarrow> 0)
      else
        (case cs of
           d # e # _ \<Rightarrow>
             (let x = of_char d :: nat; y = of_char e :: nat in
              if b = 225 \<and> x = 154 \<and> y = 128 then 3
              else if b = 226 \<and> x = 128 \<and> ((128 \<le> y \<and> y \<le> 138) \<or> y = 168 \<or> y = 169 \<or> y = 175) then 3
              else if b = 226 \<and> x = 129 \<and> y = 159 then 3
              else if b = 227 \<and> x = 128 \<and> y = 128 then 3
              else 0)
         | _ \<Rightarrow> 0))"

function trim_start :: "string \<Rightarrow> string" where
  "trim_start s = (if ws_len s = 0 then s else trim_start (drop (ws_len s) s))"
  by pat_completeness auto
termination
proof (relation "measure length")
  show "(drop (ws_len s) s, s) \<in> measure length" if "ws_len s \<noteq> 0" for s
    using that by (cases s) auto
qed simp

declare trim_start.simps [simp del]

text \<open>\<open>s.trim().is_empty()\<close>: nothing but white space.\<close>

definition is_blank :: "string \<Rightarrow> bool" where
  "is_blank s \<longleftrightarrow> trim_start s = []"

text \<open>\<open>str::trim\<close>: leading white space, then the longest blank suffix.\<close>

fun trim_end :: "string \<Rightarrow> string" where
  "trim_end [] = []"
| "trim_end (c # cs) = (if is_blank (c # cs) then [] else c # trim_end cs)"

definition trim :: "string \<Rightarrow> string" where
  "trim s = trim_end (trim_start s)"

text \<open>\<open>char::is_ascii_digit\<close> and \<open>char::is_ascii_alphanumeric\<close>.\<close>

definition is_ascii_digit :: "char \<Rightarrow> bool" where
  "is_ascii_digit c \<longleftrightarrow> (let b = of_char c :: nat in 48 \<le> b \<and> b \<le> 57)"

definition is_ascii_alphanumeric :: "char \<Rightarrow> bool" where
  "is_ascii_alphanumeric c \<longleftrightarrow>
     (let b = of_char c :: nat
      in 48 \<le> b \<and> b \<le> 57 \<or> 65 \<le> b \<and> b \<le> 90 \<or> 97 \<le> b \<and> b \<le> 122)"

definition is_ascii_hexdigit :: "char \<Rightarrow> bool" where
  "is_ascii_hexdigit c \<longleftrightarrow>
     (let b = of_char c :: nat in 48 \<le> b \<and> b \<le> 57 \<or> 65 \<le> b \<and> b \<le> 70 \<or> 97 \<le> b \<and> b \<le> 102)"

text \<open>\<open>str::from_utf8\<close>: well-formed UTF-8, without overlong forms and surrogates.\<close>

definition is_continuation :: "char \<Rightarrow> bool" where
  "is_continuation c \<longleftrightarrow> (let b = of_char c :: nat in 128 \<le> b \<and> b < 192)"

definition between_bytes :: "nat \<Rightarrow> char \<Rightarrow> nat \<Rightarrow> bool" where
  "between_bytes lo c hi \<longleftrightarrow> (let b = of_char c :: nat in lo \<le> b \<and> b \<le> hi)"

fun utf8_valid :: "string \<Rightarrow> bool" where
  "utf8_valid [] = True"
| "utf8_valid (c # cs) =
     (let b = of_char c :: nat in
      if b < 128 then utf8_valid cs
      else if 194 \<le> b \<and> b \<le> 223 then (case cs of d # r \<Rightarrow> is_continuation d \<and> utf8_valid r | [] \<Rightarrow> False)
      else if 224 \<le> b \<and> b \<le> 239 then
        (case cs of
           d # e # r \<Rightarrow> between_bytes (if b = 224 then 160 else 128) d (if b = 237 then 159 else 191) \<and>
                        is_continuation e \<and> utf8_valid r
         | _ \<Rightarrow> False)
      else if 240 \<le> b \<and> b \<le> 244 then
        (case cs of
           d # e # f # r \<Rightarrow> between_bytes (if b = 240 then 144 else 128) d (if b = 244 then 143 else 191) \<and>
                            is_continuation e \<and> is_continuation f \<and> utf8_valid r
         | _ \<Rightarrow> False)
      else False)"

text \<open>Printable ASCII is not trimmed.\<close>

lemma trim_printable:
  assumes "list_all (\<lambda>c. 33 \<le> (of_char c :: nat) \<and> (of_char c :: nat) < 128) s"
  shows "trim s = s"
proof -
  have w: "ws_len t = 0" if "list_all (\<lambda>c. 33 \<le> (of_char c :: nat) \<and> (of_char c :: nat) < 128) t" for t
    using that by (cases t) (auto simp: Let_def split: list.splits)
  have st: "trim_start t = t" if "list_all (\<lambda>c. 33 \<le> (of_char c :: nat) \<and> (of_char c :: nat) < 128) t" for t
    using w[OF that] by (subst trim_start.simps) simp
  have "trim_end t = t" if "list_all (\<lambda>c. 33 \<le> (of_char c :: nat) \<and> (of_char c :: nat) < 128) t" for t
    using that
  proof (induction t)
    case (Cons c t)
    then show ?case using st[OF Cons.prems] by (simp add: is_blank_def)
  qed simp
  then show ?thesis using assms st by (simp add: trim_def)
qed

text \<open>\<open>str::split_whitespace\<close>: the maximal runs of non-white-space characters.\<close>

fun word_end :: "string \<Rightarrow> nat" where
  "word_end [] = 0"
| "word_end (c # cs) = (if ws_len (c # cs) = 0 then Suc (word_end cs) else 0)"

lemma word_end_pos: "s \<noteq> [] \<Longrightarrow> ws_len s = 0 \<Longrightarrow> 0 < word_end s"
  by (cases s) simp_all

function split_whitespace :: "string \<Rightarrow> string list" where
  "split_whitespace s =
     (if s = [] then []
      else if ws_len s > 0 then split_whitespace (drop (ws_len s) s)
      else take (word_end s) s # split_whitespace (drop (word_end s) s))"
  by pat_completeness auto
termination
proof (relation "measure length")
  show "(drop (ws_len s) s, s) \<in> measure length" if "s \<noteq> []" "0 < ws_len s" for s
    using that by simp
  show "(drop (word_end s) s, s) \<in> measure length" if "s \<noteq> []" "\<not> 0 < ws_len s" for s
    using that word_end_pos[of s] by simp
qed simp

declare split_whitespace.simps [simp del]

text \<open>\<open>str::contains\<close> with a string pattern.\<close>

definition str_contains :: "string \<Rightarrow> string \<Rightarrow> bool" where
  "str_contains s pat \<longleftrightarrow> sublist pat s"

text \<open>\<open>str::split\<close> and \<open>str::split_once\<close> at a character.\<close>

fun split_on :: "char \<Rightarrow> string \<Rightarrow> string list" where
  "split_on c [] = [[]]"
| "split_on c (x # xs) =
     (if x = c then [] # split_on c xs
      else (case split_on c xs of [] \<Rightarrow> [[x]] | w # ws \<Rightarrow> (x # w) # ws))"

fun split_once :: "char \<Rightarrow> string \<Rightarrow> (string \<times> string) option" where
  "split_once c [] = None"
| "split_once c (x # xs) =
     (if x = c then Some ([], xs)
      else map_option (\<lambda>(a, b). (x # a, b)) (split_once c xs))"

definition rsplit_once :: "char \<Rightarrow> string \<Rightarrow> (string \<times> string) option" where
  "rsplit_once c s = map_option (\<lambda>(a, b). (rev b, rev a)) (split_once c (rev s))"

text \<open>\<open>[String]::join\<close>.\<close>

fun join_with :: "string \<Rightarrow> string list \<Rightarrow> string" where
  "join_with sep [] = []"
| "join_with sep [x] = x"
| "join_with sep (x # y # ys) = x @ sep @ join_with sep (y # ys)"

text \<open>The em dash of the messages, in UTF-8.\<close>

definition em_dash :: string where
  "em_dash = [char_of (226::nat), char_of (128::nat), char_of (148::nat)]"

definition strip_prefix :: "string \<Rightarrow> string \<Rightarrow> string option" where
  "strip_prefix p s = (if prefix p s then Some (drop (length p) s) else None)"

lemma split_once_Some_iff:
  "split_once c s = Some (a, b) \<longleftrightarrow> s = a @ c # b \<and> c \<notin> set a"
  by (induction c s arbitrary: a b rule: split_once.induct) (auto simp: Cons_eq_append_conv)

lemma split_once_None_iff: "split_once c s = None \<longleftrightarrow> c \<notin> set s"
  by (induction c s rule: split_once.induct) auto

lemma rsplit_once_Some_iff:
  "rsplit_once c s = Some (a, b) \<longleftrightarrow> s = a @ c # b \<and> c \<notin> set b"
proof -
  have "rsplit_once c s = Some (a, b) \<longleftrightarrow> split_once c (rev s) = Some (rev b, rev a)"
    by (force simp: rsplit_once_def)
  also have "\<dots> \<longleftrightarrow> s = a @ c # b \<and> c \<notin> set b"
    by (simp add: split_once_Some_iff rev_swap)
  finally show ?thesis .
qed

lemma rsplit_once_None_iff: "rsplit_once c s = None \<longleftrightarrow> c \<notin> set s"
  by (simp add: rsplit_once_def split_once_None_iff)

lemma split_on_not_Nil [simp]: "split_on c s \<noteq> []"
  by (induction s) (auto split: list.splits)

lemma split_on_append: "split_on c (a @ c # b) = split_on c a @ split_on c b"
proof (induction a)
  case (Cons x a)
  obtain w ws where "split_on c a = w # ws" by (cases "split_on c a") auto
  then show ?case using Cons by simp
qed simp

lemma split_on_free: "c \<notin> set l \<Longrightarrow> split_on c l = [l]"
  by (induction l) auto

text \<open>
  \<open>str::lines\<close>: the pieces that end in a newline, without it and without a carriage return before it,
  and what is left after the last newline unless it is empty.
\<close>

abbreviation newline :: char where
  "newline \<equiv> CHR 0x0A"

definition strip_cr :: "string \<Rightarrow> string" where
  "strip_cr l = (if l \<noteq> [] \<and> last l = CHR 0x0D then butlast l else l)"

function str_lines :: "string \<Rightarrow> string list" where
  "str_lines s =
     (case split_once newline s of
        None \<Rightarrow> if s = [] then [] else [s]
      | Some (l, rest) \<Rightarrow> strip_cr l # str_lines rest)"
  by pat_completeness auto
termination
  by (relation "measure length") (auto simp: split_once_Some_iff)

declare str_lines.simps [simp del]

lemma str_lines_Nil [simp]: "str_lines [] = []"
  by (simp add: str_lines.simps)

lemma str_lines_first: "newline \<notin> set l \<Longrightarrow> str_lines (l @ newline # rest) = strip_cr l # str_lines rest"
  using split_once_Some_iff[of newline "l @ newline # rest" l rest] by (subst str_lines.simps) simp

lemma str_lines_rest: "newline \<notin> set l \<Longrightarrow> str_lines l = (if l = [] then [] else [l])"
  using split_once_None_iff[of newline l] by (subst str_lines.simps) simp

lemma str_lines_append: "str_lines (a @ newline # b) = str_lines (a @ [newline]) @ str_lines b"
proof (induction a rule: length_induct)
  case (1 a)
  show ?case
  proof (cases "newline \<in> set a")
    case True
    then obtain l r where "a = l @ newline # r" "newline \<notin> set l" by (meson split_list_first)
    then show ?thesis using 1 str_lines_first[of l "r @ newline # b"] str_lines_first[of l "r @ [newline]"] by simp
  next
    case False
    then show ?thesis using str_lines_first[of a b] str_lines_first[of a "[]"] by simp
  qed
qed

lemma str_lines_terminated:
  assumes "t = [] \<or> last t = newline"
  shows "str_lines (t @ b) = str_lines t @ str_lines b"
proof (cases t rule: rev_cases)
  case (snoc a c)
  then show ?thesis using assms str_lines_append[of a b] by simp
qed simp

section \<open>Text codecs\<close>

text \<open>
  The contract of a \<open>Display\<close>/\<open>FromStr\<close> pair: what is printed parses back to the same value.
\<close>

locale text_codec =
  fixes print :: "'a \<Rightarrow> string"
    and parse :: "string \<Rightarrow> 'e + 'a"
  assumes parse_print: "parse (print x) = Ok x"
begin

lemma print_inject: "print x = print y \<longleftrightarrow> x = y"
  using parse_print by (metis Inr_inject)

lemma print_injective: "inj print"
  by (rule injI) (simp add: print_inject)

lemma parse_error_not_printed: "parse s = Err e \<Longrightarrow> s \<notin> range print"
  using parse_print by fastforce

end

section \<open>Round trip of decimal numbers\<close>

lemma digit_val_digit_char: "d < 10 \<Longrightarrow> digit_val (digit_char d) = Some d"
  by (simp add: digit_val_def digit_char_def Let_def)

lemma parse_digits_append:
  "parse_digits acc (xs @ ys) = Option.bind (parse_digits acc xs) (\<lambda>a. parse_digits a ys)"
  by (induction xs arbitrary: acc) (auto split: option.splits)

lemma parse_digits_show_nat: "parse_digits 0 (show_nat n) = Some n"
proof (induction n rule: show_nat.induct)
  case (1 n)
  show ?case
  proof (cases "n < 10")
    case True
    then show ?thesis by (subst show_nat.simps) (simp add: digit_val_digit_char)
  next
    case False
    with 1 show ?thesis
      by (subst show_nat.simps) (simp add: parse_digits_append digit_val_digit_char)
  qed
qed

lemma show_nat_inject [simp]: "show_nat m = show_nat n \<longleftrightarrow> m = n"
  by (metis option.inject parse_digits_show_nat)

lemma show_nat_not_Nil [simp]: "show_nat n \<noteq> []"
  by (subst show_nat.simps) simp

end
