(* ===== verification/Molecule.thy ===== *)
theory Molecule
  imports RustStd
begin

text \<open>
  The molecule of \<open>crates/cosmon-core/src/molecule.rs\<close>: the persisted status enum with its
  predicates and transition table, the operator-facing phase, the collapse cause, and the
  typestate machine \<open>Molecule<S>\<close>.  The typestate parameter is the type parameter of the
  record; \<open>any_molecule\<close> is the union of the six instances, over which \<open>mol_step\<close> is the
  relation of all the operations.  Every reading of the clock is an argument, in the order
  the code reads it.  Step counters are naturals: the invariant bounds them by
  \<open>total_steps\<close>, so the \<open>usize\<close> additions cannot overflow.
\<close>

section \<open>Status\<close>

datatype molecule_status =
  Pending | Queued | Running | Frozen | Starved | Completed | Collapsed

definition status_ALL :: "molecule_status list" where
  "status_ALL = [Pending, Queued, Running, Frozen, Starved, Completed, Collapsed]"

fun ordinal :: "molecule_status \<Rightarrow> nat" where
  "ordinal Pending = 0"
| "ordinal Queued = 1"
| "ordinal Running = 2"
| "ordinal Frozen = 3"
| "ordinal Starved = 4"
| "ordinal Completed = 5"
| "ordinal Collapsed = 6"

definition is_evolvable :: "molecule_status \<Rightarrow> bool" where
  [status_simps]: "is_evolvable s \<longleftrightarrow> s = Running"

definition is_terminal :: "molecule_status \<Rightarrow> bool" where
  [status_simps]: "is_terminal s \<longleftrightarrow> s = Completed \<or> s = Collapsed"

definition satisfies_blocked_by :: "molecule_status \<Rightarrow> bool" where
  [status_simps]: "satisfies_blocked_by s \<longleftrightarrow> s = Completed"

definition is_alive :: "molecule_status \<Rightarrow> bool" where
  [status_simps]: "is_alive s \<longleftrightarrow> \<not> is_terminal s"

fun can_transition_to :: "molecule_status \<Rightarrow> molecule_status \<Rightarrow> bool" where
  "can_transition_to Frozen Running = True"
| "can_transition_to Starved Running = True"
| "can_transition_to Pending Collapsed = True"
| "can_transition_to Running Collapsed = True"
| "can_transition_to Starved Collapsed = True"
| "can_transition_to Running Completed = True"
| "can_transition_to Running Frozen = True"
| "can_transition_to Running Starved = True"
| "can_transition_to _ _ = False"

datatype phase = Live | Waiting | Blocked | Parked | Failed | Done

definition phase_ALL :: "phase list" where
  "phase_ALL = [Live, Waiting, Blocked, Parked, Failed, Done]"

fun phase_of :: "molecule_status \<Rightarrow> phase" where
  "phase_of Running = Live"
| "phase_of Pending = Waiting"
| "phase_of Queued = Waiting"
| "phase_of Starved = Blocked"
| "phase_of Frozen = Parked"
| "phase_of Collapsed = Failed"
| "phase_of Completed = Done"

definition phase_is_terminal :: "phase \<Rightarrow> bool" where
  [status_simps]: "phase_is_terminal p \<longleftrightarrow> p = Failed \<or> p = Done"

fun phase_as_str :: "phase \<Rightarrow> string" where
  "phase_as_str Live = ''live''"
| "phase_as_str Waiting = ''waiting''"
| "phase_as_str Blocked = ''blocked''"
| "phase_as_str Parked = ''parked''"
| "phase_as_str Failed = ''failed''"
| "phase_as_str Done = ''done''"

definition is_stuck :: "molecule_status \<Rightarrow> datetime option \<Rightarrow> bool" where
  [status_simps]: "is_stuck s stuck_at \<longleftrightarrow> s = Frozen \<and> stuck_at \<noteq> None"

fun as_str :: "molecule_status \<Rightarrow> string" where
  "as_str Pending = ''pending''"
| "as_str Queued = ''queued''"
| "as_str Running = ''running''"
| "as_str Frozen = ''frozen''"
| "as_str Starved = ''starved''"
| "as_str Completed = ''completed''"
| "as_str Collapsed = ''collapsed''"

record parse_enum_error =
  type_name :: string
  bad_value :: string

definition status_from_str :: "string \<Rightarrow> parse_enum_error + molecule_status" where
  "status_from_str s =
     (if s = ''pending'' then Ok Pending
      else if s = ''queued'' then Ok Queued
      else if s = ''running'' \<or> s = ''active'' then Ok Running
      else if s = ''frozen'' then Ok Frozen
      else if s = ''starved'' then Ok Starved
      else if s = ''completed'' then Ok Completed
      else if s = ''collapsed'' then Ok Collapsed
      else Err \<lparr>type_name = ''MoleculeStatus'', bad_value = s\<rparr>)"

datatype collapse_cause =
  RateLimit (account: "string option") (kind_quota: "string option")
| InferenceStall | Manual | ProcessDeath | UnknownCause

fun cause_as_str :: "collapse_cause \<Rightarrow> string" where
  "cause_as_str (RateLimit _ _) = ''rate_limit''"
| "cause_as_str InferenceStall = ''inference_stall''"
| "cause_as_str Manual = ''manual''"
| "cause_as_str ProcessDeath = ''process_death''"
| "cause_as_str UnknownCause = ''unknown''"

definition is_rate_limit :: "collapse_cause \<Rightarrow> bool" where
  "is_rate_limit c = (case c of RateLimit _ _ \<Rightarrow> True | _ \<Rightarrow> False)"

definition cause_from_str :: "string \<Rightarrow> parse_enum_error + collapse_cause" where
  "cause_from_str s =
     (if s = ''rate_limit'' \<or> s = ''ratelimit'' then Ok (RateLimit None None)
      else if s = ''inference_stall'' \<or> s = ''inferencestall'' then Ok InferenceStall
      else if s = ''manual'' then Ok Manual
      else if s = ''process_death'' \<or> s = ''processdeath'' then Ok ProcessDeath
      else if s = ''unknown'' then Ok UnknownCause
      else Err \<lparr>type_name = ''CollapseCause'', bad_value = s\<rparr>)"

section \<open>The typestate machine\<close>

record log_entry =
  timestamp :: datetime
  message :: string

record merge_evidence =
  commit :: string
  merged_at :: datetime

datatype pending_state = PendingS
datatype active_state = ActiveS
datatype frozen_state = FrozenS
datatype completed_state = CompletedS
datatype merged_state = MergedS (evidence: merge_evidence)
datatype collapsed_state = CollapsedS (reason: string) (at_step: nat)

record 's molecule =
  mid :: string
  formula_id :: string
  variables :: "string \<rightharpoonup> string"
  assigned_worker :: "string option"
  created_at :: datetime
  updated_at :: datetime
  mlog :: "log_entry list"
  links :: "string list"
  total_steps :: nat
  current_step :: nat
  completed_steps :: "string list"
  mstate :: 's

definition transition_to :: "'s molecule \<Rightarrow> 't \<Rightarrow> datetime \<Rightarrow> 't molecule" where
  [op_simps]: "transition_to m new_state now =
     \<lparr>mid = mid m, formula_id = formula_id m, variables = variables m,
      assigned_worker = assigned_worker m, created_at = created_at m, updated_at = now,
      mlog = mlog m, links = links m, total_steps = total_steps m,
      current_step = current_step m, completed_steps = completed_steps m,
      mstate = new_state\<rparr>"

definition push_log :: "string \<Rightarrow> datetime \<Rightarrow> 's molecule \<Rightarrow> 's molecule" where
  [op_simps]: "push_log msg now m = m\<lparr>mlog := mlog m @ [\<lparr>timestamp = now, message = msg\<rparr>]\<rparr>"

text \<open>\<open>Molecule::new\<close>; the assertion on \<open>total_steps\<close> panics, which is \<open>None\<close>.\<close>

definition new_molecule ::
  "string \<Rightarrow> string \<Rightarrow> nat \<Rightarrow> datetime \<Rightarrow> datetime \<Rightarrow> pending_state molecule option" where
  [op_simps]: "new_molecule i f n_steps now t1 =
     (if n_steps > 0 then
        Some (push_log ''molecule created'' t1
          \<lparr>mid = i, formula_id = f, variables = Map.empty, assigned_worker = None,
           created_at = now, updated_at = now, mlog = [], links = [], total_steps = n_steps,
           current_step = 0, completed_steps = [], mstate = PendingS\<rparr>)
      else None)"

definition set_variable ::
  "string \<Rightarrow> string \<Rightarrow> pending_state molecule \<Rightarrow> pending_state molecule" where
  [op_simps]: "set_variable k v m = m\<lparr>variables := (variables m)(k \<mapsto> v)\<rparr>"

definition entangle :: "string \<Rightarrow> pending_state molecule \<Rightarrow> pending_state molecule" where
  [op_simps]: "entangle l m = m\<lparr>links := links m @ [l]\<rparr>"

definition tackle ::
  "string \<Rightarrow> datetime \<Rightarrow> datetime \<Rightarrow> pending_state molecule \<Rightarrow> active_state molecule" where
  [op_simps]: "tackle worker t1 t2 m =
     transition_to (push_log ''tackled'' t1 (m\<lparr>assigned_worker := Some worker\<rparr>)) ActiveS t2"

datatype evolve_outcome =
  EvActive "active_state molecule" | EvCompleted "completed_state molecule"

definition evolve ::
  "string \<Rightarrow> datetime \<Rightarrow> datetime \<Rightarrow> datetime \<Rightarrow> active_state molecule \<Rightarrow> evolve_outcome" where
  [op_simps]: "evolve step_id t1 t2 t3 m =
     (let m1 = push_log (''completed step '' @ show_nat (current_step m)) t1
                 (m\<lparr>completed_steps := completed_steps m @ [step_id]\<rparr>)
      in if current_step m1 + 1 \<ge> total_steps m1 then
           EvCompleted (transition_to (push_log ''all steps completed'' t2 m1) CompletedS t3)
         else
           (let m2 = m1\<lparr>current_step := current_step m1 + 1, updated_at := t2\<rparr>
            in EvActive (push_log (''evolved to step '' @ show_nat (current_step m2)) t3 m2)))"

definition collapse ::
  "string \<Rightarrow> datetime \<Rightarrow> datetime \<Rightarrow> active_state molecule \<Rightarrow> collapsed_state molecule" where
  [op_simps]: "collapse why t1 t2 m =
     (let step = current_step m
      in transition_to
           (push_log (''collapsed at step '' @ show_nat step @ '': '' @ why) t1 m)
           (CollapsedS why step) t2)"

definition freeze ::
  "datetime \<Rightarrow> datetime \<Rightarrow> active_state molecule \<Rightarrow> frozen_state molecule" where
  [op_simps]: "freeze t1 t2 m =
     transition_to (push_log (''frozen at step '' @ show_nat (current_step m)) t1 m) FrozenS t2"

definition thaw ::
  "datetime \<Rightarrow> datetime \<Rightarrow> frozen_state molecule \<Rightarrow> active_state molecule" where
  [op_simps]: "thaw t1 t2 m =
     transition_to (push_log (''thawed at step '' @ show_nat (current_step m)) t1 m) ActiveS t2"

definition done_molecule ::
  "merge_evidence \<Rightarrow> datetime \<Rightarrow> datetime \<Rightarrow> completed_state molecule \<Rightarrow> merged_state molecule" where
  [op_simps]: "done_molecule ev t1 t2 m =
     transition_to (push_log (''merged via '' @ commit ev) t1 m) (MergedS ev) t2"

definition collapse_reason :: "collapsed_state molecule \<Rightarrow> string" where
  "collapse_reason m = reason (mstate m)"

definition collapsed_step :: "collapsed_state molecule \<Rightarrow> nat" where
  "collapsed_step m = at_step (mstate m)"

definition merge_evidence_of :: "merged_state molecule \<Rightarrow> merge_evidence" where
  "merge_evidence_of m = evidence (mstate m)"

section \<open>The machine as a step relation\<close>

datatype any_molecule =
  APending "pending_state molecule" | AActive "active_state molecule"
| AFrozen "frozen_state molecule" | ACompleted "completed_state molecule"
| AMerged "merged_state molecule" | ACollapsed "collapsed_state molecule"

text \<open>\<open>MoleculeState::status\<close>, by the state marker of the instance.\<close>

fun status :: "any_molecule \<Rightarrow> molecule_status" where
  "status (APending _) = Pending"
| "status (AActive _) = Running"
| "status (AFrozen _) = Frozen"
| "status (ACompleted _) = Completed"
| "status (AMerged _) = Completed"
| "status (ACollapsed _) = Collapsed"

fun of_outcome :: "evolve_outcome \<Rightarrow> any_molecule" where
  "of_outcome (EvActive m) = AActive m"
| "of_outcome (EvCompleted m) = ACompleted m"

inductive mol_step :: "any_molecule \<Rightarrow> any_molecule \<Rightarrow> bool" where
  st_set_variable: "mol_step (APending m) (APending (set_variable k v m))"
| st_entangle: "mol_step (APending m) (APending (entangle l m))"
| st_tackle: "mol_step (APending m) (AActive (tackle w t1 t2 m))"
| st_evolve: "mol_step (AActive m) (of_outcome (evolve sid t1 t2 t3 m))"
| st_collapse: "mol_step (AActive m) (ACollapsed (collapse why t1 t2 m))"
| st_freeze: "mol_step (AActive m) (AFrozen (freeze t1 t2 m))"
| st_thaw: "mol_step (AFrozen m) (AActive (thaw t1 t2 m))"
| st_done: "mol_step (ACompleted m) (AMerged (done_molecule ev t1 t2 m))"

inductive_cases mol_step_MergedE: "mol_step (AMerged m) y"
inductive_cases mol_step_CollapsedE: "mol_step (ACollapsed m) y"

inductive mol_init :: "string \<Rightarrow> string \<Rightarrow> nat \<Rightarrow> any_molecule \<Rightarrow> bool" for i f n where
  "new_molecule i f n t0 t1 = Some m \<Longrightarrow> mol_init i f n (APending m)"

text \<open>The progress of a molecule: identity kept, steps counted, a worker from tackle on.\<close>

definition mol_core :: "string \<Rightarrow> string \<Rightarrow> nat \<Rightarrow> 's molecule \<Rightarrow> bool" where
  "mol_core i f n m \<longleftrightarrow>
     mid m = i \<and> formula_id m = f \<and> total_steps m = n \<and> current_step m < n \<and> mlog m \<noteq> []"

fun mol_inv :: "string \<Rightarrow> string \<Rightarrow> nat \<Rightarrow> any_molecule \<Rightarrow> bool" where
  "mol_inv i f n (APending m) \<longleftrightarrow>
     mol_core i f n m \<and> current_step m = 0 \<and> completed_steps m = [] \<and> assigned_worker m = None"
| "mol_inv i f n (AActive m) \<longleftrightarrow>
     mol_core i f n m \<and> length (completed_steps m) = current_step m \<and> assigned_worker m \<noteq> None"
| "mol_inv i f n (AFrozen m) \<longleftrightarrow>
     mol_core i f n m \<and> length (completed_steps m) = current_step m \<and> assigned_worker m \<noteq> None"
| "mol_inv i f n (ACompleted m) \<longleftrightarrow>
     mol_core i f n m \<and> length (completed_steps m) = n \<and> current_step m = n - 1 \<and>
     assigned_worker m \<noteq> None"
| "mol_inv i f n (AMerged m) \<longleftrightarrow>
     mol_core i f n m \<and> length (completed_steps m) = n \<and> current_step m = n - 1 \<and>
     assigned_worker m \<noteq> None"
| "mol_inv i f n (ACollapsed m) \<longleftrightarrow>
     mol_core i f n m \<and> length (completed_steps m) = current_step m \<and>
     collapsed_step m = current_step m \<and> assigned_worker m \<noteq> None"

lemma mol_inv_step: "mol_step x y \<Longrightarrow> mol_inv i f n x \<Longrightarrow> mol_inv i f n y"
  by (induction rule: mol_step.induct)
    (auto simp: op_simps mol_core_def Let_def collapsed_step_def)

lemma mol_inv_init: "mol_init i f n x \<Longrightarrow> mol_inv i f n x"
  by (auto elim!: mol_init.cases simp: op_simps mol_core_def split: if_splits)

interpretation mol: invariant_system "mol_init i f n" mol_step "mol_inv i f n" for i f n
  by unfold_locales (auto intro: mol_inv_step mol_inv_init)


text \<open>\<open>Display\<close> and \<open>FromStr\<close> of the two enums.\<close>

interpretation status_text: text_codec as_str status_from_str
proof
  show "status_from_str (as_str s) = Ok s" for s
    by (cases s) (simp_all add: status_from_str_def)
qed

lemma status_ALL_complete: "set status_ALL = UNIV"
  by (auto simp: status_ALL_def intro: molecule_status.exhaust)

instantiation molecule_status :: linorder
begin

definition less_eq_molecule_status_def: "a \<le> b \<longleftrightarrow> ordinal a \<le> ordinal b"

definition less_molecule_status_def: "a < b \<longleftrightarrow> ordinal a < ordinal b"

instance
proof
  fix a b c :: molecule_status
  show "a \<le> b \<Longrightarrow> b \<le> a \<Longrightarrow> a = b"
    by (cases a; cases b) (simp_all add: less_eq_molecule_status_def)
qed (auto simp: less_eq_molecule_status_def less_molecule_status_def)

end

lemma can_transition_iff:
  "(\<exists>t. can_transition_to s t) \<longleftrightarrow> s \<in> {Pending, Running, Frozen, Starved}"
proof (cases s)
  case Frozen
  then show ?thesis by (auto intro!: exI[of _ Running])
qed (auto intro: can_transition_to.simps(3,4,5)[THEN iffD2, OF TrueI])

lemma can_reach_terminal_iff:
  "(\<exists>t. is_terminal t \<and> can_transition_to\<^sup>+\<^sup>+ s t) \<longleftrightarrow> s \<in> {Pending, Running, Frozen, Starved}"
proof
  assume "\<exists>t. is_terminal t \<and> can_transition_to\<^sup>+\<^sup>+ s t"
  then obtain t where "can_transition_to\<^sup>+\<^sup>+ s t" by blast
  then show "s \<in> {Pending, Running, Frozen, Starved}"
    using can_transition_iff[of s] by (metis tranclpD)
next
  have "can_transition_to\<^sup>+\<^sup>+ Frozen Collapsed"
    by (rule tranclp.trancl_into_trancl[of _ _ Running]) (simp_all add: tranclp.r_into_trancl)
  then have "s \<in> {Pending, Running, Frozen, Starved} \<Longrightarrow> can_transition_to\<^sup>+\<^sup>+ s Collapsed"
    by (cases s) (simp_all add: tranclp.r_into_trancl)
  then show "s \<in> {Pending, Running, Frozen, Starved} \<Longrightarrow>
      \<exists>t. is_terminal t \<and> can_transition_to\<^sup>+\<^sup>+ s t"
    by (auto simp: status_simps)
qed

section \<open>Evolving a molecule to its end\<close>

text \<open>Calls of \<open>evolve\<close> on the molecule the previous call returned, one per step id.\<close>

fun evolve_all ::
  "(string \<times> datetime \<times> datetime \<times> datetime) list \<Rightarrow> active_state molecule \<Rightarrow> evolve_outcome option" where
  "evolve_all [] m = Some (EvActive m)"
| "evolve_all ((sid, t1, t2, t3) # cs) m =
     (case evolve sid t1 t2 t3 m of
        EvActive m' \<Rightarrow> evolve_all cs m'
      | EvCompleted m' \<Rightarrow> if cs = [] then Some (EvCompleted m') else None)"

lemma evolve_all_progress:
  assumes "current_step m < total_steps m"
  shows "case evolve_all cs m of
           None \<Rightarrow> length cs > total_steps m - current_step m
         | Some (EvActive m') \<Rightarrow>
             length cs < total_steps m - current_step m \<and>
             current_step m' = current_step m + length cs \<and>
             completed_steps m' = completed_steps m @ map fst cs
         | Some (EvCompleted m') \<Rightarrow>
             length cs = total_steps m - current_step m \<and>
             completed_steps m' = completed_steps m @ map fst cs"
  using assms
proof (induction cs m rule: evolve_all.induct)
  case (2 sid t1 t2 t3 cs m)
  show ?case
  proof (cases "current_step m + 1 \<ge> total_steps m")
    case True
    with 2 show ?thesis by (cases cs) (simp_all add: op_simps Let_def)
  next
    case False
    define m' where "m' = (case evolve sid t1 t2 t3 m of EvActive m' \<Rightarrow> m' | _ \<Rightarrow> m)"
    have ev: "evolve sid t1 t2 t3 m = EvActive m'"
      and m': "current_step m' = current_step m + 1" "total_steps m' = total_steps m"
        "completed_steps m' = completed_steps m @ [sid]"
      using False by (simp_all add: m'_def op_simps Let_def)
    show ?thesis
      using 2(1)[OF ev] False ev m' by (auto split: option.splits evolve_outcome.splits)
  qed
qed simp

section \<open>Properties\<close>

text \<open>
  C6. Lifecycle invariant: every molecule reached from \<open>Molecule::new\<close> by any sequence of
  operations keeps its identity and its number of steps, its current step stays below the
  total, the completed steps are counted exactly (none while pending, all of them once
  completed or merged, as many as the current step otherwise), the collapse step is the
  current one, and a worker is assigned from tackle on and only then.
\<close>

theorem molecule_lifecycle_invariant:
  assumes "reachable (mol_init i f n) mol_step x"
  shows "mol_inv i f n x"
  using assms by (rule mol.reachable_inv)

theorem molecule_lifecycle_invariant_witness:
  "\<exists>x. reachable (mol_init ''m-1'' ''work'' 2) mol_step x \<and> status x = Running \<and>
       mol_inv ''m-1'' ''work'' 2 x"
proof -
  obtain m where m: "new_molecule ''m-1'' ''work'' 2 0 1 = Some m" by (simp add: op_simps)
  let ?x = "AActive (tackle ''onyx'' 2 3 m)"
  have "reachable (mol_init ''m-1'' ''work'' 2) mol_step ?x"
    by (rule reachable.more, rule reachable.start) (rule mol_init.intros[OF m], rule st_tackle)
  then show ?thesis
    using molecule_lifecycle_invariant[of "''m-1''" "''work''" 2 ?x]
    by (intro exI[of _ ?x] conjI status.simps(2))
qed

text \<open>
  The typestate machine refines the transition table: an operation keeps the status, or
  is tackle (from pending to running), or follows \<open>can_transition_to\<close>; a merged or collapsed
  molecule has no further operation.
\<close>

theorem typestate_refines_transition_table:
  assumes "mol_step x y"
  shows "(status x = status y \<or> status x = Pending \<and> status y = Running \<or>
          can_transition_to (status x) (status y)) \<and>
         (is_terminal (status x) \<longrightarrow> status y = Completed \<and> (\<exists>m. y = AMerged m))"
  using assms by (induction rule: mol_step.induct) (auto simp: op_simps status_simps Let_def)

theorem typestate_refines_transition_table_witness:
  "\<exists>m. can_transition_to (status (AActive m)) (status (AFrozen (freeze 1 2 m))) \<and>
       mol_step (AActive m) (AFrozen (freeze 1 2 m))"
proof -
  let ?m = "tackle ''onyx'' 0 0 (the (new_molecule ''m-1'' ''work'' 1 0 0))"
  show ?thesis
    using typestate_refines_transition_table[OF st_freeze[of ?m 1 2]] st_freeze[of ?m 1 2]
    by auto
qed

text \<open>
  A tackled molecule completes at exactly its last step: evolving a fresh molecule of
  \<open>n\<close> steps with a list of step ids completes it if the list has \<open>n\<close> of them, leaves it
  active if there are fewer, and there is no call left to make if there are more; the
  completed steps are the ids in order.
\<close>

theorem evolve_completes_exactly_at_last_step:
  assumes "new_molecule i f n t0 t1 = Some m"
  shows "case evolve_all cs (tackle w u1 u2 m) of
           None \<Rightarrow> length cs > n
         | Some (EvActive m') \<Rightarrow>
             length cs < n \<and> current_step m' = length cs \<and> completed_steps m' = map fst cs
         | Some (EvCompleted m') \<Rightarrow> length cs = n \<and> completed_steps m' = map fst cs"
proof -
  let ?a = "tackle w u1 u2 m"
  have a: "current_step ?a = 0" "total_steps ?a = n" "completed_steps ?a = []" "n > 0"
    using assms by (auto simp: op_simps split: if_splits)
  then show ?thesis
    using evolve_all_progress[of ?a cs] by (simp split: option.splits evolve_outcome.splits)
qed

theorem evolve_completes_exactly_at_last_step_witness:
  "\<exists>m m'. new_molecule ''m-1'' ''work'' 2 0 0 = Some m \<and>
     evolve_all [(''a'', 1, 2, 3), (''b'', 4, 5, 6)] (tackle ''onyx'' 0 0 m) = Some (EvCompleted m') \<and>
     completed_steps m' = [''a'', ''b'']"
proof -
  obtain m where m: "new_molecule ''m-1'' ''work'' 2 0 0 = Some m" by (simp add: op_simps)
  show ?thesis
    using evolve_completes_exactly_at_last_step[OF m, of "[(''a'', 1, 2, 3), (''b'', 4, 5, 6)]" "''onyx''" 0 0] m
    by (auto split: option.splits evolve_outcome.splits)
qed

text \<open>
  Freezing and thawing loses nothing: the thawed molecule is the frozen one's origin with
  two log entries appended and a new update time.
\<close>

theorem freeze_thaw_roundtrip:
  "thaw t3 t4 (freeze t1 t2 m) =
     m\<lparr>mlog := mlog m @
        [\<lparr>timestamp = t1, message = ''frozen at step '' @ show_nat (current_step m)\<rparr>,
         \<lparr>timestamp = t3, message = ''thawed at step '' @ show_nat (current_step m)\<rparr>],
       updated_at := t4\<rparr>"
  by (cases m, cases "mstate m") (simp add: op_simps)

text \<open>
  The status text round trip: every status parses back from its display text, and the
  parser accepts no other text but the legacy alias \<open>active\<close> of running.
\<close>

theorem status_text_roundtrip:
  "status_from_str t = Ok s \<longleftrightarrow> t = as_str s \<or> t = ''active'' \<and> s = Running"
  using status_text.parse_print by (cases s) (auto simp: status_from_str_def split: if_splits)

text \<open>
  The status predicates agree with one another and with the table: the phase is terminal
  exactly on the terminal statuses, these are the statuses with no way out in the table apart
  from queued, and every other status can still reach a terminal one.
\<close>

theorem status_classification:
  "(phase_is_terminal (phase_of s) \<longleftrightarrow> is_terminal s) \<and>
   (is_alive s \<and> s \<noteq> Queued \<longleftrightarrow> (\<exists>t. can_transition_to s t)) \<and>
   (is_alive s \<and> s \<noteq> Queued \<longleftrightarrow> (\<exists>t. is_terminal t \<and> can_transition_to\<^sup>+\<^sup>+ s t)) \<and>
   ordinal s < length status_ALL \<and> status_ALL ! ordinal s = s"
  using can_transition_iff[of s] can_reach_terminal_iff[of s]
  by (cases s) (simp_all add: status_simps status_ALL_def)

end
