(* ===== verification/Worker.thy ===== *)
theory Worker
  imports Molecule
begin

text \<open>
  Workers: nesting depth and roles of \<open>crates/cosmon-core/src/agent.rs\<close>, the lifecycle
  statuses, the desired/observed/effective reconciliation of
  \<open>crates/cosmon-core/src/worker.rs\<close>, and the molecule health derived from it in
  \<open>crates/cosmon-core/src/reconcile/molecule.rs\<close>.
\<close>

section \<open>Nesting depth\<close>

definition MAX_AGENT_DEPTH :: u32 where
  "MAX_AGENT_DEPTH = 5"

text \<open>\<open>AgentDepth\<close> is a wrapped \<open>u32\<close>; the error \<open>DepthExceeded\<close> carries the refused depth.\<close>

definition depth_root :: u32 where
  "depth_root = 0"

definition depth_new :: "u32 \<Rightarrow> u32 + u32" where
  "depth_new v = (if v > MAX_AGENT_DEPTH then Err v else Ok v)"

definition can_spawn :: "u32 \<Rightarrow> bool" where
  "can_spawn d \<longleftrightarrow> d < MAX_AGENT_DEPTH"

definition depth_spawn_child :: "u32 \<Rightarrow> u32 + u32" where
  "depth_spawn_child d = depth_new (d + 1)"

section \<open>Roles\<close>

datatype agent_role =
  Orchestration | Research | Implementation | Infrastructure | Advisory | Validation | RuntimeAgent

fun agent_role_text :: "agent_role \<Rightarrow> string" where
  "agent_role_text Orchestration = ''orchestration''"
| "agent_role_text Research = ''research''"
| "agent_role_text Implementation = ''implementation''"
| "agent_role_text Infrastructure = ''infrastructure''"
| "agent_role_text Advisory = ''advisory''"
| "agent_role_text Validation = ''validation''"
| "agent_role_text RuntimeAgent = ''runtime''"

definition agent_role_from_str :: "string \<Rightarrow> parse_enum_error + agent_role" where
  "agent_role_from_str s =
     (if s = ''orchestration'' then Ok Orchestration
      else if s = ''research'' then Ok Research
      else if s = ''implementation'' then Ok Implementation
      else if s = ''infrastructure'' then Ok Infrastructure
      else if s = ''advisory'' then Ok Advisory
      else if s = ''validation'' then Ok Validation
      else if s = ''runtime'' then Ok RuntimeAgent
      else Err \<lparr>type_name = ''AgentRole'', bad_value = s\<rparr>)"

datatype worker_role = Cognition | Runtime

fun worker_role_text :: "worker_role \<Rightarrow> string" where
  "worker_role_text Cognition = ''cognition''"
| "worker_role_text Runtime = ''runtime''"

definition worker_role_from_str :: "string \<Rightarrow> parse_enum_error + worker_role" where
  "worker_role_from_str s =
     (if s = ''cognition'' then Ok Cognition
      else if s = ''runtime'' then Ok Runtime
      else Err \<lparr>type_name = ''WorkerRole'', bad_value = s\<rparr>)"

definition derive_worker_role :: "agent_role \<Rightarrow> string \<Rightarrow> worker_role" where
  "derive_worker_role r wid =
     (if r = RuntimeAgent \<or> prefix ''runtime-'' wid then Runtime else Cognition)"

section \<open>Lifecycle status\<close>

datatype worker_status =
  WStarting | WActive | WPaused | WStopping | WStopped | WError string | WUnresponsive | WStale

fun worker_status_text :: "worker_status \<Rightarrow> string" where
  "worker_status_text WStarting = ''starting''"
| "worker_status_text WActive = ''active''"
| "worker_status_text WPaused = ''paused''"
| "worker_status_text WStopping = ''stopping''"
| "worker_status_text WStopped = ''stopped''"
| "worker_status_text (WError msg) = ''error:'' @ msg"
| "worker_status_text WUnresponsive = ''unresponsive''"
| "worker_status_text WStale = ''stale''"

definition worker_status_from_str :: "string \<Rightarrow> parse_enum_error + worker_status" where
  "worker_status_from_str s =
     (if s = ''starting'' then Ok WStarting
      else if s = ''active'' then Ok WActive
      else if s = ''paused'' then Ok WPaused
      else if s = ''stopping'' then Ok WStopping
      else if s = ''stopped'' then Ok WStopped
      else if s = ''unresponsive'' then Ok WUnresponsive
      else if s = ''stale'' then Ok WStale
      else if prefix ''error:'' s then Ok (WError (drop 6 s))
      else Err \<lparr>type_name = ''WorkerStatus'', bad_value = s\<rparr>)"

record worker =
  wid :: string
  definition_id :: string
  wstatus :: worker_status
  session_id :: "string option"
  started_at :: datetime
  current_molecule :: "string option"
  depth :: u32

definition new_worker :: "string \<Rightarrow> string \<Rightarrow> datetime \<Rightarrow> worker" where
  "new_worker i d t =
     \<lparr>wid = i, definition_id = d, wstatus = WStarting, session_id = None, started_at = t,
      current_molecule = None, depth = depth_root\<rparr>"

definition worker_spawn_child :: "string \<Rightarrow> string \<Rightarrow> datetime \<Rightarrow> u32 \<Rightarrow> u32 + worker" where
  "worker_spawn_child i d t parent_depth =
     and_then (depth_spawn_child parent_depth) (\<lambda>dp.
       Ok \<lparr>wid = i, definition_id = d, wstatus = WStarting, session_id = None, started_at = t,
           current_molecule = None, depth = dp\<rparr>)"

section \<open>Reconciliation\<close>

datatype desired_state = DRunning | DPaused | DStopped

fun desired_text :: "desired_state \<Rightarrow> string" where
  "desired_text DRunning = ''running''"
| "desired_text DPaused = ''paused''"
| "desired_text DStopped = ''stopped''"

definition desired_from_str :: "string \<Rightarrow> parse_enum_error + desired_state" where
  "desired_from_str s =
     (if s = ''running'' then Ok DRunning
      else if s = ''paused'' then Ok DPaused
      else if s = ''stopped'' then Ok DStopped
      else Err \<lparr>type_name = ''DesiredState'', bad_value = s\<rparr>)"

datatype transport_state = TAlive | TDead | TUnknown

datatype cognitive_state = CFresh string | CStale | CNone

record observed_state =
  transport :: transport_state
  obs_session :: "string option"
  cognitive :: cognitive_state

datatype effective_status =
  EHealthy | EDead | EDiverged | ESuspect | EBlocked | EStopped | EPaused | EError string

datatype reconcile_action =
  Noop | Spawn | Kill | Freeze | Thaw | RecordFailure | Respawn | CircuitBreak

definition reconcile_running_alive ::
  "observed_state \<Rightarrow> effective_status \<times> reconcile_action list" where
  "reconcile_running_alive obs =
     (if obs_session obs = Some ''blocked'' \<or> obs_session obs = Some ''trust-prompt''
      then (EBlocked, [Noop])
      else (case cognitive obs of
              CFresh _ \<Rightarrow> (EHealthy, [Noop])
            | CNone \<Rightarrow> (EHealthy, [Noop])
            | CStale \<Rightarrow> (ESuspect, [RecordFailure])))"

definition reconcile ::
  "desired_state \<Rightarrow> observed_state \<Rightarrow> u32 \<Rightarrow> u32 \<Rightarrow> effective_status \<times> reconcile_action list" where
  "reconcile desired obs consecutive_failures max_restarts =
     (case (desired, transport obs) of
        (DRunning, TAlive) \<Rightarrow> reconcile_running_alive obs
      | (DRunning, TDead) \<Rightarrow>
          if consecutive_failures \<ge> max_restarts
          then (EError ''restart limit exceeded'', [CircuitBreak])
          else (EDead, [Respawn])
      | (DRunning, TUnknown) \<Rightarrow> (ESuspect, [Noop])
      | (DPaused, TAlive) \<Rightarrow> (EPaused, [Freeze])
      | (DPaused, _) \<Rightarrow> (EPaused, [Noop])
      | (DStopped, TAlive) \<Rightarrow> (EDiverged, [Kill])
      | (DStopped, _) \<Rightarrow> (EStopped, [Noop]))"

section \<open>Molecule health\<close>

datatype health =
  HHealthy | HOrphaned | HStalled | HBlocked | HDegraded | HInert | HTerminal

definition health_ALL :: "health list" where
  "health_ALL = [HHealthy, HOrphaned, HStalled, HBlocked, HDegraded, HInert, HTerminal]"

fun needs_attention :: "health \<Rightarrow> bool" where
  "needs_attention HOrphaned = True"
| "needs_attention HStalled = True"
| "needs_attention HBlocked = True"
| "needs_attention HDegraded = True"
| "needs_attention _ = False"

fun molecule_health :: "molecule_status \<Rightarrow> effective_status option \<Rightarrow> health" where
  "molecule_health Completed _ = HTerminal"
| "molecule_health Collapsed _ = HTerminal"
| "molecule_health Pending _ = HInert"
| "molecule_health Frozen _ = HInert"
| "molecule_health Starved _ = HDegraded"
| "molecule_health Queued w =
     (case w of
        Some EDead \<Rightarrow> HOrphaned
      | Some EDiverged \<Rightarrow> HOrphaned
      | Some EStopped \<Rightarrow> HOrphaned
      | Some (EError _) \<Rightarrow> HOrphaned
      | _ \<Rightarrow> HInert)"
| "molecule_health Running w =
     (case w of
        Some EHealthy \<Rightarrow> HHealthy
      | Some ESuspect \<Rightarrow> HStalled
      | Some EBlocked \<Rightarrow> HBlocked
      | None \<Rightarrow> HOrphaned
      | Some EDead \<Rightarrow> HOrphaned
      | Some EDiverged \<Rightarrow> HOrphaned
      | Some EStopped \<Rightarrow> HOrphaned
      | Some EPaused \<Rightarrow> HDegraded
      | Some (EError _) \<Rightarrow> HDegraded)"

section \<open>Lemmas\<close>

interpretation agent_role_codec: text_codec agent_role_text agent_role_from_str
proof
  show "agent_role_from_str (agent_role_text r) = Ok r" for r
    by (cases r) (simp_all add: agent_role_from_str_def)
qed

interpretation worker_role_codec: text_codec worker_role_text worker_role_from_str
proof
  show "worker_role_from_str (worker_role_text r) = Ok r" for r
    by (cases r) (simp_all add: worker_role_from_str_def)
qed

interpretation desired_codec: text_codec desired_text desired_from_str
proof
  show "desired_from_str (desired_text d) = Ok d" for d
    by (cases d) (simp_all add: desired_from_str_def)
qed

interpretation worker_status_codec: text_codec worker_status_text worker_status_from_str
proof
  show "worker_status_from_str (worker_status_text s) = Ok s" for s
    by (cases s) (simp_all add: worker_status_from_str_def)
qed

text \<open>The observation that a running molecule can rely on: alive, not at a prompt, not stale.\<close>

definition responsive :: "observed_state \<Rightarrow> bool" where
  "responsive obs \<longleftrightarrow>
     transport obs = TAlive \<and> obs_session obs \<noteq> Some ''blocked'' \<and>
     obs_session obs \<noteq> Some ''trust-prompt'' \<and> cognitive obs \<noteq> CStale"

text \<open>Workers as the code can build them: a root, or a child of a worker built before.\<close>

inductive spawned :: "nat \<Rightarrow> worker \<Rightarrow> bool" where
  spawned_root: "spawned 0 (new_worker i d t)"
| spawned_child:
    "spawned n p \<Longrightarrow> worker_spawn_child i d t (depth p) = Ok w \<Longrightarrow> spawned (Suc n) w"

lemma depth_spawn_child_Ok_iff:
  "d \<le> MAX_AGENT_DEPTH \<Longrightarrow>
   depth_spawn_child d = (if can_spawn d then Ok (d + 1) else Err (d + 1))"
  by (auto simp: depth_spawn_child_def depth_new_def can_spawn_def MAX_AGENT_DEPTH_def
      word_le_nat_alt word_less_nat_alt unat_word_ariths)

lemma spawned_depth: "spawned n w \<Longrightarrow> n \<le> 5 \<and> depth w = of_nat n \<and> depth w \<le> MAX_AGENT_DEPTH"
proof (induction rule: spawned.induct)
  case (spawned_root i d t)
  show ?case by (simp add: new_worker_def depth_root_def)
next
  case (spawned_child n p i d t w)
  then have "can_spawn (depth p)" "depth w = depth p + 1"
    by (auto simp: worker_spawn_child_def depth_spawn_child_Ok_iff split: if_splits)
  moreover from this have "depth w \<le> MAX_AGENT_DEPTH" "n < 5"
    using spawned_child unfolding can_spawn_def MAX_AGENT_DEPTH_def
    by (auto simp: word_le_nat_alt word_less_nat_alt unat_word_ariths unat_of_nat)
  ultimately show ?case using spawned_child by simp
qed

section \<open>Properties\<close>

text \<open>
  Reconciliation of a worker: exactly one action is returned, and it is justified by the
  pair of intent and observation: a process is killed only when it is alive and must be
  stopped, frozen only when it is alive and must be paused, respawned only when it is dead,
  must run and is below the restart limit, given up only when that limit is reached; a
  process that must not run and is not seen alive is left alone.
\<close>

theorem reconcile_action_justified:
  "\<exists>a. snd (reconcile d obs failures limit) = [a] \<and>
     (a = Kill \<longleftrightarrow> d = DStopped \<and> transport obs = TAlive) \<and>
     (a = Freeze \<longleftrightarrow> d = DPaused \<and> transport obs = TAlive) \<and>
     (a = Respawn \<longleftrightarrow> d = DRunning \<and> transport obs = TDead \<and> failures < limit) \<and>
     (a = CircuitBreak \<longleftrightarrow> d = DRunning \<and> transport obs = TDead \<and> limit \<le> failures) \<and>
     (a = RecordFailure \<longleftrightarrow>
        d = DRunning \<and> transport obs = TAlive \<and> cognitive obs = CStale \<and>
        obs_session obs \<noteq> Some ''blocked'' \<and> obs_session obs \<noteq> Some ''trust-prompt'') \<and>
     a \<noteq> Spawn \<and> a \<noteq> Thaw"
  by (cases d; cases "transport obs"; cases "cognitive obs")
    (auto simp: reconcile_def reconcile_running_alive_def)

text \<open>
  The health overlay is sound: the health computed for a molecule from its reconciled
  worker is \<open>Healthy\<close> exactly when the molecule runs, its worker is meant to run and the
  observation is responsive, and a running molecule needs attention in every other case.
\<close>

theorem health_of_reconciled_worker:
  "(molecule_health s (Some (fst (reconcile d obs failures limit))) = HHealthy
      \<longleftrightarrow> s = Running \<and> d = DRunning \<and> responsive obs) \<and>
   (needs_attention (molecule_health Running (Some (fst (reconcile d obs failures limit))))
      \<longleftrightarrow> \<not> (d = DRunning \<and> responsive obs))"
  by (cases d; cases "transport obs"; cases "cognitive obs"; cases s)
    (auto simp: reconcile_def reconcile_running_alive_def responsive_def)

text \<open>
  The nesting depth of every worker that construction and spawning can build counts its
  ancestors and stays within the limit; spawning a child succeeds exactly below the limit,
  with the depth increased by one and no wrap-around of the 32-bit counter.
\<close>

theorem worker_depth_bounded:
  assumes "spawned n w"
  shows "unat (depth w) = n \<and> n \<le> 5 \<and>
         (case worker_spawn_child i d t (depth w) of
            Ok c \<Rightarrow> n < 5 \<and> unat (depth c) = n + 1
          | Err e \<Rightarrow> n = 5 \<and> unat e = 6)"
proof -
  have n: "n \<le> 5" "depth w = of_nat n" "depth w \<le> MAX_AGENT_DEPTH"
    using spawned_depth[OF assms] by auto
  then have "unat (depth w) = n" by (simp add: unat_of_nat)
  moreover from this have "unat (depth w + 1) = n + 1"
    using n(1) by (simp add: unat_word_ariths)
  ultimately show ?thesis
    using n by (auto simp: worker_spawn_child_def depth_spawn_child_Ok_iff can_spawn_def
        MAX_AGENT_DEPTH_def word_less_nat_alt)
qed

theorem worker_depth_bounded_witness:
  "\<exists>w. spawned 1 w \<and> unat (depth w) = 1"
proof -
  let ?r = "new_worker ''root'' ''agent'' 0"
  obtain w where "worker_spawn_child ''kid'' ''agent'' 1 (depth ?r) = Ok w"
    by (simp add: worker_spawn_child_def depth_spawn_child_def depth_new_def new_worker_def
        depth_root_def MAX_AGENT_DEPTH_def)
  then have "spawned (Suc 0) w" by (rule spawned_child[OF spawned_root])
  then show ?thesis using worker_depth_bounded[of "Suc 0" w] by auto
qed

text \<open>
  The worker status text round trip: every status, error messages included, parses back
  from its display text.
\<close>

theorem worker_status_roundtrip:
  "worker_status_from_str (worker_status_text s) = Ok s"
  by (rule worker_status_codec.parse_print)

end
