(* ===== verification/RunState.thy ===== *)
theory RunState
  imports Worker
begin

text \<open>
  The run state of \<open>crates/cosmon-core/src/run_state.rs\<close>: the pilot's intent beside the
  probe's witness, the detection of drift between the two (\<open>ghost\<close>), and the projections
  from and to the older status fields.  Durations are naturals in nanoseconds, as
  \<open>std::time::Duration\<close> is unsigned.
\<close>

section \<open>Intent and witness\<close>

datatype terminus = TmCompleted | TmCollapsed | TmMerged

datatype intent = Run | Pause | Stop | Terminal terminus

fun intent_is_terminal :: "intent \<Rightarrow> bool" where
  "intent_is_terminal (Terminal _) = True"
| "intent_is_terminal _ = False"

datatype liveness = Alive | Dead | Unknown

datatype branch_state = Unmerged | Merged | Absent

record witness =
  observed_at :: datetime
  process :: liveness
  branch :: branch_state

definition witness_at :: "datetime \<Rightarrow> liveness \<Rightarrow> branch_state \<Rightarrow> witness" where
  "witness_at t p b = \<lparr>observed_at = t, process = p, branch = b\<rparr>"

text \<open>A negative age does not convert to a \<open>Duration\<close> and counts as fresh.\<close>

definition is_stale :: "witness \<Rightarrow> datetime \<Rightarrow> nat \<Rightarrow> bool" where
  "is_stale w now ttl \<longleftrightarrow>
     (let age = now - observed_at w in if age < 0 then False else nat age > ttl)"

record run_state =
  intent :: intent
  witness :: "witness option"

definition new_run_state :: "intent \<Rightarrow> run_state" where
  "new_run_state i = \<lparr>intent = i, witness = None\<rparr>"

definition running_state :: run_state where
  "running_state = new_run_state Run"

definition with_witness :: "intent \<Rightarrow> witness \<Rightarrow> run_state" where
  "with_witness i w = \<lparr>intent = i, witness = Some w\<rparr>"

definition write_intent :: "intent \<Rightarrow> run_state \<Rightarrow> run_state" where
  "write_intent i rs = rs\<lparr>intent := i\<rparr>"

definition record_witness :: "witness \<Rightarrow> run_state \<Rightarrow> run_state" where
  "record_witness w rs = rs\<lparr>witness := Some w\<rparr>"

fun terminus_of :: "intent \<Rightarrow> terminus option" where
  "terminus_of (Terminal t) = Some t"
| "terminus_of _ = None"

section \<open>Ghosts\<close>

datatype ghost_kind =
  DeadPane | VanishedWorker | UnHarvested | StaleProbe | UnnamedMerge | QuotaExhausted

fun ghost_as_str :: "ghost_kind \<Rightarrow> string" where
  "ghost_as_str DeadPane = ''dead-pane''"
| "ghost_as_str VanishedWorker = ''vanished-worker''"
| "ghost_as_str UnHarvested = ''un-harvested''"
| "ghost_as_str StaleProbe = ''stale-probe''"
| "ghost_as_str UnnamedMerge = ''unnamed-merge''"
| "ghost_as_str QuotaExhausted = ''quota-exhausted''"

definition witness_sat :: "run_state \<Rightarrow> (witness \<Rightarrow> bool) \<Rightarrow> bool" where
  "witness_sat rs P \<longleftrightarrow> (case witness rs of None \<Rightarrow> False | Some w \<Rightarrow> P w)"

definition ghost :: "run_state \<Rightarrow> datetime \<Rightarrow> nat \<Rightarrow> ghost_kind option" where
  "ghost rs now probe_ttl =
     (if intent rs = Terminal TmCompleted \<and> witness_sat rs (\<lambda>w. branch w = Unmerged)
      then Some UnHarvested
      else if witness_sat rs (\<lambda>w. branch w = Merged \<and> \<not> intent_is_terminal (intent rs))
      then Some UnnamedMerge
      else if intent rs = Run \<and> witness_sat rs (\<lambda>w. process w = Dead)
      then Some DeadPane
      else if intent rs = Run \<and> witness_sat rs (\<lambda>w. process w = Alive \<and> is_stale w now probe_ttl)
      then Some StaleProbe
      else if intent rs = Run \<and> witness rs = None
      then Some VanishedWorker
      else None)"

section \<open>Projections\<close>

fun intent_of_status :: "molecule_status \<Rightarrow> intent" where
  "intent_of_status Pending = Pause"
| "intent_of_status Queued = Pause"
| "intent_of_status Frozen = Pause"
| "intent_of_status Running = Run"
| "intent_of_status Starved = Run"
| "intent_of_status Completed = Terminal TmCompleted"
| "intent_of_status Collapsed = Terminal TmCollapsed"

fun intent_of_desired :: "desired_state \<Rightarrow> intent" where
  "intent_of_desired DRunning = Run"
| "intent_of_desired DPaused = Pause"
| "intent_of_desired DStopped = Stop"

fun liveness_of_transport :: "transport_state \<Rightarrow> liveness" where
  "liveness_of_transport TAlive = Alive"
| "liveness_of_transport TDead = Dead"
| "liveness_of_transport TUnknown = Unknown"

fun liveness_from_worker_status :: "worker_status \<Rightarrow> liveness" where
  "liveness_from_worker_status WActive = Alive"
| "liveness_from_worker_status WStarting = Alive"
| "liveness_from_worker_status WPaused = Alive"
| "liveness_from_worker_status WStopped = Dead"
| "liveness_from_worker_status WStopping = Dead"
| "liveness_from_worker_status WStale = Dead"
| "liveness_from_worker_status WUnresponsive = Unknown"
| "liveness_from_worker_status (WError _) = Unknown"

fun status_of_intent :: "intent \<Rightarrow> molecule_status" where
  "status_of_intent Run = Running"
| "status_of_intent Pause = Frozen"
| "status_of_intent Stop = Pending"
| "status_of_intent (Terminal TmCompleted) = Completed"
| "status_of_intent (Terminal TmMerged) = Completed"
| "status_of_intent (Terminal TmCollapsed) = Collapsed"

definition molecule_status_from_run_state :: "run_state \<Rightarrow> molecule_status" where
  "molecule_status_from_run_state rs = status_of_intent (intent rs)"

definition project_run_state ::
  "molecule_status \<Rightarrow> transport_state \<Rightarrow> datetime option \<Rightarrow> datetime \<Rightarrow> run_state" where
  "project_run_state st tr branch_merged_at t =
     with_witness (intent_of_status st)
       (witness_at t (liveness_of_transport tr)
          (if branch_merged_at \<noteq> None then Merged else Unmerged))"

section \<open>Properties\<close>

text \<open>
  The drift shapes as conditions on the state, each on its own: what the documentation of
  every variant says, with the precedence between them made explicit.
\<close>

fun ghost_shape :: "run_state \<Rightarrow> datetime \<Rightarrow> nat \<Rightarrow> ghost_kind \<Rightarrow> bool" where
  "ghost_shape rs now ttl UnHarvested \<longleftrightarrow>
     intent rs = Terminal TmCompleted \<and> (\<exists>w. witness rs = Some w \<and> branch w = Unmerged)"
| "ghost_shape rs now ttl UnnamedMerge \<longleftrightarrow>
     \<not> intent_is_terminal (intent rs) \<and> (\<exists>w. witness rs = Some w \<and> branch w = Merged)"
| "ghost_shape rs now ttl DeadPane \<longleftrightarrow>
     intent rs = Run \<and> (\<exists>w. witness rs = Some w \<and> branch w \<noteq> Merged \<and> process w = Dead)"
| "ghost_shape rs now ttl StaleProbe \<longleftrightarrow>
     intent rs = Run \<and> (\<exists>w. witness rs = Some w \<and> branch w \<noteq> Merged \<and> process w = Alive \<and>
       observed_at w + int ttl < now)"
| "ghost_shape rs now ttl VanishedWorker \<longleftrightarrow> intent rs = Run \<and> witness rs = None"
| "ghost_shape rs now ttl QuotaExhausted \<longleftrightarrow> False"

lemma is_stale_iff: "is_stale w now ttl \<longleftrightarrow> observed_at w + int ttl < now"
  unfolding is_stale_def Let_def by auto

text \<open>
  Drift detection is exact: \<open>ghost\<close> reports a kind if and only if the state has that
  kind's shape, so the shapes exclude one another and a state without any shape is reported
  consistent; the quota kind is never reported here.
\<close>

theorem ghost_classification_exact:
  "ghost rs now ttl = Some k \<longleftrightarrow> ghost_shape rs now ttl k"
  by (cases k; cases "witness rs"; cases "intent rs")
    (auto simp: ghost_def witness_sat_def is_stale_iff)

text \<open>
  The display projection of a molecule observed just now: no ghost is reported exactly
  for an unfinished molecule that is not merged and, if it must run, is not seen dead, and
  for a finished one that is collapsed or merged.
\<close>

theorem projected_state_ghost_free:
  "ghost (project_run_state st tr merged now) now ttl = None \<longleftrightarrow>
     (case st of
        Completed \<Rightarrow> merged \<noteq> None
      | Collapsed \<Rightarrow> True
      | Running \<Rightarrow> merged = None \<and> tr \<noteq> TDead
      | Starved \<Rightarrow> merged = None \<and> tr \<noteq> TDead
      | _ \<Rightarrow> merged = None)"
  by (cases st; cases tr; cases merged)
    (auto simp: ghost_def witness_sat_def is_stale_iff project_run_state_def with_witness_def
      witness_at_def)

text \<open>
  The migration bridge is a retraction: lifting a persisted status to an intent and
  projecting back is the identity on the four statuses that have an intent of their own, is
  idempotent on all, and keeps terminal statuses terminal; the witness has no influence.
\<close>

theorem status_projection_retract:
  "(molecule_status_from_run_state (project_run_state s tr merged t) = s
      \<longleftrightarrow> s \<in> {Running, Frozen, Completed, Collapsed}) \<and>
   intent_of_status (molecule_status_from_run_state (project_run_state s tr merged t)) =
     intent_of_status s \<and>
   (intent_is_terminal (intent_of_status s) \<longleftrightarrow> is_terminal s) \<and>
   molecule_status_from_run_state (record_witness w rs) = molecule_status_from_run_state rs"
  by (cases s) (simp_all add: molecule_status_from_run_state_def project_run_state_def
      with_witness_def record_witness_def status_simps)

text \<open>
  An observation that could not tell never ages into a ghost: with a run intent and an
  unknown process the state counts as consistent however old the witness is.
\<close>

theorem stale_unknown_probe_unreported:
  "ghost \<lparr>intent = Run, witness = Some \<lparr>observed_at = 0, process = Unknown, branch = Unmerged\<rparr>\<rparr>
     now ttl = None"
  by (simp add: ghost_def witness_sat_def)

end
