(* ===== verification/Ids.thy ===== *)
theory Ids
  imports RustStd
begin

text \<open>
  Validated identifiers of \<open>crates/cosmon-core/src/id.rs\<close>.  The calendar date that
  \<open>generate\<close> formats from the clock (\<open>chrono\<close>'s \<open>%Y%m%d\<close>) and the 16 random bits are
  arguments.
\<close>

datatype id_error = IdEmpty string | IdInvalid string string

text \<open>The constructor of the identifiers that the macro \<open>simple_id\<close> declares.\<close>

definition simple_id_new :: "string \<Rightarrow> string \<Rightarrow> id_error + string" where
  "simple_id_new k s = (if s = [] then Err (IdEmpty k) else Ok s)"

definition project_id_new :: "string \<Rightarrow> id_error + string" where
  "project_id_new s =
     (if s = [] then Err (IdEmpty ''ProjectId'')
      else if CHR ''-'' \<notin> set s
      then Err (IdInvalid ''ProjectId'' ''expected format: <dirname>-<hash4>'')
      else Ok s)"

definition is_valid_molecule_prefix :: "string \<Rightarrow> bool" where
  "is_valid_molecule_prefix p \<longleftrightarrow>
     p \<noteq> [] \<and> hd p \<noteq> CHR ''-'' \<and> last p \<noteq> CHR ''-'' \<and>
     list_all (\<lambda>c. is_ascii_alphanumeric c \<or> c = CHR ''-'') p"

record molecule_id =
  id_raw :: string
  id_prefix :: string
  id_date :: string
  id_suffix :: string

definition bad_prefix :: "string \<Rightarrow> id_error" where
  "bad_prefix p = IdInvalid ''MoleculeId''
     (''prefix must be non-empty ASCII alphanumeric with optional internal hyphens, got \"''
      @ p @ ''\"'')"

definition parse_u32_or_0 :: "string \<Rightarrow> nat" where
  "parse_u32_or_0 s = (case parse_unsigned 32 s of None \<Rightarrow> 0 | Some n \<Rightarrow> n)"

definition parse_inner :: "string \<Rightarrow> id_error + molecule_id" where
  "parse_inner s =
     (if s = [] then Err (IdEmpty ''MoleculeId'')
      else case Option.bind (rsplit_once CHR ''-'' s)
                  (\<lambda>(rest, suf). map_option (\<lambda>(pre, date). (pre, date, suf))
                     (rsplit_once CHR ''-'' rest)) of
             None \<Rightarrow> Err (IdInvalid ''MoleculeId''
                       (''expected PREFIX-YYYYMMDD-XXXX, got \"'' @ s @ ''\"''))
           | Some (pre, date, suf) \<Rightarrow>
               if \<not> is_valid_molecule_prefix pre then Err (bad_prefix pre)
               else if length date \<noteq> 8 \<or> \<not> list_all is_ascii_digit date
               then Err (IdInvalid ''MoleculeId''
                      (''date must be YYYYMMDD (8 digits), got \"'' @ date @ ''\"''))
               else
                 (let year = parse_u32_or_0 (take 4 date);
                      month = parse_u32_or_0 (take 2 (drop 4 date));
                      day = parse_u32_or_0 (take 2 (drop 6 date))
                  in if year < 2000 \<or> \<not> (1 \<le> month \<and> month \<le> 12) \<or> \<not> (1 \<le> day \<and> day \<le> 31)
                     then Err (IdInvalid ''MoleculeId'' (''invalid date: '' @ date))
                     else if suf = [] \<or> \<not> list_all is_ascii_alphanumeric suf
                     then Err (IdInvalid ''MoleculeId''
                            (''suffix must be non-empty alphanumeric, got \"'' @ suf @ ''\"''))
                     else Ok \<lparr>id_raw = s, id_prefix = pre, id_date = date, id_suffix = suf\<rparr>))"

text \<open>\<open>{:04x}\<close> of a \<open>u16\<close>: four lower-case hexadecimal digits.\<close>

definition hex_digit :: "nat \<Rightarrow> char" where
  "hex_digit d = (if d < 10 then char_of (48 + d) else char_of (87 + d))"

definition hex4 :: "16 word \<Rightarrow> string" where
  "hex4 w = (let n = unat w in
     [hex_digit (n div 4096 mod 16), hex_digit (n div 256 mod 16),
      hex_digit (n div 16 mod 16), hex_digit (n mod 16)])"

definition generate :: "string \<Rightarrow> string \<Rightarrow> 16 word \<Rightarrow> id_error + molecule_id" where
  "generate pre today rnd =
     (if \<not> is_valid_molecule_prefix pre then Err (bad_prefix pre)
      else parse_inner (pre @ ''-'' @ today @ ''-'' @ hex4 rnd))"

definition worker_id_new :: "string \<Rightarrow> id_error + string" where
  "worker_id_new s =
     (if s = [] then Err (IdEmpty ''WorkerId'')
      else
        (let name = (case strip_prefix ''ep-'' s of None \<Rightarrow> s | Some r \<Rightarrow> r)
         in if name = []
            then Err (IdInvalid ''WorkerId'' ''name after 'ep-' prefix cannot be empty'')
            else if \<not> list_all (\<lambda>c. is_ascii_alphanumeric c \<or> c = CHR ''-'') name
            then Err (IdInvalid ''WorkerId''
                   (''name must contain only ASCII alphanumeric or hyphens, got \"'' @ name @ ''\"''))
            else if hd name = CHR ''-'' \<or> last name = CHR ''-''
            then Err (IdInvalid ''WorkerId''
                   (''name must not start or end with hyphen, got \"'' @ name @ ''\"''))
            else Ok s))"

section \<open>Lemmas\<close>

text \<open>The grammar of molecule identifiers, stated without parsing.\<close>

definition valid_date :: "string \<Rightarrow> bool" where
  "valid_date d \<longleftrightarrow>
     length d = 8 \<and> list_all is_ascii_digit d \<and>
     2000 \<le> parse_u32_or_0 (take 4 d) \<and>
     parse_u32_or_0 (take 2 (drop 4 d)) \<in> {1..12} \<and>
     parse_u32_or_0 (take 2 (drop 6 d)) \<in> {1..31}"

definition valid_suffix :: "string \<Rightarrow> bool" where
  "valid_suffix x \<longleftrightarrow> x \<noteq> [] \<and> list_all is_ascii_alphanumeric x"

lemma hyphen_not_alphanumeric [simp]: "\<not> is_ascii_alphanumeric CHR ''-''"
  by (simp add: is_ascii_alphanumeric_def)

lemma hyphen_not_digit [simp]: "\<not> is_ascii_digit CHR ''-''"
  by (simp add: is_ascii_digit_def)

lemma rsplit3_Some_iff:
  "Option.bind (rsplit_once c s)
     (\<lambda>(rest, suf). map_option (\<lambda>(pre, date). (pre, date, suf)) (rsplit_once c rest)) =
     Some (pre, date, suf) \<longleftrightarrow>
   s = pre @ c # date @ c # suf \<and> c \<notin> set date \<and> c \<notin> set suf"
  by (force simp: bind_eq_Some_conv rsplit_once_Some_iff)

lemma hyphen_free:
  "list_all is_ascii_digit xs \<Longrightarrow> CHR ''-'' \<notin> set xs"
  "list_all is_ascii_alphanumeric xs \<Longrightarrow> CHR ''-'' \<notin> set xs"
  using hyphen_not_digit hyphen_not_alphanumeric unfolding list_all_iff by metis+

lemma hex_digit_alphanumeric: "d < 16 \<Longrightarrow> is_ascii_alphanumeric (hex_digit d)"
  by (auto simp: hex_digit_def is_ascii_alphanumeric_def Let_def)

lemma valid_suffix_hex4: "valid_suffix (hex4 w)"
  by (simp add: valid_suffix_def hex4_def Let_def hex_digit_alphanumeric)

lemma parse_inner_build:
  assumes "is_valid_molecule_prefix p" "valid_date d" "valid_suffix x"
  shows "parse_inner (p @ ''-'' @ d @ ''-'' @ x) =
    Ok \<lparr>id_raw = p @ ''-'' @ d @ ''-'' @ x, id_prefix = p, id_date = d, id_suffix = x\<rparr>"
proof -
  have "CHR ''-'' \<notin> set d" "CHR ''-'' \<notin> set x"
    using assms by (simp_all add: valid_date_def valid_suffix_def hyphen_free)
  then have "Option.bind (rsplit_once CHR ''-'' (p @ ''-'' @ d @ ''-'' @ x))
     (\<lambda>(rest, suf). map_option (\<lambda>(pre, date). (pre, date, suf)) (rsplit_once CHR ''-'' rest)) =
     Some (p, d, x)"
    by (simp add: rsplit3_Some_iff)
  then show ?thesis
    using assms by (auto simp: parse_inner_def valid_date_def valid_suffix_def Let_def)
qed

lemma parse_inner_OkD:
  assumes "parse_inner s = Ok m"
  shows "s = id_prefix m @ ''-'' @ id_date m @ ''-'' @ id_suffix m \<and> id_raw m = s \<and>
    is_valid_molecule_prefix (id_prefix m) \<and> valid_date (id_date m) \<and> valid_suffix (id_suffix m)"
proof -
  obtain p d x where "Option.bind (rsplit_once CHR ''-'' s)
     (\<lambda>(rest, suf). map_option (\<lambda>(pre, date). (pre, date, suf)) (rsplit_once CHR ''-'' rest)) =
     Some (p, d, x)"
    using assms by (auto simp: parse_inner_def split: if_splits option.splits)
  then show ?thesis
    using assms rsplit3_Some_iff[of "CHR ''-''" s p d x]
    by (auto simp: parse_inner_def valid_date_def valid_suffix_def Let_def split: if_splits)
qed

section \<open>Properties\<close>

text \<open>
  Molecule identifiers are parsed exactly: the parser accepts a string if and only if it
  is a valid prefix, a date and a suffix joined by hyphens, and then returns those three
  parts, although the prefix itself may contain hyphens; so the decomposition is unique.
\<close>

theorem molecule_id_parse_exact:
  "parse_inner s = Ok m \<longleftrightarrow>
     id_raw m = s \<and> s = id_prefix m @ ''-'' @ id_date m @ ''-'' @ id_suffix m \<and>
     is_valid_molecule_prefix (id_prefix m) \<and> valid_date (id_date m) \<and> valid_suffix (id_suffix m)"
  using parse_inner_OkD[of s m] parse_inner_build[of "id_prefix m" "id_date m" "id_suffix m"]
  by auto

text \<open>
  Identifier generation agrees with the parser: with any date the clock can format and
  any random bits, \<open>generate\<close> succeeds exactly on valid prefixes, and the identifier has that
  prefix, that date and the hexadecimal suffix.
\<close>

theorem molecule_id_generate_total:
  assumes "valid_date today"
  shows "case generate pre today rnd of
           Ok m \<Rightarrow> is_valid_molecule_prefix pre \<and> id_prefix m = pre \<and> id_date m = today \<and>
                   id_suffix m = hex4 rnd \<and> parse_inner (id_raw m) = Ok m
         | Err e \<Rightarrow> \<not> is_valid_molecule_prefix pre \<and> e = bad_prefix pre"
  using parse_inner_build[OF _ assms valid_suffix_hex4[of rnd], of pre]
  by (auto simp: generate_def)

theorem molecule_id_generate_total_witness:
  "valid_date ''20260705'' \<and>
   (case generate ''bug-closure'' ''20260705'' 255 of
      Ok m \<Rightarrow> id_prefix m = ''bug-closure'' | Err e \<Rightarrow> False)"
proof -
  have d: "valid_date ''20260705''"
    by (simp add: valid_date_def is_ascii_digit_def parse_u32_or_0_def parse_unsigned_def
        digit_val_def)
  have "is_valid_molecule_prefix ''bug-closure''"
    by (simp add: is_valid_molecule_prefix_def is_ascii_alphanumeric_def)
  then show ?thesis
    using molecule_id_generate_total[OF d, of "''bug-closure''" 255] d
    by (auto split: sum.splits)
qed

text \<open>
  The date part is checked by ranges only: the thirty-first of February is accepted.
\<close>

theorem molecule_id_accepts_impossible_date:
  "parse_inner ''cs-20260231-abcd'' =
     Ok \<lparr>id_raw = ''cs-20260231-abcd'', id_prefix = ''cs'', id_date = ''20260231'',
         id_suffix = ''abcd''\<rparr>"
  using parse_inner_build[of "''cs''" "''20260231''" "''abcd''"]
  by (simp add: is_valid_molecule_prefix_def valid_date_def valid_suffix_def is_ascii_digit_def
      is_ascii_alphanumeric_def parse_u32_or_0_def parse_unsigned_def digit_val_def)

end
