(* ===== verification/Formula.thy ===== *)
theory Formula
  imports Graph Ids "HOL-Library.List_Lexorder" "HOL-Library.Char_ord"
begin

text \<open>
  Formulas, the step programs of molecules (\<open>crates/cosmon-core/src/formula.rs\<close>): from the
  raw table that the TOML library reads to the validated \<open>Formula\<close> with its steps in
  dependency order.  The TOML reader itself is the argument \<open>toml\<close> of \<open>parse_formula\<close>.  A
  hash map is the association list of its entries in iteration order.  A panic is \<open>None\<close>.
\<close>

section \<open>Errors\<close>

datatype tier_error =
  InvalidLevel nat | Tier0Nucleates string | Tier1MissingMeasure
| Tier1MeasureNotReferenced string | Tier2Unsupported | Tier2SignatureInvalid string

datatype formula_error =
  TomlError string | NoSteps | DuplicateStepId string | UnknownDependency string string
| CircularDependency string | InvalidName string | CommandAndNative string
| InvalidResponseArtifact string string | MultipleStepKinds string string
| QueryMissingField string string | QueryUnknownSource string string
| LlmMissingField string string | LlmPromptAmbiguous string | ParallelLimitZero string
| ParallelLimitUnknownMode string string | UnknownValidationMode string string
| UnknownCapability string string | TierErr tier_error

section \<open>The raw table\<close>

record raw_query_spec =
  rq_expr :: string
  rq_source :: string
  rq_output_var :: string

record raw_llm_spec =
  rl_provider :: string
  rl_model :: string
  rl_prompt :: "string option"
  rl_prompt_file :: "string option"
  rl_output_path :: string
  rl_checkpoint_every :: "64 word"
  rl_timeout_per_checkpoint :: "64 word"
  rl_max_total_minutes :: "64 word"
  rl_max_retries :: u32

record raw_parallel_limit =
  rp_max :: u32
  rp_mode :: "string option"
  rp_policy :: "string option"

record verification_spec =
  criteria :: string
  max_retries :: u32

record raw_tier =
  rt_level :: nat
  rt_measure :: "string option"
  rt_signature :: "string option"

record raw_var =
  rv_description :: "string option"
  rv_type :: "string option"
  rv_required :: "bool option"
  rv_default :: "string option"

record raw_step =
  r_id :: string
  r_title :: string
  r_description :: string
  r_acceptance :: "string option"
  r_acceptance_artifacts :: "string list"
  r_response_artifact :: "string option"
  r_needs :: "string list"
  r_skills :: "string list"
  r_verification :: "verification_spec option"
  r_validation :: "string option"
  r_command :: "string option"
  r_native :: "string option"
  r_timeout :: "(64 word) option"
  r_timeout_minutes :: "u32 option"
  r_requires_parent_link :: bool
  r_parallel_limit :: "raw_parallel_limit option"
  r_query :: "raw_query_spec option"
  r_llm :: "raw_llm_spec option"
  r_adapter :: "string option"
  r_model :: "string option"
  r_harness :: "(string \<times> string) list"

record raw_formula =
  rf_formula :: string
  rf_version :: u32
  rf_description :: string
  rf_id_prefix :: string
  rf_type :: "string option"
  rf_freeze_on_last_step :: bool
  rf_deterministic :: bool
  rf_requires_capabilities :: "string list"
  rf_steps :: "raw_step list"
  rf_tier :: "raw_tier option"
  rf_vars :: "(string \<times> raw_var) list"
  rf_inputs :: "(string \<times> raw_var) list"

section \<open>The formula\<close>

datatype tier = TierZero | TierOne string | TierTwo string

fun tier_level :: "tier \<Rightarrow> nat" where
  "tier_level TierZero = 0"
| "tier_level (TierOne _) = 1"
| "tier_level (TierTwo _) = 2"

datatype query_source =
  CurrentMoleculeState | MoleculeState molecule_id | PromptSource | BriefingSource | EventsSource

record query_spec =
  q_expr :: string
  q_source :: query_source
  q_output_var :: string

record llm_spec =
  l_provider :: string
  l_model :: string
  l_prompt :: "string option"
  l_prompt_file :: "string option"
  l_output_path :: string
  l_checkpoint_every_secs :: "64 word"
  l_timeout_per_checkpoint_secs :: "64 word"
  l_max_total_minutes :: "64 word"
  l_max_retries :: u32

datatype parallel_limit = Static u32 | Smart string

fun static_max :: "parallel_limit \<Rightarrow> u32 option" where
  "static_max (Static m) = Some m"
| "static_max (Smart _) = None"

datatype validation_mode = MTime | Blake3 | Sha256 | KeyedBlake3

record step =
  s_id :: string
  s_title :: string
  s_description :: string
  exit_criteria :: "string option"
  expected_artifacts :: "string list"
  response_artifact :: "string option"
  depends_on :: "string list"
  skills :: "string list"
  order :: nat
  s_validation_mode :: "validation_mode option"
  verification :: "verification_spec option"
  command :: "string option"
  native :: "string option"
  timeout :: "(64 word) option"
  timeout_minutes :: "u32 option"
  requires_parent_link :: bool
  s_parallel_limit :: "parallel_limit option"
  query :: "query_spec option"
  llm :: "llm_spec option"
  adapter :: "string option"
  model :: "string option"
  harness :: "(string \<times> string) list"

definition is_gate :: "step \<Rightarrow> bool" where
  "is_gate s \<longleftrightarrow> command s \<noteq> None"

definition is_native :: "step \<Rightarrow> bool" where
  "is_native s \<longleftrightarrow> native s \<noteq> None"

definition is_query :: "step \<Rightarrow> bool" where
  "is_query s \<longleftrightarrow> query s \<noteq> None"

definition is_llm :: "step \<Rightarrow> bool" where
  "is_llm s \<longleftrightarrow> llm s \<noteq> None"

definition is_automated :: "step \<Rightarrow> bool" where
  "is_automated s \<longleftrightarrow> is_gate s \<or> is_native s \<or> is_query s \<or> is_llm s"

definition gate_timeout_secs :: "step \<Rightarrow> 64 word" where
  "gate_timeout_secs s = (case timeout s of None \<Rightarrow> 300 | Some t \<Rightarrow> t)"

definition stall_timeout_minutes :: "step \<Rightarrow> u32" where
  "stall_timeout_minutes s = (case timeout_minutes s of None \<Rightarrow> 30 | Some t \<Rightarrow> t)"

record variable =
  v_description :: "string option"
  v_type :: "string option"
  required :: bool
  default_value :: "string option"

datatype worker_capability = Shell | Vcs | CosmonCli

record formula =
  f_name :: string
  f_version :: u32
  f_description :: string
  f_id_prefix :: string
  f_kind :: "string option"
  steps :: "step list"
  f_variables :: "(string \<times> variable) list"
  freeze_on_last_step :: bool
  f_tier :: tier
  deterministic :: bool
  requires_capabilities :: "worker_capability list"

section \<open>Pieces of a step\<close>

definition build_parallel_limit ::
  "string \<Rightarrow> raw_parallel_limit option \<Rightarrow> formula_error + parallel_limit option" where
  "build_parallel_limit sid raw =
     (case raw of
        None \<Rightarrow> Ok None
      | Some r \<Rightarrow>
          if rp_max r = 0 then Err (ParallelLimitZero sid)
          else
            (let mode = (case rp_mode r of None \<Rightarrow> ''static'' | Some m \<Rightarrow> m)
             in if mode = ''static'' then Ok (Some (Static (rp_max r)))
                else if mode = ''smart''
                then Ok (Some (Smart (case rp_policy r of None \<Rightarrow> [] | Some p \<Rightarrow> p)))
                else Err (ParallelLimitUnknownMode sid mode)))"

definition parse_query_source :: "string \<Rightarrow> string \<Rightarrow> formula_error + query_source" where
  "parse_query_source sid raw =
     (let trimmed = trim raw
      in if trimmed = ''state'' \<or> trimmed = ''molecule:current'' then Ok CurrentMoleculeState
         else if trimmed = ''prompt'' then Ok PromptSource
         else if trimmed = ''briefing'' then Ok BriefingSource
         else if trimmed = ''events'' then Ok EventsSource
         else case strip_prefix ''molecule:'' trimmed of
                Some rest \<Rightarrow>
                  (case parse_inner rest of
                     Err _ \<Rightarrow> Err (QueryUnknownSource sid raw)
                   | Ok i \<Rightarrow> Ok (MoleculeState i))
              | None \<Rightarrow> Err (QueryUnknownSource sid raw))"

definition build_query_spec ::
  "string \<Rightarrow> raw_query_spec option \<Rightarrow> formula_error + query_spec option" where
  "build_query_spec sid raw =
     (case raw of
        None \<Rightarrow> Ok None
      | Some r \<Rightarrow>
          if is_blank (rq_expr r) then Err (QueryMissingField sid ''expr'')
          else if is_blank (rq_source r) then Err (QueryMissingField sid ''source'')
          else if is_blank (rq_output_var r) then Err (QueryMissingField sid ''output_var'')
          else
            and_then (parse_query_source sid (rq_source r)) (\<lambda>src.
              Ok (Some \<lparr>q_expr = rq_expr r, q_source = src, q_output_var = rq_output_var r\<rparr>)))"

definition build_llm_spec ::
  "string \<Rightarrow> raw_llm_spec option \<Rightarrow> formula_error + llm_spec option" where
  "build_llm_spec sid raw =
     (case raw of
        None \<Rightarrow> Ok None
      | Some r \<Rightarrow>
          if is_blank (rl_provider r) then Err (LlmMissingField sid ''provider'')
          else if is_blank (rl_model r) then Err (LlmMissingField sid ''model'')
          else if rl_prompt r = None \<and> rl_prompt_file r = None
          then Err (LlmMissingField sid ''prompt'')
          else if rl_prompt r \<noteq> None \<and> rl_prompt_file r \<noteq> None
          then Err (LlmPromptAmbiguous sid)
          else if rl_output_path r = [] then Err (LlmMissingField sid ''output_path'')
          else
            Ok (Some
              \<lparr>l_provider = rl_provider r, l_model = rl_model r, l_prompt = rl_prompt r,
               l_prompt_file = rl_prompt_file r, l_output_path = rl_output_path r,
               l_checkpoint_every_secs = rl_checkpoint_every r,
               l_timeout_per_checkpoint_secs = rl_timeout_per_checkpoint r,
               l_max_total_minutes = rl_max_total_minutes r,
               l_max_retries = rl_max_retries r\<rparr>))"

definition validation_mode_parse :: "string \<Rightarrow> string + validation_mode" where
  "validation_mode_parse s =
     (if s = ''mtime'' then Ok MTime
      else if s = ''blake3'' then Ok Blake3
      else if s = ''sha256'' then Ok Sha256
      else if s = ''keyed_blake3'' then Ok KeyedBlake3
      else Err s)"

text \<open>
  \<open>Path::components\<close> on Unix, as far as the check needs it: empty segments and non-leading
  dot segments vanish; a segment is normal unless it is a dot or a double dot.
\<close>

definition validate_response_artifact_path :: "string \<Rightarrow> bool" where
  "validate_response_artifact_path path \<longleftrightarrow>
     path \<noteq> [] \<and> hd path \<noteq> CHR ''/'' \<and>
     (let segs = filter (\<lambda>x. x \<noteq> []) (split_on CHR ''/'' path)
      in hd segs \<noteq> ''.'' \<and> list_all (\<lambda>x. x \<noteq> ''..'') segs)"

fun capability_token :: "worker_capability \<Rightarrow> string" where
  "capability_token Shell = ''shell''"
| "capability_token Vcs = ''vcs''"
| "capability_token CosmonCli = ''cs-cli''"

definition capability_ALL :: "worker_capability list" where
  "capability_ALL = [Shell, Vcs, CosmonCli]"

definition capability_from_str :: "string \<Rightarrow> string + worker_capability" where
  "capability_from_str s =
     (if s = ''shell'' then Ok Shell
      else if s = ''vcs'' then Ok Vcs
      else if s = ''cs-cli'' then Ok CosmonCli
      else Err s)"

section \<open>The tier contract\<close>

definition build_tier :: "raw_tier option \<Rightarrow> tier_error + tier" where
  "build_tier raw =
     (case raw of
        None \<Rightarrow> Ok TierZero
      | Some r \<Rightarrow>
          if rt_level r = 0 then Ok TierZero
          else if rt_level r = 1 then
            (case rt_measure r of None \<Rightarrow> Err Tier1MissingMeasure | Some m \<Rightarrow> Ok (TierOne m))
          else if rt_level r = 2 then
            (case rt_signature r of
               None \<Rightarrow> Err Tier2Unsupported
             | Some p \<Rightarrow> Err (Tier2SignatureInvalid p))
          else Err (InvalidLevel (rt_level r)))"

definition mentions_nucleate :: "string \<Rightarrow> bool" where
  "mentions_nucleate s \<longleftrightarrow>
     str_contains s ''cs nucleate '' \<or> str_contains s (''cs nucleate'' @ [char_of (10::nat)]) \<or>
     str_contains s ''cosmon_nucleate''"

definition step_nucleates :: "step \<Rightarrow> bool" where
  "step_nucleates s = (case command s of None \<Rightarrow> False | Some c \<Rightarrow> mentions_nucleate c)"

definition step_mentions :: "step \<Rightarrow> string \<Rightarrow> bool" where
  "step_mentions s msr \<longleftrightarrow>
     str_contains (s_description s) msr \<or> str_contains (s_title s) msr \<or>
     (case exit_criteria s of None \<Rightarrow> False | Some c \<Rightarrow> str_contains c msr)"

definition validate_tier :: "formula \<Rightarrow> tier_error + unit" where
  "validate_tier f =
     (case f_tier f of
        TierZero \<Rightarrow>
          (case find step_nucleates (steps f) of
             Some s \<Rightarrow> Err (Tier0Nucleates (s_id s))
           | None \<Rightarrow> Ok ())
      | TierOne msr \<Rightarrow>
          if is_blank msr then Err Tier1MissingMeasure
          else if \<not> (list_ex (\<lambda>s. step_mentions s msr) (steps f) \<or>
                     str_contains (f_description f) msr)
          then Err (Tier1MeasureNotReferenced msr)
          else Ok ()
      | TierTwo _ \<Rightarrow> Err Tier2Unsupported)"

section \<open>From the raw table to the formula\<close>

definition dep_edges :: "raw_step list \<Rightarrow> (string \<times> string) list" where
  "dep_edges ss = concat (map (\<lambda>s. map (\<lambda>dep. (dep, r_id s)) (r_needs s)) ss)"

definition topological_sort ::
  "(string list \<Rightarrow> string list) \<Rightarrow> raw_step list \<Rightarrow> (formula_error + string list) option" where
  "topological_sort it ss =
     map_option (\<lambda>r. case r of
         Err (CycleError n) \<Rightarrow> Err (CircularDependency n)
       | Ok res \<Rightarrow> Ok (res @ sort (map r_id (filter (\<lambda>s. r_id s \<notin> set res) ss))))
       (toposort it (dep_edges ss))"

text \<open>The three validation loops before sorting; each returns the error of its first hit.\<close>

fun first_duplicate :: "string set \<Rightarrow> raw_step list \<Rightarrow> string option" where
  "first_duplicate seen [] = None"
| "first_duplicate seen (s # ss) =
     (if r_id s \<in> seen then Some (r_id s) else first_duplicate (insert (r_id s) seen) ss)"

definition step_kinds :: "raw_step \<Rightarrow> string list" where
  "step_kinds s =
     (if r_command s \<noteq> None then [''command''] else []) @
     (if r_native s \<noteq> None then [''native''] else []) @
     (if r_query s \<noteq> None then [''query''] else []) @
     (if r_llm s \<noteq> None then [''llm''] else [])"

fun kinds_error :: "raw_step list \<Rightarrow> formula_error option" where
  "kinds_error [] = None"
| "kinds_error (s # ss) =
     (let kinds = step_kinds s
      in if length kinds \<le> 1 then kinds_error ss
         else if kinds = [''command'', ''native''] then Some (CommandAndNative (r_id s))
         else Some (MultipleStepKinds (r_id s) (join_with '', '' kinds)))"

fun unknown_dependency :: "string set \<Rightarrow> raw_step list \<Rightarrow> formula_error option" where
  "unknown_dependency seen [] = None"
| "unknown_dependency seen (s # ss) =
     (case find (\<lambda>dep. dep \<notin> seen) (r_needs s) of
        Some dep \<Rightarrow> Some (UnknownDependency (r_id s) dep)
      | None \<Rightarrow> unknown_dependency seen ss)"

definition build_step :: "nat \<Rightarrow> raw_step \<Rightarrow> formula_error + step" where
  "build_step ord s =
     and_then (build_parallel_limit (r_id s) (r_parallel_limit s)) (\<lambda>pl.
     and_then (case r_validation s of
                 None \<Rightarrow> Ok None
               | Some m \<Rightarrow>
                   (case validation_mode_parse m of
                      Err _ \<Rightarrow> Err (UnknownValidationMode (r_id s) m)
                    | Ok v \<Rightarrow> Ok (Some v))) (\<lambda>vm.
     and_then (build_query_spec (r_id s) (r_query s)) (\<lambda>q.
     and_then (build_llm_spec (r_id s) (r_llm s)) (\<lambda>l.
     and_then (case r_response_artifact s of
        Some path \<Rightarrow>
          if validate_response_artifact_path path then Ok ()
          else Err (InvalidResponseArtifact (r_id s) path)
      | None \<Rightarrow> Ok ()) (\<lambda>_.
     Ok \<lparr>s_id = r_id s, s_title = r_title s, s_description = r_description s,
         exit_criteria = r_acceptance s, expected_artifacts = r_acceptance_artifacts s,
         response_artifact = r_response_artifact s, depends_on = r_needs s,
         skills = r_skills s, order = ord, s_validation_mode = vm,
         verification = r_verification s, command = r_command s, native = r_native s,
         timeout = r_timeout s, timeout_minutes = r_timeout_minutes s,
         requires_parent_link = r_requires_parent_link s, s_parallel_limit = pl,
         query = q, llm = l, adapter = r_adapter s, model = r_model s,
         harness = r_harness s\<rparr>)))))"

text \<open>
  The mapping closure looks the order up with an indexing that panics on a missing key; the
  collection stops at the first error.
\<close>

fun build_steps ::
  "(string \<rightharpoonup> nat) \<Rightarrow> raw_step list \<Rightarrow> (formula_error + step list) option" where
  "build_steps om [] = Some (Ok [])"
| "build_steps om (s # ss) =
     (case om (r_id s) of
        None \<Rightarrow> None
      | Some ord \<Rightarrow>
          (case build_step ord s of
             Err e \<Rightarrow> Some (Err e)
           | Ok st \<Rightarrow>
               map_option (\<lambda>r. and_then r (\<lambda>sts. Ok (st # sts))) (build_steps om ss)))"

definition order_map :: "string list \<Rightarrow> (string \<rightharpoonup> nat)" where
  "order_map ordered = map_of (zip ordered [0..<length ordered])"

fun merge_vars :: "(string \<times> raw_var) list \<Rightarrow> (string \<times> raw_var) list \<Rightarrow> (string \<times> raw_var) list" where
  "merge_vars vars [] = vars"
| "merge_vars vars ((k, v) # rest) =
     merge_vars (if k \<in> fst ` set vars then vars else vars @ [(k, v)]) rest"

definition build_variable :: "raw_var \<Rightarrow> variable" where
  "build_variable v =
     \<lparr>v_description = rv_description v, v_type = rv_type v,
      required = (case rv_required v of None \<Rightarrow> False | Some b \<Rightarrow> b),
      default_value = rv_default v\<rparr>"

fun build_capabilities :: "string list \<Rightarrow> formula_error + worker_capability list" where
  "build_capabilities [] = Ok []"
| "build_capabilities (tok # ts) =
     (case capability_from_str tok of
        Err _ \<Rightarrow> Err (UnknownCapability tok (join_with '', '' (map capability_token capability_ALL)))
      | Ok c \<Rightarrow> and_then (build_capabilities ts) (\<lambda>cs. Ok (c # cs)))"

fun id_error_text :: "id_error \<Rightarrow> string" where
  "id_error_text (IdEmpty k) = k @ '' cannot be empty''"
| "id_error_text (IdInvalid k r) = k @ '': '' @ r"

text \<open>The tail of \<open>parse\<close>: variables, tier, capabilities, the formula and its tier check.\<close>

definition finish_formula :: "raw_formula \<Rightarrow> string \<Rightarrow> step list \<Rightarrow> formula_error + formula" where
  "finish_formula raw name sts =
     and_then (map_err TierErr (build_tier (rf_tier raw))) (\<lambda>t.
     and_then (build_capabilities (rf_requires_capabilities raw)) (\<lambda>caps.
       (let f = \<lparr>f_name = name, f_version = rf_version raw,
                 f_description = rf_description raw, f_id_prefix = rf_id_prefix raw,
                 f_kind = rf_type raw, steps = sort_key order sts,
                 f_variables = map (\<lambda>(k, v). (k, build_variable v))
                                 (merge_vars (rf_vars raw) (rf_inputs raw)),
                 freeze_on_last_step = rf_freeze_on_last_step raw, f_tier = t,
                 deterministic = rf_deterministic raw, requires_capabilities = caps\<rparr>
        in and_then (map_err TierErr (validate_tier f)) (\<lambda>_. Ok f))))"

definition formula_of_raw ::
  "(string list \<Rightarrow> string list) \<Rightarrow> raw_formula \<Rightarrow> (formula_error + formula) option" where
  "formula_of_raw it raw =
     (case simple_id_new ''FormulaId'' (rf_formula raw) of
        Err e \<Rightarrow> Some (Err (InvalidName (id_error_text e)))
      | Ok name \<Rightarrow>
          if rf_steps raw = [] then Some (Err NoSteps)
          else case first_duplicate {} (rf_steps raw) of
                 Some i \<Rightarrow> Some (Err (DuplicateStepId i))
               | None \<Rightarrow>
          (case kinds_error (rf_steps raw) of
             Some e \<Rightarrow> Some (Err e)
           | None \<Rightarrow>
          (case unknown_dependency (set (map r_id (rf_steps raw))) (rf_steps raw) of
             Some e \<Rightarrow> Some (Err e)
           | None \<Rightarrow>
          (case topological_sort it (rf_steps raw) of
             None \<Rightarrow> None
           | Some (Err e) \<Rightarrow> Some (Err e)
           | Some (Ok ordered) \<Rightarrow>
               map_option (\<lambda>r. and_then r (finish_formula raw name))
                 (build_steps (order_map ordered) (rf_steps raw))))))"

definition parse_formula ::
  "(string \<Rightarrow> string + raw_formula) \<Rightarrow> (string list \<Rightarrow> string list) \<Rightarrow> string
     \<Rightarrow> (formula_error + formula) option" where
  "parse_formula toml it text =
     (case toml text of
        Err e \<Rightarrow> Some (Err (TomlError e))
      | Ok raw \<Rightarrow> formula_of_raw it raw)"

definition verify_requires_execution :: "formula \<Rightarrow> bool" where
  "verify_requires_execution f \<longleftrightarrow> \<not> deterministic f"

definition missing_required_vars :: "formula \<Rightarrow> (string \<rightharpoonup> string) \<Rightarrow> string list" where
  "missing_required_vars f provided =
     sort (map fst
       (filter (\<lambda>(k, _). case provided k of None \<Rightarrow> True | Some v \<Rightarrow> is_blank v)
          (filter (\<lambda>(_, v). required v \<and> default_value v = None) (f_variables f))))"

section \<open>Sorting the steps\<close>

text \<open>The properties of a well-formed formula: what the rest of the system relies on.\<close>

definition formula_wf :: "formula \<Rightarrow> bool" where
  "formula_wf f \<longleftrightarrow>
     steps f \<noteq> [] \<and> distinct (map s_id (steps f)) \<and>
     (\<forall>i < length (steps f). order (steps f ! i) = i \<and>
        set (depends_on (steps f ! i)) \<subseteq> set (map s_id (take i (steps f))))"

lemma first_duplicate_None_iff:
  "first_duplicate seen ss = None \<longleftrightarrow> distinct (map r_id ss) \<and> set (map r_id ss) \<inter> seen = {}"
  by (induction ss arbitrary: seen) auto

lemma unknown_dependency_None_iff:
  "unknown_dependency seen ss = None \<longleftrightarrow> (\<forall>s\<in>set ss. set (r_needs s) \<subseteq> seen)"
  by (induction ss) (auto simp: find_None_iff split: option.splits dest: find_SomeE)

lemma kinds_error_None_iff: "kinds_error ss = None \<longleftrightarrow> (\<forall>s\<in>set ss. length (step_kinds s) \<le> 1)"
  by (induction ss) (auto simp: Let_def)

lemma preds_dep_edges:
  "distinct (map r_id ss) \<Longrightarrow> s \<in> set ss \<Longrightarrow> preds (dep_edges ss) (r_id s) = set (r_needs s)"
  by (fastforce simp: preds_def dep_edges_def distinct_map dest: inj_onD)

lemma nodes_dep_edges:
  assumes "\<forall>s\<in>set ss. set (r_needs s) \<subseteq> set (map r_id ss)"
  shows "nodes (dep_edges ss) \<subseteq> set (map r_id ss)"
  using assms by (fastforce simp: nodes_def dep_edges_def)

lemma topological_sort_total: "hash_order it \<Longrightarrow> topological_sort it ss \<noteq> None"
  by (simp add: topological_sort_def graph_sort.sorter_total)

lemma topological_sort_cyclic:
  assumes "hash_order it" and "\<not> acyclic (set (dep_edges ss))"
  shows "\<exists>e. topological_sort it ss = Some (Err e)"
  using graph_sort.sorter_cyclic[OF assms]
  by (auto simp: topological_sort_def split: cycle_error.splits)

lemma topological_sort_OkD:
  assumes it: "hash_order it" and ok: "topological_sort it ss = Some (Ok ordered)"
    and dist: "distinct (map r_id ss)"
    and known: "\<forall>s\<in>set ss. set (r_needs s) \<subseteq> set (map r_id ss)"
  shows "distinct ordered" and "set ordered = set (map r_id ss)"
    and "topo_from (dep_edges ss) {} ordered"
proof -
  let ?lone = "\<lambda>res. sort (map r_id (filter (\<lambda>s. r_id s \<notin> set res) ss))"
  from ok obtain res where res: "toposort it (dep_edges ss) = Some (Ok res)"
    and ordered: "ordered = res @ ?lone res"
    by (cases "toposort it (dep_edges ss)")
      (auto simp: topological_sort_def split: sum.splits cycle_error.splits)
  note R = graph_sort.sorter_OkD[OF it res]
  have "distinct (?lone res)" using dist by (simp add: distinct_map inj_on_def)
  moreover have "set (?lone res) \<inter> nodes (dep_edges ss) = {}" using R(3) by auto
  ultimately show "distinct ordered" "topo_from (dep_edges ss) {} ordered"
    using graph_sort.sorter_append_isolated[OF it res, of "?lone res"] ordered by blast+
  show "set ordered = set (map r_id ss)"
    using R(3) nodes_dep_edges[OF known] unfolding ordered by auto
qed

lemma order_map_Some_iff:
  "distinct ordered \<Longrightarrow> order_map ordered x = Some i \<longleftrightarrow> i < length ordered \<and> ordered ! i = x"
  by (auto simp: order_map_def in_set_zip map_of_eq_Some_iff)

lemma build_step_OkD:
  "build_step n s = Ok st \<Longrightarrow> s_id st = r_id s \<and> depends_on st = r_needs s \<and> order st = n \<and>
     command st = r_command s"
  by (auto simp: build_step_def)

lemma build_steps_total:
  "\<forall>s\<in>set ss. om (r_id s) \<noteq> None \<Longrightarrow> build_steps om ss \<noteq> None"
  by (induction om ss rule: build_steps.induct) (auto split: option.splits sum.splits)

lemma build_steps_OkD:
  "build_steps om ss = Some (Ok sts) \<Longrightarrow>
     map s_id sts = map r_id ss \<and> map depends_on sts = map r_needs ss \<and>
     map (\<lambda>st. Some (order st)) sts = map (\<lambda>s. om (r_id s)) ss"
proof (induction om ss arbitrary: sts rule: build_steps.induct)
  case (2 om s ss)
  then obtain n st rest where "om (r_id s) = Some n" "build_step n s = Ok st"
    "build_steps om ss = Some (Ok rest)" "sts = st # rest"
    by (auto split: option.splits sum.splits)
  with 2 build_step_OkD[of n s st] show ?case by auto
qed simp

text \<open>Sorting by a key that numbers the elements puts element number \<open>i\<close> at place \<open>i\<close>.\<close>

lemma sort_key_numbering:
  assumes "distinct (map k xs)" and "set (map k xs) = {0..<length xs}" and "i < length xs"
  shows "k (sort_key k xs ! i) = i"
proof -
  have "map k (sort_key k xs) = sort (map k xs)"
    by (rule properties_for_sort[symmetric]) simp_all
  also have "\<dots> = [0..<length xs]"
    using assms(1,2) by (intro sorted_distinct_set_unique) simp_all
  finally show ?thesis using assms(3) by (metis add_0 length_map length_sort nth_map nth_upt)
qed

lemma sorted_steps:
  assumes dist: "distinct ordered" and ids: "set ordered = set (map s_id sts)"
    and dist_ids: "distinct (map s_id sts)"
    and ord: "\<forall>st\<in>set sts. order_map ordered (s_id st) = Some (order st)"
  shows "map s_id (sort_key order sts) = ordered \<and>
    (\<forall>i < length sts. order (sort_key order sts ! i) = i)"
proof -
  let ?n = "length sts"
  have nth: "order st < length ordered \<and> ordered ! order st = s_id st" if "st \<in> set sts" for st
    using that ord order_map_Some_iff[OF dist] by blast
  have n: "length ordered = ?n"
    using dist dist_ids ids by (metis distinct_card length_map)
  have d: "distinct (map order sts)"
    using nth dist_ids by (auto simp: distinct_map intro!: inj_onI dest: inj_onD) (metis inj_onD)
  moreover have "set (map order sts) = {0..<?n}"
  proof (rule card_subset_eq)
    show "set (map order sts) \<subseteq> {0..<?n}" using nth n by auto
    show "card (set (map order sts)) = card {0..<?n}" using distinct_card[OF d] by simp
  qed simp
  ultimately have o: "order (sort_key order sts ! i) = i" if "i < ?n" for i
    using sort_key_numbering[of order sts i] that by blast
  moreover have "map s_id (sort_key order sts) = ordered"
  proof (rule nth_equalityI)
    fix i assume "i < length (map s_id (sort_key order sts))"
    then have "i < ?n" by simp
    moreover from this have "sort_key order sts ! i \<in> set sts" by (metis length_sort nth_mem set_sort)
    ultimately show "map s_id (sort_key order sts) ! i = ordered ! i"
      using o nth by fastforce
  qed (simp add: n)
  ultimately show ?thesis by blast
qed

section \<open>Parsing\<close>

lemma formula_of_raw_guards:
  assumes "formula_of_raw it raw = Some (Ok f)"
  shows "rf_steps raw \<noteq> []" and "distinct (map r_id (rf_steps raw))"
    and "\<forall>s\<in>set (rf_steps raw). length (step_kinds s) \<le> 1"
    and "\<forall>s\<in>set (rf_steps raw). set (r_needs s) \<subseteq> set (map r_id (rf_steps raw))"
    and "\<exists>name ordered sts. topological_sort it (rf_steps raw) = Some (Ok ordered) \<and>
      build_steps (order_map ordered) (rf_steps raw) = Some (Ok sts) \<and>
      finish_formula raw name sts = Ok f"
  using assms
  unfolding formula_of_raw_def
  by (auto split: sum.splits if_splits option.splits
      simp: first_duplicate_None_iff kinds_error_None_iff unknown_dependency_None_iff)

lemma finish_formula_steps:
  "finish_formula raw name sts = Ok f \<Longrightarrow> steps f = sort_key order sts"
  by (auto simp: finish_formula_def Let_def)

lemma formula_of_raw_wf:
  assumes it: "hash_order it" and ok: "formula_of_raw it raw = Some (Ok f)"
  shows "formula_wf f \<and> mset (map s_id (steps f)) = mset (map r_id (rf_steps raw))"
proof -
  let ?ss = "rf_steps raw"
  note G = formula_of_raw_guards[OF ok]
  from G(5) obtain name ordered sts where
    ts: "topological_sort it ?ss = Some (Ok ordered)" and
    bs: "build_steps (order_map ordered) ?ss = Some (Ok sts)" and
    ff: "finish_formula raw name sts = Ok f" by blast
  note T = topological_sort_OkD[OF it ts G(2) G(4)]
  note B = build_steps_OkD[OF bs]
  note F = finish_formula_steps[OF ff]
  have ids: "map s_id sts = map r_id ?ss" and len: "length sts = length ?ss"
    using B by (auto dest: map_eq_imp_length_eq)
  have st: "\<exists>s\<in>set ?ss. s_id st = r_id s \<and> depends_on st = r_needs s \<and>
      order_map ordered (s_id st) = Some (order st)" if "st \<in> set sts" for st
  proof -
    from that obtain k where "k < length sts" "st = sts ! k" by (auto simp: in_set_conv_nth)
    then show ?thesis using B len by (intro bexI[of _ "?ss ! k"]) (metis (no_types, lifting) nth_map nth_mem)+
  qed
  have S: "map s_id (steps f) = ordered" "\<forall>i < length sts. order (steps f ! i) = i"
    unfolding F using sorted_steps[of ordered sts] T(1,2) ids G(2) st by auto
  have "set (depends_on (steps f ! i)) \<subseteq> set (map s_id (take i (steps f)))"
    if i: "i < length (steps f)" for i
  proof -
    let ?st = "steps f ! i"
    have "?st \<in> set sts" using i by (metis F nth_mem set_sort)
    with st obtain s where s: "s \<in> set ?ss" "s_id ?st = r_id s" "depends_on ?st = r_needs s" by blast
    have "ordered = take i ordered @ s_id ?st # drop (Suc i) ordered"
      using i by (metis S(1) id_take_nth_drop length_map nth_map)
    then have "preds (dep_edges ?ss) (s_id ?st) \<subseteq> set (take i ordered)"
      using T(3) topo_from_split[of "dep_edges ?ss" "{}" "take i ordered" "s_id ?st" "drop (Suc i) ordered"]
      by simp
    then show ?thesis
      using s preds_dep_edges[OF G(2) s(1)] by (simp add: S(1)[symmetric] take_map)
  qed
  moreover have "steps f \<noteq> []" using F len G(1) by (metis length_0_conv length_sort)
  moreover have "mset (map s_id (steps f)) = mset (map r_id ?ss)"
    using ids by (simp add: F) (metis mset_map)
  ultimately show ?thesis
    using S T(1) by (auto simp: formula_wf_def F)
qed

lemma formula_of_raw_total:
  assumes "hash_order it"
  shows "formula_of_raw it raw \<noteq> None"
proof -
  let ?ss = "rf_steps raw"
  have "build_steps (order_map ordered) ?ss \<noteq> None"
    if "topological_sort it ?ss = Some (Ok ordered)" "distinct (map r_id ?ss)"
      "\<forall>s\<in>set ?ss. set (r_needs s) \<subseteq> set (map r_id ?ss)" for ordered
  proof (rule build_steps_total, rule ballI)
    fix s assume "s \<in> set ?ss"
    then have "r_id s \<in> set ordered" using topological_sort_OkD(2)[OF assms that] by simp
    then show "order_map ordered (r_id s) \<noteq> None"
      using order_map_Some_iff[OF topological_sort_OkD(1)[OF assms that]]
      by (metis in_set_conv_nth option.distinct(1))
  qed
  then show ?thesis
    using topological_sort_total[OF assms, of ?ss]
    by (auto simp: formula_of_raw_def first_duplicate_None_iff unknown_dependency_None_iff
        split: sum.splits option.splits)
qed

section \<open>Properties\<close>

text \<open>A two-step formula, the second step declared first.\<close>

definition sample_step :: "string \<Rightarrow> string list \<Rightarrow> raw_step" where
  "sample_step i needs =
     \<lparr>r_id = i, r_title = i, r_description = [], r_acceptance = None,
      r_acceptance_artifacts = [], r_response_artifact = None, r_needs = needs, r_skills = [],
      r_verification = None, r_validation = None, r_command = None, r_native = None,
      r_timeout = None, r_timeout_minutes = None, r_requires_parent_link = False,
      r_parallel_limit = None, r_query = None, r_llm = None, r_adapter = None, r_model = None,
      r_harness = []\<rparr>"

definition sample_raw :: "raw_step list \<Rightarrow> raw_formula" where
  "sample_raw ss =
     \<lparr>rf_formula = ''demo'', rf_version = 1, rf_description = [], rf_id_prefix = [],
      rf_type = None, rf_freeze_on_last_step = False, rf_deterministic = False,
      rf_requires_capabilities = [], rf_steps = ss, rf_tier = None, rf_vars = [],
      rf_inputs = []\<rparr>"

lemma finish_tier0:
  assumes "build_tier (rf_tier raw) = Ok TierZero" and "rf_requires_capabilities raw = []"
    and "list_all (\<lambda>s. command s = None) sts"
  shows "\<exists>f. finish_formula raw name sts = Ok f"
proof -
  have "find step_nucleates (sort_key order sts) = None"
    using assms(3) by (auto simp: find_None_iff step_nucleates_def list_all_iff)
  then show ?thesis using assms(1,2) by (simp add: finish_formula_def validate_tier_def Let_def)
qed

definition sample_toml :: "string \<Rightarrow> string + raw_formula" where
  "sample_toml _ = Ok (sample_raw [sample_step ''b'' [''a''], sample_step ''a'' []])"

lemma sample_parses: "\<exists>f. parse_formula sample_toml rev [] = Some (Ok f)"
proof -
  let ?ss = "[sample_step ''b'' [''a''], sample_step ''a'' []]"
  have "toposort rev (dep_edges ?ss) = Some (Ok [''a'', ''b''])"
    by (simp add: dep_edges_def sample_step_def toposort_def node_keys_def in_degree_def
        dependents_def kahn.simps)
  then have ts: "topological_sort rev ?ss = Some (Ok [''a'', ''b''])"
    by (simp add: topological_sort_def sample_step_def)
  obtain sts where bs: "build_steps (order_map [''a'', ''b'']) ?ss = Some (Ok sts)"
    and cmd: "list_all (\<lambda>s. command s = None) sts"
    by (simp add: sample_step_def order_map_def build_step_def build_parallel_limit_def
        build_query_spec_def build_llm_spec_def)
  then obtain f where ff: "finish_formula (sample_raw ?ss) ''demo'' sts = Ok f"
    using finish_tier0[OF _ _ cmd, of "sample_raw ?ss" "''demo''"] by (auto simp: sample_raw_def build_tier_def)
  have guards: "simple_id_new ''FormulaId'' (rf_formula (sample_raw ?ss)) = Ok ''demo''"
    "rf_steps (sample_raw ?ss) = ?ss" "first_duplicate {} ?ss = None" "kinds_error ?ss = None"
    "unknown_dependency (set (map r_id ?ss)) ?ss = None"
    by (simp_all add: sample_raw_def sample_step_def simple_id_new_def step_kinds_def)
  have "formula_of_raw rev (sample_raw ?ss) = Some (Ok f)"
    unfolding formula_of_raw_def using guards ts bs ff by (simp del: build_steps.simps)
  then show ?thesis by (auto simp: parse_formula_def sample_toml_def)
qed

text \<open>
  C5. A parsed formula is well formed: it has the steps of the file, each once and at least
  one, step number \<open>i\<close> carries order \<open>i\<close>, and every dependency of a step is the id of an
  earlier step; no step has two kinds of automation.
\<close>

theorem formula_parse_well_formed:
  assumes "hash_order it" and "toml text = Ok raw"
    and "parse_formula toml it text = Some (Ok f)"
  shows "formula_wf f \<and> mset (map s_id (steps f)) = mset (map r_id (rf_steps raw)) \<and>
         (\<forall>s\<in>set (rf_steps raw). length (step_kinds s) \<le> 1)"
proof -
  have "formula_of_raw it raw = Some (Ok f)" using assms(2,3) by (simp add: parse_formula_def)
  then show ?thesis using formula_of_raw_wf[OF assms(1)] formula_of_raw_guards(3) by blast
qed

theorem formula_parse_well_formed_witness:
  "\<exists>f. parse_formula sample_toml rev [] = Some (Ok f) \<and> formula_wf f \<and> length (steps f) = 2"
proof -
  obtain f where f: "parse_formula sample_toml rev [] = Some (Ok f)" using sample_parses by blast
  have r: "sample_toml [] = Ok (sample_raw [sample_step ''b'' [''a''], sample_step ''a'' []])"
    by (simp add: sample_toml_def)
  note P = formula_parse_well_formed[OF hash_order_rev r f]
  then have "mset (map s_id (steps f)) = {#''b'', ''a''#}"
    by (simp add: sample_raw_def sample_step_def)
  then have "size (mset (map s_id (steps f))) = 2" by (simp only: size_add_mset size_empty)
  then have "length (steps f) = 2" by simp
  then show ?thesis using f P by blast
qed

text \<open>
  Parsing always returns, under any hash order: the lookup of a step's position never
  misses and sorting ends; and a file whose steps depend on one another in a circle is
  rejected.
\<close>

theorem formula_parse_total_and_acyclic:
  assumes "hash_order it"
  shows "\<exists>r. parse_formula toml it text = Some r \<and>
         (case (toml text, r) of
            (Err e, _) \<Rightarrow> r = Err (TomlError e)
          | (Ok raw, Ok f) \<Rightarrow> acyclic (set (dep_edges (rf_steps raw)))
          | (Ok raw, Err _) \<Rightarrow> True)"
proof (cases "toml text")
  case (Inr raw)
  obtain r where r: "formula_of_raw it raw = Some r"
    using formula_of_raw_total[OF assms, of raw] by blast
  moreover have "acyclic (set (dep_edges (rf_steps raw)))" if "r = Ok f" for f
    using topological_sort_cyclic[OF assms, of "rf_steps raw"] formula_of_raw_guards(5)[of it raw f] r that
    by fastforce
  ultimately show ?thesis using Inr by (auto simp: parse_formula_def split: sum.splits)
qed (simp add: parse_formula_def)

theorem formula_parse_total_and_acyclic_witness:
  "\<exists>e. parse_formula (\<lambda>_. Ok (sample_raw [sample_step ''a'' [''a'']])) rev [] = Some (Err e)"
proof -
  let ?raw = "sample_raw [sample_step ''a'' [''a'']]"
  have "\<not> acyclic (set (dep_edges (rf_steps ?raw)))"
    by (auto simp: sample_raw_def sample_step_def dep_edges_def acyclic_def)
  moreover obtain r where "parse_formula (\<lambda>_. Ok ?raw) rev [] = Some r"
    "case r of Ok f \<Rightarrow> acyclic (set (dep_edges (rf_steps ?raw))) | Err _ \<Rightarrow> True"
    using formula_parse_total_and_acyclic[OF hash_order_rev, of "\<lambda>_. Ok ?raw" "[]"] by auto
  ultimately show ?thesis by (cases r) auto
qed

text \<open>
  A tier-one formula passes the tier check as soon as its own description names the
  measure, with no step that mentions it.
\<close>

theorem tier1_measure_in_formula_description_suffices:
  "\<exists>f. validate_tier f = Ok () \<and> f_tier f = TierOne ''depth'' \<and> steps f \<noteq> [] \<and>
       \<not> list_ex (\<lambda>s. step_mentions s ''depth'') (steps f)"
proof -
  obtain st where "build_step 0 (sample_step ''a'' []) = Ok st" "\<not> step_mentions st ''depth''"
    by (simp add: sample_step_def build_step_def build_parallel_limit_def build_query_spec_def
        build_llm_spec_def step_mentions_def str_contains_def sublist_code)
  then show ?thesis
    by (intro exI[of _ "\<lparr>f_name = ''demo'', f_version = 1, f_description = ''depth'',
        f_id_prefix = [], f_kind = None, steps = [st], f_variables = [],
        freeze_on_last_step = False, f_tier = TierOne ''depth'', deterministic = False,
        requires_capabilities = []\<rparr>"])
      (simp add: validate_tier_def is_blank_def trim_start.simps str_contains_def)
qed

end
