(* ===== verification/Evolve.thy ===== *)
theory Evolve
  imports Formula Molecule
begin

text \<open>
  The evolution of a molecule through its formula (\<open>crates/cosmon-core/src/evolve.rs\<close>): the
  validation of a request, the next state, the warning about unmet exit criteria, the log
  entry and the briefing.  Unicode lower-casing and the display of a timestamp are the
  arguments \<open>lower\<close> and \<open>show_ts\<close>.
\<close>

datatype evolve_error =
  NotRunnable molecule_status | MissingEvidence string | StepOutOfRange nat nat
| UnmetDependency string string

record evolve_request =
  req_evidence :: string
  req_timestamp :: datetime

record completed_step_info =
  cs_id :: string
  cs_title :: string
  cs_index :: nat

datatype new_state = NsActive nat string string | NsCompleted

record outcome =
  completed_step :: completed_step_info
  new_state :: new_state
  warnings :: "string list"
  log_text :: string
  briefing :: "string option"

abbreviation nl :: string where
  "nl \<equiv> [char_of (10::nat)]"

definition format_log_entry ::
  "(datetime \<Rightarrow> string) \<Rightarrow> step \<Rightarrow> string \<Rightarrow> datetime \<Rightarrow> new_state \<Rightarrow> string" where
  "format_log_entry show_ts s ev ts ns =
     ''## Step '' @ show_nat (order s + 1) @ '': '' @ s_title s @ '' '' @ em_dash @ '' COMPLETED'' @ nl @
     ''**Timestamp:** '' @ show_ts ts @ nl @
     ''**Evidence:** '' @ ev @ nl @
     (case ns of
        NsActive _ _ next_title \<Rightarrow> ''**Next:** '' @ next_title @ nl
      | NsCompleted \<Rightarrow> ''**Status:** MOLECULE COMPLETED'' @ nl) @ nl"

definition bullet_list :: "string list \<Rightarrow> string" where
  "bullet_list xs = concat (map (\<lambda>x. ''- '' @ x @ nl) xs)"

definition format_briefing :: "step \<Rightarrow> nat \<Rightarrow> formula \<Rightarrow> string" where
  "format_briefing s idx f =
     ''# Molecule Briefing'' @ nl @ nl @
     ''## Current Step '' @ show_nat (idx + 1) @ '' of '' @ show_nat (length (steps f)) @ '': '' @
       s_title s @ nl @ nl @
     (if s_description s \<noteq> [] then s_description s @ nl @ nl else []) @
     (case exit_criteria s of
        Some c \<Rightarrow> ''### Exit Criteria'' @ nl @ nl @ c @ nl @ nl
      | None \<Rightarrow> []) @
     (if depends_on s \<noteq> [] then ''### Dependencies'' @ nl @ nl @ bullet_list (depends_on s) @ nl else []) @
     (if skills s \<noteq> [] then ''### Skills'' @ nl @ nl @ bullet_list (skills s) @ nl else [])"

definition significant_words :: "string \<Rightarrow> string list" where
  "significant_words c = filter (\<lambda>w. length w > 3) (split_whitespace c)"

definition exit_warnings :: "(string \<Rightarrow> string) \<Rightarrow> step \<Rightarrow> string \<Rightarrow> string list" where
  "exit_warnings lower s ev =
     (case exit_criteria s of
        None \<Rightarrow> []
      | Some c \<Rightarrow>
          (let ev_lower = lower ev;
               ws = significant_words c
           in if ws \<noteq> [] \<and> \<not> list_ex (\<lambda>w. str_contains ev_lower (lower w)) ws
              then [''exit criteria for step \"'' @ s_id s @
                    ''\" may not be addressed in evidence: \"'' @ c @ ''\"'']
              else []))"

definition evolve_formula ::
  "(string \<Rightarrow> string) \<Rightarrow> (datetime \<Rightarrow> string) \<Rightarrow> molecule_status \<Rightarrow> nat \<Rightarrow> string list \<Rightarrow> formula
     \<Rightarrow> evolve_request \<Rightarrow> evolve_error + outcome" where
  "evolve_formula lower show_ts st cur done_ids f req =
     (if \<not> (st = Running \<or> st = Queued) then Err (NotRunnable st)
      else if cur \<ge> length (steps f) then Err (StepOutOfRange cur (length (steps f)))
      else
        (let s = steps f ! cur
         in if is_blank (req_evidence req) then Err (MissingEvidence (s_id s))
            else case find (\<lambda>dep. dep \<notin> set done_ids) (depends_on s) of
                   Some dep \<Rightarrow> Err (UnmetDependency (s_id s) dep)
                 | None \<Rightarrow>
              (let ns = (if cur + 1 \<ge> length (steps f) then NsCompleted
                         else (let nx = steps f ! (cur + 1) in NsActive (cur + 1) (s_id nx) (s_title nx)))
               in Ok \<lparr>completed_step = \<lparr>cs_id = s_id s, cs_title = s_title s, cs_index = cur\<rparr>,
                      new_state = ns,
                      warnings = exit_warnings lower s (req_evidence req),
                      log_text = format_log_entry show_ts s (req_evidence req) (req_timestamp req) ns,
                      briefing = (case ns of
                          NsCompleted \<Rightarrow> None
                        | NsActive i _ _ \<Rightarrow> Some (format_briefing (steps f ! i) i f))\<rparr>)))"

section \<open>A run of the caller\<close>


section \<open>Properties\<close>

text \<open>
  A request is accepted exactly when the molecule is running or queued, its step index is
  within the formula, the evidence is not blank and every dependency of the step is
  completed; the errors are reported in that order of precedence.
\<close>

theorem evolve_request_accepted_iff:
  "case evolve_formula lower show_ts st cur ids f req of
     Ok out \<Rightarrow> (st = Running \<or> st = Queued) \<and> cur < length (steps f) \<and>
       \<not> is_blank (req_evidence req) \<and> set (depends_on (steps f ! cur)) \<subseteq> set ids \<and>
       cs_index (completed_step out) = cur \<and> cs_id (completed_step out) = s_id (steps f ! cur) \<and>
       (new_state out = NsCompleted \<longleftrightarrow> cur + 1 = length (steps f)) \<and>
       (briefing out = None \<longleftrightarrow> new_state out = NsCompleted)
   | Err (NotRunnable s) \<Rightarrow> s = st \<and> st \<noteq> Running \<and> st \<noteq> Queued
   | Err (StepOutOfRange i n) \<Rightarrow> (st = Running \<or> st = Queued) \<and> i = cur \<and> n = length (steps f) \<and> n \<le> cur
   | Err (MissingEvidence s) \<Rightarrow> (st = Running \<or> st = Queued) \<and> cur < length (steps f) \<and>
       s = s_id (steps f ! cur) \<and> is_blank (req_evidence req)
   | Err (UnmetDependency s d) \<Rightarrow> (st = Running \<or> st = Queued) \<and> cur < length (steps f) \<and>
       \<not> is_blank (req_evidence req) \<and> s = s_id (steps f ! cur) \<and>
       d \<in> set (depends_on (steps f ! cur)) \<and> d \<notin> set ids"
  by (auto simp: evolve_formula_def Let_def find_None_iff split: option.splits dest: find_SomeE)





end
