(* ===== verification/Supervisor.thy ===== *)
theory Supervisor
  imports RustStd "HOL-Library.AList" "HOL-Library.List_Lexorder" "HOL-Library.Char_ord"
begin

text \<open>
  The daemon supervisor of \<open>crates/cosmon-daemon-supervisor/src\<close>: configuration checks
  (\<open>config.rs\<close>), the pure policies (\<open>policy.rs\<close>), the typestate of a child (\<open>model.rs\<close>), the
  hot-reload diff (\<open>reload.rs\<close>) and one pass of the event loop (\<open>event_loop.rs\<close>).  The
  operating system is the argument \<open>port\<close>: what each probe, reap, spawn and save answers
  during the pass.  What the pass does to the outside is logged in the state: signals sent,
  daemons spawned, alerts raised, the table saved.  The date arithmetic of the \<open>chrono\<close>
  library and the content digest (JSON and BLAKE3) are arguments.  A hash map is the
  association list of its entries in iteration order.
\<close>

section \<open>Configuration\<close>

record daemon_spec =
  d_name :: string
  binary :: string
  args :: "string list"
  throttle_seconds :: "64 word"
  env :: "(string \<times> string) list"
  log_stdout :: "string option"
  log_stderr :: "string option"
  kill_switch :: "string option"
  enabled :: bool

record supervisor_config =
  crash_loop_threshold :: u32
  crash_loop_window_seconds :: "64 word"
  daemons :: "daemon_spec list"

datatype config_error = ConfigParse string | ConfigInvalid string

definition quoted :: "string \<Rightarrow> string" where
  "quoted s = char_of (39::nat) # s @ [char_of (39::nat)]"

definition daemon_errors :: "nat \<Rightarrow> string set \<Rightarrow> daemon_spec \<Rightarrow> string list" where
  "daemon_errors idx seen d =
     (if d_name d = [] then [''daemon['' @ show_nat idx @ '']: name is empty'']
      else if d_name d \<in> seen
      then [''daemon['' @ show_nat idx @ ''] '' @ quoted (d_name d) @ '': duplicate name'']
      else []) @
     (if is_blank (binary d)
      then [''daemon['' @ show_nat idx @ ''] '' @ quoted (d_name d) @ '': binary is empty'']
      else [])"

fun collect_errors :: "nat \<Rightarrow> string set \<Rightarrow> daemon_spec list \<Rightarrow> string list" where
  "collect_errors idx seen [] = []"
| "collect_errors idx seen (d # ds) =
     daemon_errors idx seen d @
     collect_errors (idx + 1) (if d_name d = [] then seen else insert (d_name d) seen) ds"

definition validate :: "supervisor_config \<Rightarrow> config_error + unit" where
  "validate cfg =
     (let errors = collect_errors 0 {} (daemons cfg)
      in if errors = [] then Ok () else Err (ConfigInvalid (join_with [char_of (10::nat)] errors)))"

definition from_str_validated ::
  "(string \<Rightarrow> string + supervisor_config) \<Rightarrow> string \<Rightarrow> config_error + supervisor_config" where
  "from_str_validated toml raw =
     and_then (map_err ConfigParse (toml raw)) (\<lambda>cfg. and_then (validate cfg) (\<lambda>_. Ok cfg))"

definition by_name :: "supervisor_config \<Rightarrow> (string \<times> daemon_spec) list" where
  "by_name cfg = foldl (\<lambda>m d. AList.update (d_name d) d m) [] (daemons cfg)"

section \<open>Policies\<close>

record chrono =
  try_seconds :: "int \<Rightarrow> int option"
  checked_add_signed :: "datetime \<Rightarrow> int \<Rightarrow> datetime option"
  sub_duration :: "datetime \<Rightarrow> int \<Rightarrow> datetime"
  max_utc :: datetime

text \<open>
  What the sources rely on: a duration is its number of nanoseconds, addition is exact when
  it does not overflow, and so is the subtraction of the window.
\<close>

definition chrono_laws :: "chrono \<Rightarrow> bool" where
  "chrono_laws ch \<longleftrightarrow>
     (\<forall>s d. try_seconds ch s = Some d \<longrightarrow> d = s * 1000000000) \<and>
     (\<forall>t d r. checked_add_signed ch t d = Some r \<longrightarrow> r = t + d) \<and>
     (\<forall>t d. sub_duration ch t d = t - d)"

datatype kill_switch_verdict = RunChild | GlobalMute | DaemonMute | Disabled

definition is_muted :: "kill_switch_verdict \<Rightarrow> bool" where
  "is_muted d \<longleftrightarrow> d \<noteq> RunChild"

definition kill_switch_decision :: "daemon_spec \<Rightarrow> bool \<Rightarrow> bool \<Rightarrow> kill_switch_verdict" where
  "kill_switch_decision spec global_lock daemon_lock =
     (if global_lock then GlobalMute
      else if kill_switch spec \<noteq> None \<and> daemon_lock then DaemonMute
      else if \<not> enabled spec then Disabled
      else RunChild)"

definition i64_from_u64 :: "64 word \<Rightarrow> int" where
  "i64_from_u64 w = min (int (unat w)) (2 ^ 63 - 1)"

definition throttle_deadline :: "chrono \<Rightarrow> daemon_spec \<Rightarrow> datetime \<Rightarrow> datetime" where
  "throttle_deadline ch spec exited_at =
     (case try_seconds ch (i64_from_u64 (throttle_seconds spec)) of
        None \<Rightarrow> max_utc ch
      | Some delta \<Rightarrow>
          (case checked_add_signed ch exited_at delta of None \<Rightarrow> max_utc ch | Some t \<Rightarrow> t))"

datatype respawn_verdict = SpawnNow | ThrottleUntil datetime | Quiesce

definition respawn_decision ::
  "chrono \<Rightarrow> daemon_spec \<Rightarrow> datetime \<Rightarrow> datetime \<Rightarrow> kill_switch_verdict \<Rightarrow> respawn_verdict" where
  "respawn_decision ch spec exited_at now ks =
     (if is_muted ks then Quiesce
      else if throttle_seconds spec = 0 then SpawnNow
      else (let until = throttle_deadline ch spec exited_at
            in if now \<ge> until then SpawnNow else ThrottleUntil until))"

definition crash_loop_alert :: "chrono \<Rightarrow> datetime list \<Rightarrow> datetime \<Rightarrow> u32 \<Rightarrow> int \<Rightarrow> bool" where
  "crash_loop_alert ch crash_times now threshold window =
     (if threshold = 0 then False
      else (let cutoff = sub_duration ch now window
            in length (filter (\<lambda>t. t \<ge> cutoff) crash_times) \<ge> unat threshold))"

definition prune_crash_times :: "chrono \<Rightarrow> datetime list \<Rightarrow> datetime \<Rightarrow> int \<Rightarrow> datetime list" where
  "prune_crash_times ch crash_times now window =
     (let cutoff = sub_duration ch now window in filter (\<lambda>t. t \<ge> cutoff) crash_times)"

section \<open>The child typestate\<close>

datatype child_status = CsSpawning | CsRunning | CsExited | CsThrottling | CsRespawning

datatype spawning = SpawningS
datatype running = RunningS (run_pid: u32) (run_since: datetime)
datatype exited = ExitedS (exit_code: "int option") (exit_at: datetime)
datatype throttling = ThrottlingS (thr_until: datetime)
datatype respawning = RespawningS (resp_at: datetime)

record 's child =
  ch_name :: string
  ch_respawn_count :: u32
  ch_state :: 's

definition new_child :: "string \<Rightarrow> spawning child" where
  "new_child n = \<lparr>ch_name = n, ch_respawn_count = 0, ch_state = SpawningS\<rparr>"

definition spawned_child :: "u32 \<Rightarrow> datetime \<Rightarrow> spawning child \<Rightarrow> running child" where
  "spawned_child p t c = \<lparr>ch_name = ch_name c, ch_respawn_count = ch_respawn_count c, ch_state = RunningS p t\<rparr>"

definition exited_child :: "int option \<Rightarrow> datetime \<Rightarrow> running child \<Rightarrow> exited child" where
  "exited_child code t c = \<lparr>ch_name = ch_name c, ch_respawn_count = ch_respawn_count c, ch_state = ExitedS code t\<rparr>"

definition throttle_child :: "datetime \<Rightarrow> exited child \<Rightarrow> throttling child" where
  "throttle_child t c = \<lparr>ch_name = ch_name c, ch_respawn_count = ch_respawn_count c, ch_state = ThrottlingS t\<rparr>"

definition respawn_immediately :: "datetime \<Rightarrow> exited child \<Rightarrow> respawning child" where
  "respawn_immediately t c = \<lparr>ch_name = ch_name c, ch_respawn_count = ch_respawn_count c, ch_state = RespawningS t\<rparr>"

definition elapsed :: "datetime \<Rightarrow> throttling child \<Rightarrow> respawning child" where
  "elapsed t c = \<lparr>ch_name = ch_name c, ch_respawn_count = ch_respawn_count c, ch_state = RespawningS t\<rparr>"

definition spawn_again :: "respawning child \<Rightarrow> spawning child" where
  "spawn_again c =
     \<lparr>ch_name = ch_name c, ch_respawn_count = saturating_add (ch_respawn_count c) 1, ch_state = SpawningS\<rparr>"

section \<open>Hot-reload diff\<close>

record diff_result =
  df_spawn :: "string list"
  df_kill :: "string list"
  df_keep :: "string list"
  df_changed :: "string list"

definition diff_total :: "diff_result \<Rightarrow> nat" where
  "diff_total d = length (df_spawn d) + length (df_kill d) + length (df_keep d) + length (df_changed d)"

definition is_noop :: "diff_result \<Rightarrow> bool" where
  "is_noop d \<longleftrightarrow> df_spawn d = [] \<and> df_kill d = [] \<and> df_keep d = [] \<and> df_changed d = []"

definition same_digest ::
  "(daemon_spec \<Rightarrow> 'h) \<Rightarrow> (string \<times> daemon_spec) list \<Rightarrow> (string \<times> daemon_spec) list \<Rightarrow> string \<Rightarrow> bool" where
  "same_digest digest old new n \<longleftrightarrow>
     map_option digest (map_of old n) = map_option digest (map_of new n)"

definition diff ::
  "(daemon_spec \<Rightarrow> 'h) \<Rightarrow> (string \<times> daemon_spec) list \<Rightarrow> (string \<times> daemon_spec) list \<Rightarrow> diff_result" where
  "diff digest old new =
     (let old_names = map fst old; new_names = map fst new;
          both = filter (\<lambda>n. n \<in> set new_names) old_names
      in \<lparr>df_spawn = sort (filter (\<lambda>n. n \<notin> set old_names) new_names),
          df_kill = sort (filter (\<lambda>n. n \<notin> set new_names) old_names),
          df_keep = sort (filter (same_digest digest old new) both),
          df_changed = sort (filter (\<lambda>n. \<not> same_digest digest old new n) both)\<rparr>)"

section \<open>The supervised table\<close>

record child_record =
  c_name :: string
  spec :: daemon_spec
  c_status :: child_status
  pid :: "u32 option"
  last_exit_code :: "int option"
  last_spawn_at :: "datetime option"
  last_exit_at :: "datetime option"
  throttle_until :: "datetime option"
  respawn_count :: u32
  crash_times :: "datetime list"
  propulsion_alerted :: bool

definition fresh :: "daemon_spec \<Rightarrow> child_record" where
  "fresh s = \<lparr>c_name = d_name s, spec = s, c_status = CsExited, pid = None, last_exit_code = None,
     last_spawn_at = None, last_exit_at = None, throttle_until = None, respawn_count = 0,
     crash_times = [], propulsion_alerted = False\<rparr>"

record persisted_child =
  p_name :: string
  p_status :: child_status
  p_pid :: "u32 option"
  p_last_exit_code :: "int option"
  p_last_spawn_at :: "datetime option"
  p_last_exit_at :: "datetime option"
  p_respawn_count :: u32

definition to_persisted :: "child_record \<Rightarrow> persisted_child" where
  "to_persisted r = \<lparr>p_name = c_name r, p_status = c_status r, p_pid = pid r,
     p_last_exit_code = last_exit_code r, p_last_spawn_at = last_spawn_at r,
     p_last_exit_at = last_exit_at r, p_respawn_count = respawn_count r\<rparr>"

datatype signal = Term | Kill

datatype reap_outcome = StillAlive | ExitedWith int | Signaled

record port =
  has_child :: "u32 \<Rightarrow> bool"
  reap :: "u32 \<Rightarrow> string + reap_outcome"
  pid_is_alive :: "u32 \<Rightarrow> bool"
  spawn_process :: "daemon_spec \<Rightarrow> string + u32"
  path_exists :: "string \<Rightarrow> bool"
  save_error :: "string option"

record supervisor =
  children :: "(string \<times> child_record) list"
  threshold :: u32
  window :: int
  kill_switch_path :: string
  signals_sent :: "(u32 \<times> signal) list"
  spawned_log :: "string list"
  alerts :: "(string \<times> nat) list"
  saved :: "(string \<times> persisted_child) list"

definition get_child :: "supervisor \<Rightarrow> string \<Rightarrow> child_record option" where
  "get_child s n = map_of (children s) n"

definition upd_child :: "string \<Rightarrow> (child_record \<Rightarrow> child_record) \<Rightarrow> supervisor \<Rightarrow> supervisor" where
  "upd_child n f s =
     s\<lparr>children := map (\<lambda>(k, r). if k = n then (k, f r) else (k, r)) (children s)\<rparr>"

definition send_term :: "u32 option \<Rightarrow> supervisor \<Rightarrow> supervisor" where
  "send_term p s = (case p of None \<Rightarrow> s | Some q \<Rightarrow> s\<lparr>signals_sent := signals_sent s @ [(q, Term)]\<rparr>)"

text \<open>The state file keeps one entry per name, in key order.\<close>

definition persist :: "port \<Rightarrow> supervisor \<Rightarrow> string option \<times> supervisor" where
  "persist po s =
     (case save_error po of
        Some e \<Rightarrow> (Some e, s)
      | None \<Rightarrow> (None, s\<lparr>saved := sort_key fst (map (\<lambda>(k, r). (c_name r, to_persisted r)) (children s))\<rparr>))"

definition restore_child :: "port \<Rightarrow> datetime \<Rightarrow> persisted_child option \<Rightarrow> daemon_spec \<Rightarrow> child_record" where
  "restore_child po now p s =
     (case p of
        None \<Rightarrow> fresh s
      | Some q \<Rightarrow>
          (let rec1 = (fresh s)\<lparr>c_status := p_status q, last_exit_code := p_last_exit_code q,
                 last_spawn_at := p_last_spawn_at q, last_exit_at := p_last_exit_at q,
                 respawn_count := p_respawn_count q,
                 pid := (case p_pid q of
                           Some x \<Rightarrow> if pid_is_alive po x then Some x else None
                         | None \<Rightarrow> None)\<rparr>
           in if pid rec1 \<noteq> None then rec1\<lparr>c_status := CsRunning\<rparr>
              else if c_status rec1 = CsRunning \<or> c_status rec1 = CsSpawning
              then rec1\<lparr>c_status := CsExited, last_exit_at := Some now\<rparr>
              else rec1))"

text \<open>
  Construction; the clock is read once per restored daemon.  \<open>Duration::seconds\<close> panics where
  \<open>try_seconds\<close> has no value, which is the result \<open>None\<close>.
\<close>

definition new_supervisor ::
  "chrono \<Rightarrow> port \<Rightarrow> (string \<Rightarrow> datetime) \<Rightarrow> supervisor_config \<Rightarrow> (string \<times> persisted_child) list
     \<Rightarrow> string \<Rightarrow> supervisor option" where
  "new_supervisor ch po clock cfg persisted ks =
     (case try_seconds ch (i64_from_u64 (crash_loop_window_seconds cfg)) of
        None \<Rightarrow> None
      | Some win \<Rightarrow> Some
          \<lparr>children = foldl (\<lambda>m s. AList.update (d_name s)
                        (restore_child po (clock (d_name s)) (map_of persisted (d_name s)) s) m)
                      [] (daemons cfg),
           threshold = crash_loop_threshold cfg, window = win, kill_switch_path = ks,
           signals_sent = [], spawned_log = [], alerts = [], saved = persisted\<rparr>)"

definition record_crash :: "chrono \<Rightarrow> string \<Rightarrow> datetime \<Rightarrow> supervisor \<Rightarrow> supervisor" where
  "record_crash ch n now s =
     (case get_child s n of
        None \<Rightarrow> s
      | Some r \<Rightarrow>
          (let times = prune_crash_times ch (crash_times r) now (window s) @ [now];
               alert = crash_loop_alert ch times now (threshold s) (window s);
               fire = (alert \<and> \<not> propulsion_alerted r);
               s' = upd_child n (\<lambda>r. r\<lparr>crash_times := times,
                      propulsion_alerted := (if fire then True else if \<not> alert then False
                                             else propulsion_alerted r)\<rparr>) s
           in if fire then s'\<lparr>alerts := alerts s' @ [(n, length times)]\<rparr> else s'))"

definition spawn_child :: "chrono \<Rightarrow> port \<Rightarrow> string \<Rightarrow> datetime \<Rightarrow> supervisor \<Rightarrow> supervisor" where
  "spawn_child ch po n now s =
     (case get_child s n of
        None \<Rightarrow> s
      | Some r \<Rightarrow>
          (case spawn_process po (spec r) of
             Ok p \<Rightarrow>
               upd_child n (\<lambda>r. r\<lparr>c_status := CsRunning, pid := Some p, last_spawn_at := Some now,
                   throttle_until := None, respawn_count := saturating_add (respawn_count r) 1\<rparr>)
                 (s\<lparr>spawned_log := spawned_log s @ [n]\<rparr>)
           | Err _ \<Rightarrow>
               record_crash ch n now
                 (upd_child n (\<lambda>r. r\<lparr>c_status := CsExited, pid := None, last_exit_code := Some 127,
                     last_exit_at := Some now, respawn_count := saturating_add (respawn_count r) 1\<rparr>)
                   (s\<lparr>spawned_log := spawned_log s @ [n]\<rparr>))))"

definition mark_exited :: "string \<Rightarrow> (int option) option \<Rightarrow> datetime \<Rightarrow> supervisor \<Rightarrow> supervisor" where
  "mark_exited n code now s =
     upd_child n (\<lambda>r. r\<lparr>c_status := CsExited, pid := None,
         last_exit_code := (case code of None \<Rightarrow> last_exit_code r | Some c \<Rightarrow> c),
         last_exit_at := Some now\<rparr>) s"

text \<open>The first pass: reap the children that have a pid.  An error of the port ends the step.\<close>

fun reap_pass ::
  "chrono \<Rightarrow> port \<Rightarrow> datetime \<Rightarrow> (string \<times> u32) list \<Rightarrow> supervisor \<Rightarrow> string option \<times> supervisor" where
  "reap_pass ch po now [] s = (None, s)"
| "reap_pass ch po now ((n, p) # ps) s =
     (if has_child po p then
        (case reap po p of
           Err e \<Rightarrow> (Some e, s)
         | Ok StillAlive \<Rightarrow> reap_pass ch po now ps s
         | Ok (ExitedWith c) \<Rightarrow>
             reap_pass ch po now ps (record_crash ch n now (mark_exited n (Some (Some c)) now s))
         | Ok Signaled \<Rightarrow>
             reap_pass ch po now ps (record_crash ch n now (mark_exited n (Some None) now s)))
      else if \<not> pid_is_alive po p then
        reap_pass ch po now ps (record_crash ch n now (mark_exited n None now s))
      else reap_pass ch po now ps s)"

definition child_pids :: "supervisor \<Rightarrow> (string \<times> u32) list" where
  "child_pids s = List.map_filter (\<lambda>(k, r). map_option (\<lambda>p. (k, p)) (pid r)) (children s)"

definition decide_child :: "chrono \<Rightarrow> port \<Rightarrow> datetime \<Rightarrow> bool \<Rightarrow> string \<Rightarrow> supervisor \<Rightarrow> supervisor" where
  "decide_child ch po now global_mute n s =
     (case get_child s n of
        None \<Rightarrow> s
      | Some r \<Rightarrow>
          (let daemon_mute = (case kill_switch (spec r) of None \<Rightarrow> False | Some p \<Rightarrow> path_exists po p);
               decision = kill_switch_decision (spec r) global_mute daemon_mute
           in if is_muted decision then send_term (pid r) s
              else case c_status r of
                     CsRunning \<Rightarrow> s
                   | CsSpawning \<Rightarrow> s
                   | CsExited \<Rightarrow>
                       (let exited_at = (case last_exit_at r of None \<Rightarrow> now | Some t \<Rightarrow> t)
                        in case respawn_decision ch (spec r) exited_at now decision of
                             SpawnNow \<Rightarrow> spawn_child ch po n now s
                           | ThrottleUntil until \<Rightarrow>
                               upd_child n (\<lambda>r. r\<lparr>c_status := CsThrottling, throttle_until := Some until\<rparr>) s
                           | Quiesce \<Rightarrow> s)
                   | CsThrottling \<Rightarrow>
                       (let until = (case throttle_until r of
                              Some u \<Rightarrow> u
                            | None \<Rightarrow> (case last_exit_at r of
                                        None \<Rightarrow> now
                                      | Some t \<Rightarrow> throttle_deadline ch (spec r) t))
                        in if now \<ge> until then spawn_child ch po n now s else s)
                   | CsRespawning \<Rightarrow> spawn_child ch po n now s))"

definition step_once :: "chrono \<Rightarrow> port \<Rightarrow> datetime \<Rightarrow> supervisor \<Rightarrow> string option \<times> supervisor" where
  "step_once ch po now s =
     (let global_mute = path_exists po (kill_switch_path s)
      in case reap_pass ch po now (child_pids s) s of
           (Some e, s') \<Rightarrow> (Some e, s')
         | (None, s') \<Rightarrow>
             persist po (fold (decide_child ch po now global_mute) (map fst (children s')) s'))"

definition kill_dropped :: "string list \<Rightarrow> supervisor \<Rightarrow> supervisor" where
  "kill_dropped ns s =
     fold (\<lambda>n s. let s' = (case get_child s n of None \<Rightarrow> s | Some r \<Rightarrow> send_term (pid r) s)
                 in s'\<lparr>children := AList.delete n (children s')\<rparr>) ns s"

definition add_new :: "(string \<times> daemon_spec) list \<Rightarrow> string list \<Rightarrow> supervisor \<Rightarrow> supervisor" where
  "add_new new_map ns s =
     fold (\<lambda>n s. case map_of new_map n of
                   None \<Rightarrow> s
                 | Some sp \<Rightarrow> s\<lparr>children := AList.update n (fresh sp) (children s)\<rparr>) ns s"

definition replace_changed ::
  "(string \<Rightarrow> datetime) \<Rightarrow> (string \<times> daemon_spec) list \<Rightarrow> string list \<Rightarrow> supervisor \<Rightarrow> supervisor" where
  "replace_changed clock new_map ns s =
     fold (\<lambda>n s. case get_child s n of
                   None \<Rightarrow> s
                 | Some r \<Rightarrow>
                     upd_child n (\<lambda>r. r\<lparr>spec := (case map_of new_map n of None \<Rightarrow> spec r | Some sp \<Rightarrow> sp),
                         c_status := CsExited, pid := None, last_exit_at := Some (clock n)\<rparr>)
                       (send_term (pid r) s)) ns s"

text \<open>The clock is read once for each changed daemon.\<close>

definition reload ::
  "(daemon_spec \<Rightarrow> 'h) \<Rightarrow> port \<Rightarrow> (string \<Rightarrow> datetime) \<Rightarrow> config_error + supervisor_config
     \<Rightarrow> supervisor \<Rightarrow> (config_error + string option \<times> diff_result) \<times> supervisor" where
  "reload digest po clock loaded s =
     (case loaded of
        Err e \<Rightarrow> (Err e, s)
      | Ok cfg \<Rightarrow>
          (let old_map = map (\<lambda>(k, r). (k, spec r)) (children s);
               new_map = by_name cfg;
               d = diff digest old_map new_map;
               s' = replace_changed clock new_map (df_changed d)
                      (add_new new_map (df_spawn d) (kill_dropped (df_kill d) s));
               (e, s'') = persist po s'
           in (Ok (e, d), s'')))"

fun reap_owned :: "port \<Rightarrow> (string \<Rightarrow> datetime) \<Rightarrow> (string \<times> u32) list \<Rightarrow> supervisor \<Rightarrow> supervisor" where
  "reap_owned po clock [] s = s"
| "reap_owned po clock ((n, p) # ps) s =
     reap_owned po clock ps
       (if \<not> has_child po p then s
        else case reap po p of
               Ok (ExitedWith c) \<Rightarrow> mark_exited n (Some (Some c)) (clock n) s
             | Ok Signaled \<Rightarrow> mark_exited n (Some None) (clock n) s
             | _ \<Rightarrow> s)"

definition reap_owned_once :: "port \<Rightarrow> (string \<Rightarrow> datetime) \<Rightarrow> supervisor \<Rightarrow> supervisor" where
  "reap_owned_once po clock s = reap_owned po clock (child_pids s) s"

text \<open>
  Shutdown.  A poll is what the operating system answers in one turn of a waiting loop; the
  polls of a phase are those made before its deadline.  The polite phase always makes one.
\<close>

type_synonym poll = "port \<times> (string \<Rightarrow> datetime)"

definition any_alive :: "port \<Rightarrow> supervisor \<Rightarrow> bool" where
  "any_alive po s \<longleftrightarrow>
     list_ex (\<lambda>(k, r). case pid r of None \<Rightarrow> False | Some p \<Rightarrow> pid_is_alive po p) (children s)"

fun wait_loop :: "poll list \<Rightarrow> supervisor \<Rightarrow> bool \<times> supervisor" where
  "wait_loop [] s = (False, s)"
| "wait_loop ((po, clock) # qs) s =
     (let s' = reap_owned_once po clock s
      in if any_alive po s' then wait_loop qs s' else (True, s'))"

definition send_all :: "signal \<Rightarrow> u32 list \<Rightarrow> supervisor \<Rightarrow> supervisor" where
  "send_all sg ps s = s\<lparr>signals_sent := signals_sent s @ map (\<lambda>p. (p, sg)) ps\<rparr>"

definition shutdown ::
  "port \<Rightarrow> poll \<Rightarrow> poll list \<Rightarrow> port \<Rightarrow> poll list \<Rightarrow> supervisor \<Rightarrow> string option \<times> supervisor" where
  "shutdown po first polls po_kill hard_polls s =
     (case wait_loop (first # polls) (send_all Term (map snd (child_pids s)) s) of
        (True, s1) \<Rightarrow> persist po s1
      | (False, s1) \<Rightarrow>
          persist po (snd (wait_loop hard_polls
            (send_all Kill (filter (pid_is_alive po_kill) (map snd (child_pids s1))) s1))))"

definition running_count :: "supervisor \<Rightarrow> nat" where
  "running_count s = length (filter (\<lambda>(k, r). c_status r = CsRunning) (children s))"

section \<open>The table invariant\<close>

definition rec_ok :: "chrono \<Rightarrow> string \<Rightarrow> child_record \<Rightarrow> bool" where
  "rec_ok ch k r \<longleftrightarrow>
     c_name r = k \<and> d_name (spec r) = k \<and> (c_status r = CsRunning \<longleftrightarrow> pid r \<noteq> None) \<and>
     c_status r \<noteq> CsSpawning \<and>
     (\<forall>e u. c_status r = CsThrottling \<and> last_exit_at r = Some e \<and> throttle_until r = Some u \<longrightarrow>
        u = throttle_deadline ch (spec r) e)"

definition sup_inv :: "chrono \<Rightarrow> supervisor \<Rightarrow> bool" where
  "sup_inv ch s \<longleftrightarrow>
     distinct (map fst (children s)) \<and> (\<forall>k r. get_child s k = Some r \<longrightarrow> rec_ok ch k r)"

lemma sup_invD: "sup_inv ch s \<Longrightarrow> get_child s k = Some r \<Longrightarrow> rec_ok ch k r"
  by (simp add: sup_inv_def)

lemma keys_upd_child [simp]: "map fst (children (upd_child n f s)) = map fst (children s)"
  by (simp add: upd_child_def case_prod_unfold if_distrib comp_def cong: if_cong)

lemma get_child_upd [simp]:
  "get_child (upd_child n f s) k = (if k = n then map_option f (get_child s n) else get_child s k)"
proof -
  have "map_of (map (\<lambda>(k, r). if k = n then (k, f r) else (k, r)) al) k =
      (if k = n then map_option f (map_of al n) else map_of al k)" for al
    by (induction al) auto
  then show ?thesis by (simp add: upd_child_def get_child_def)
qed

lemma get_child_cong: "children s = children t \<Longrightarrow> get_child s = get_child t"
  by (simp add: get_child_def fun_eq_iff)

lemma get_child_more [simp]:
  "get_child (s\<lparr>spawned_log := l\<rparr>) = get_child s" "get_child (s\<lparr>alerts := a\<rparr>) = get_child s"
  by (simp_all add: get_child_def fun_eq_iff)

lemma get_child_update:
  "get_child (s\<lparr>children := AList.update n r (children s)\<rparr>) k = (if k = n then Some r else get_child s k)"
  "get_child (s\<lparr>children := AList.delete n (children s)\<rparr>) k = (if k = n then None else get_child s k)"
  by (simp_all add: get_child_def update_conv' delete_conv')

lemma upd_child_more [simp]:
  "threshold (upd_child n f s) = threshold s" "window (upd_child n f s) = window s"
  "alerts (upd_child n f s) = alerts s" "spawned_log (upd_child n f s) = spawned_log s"
  "kill_switch_path (upd_child n f s) = kill_switch_path s"
  by (simp_all add: upd_child_def)

lemma send_term_more [simp]:
  "children (send_term p s) = children s" "spawned_log (send_term p s) = spawned_log s"
  "get_child (send_term p s) = get_child s"
  by (simp_all add: send_term_def get_child_def fun_eq_iff split: option.splits)

lemma upd_child_inv [inv_intros]:
  assumes "sup_inv ch s" and "\<And>r. get_child s n = Some r \<Longrightarrow> rec_ok ch n r \<Longrightarrow> rec_ok ch n (f r)"
  shows "sup_inv ch (upd_child n f s)"
  using assms by (auto simp: sup_inv_def)

lemma sup_inv_cong: "children s = children t \<Longrightarrow> sup_inv ch s \<longleftrightarrow> sup_inv ch t"
  by (simp add: sup_inv_def get_child_def)

lemma record_crash_inv [inv_intros]:
  assumes "sup_inv ch s"
  shows "sup_inv ch (record_crash ch' n now s)"
proof -
  have "sup_inv ch (upd_child n (\<lambda>r. r\<lparr>crash_times := a, propulsion_alerted := b r\<rparr>) s)" for a b
    using assms by (rule upd_child_inv) (simp add: rec_ok_def)
  then show ?thesis
    using assms by (auto simp: record_crash_def Let_def sup_inv_def split: option.splits)
qed

lemma mark_exited_inv [inv_intros]: "sup_inv ch s \<Longrightarrow> sup_inv ch (mark_exited n code now s)"
  unfolding mark_exited_def by (erule upd_child_inv) (simp add: rec_ok_def)

lemma spawn_child_inv [inv_intros]:
  assumes "sup_inv ch s"
  shows "sup_inv ch (spawn_child ch po n now s)"
proof -
  have s: "sup_inv ch (s\<lparr>spawned_log := l\<rparr>)" for l using assms by (simp add: sup_inv_def)
  show ?thesis
    unfolding spawn_child_def
    by (auto split: option.splits sum.splits intro!: assms record_crash_inv upd_child_inv s
        simp: rec_ok_def)
qed

lemma reap_pass_inv [inv_intros]: "sup_inv ch s \<Longrightarrow> sup_inv ch (snd (reap_pass ch po now ps s))"
  by (induction ch po now ps s rule: reap_pass.induct)
    (auto split: sum.splits reap_outcome.splits simp: record_crash_inv mark_exited_inv)

lemma decide_child_inv [inv_intros]:
  assumes "sup_inv ch s"
  shows "sup_inv ch (decide_child ch po now g n s)"
proof (cases "get_child s n")
  case None
  then show ?thesis using assms by (simp add: decide_child_def)
next
  case (Some r)
  have "sup_inv ch (upd_child n (\<lambda>r. r\<lparr>c_status := CsThrottling, throttle_until := Some u\<rparr>) s)"
    if "u = throttle_deadline ch (spec r) (case last_exit_at r of None \<Rightarrow> now | Some t \<Rightarrow> t)"
      "c_status r = CsExited" for u
    using assms Some that sup_invD[OF assms Some]
    by (intro upd_child_inv) (auto simp: rec_ok_def)
  moreover have "sup_inv ch (send_term p s)" for p
    using assms sup_inv_cong[of "send_term p s" s ch] by simp
  ultimately show ?thesis
    using assms Some
    by (auto simp: decide_child_def respawn_decision_def Let_def intro: spawn_child_inv
        split: child_status.splits option.splits respawn_verdict.splits if_splits)
qed

lemma fold_inv: "(\<And>x s. P s \<Longrightarrow> P (f x s)) \<Longrightarrow> P s \<Longrightarrow> P (fold f xs s)"
  by (induction xs arbitrary: s) auto

lemma persist_children [simp]:
  "children (snd (persist po s)) = children s" "spawned_log (snd (persist po s)) = spawned_log s"
  by (simp_all add: persist_def split: option.splits)

lemma step_once_inv [inv_intros]:
  assumes "sup_inv ch s"
  shows "sup_inv ch (snd (step_once ch po now s))"
proof -
  obtain e s' where r: "reap_pass ch po now (child_pids s) s = (e, s')" by fastforce
  then have "sup_inv ch s'" using reap_pass_inv[OF assms, of po now "child_pids s"] by simp
  moreover from this have "sup_inv ch (fold (decide_child ch po now g) ns s')" for g ns
    by (intro fold_inv[of "sup_inv ch"] decide_child_inv)
  ultimately show ?thesis
    using r by (auto simp: step_once_def Let_def sup_inv_cong[OF persist_children(1)] split: option.splits)
qed

lemma reap_owned_inv [inv_intros]: "sup_inv ch s \<Longrightarrow> sup_inv ch (reap_owned po clock ps s)"
  by (induction po clock ps s rule: reap_owned.induct)
    (auto split: sum.splits reap_outcome.splits simp: mark_exited_inv)

text \<open>A table filled entry by entry keeps a property of its entries.\<close>

lemma reap_owned_once_inv [inv_intros]: "sup_inv ch s \<Longrightarrow> sup_inv ch (reap_owned_once po clock s)"
  by (simp add: reap_owned_once_def reap_owned_inv)

lemma wait_loop_inv [inv_intros]: "sup_inv ch s \<Longrightarrow> sup_inv ch (snd (wait_loop qs s))"
  by (induction qs s rule: wait_loop.induct) (auto simp: Let_def reap_owned_once_inv)

lemma shutdown_inv [inv_intros]: "sup_inv ch s \<Longrightarrow> sup_inv ch (snd (shutdown po q qs pk hs s))"
proof -
  have send: "sup_inv ch (send_all sg ps t) \<longleftrightarrow> sup_inv ch t" for sg ps t
    by (rule sup_inv_cong) (simp add: send_all_def)
  have save: "sup_inv ch (snd (persist po t)) \<longleftrightarrow> sup_inv ch t" for t
    by (rule sup_inv_cong) simp
  assume "sup_inv ch s"
  obtain b s1 where w: "wait_loop (q # qs) (send_all Term (map snd (child_pids s)) s) = (b, s1)"
    by fastforce
  have "sup_inv ch s1"
    using wait_loop_inv[of ch "send_all Term (map snd (child_pids s)) s" "q # qs"] \<open>sup_inv ch s\<close>
    by (simp add: w send del: wait_loop.simps)
  then show ?thesis by (cases b) (simp_all add: shutdown_def w save wait_loop_inv send del: wait_loop.simps)
qed

lemma foldl_update_entries:
  assumes "\<And>x. P (key x) (val x)" and "distinct (map fst al)"
    and "\<And>k v. map_of al k = Some v \<Longrightarrow> P k v"
  shows "distinct (map fst (foldl (\<lambda>m x. AList.update (key x) (val x) m) al xs)) \<and>
    (\<forall>k v. map_of (foldl (\<lambda>m x. AList.update (key x) (val x) m) al xs) k = Some v \<longrightarrow> P k v)"
  using assms(2,3)
proof (induction xs arbitrary: al)
  case (Cons x xs)
  have "P k v" if "map_of (AList.update (key x) (val x) al) k = Some v" for k v
    using that Cons.prems(2)[of k v] assms(1)[of x] by (auto simp only: update_conv' fun_upd_apply split: if_splits)
  then show ?case
    using Cons.IH[of "AList.update (key x) (val x) al"] Cons.prems(1) by (simp add: distinct_update)
qed simp

lemma by_name_key:
  assumes "map_of (by_name cfg) n = Some sp"
  shows "d_name sp = n"
proof -
  have "\<forall>k v. map_of (foldl (\<lambda>m x. AList.update (d_name x) x m) [] (daemons cfg)) k = Some v \<longrightarrow> d_name v = k"
    by (rule foldl_update_entries[of "\<lambda>k v. d_name v = k" d_name "\<lambda>d. d", THEN conjunct2]) auto
  then show ?thesis using assms unfolding by_name_def by blast
qed

lemma rec_ok_fresh: "d_name sp = k \<Longrightarrow> rec_ok ch k (fresh sp)"
  by (simp add: rec_ok_def fresh_def)

lemma set_child_inv:
  assumes "sup_inv ch s" and "rec_ok ch n r"
  shows "sup_inv ch (s\<lparr>children := AList.update n r (children s)\<rparr>)"
  using assms by (simp add: sup_inv_def get_child_update distinct_update)

lemma kill_dropped_inv [inv_intros]:
  assumes "sup_inv ch s"
  shows "sup_inv ch (kill_dropped ns s)"
  unfolding kill_dropped_def
proof (rule fold_inv[where P = "sup_inv ch", OF _ assms])
  fix n s assume "sup_inv ch s"
  then have *: "sup_inv ch (s'\<lparr>children := AList.delete n (children s')\<rparr>)"
    if "children s' = children s" for s'
    using that get_child_cong[OF that] get_child_update(2)[of n s', unfolded that]
    by (simp add: sup_inv_def distinct_delete)
  show "sup_inv ch (let s' = case get_child s n of None \<Rightarrow> s | Some r \<Rightarrow> send_term (pid r) s
      in s'\<lparr>children := AList.delete n (children s')\<rparr>)"
    unfolding Let_def by (rule *) (simp split: option.splits)
qed

lemma add_new_inv [inv_intros]:
  assumes "sup_inv ch s"
  shows "sup_inv ch (add_new (by_name cfg) ns s)"
  unfolding add_new_def
  by (rule fold_inv[where P = "sup_inv ch", OF _ assms])
    (auto split: option.splits intro: set_child_inv rec_ok_fresh by_name_key)

lemma replace_changed_inv [inv_intros]:
  assumes "sup_inv ch s"
  shows "sup_inv ch (replace_changed clock (by_name cfg) ns s)"
  unfolding replace_changed_def
proof (rule fold_inv[where P = "sup_inv ch", OF _ assms])
  fix n s assume s: "sup_inv ch s"
  then have "sup_inv ch (send_term p s)" for p using sup_inv_cong[of "send_term p s" s ch] by simp
  then show "sup_inv ch (case get_child s n of
        None \<Rightarrow> s
      | Some r \<Rightarrow>
          upd_child n (\<lambda>r. r\<lparr>spec := (case map_of (by_name cfg) n of None \<Rightarrow> spec r | Some sp \<Rightarrow> sp),
              c_status := CsExited, pid := None, last_exit_at := Some (clock n)\<rparr>)
            (send_term (pid r) s))"
    using s by (auto split: option.splits intro!: upd_child_inv simp: rec_ok_def dest: by_name_key)
qed

lemma reload_inv [inv_intros]:
  assumes "sup_inv ch s"
  shows "sup_inv ch (snd (reload digest po clock loaded s))"
  using assms
  by (auto simp: reload_def Let_def case_prod_unfold sup_inv_cong[OF persist_children(1)]
      intro!: inv_intros split: sum.splits)

lemma rec_ok_restore: "d_name sp = k \<Longrightarrow> rec_ok ch k (restore_child po now p sp)"
  by (auto simp: restore_child_def rec_ok_def fresh_def Let_def split: option.splits)

lemma new_supervisor_inv: "new_supervisor ch po clock cfg persisted ks = Some s \<Longrightarrow> sup_inv ch s"
  using foldl_update_entries[of "\<lambda>k r. rec_ok ch k r" d_name
      "\<lambda>s. restore_child po (clock (d_name s)) (map_of persisted (d_name s)) s" "[]" "daemons cfg"]
  by (auto simp: new_supervisor_def sup_inv_def get_child_def rec_ok_restore split: option.splits)

inductive sup_step :: "chrono \<Rightarrow> supervisor \<Rightarrow> supervisor \<Rightarrow> bool" for ch where
  sup_step_once: "sup_step ch s (snd (step_once ch po now s))"
| sup_reload: "sup_step ch s (snd (reload (digest :: daemon_spec \<Rightarrow> nat) po clock loaded s))"
| sup_shutdown: "sup_step ch s (snd (shutdown po q qs pk hs s))"

inductive sup_init :: "chrono \<Rightarrow> supervisor \<Rightarrow> bool" for ch where
  "new_supervisor ch po clock cfg persisted ks = Some s \<Longrightarrow> sup_init ch s"

lemma sup_step_inv: "sup_step ch s t \<Longrightarrow> sup_inv ch s \<Longrightarrow> sup_inv ch t"
  by (induction rule: sup_step.induct)
    (simp_all add: step_once_inv reload_inv shutdown_inv)

interpretation sup: invariant_system "sup_init ch" "sup_step ch" "sup_inv ch" for ch
  by unfold_locales (auto elim: sup_init.cases intro: new_supervisor_inv sup_step_inv)

section \<open>Which daemons a pass spawns\<close>

text \<open>The policy's conditions on the record of a daemon that is about to be spawned.\<close>

definition may_spawn :: "chrono \<Rightarrow> port \<Rightarrow> datetime \<Rightarrow> bool \<Rightarrow> child_record \<Rightarrow> bool" where
  "may_spawn ch po now global_mute r \<longleftrightarrow>
     \<not> global_mute \<and> enabled (spec r) \<and> (\<forall>p. kill_switch (spec r) = Some p \<longrightarrow> \<not> path_exists po p) \<and>
     pid r = None \<and>
     (\<forall>e. last_exit_at r = Some e \<longrightarrow>
        c_status r = CsRespawning \<or> throttle_seconds (spec r) = 0 \<or> throttle_deadline ch (spec r) e \<le> now)"

lemma record_crash_other:
  "m \<noteq> n \<Longrightarrow> get_child (record_crash ch n now s) m = get_child s m"
  "spawned_log (record_crash ch n now s) = spawned_log s"
  by (auto simp: record_crash_def Let_def split: option.splits)

lemma spawn_child_other:
  "m \<noteq> n \<Longrightarrow> get_child (spawn_child ch po n now s) m = get_child s m"
  "get_child s n \<noteq> None \<Longrightarrow> spawned_log (spawn_child ch po n now s) = spawned_log s @ [n]"
  by (auto simp: spawn_child_def record_crash_other split: option.splits sum.splits)

lemma decide_child_other:
  "m \<noteq> n \<Longrightarrow> get_child (decide_child ch po now g n s) m = get_child s m"
  by (auto simp: decide_child_def Let_def spawn_child_other
      split: option.splits child_status.splits respawn_verdict.splits)

lemma decide_child_spawns:
  assumes "sup_inv ch s"
  shows "spawned_log (decide_child ch po now g n s) = spawned_log s \<or>
    spawned_log (decide_child ch po now g n s) = spawned_log s @ [n] \<and>
      (\<exists>r. get_child s n = Some r \<and> may_spawn ch po now g r)"
proof (cases "get_child s n")
  case None
  then show ?thesis by (simp add: decide_child_def)
next
  case (Some r)
  note ok = sup_invD[OF assms Some]
  let ?dm = "case kill_switch (spec r) of None \<Rightarrow> False | Some p \<Rightarrow> path_exists po p"
  have muted: "\<not> is_muted (kill_switch_decision (spec r) g ?dm) \<longleftrightarrow>
      \<not> g \<and> enabled (spec r) \<and> (\<forall>p. kill_switch (spec r) = Some p \<longrightarrow> \<not> path_exists po p)"
    by (auto simp: is_muted_def kill_switch_decision_def split: option.splits)
  show ?thesis
    using Some ok muted spawn_child_other(2)[of s n ch po now]
    by (auto simp: decide_child_def respawn_decision_def may_spawn_def rec_ok_def Let_def
        split: child_status.splits option.splits if_splits)
qed

lemma decide_pass_spawns:
  assumes "sup_inv ch s" and "distinct ns"
  shows "\<exists>new. spawned_log (fold (decide_child ch po now g) ns s) = spawned_log s @ new \<and>
    distinct new \<and> set new \<subseteq> set ns \<and> (\<forall>n\<in>set new. \<exists>r. get_child s n = Some r \<and> may_spawn ch po now g r)"
  using assms
proof (induction ns arbitrary: s)
  case (Cons n ns)
  let ?t = "decide_child ch po now g n s"
  obtain new where new: "spawned_log (fold (decide_child ch po now g) ns ?t) = spawned_log ?t @ new"
    "distinct new" "set new \<subseteq> set ns" "\<forall>n\<in>set new. \<exists>r. get_child ?t n = Some r \<and> may_spawn ch po now g r"
    using Cons.IH[of ?t] Cons.prems decide_child_inv by auto
  have "get_child ?t m = get_child s m" if "m \<in> set new" for m
    using that new(3) Cons.prems(2) by (intro decide_child_other) auto
  with new decide_child_spawns[OF Cons.prems(1), of po now g n] Cons.prems(2) show ?case
    by (auto intro!: exI[of _ "if spawned_log ?t = spawned_log s then new else n # new"])
qed simp

lemma reap_pass_spawned: "spawned_log (snd (reap_pass ch po now ps s)) = spawned_log s"
  by (induction ch po now ps s rule: reap_pass.induct)
    (auto simp: record_crash_other mark_exited_def split: sum.splits reap_outcome.splits)

section \<open>Crash loops\<close>

fun crashes :: "chrono \<Rightarrow> string \<Rightarrow> datetime list \<Rightarrow> supervisor \<Rightarrow> supervisor" where
  "crashes ch n [] s = s"
| "crashes ch n (t # ts) s = crashes ch n ts (record_crash ch n t s)"

lemma crashes_append: "crashes ch n (xs @ ys) s = crashes ch n ys (crashes ch n xs s)"
  by (induction xs arbitrary: s) auto

lemma record_crash_effect:
  assumes "get_child s n = Some r" and "chrono_laws ch"
  shows "\<exists>r'. get_child (record_crash ch n now s) n = Some r' \<and>
    crash_times r' = filter (\<lambda>t. now - window s \<le> t) (crash_times r) @ [now] \<and>
    (let alert = (threshold s \<noteq> 0 \<and>
         unat (threshold s) \<le> length (filter (\<lambda>t. now - window s \<le> t) (crash_times r' )))
     in (propulsion_alerted r' \<longleftrightarrow> alert) \<and>
        alerts (record_crash ch n now s) =
          alerts s @ (if alert \<and> \<not> propulsion_alerted r then [(n, length (crash_times r'))] else []))"
  using assms
  by (auto simp: record_crash_def Let_def prune_crash_times_def crash_loop_alert_def chrono_laws_def)

lemma record_crash_frame [simp]:
  "threshold (record_crash ch n now s) = threshold s" "window (record_crash ch n now s) = window s"
  by (simp_all add: record_crash_def Let_def split: option.splits)

lemma crashes_frame [simp]:
  "threshold (crashes ch n ts s) = threshold s" "window (crashes ch n ts s) = window s"
  by (induction ts arbitrary: s) simp_all

lemma crashes_in_window:
  assumes "chrono_laws ch" and "get_child s n = Some r" and "crash_times r = []"
    and "\<not> propulsion_alerted r" and "threshold s \<noteq> 0"
    and "\<forall>a\<in>set ts. \<forall>b\<in>set ts. a - b \<le> window s"
  shows "\<exists>r'. get_child (crashes ch n ts s) n = Some r' \<and> crash_times r' = ts \<and>
    (propulsion_alerted r' \<longleftrightarrow> unat (threshold s) \<le> length ts) \<and>
    alerts (crashes ch n ts s) =
      alerts s @ (if unat (threshold s) \<le> length ts then [(n, unat (threshold s))] else [])"
  using assms(6)
proof (induction ts rule: rev_induct)
  case Nil
  then show ?case using assms(2-5) by (auto simp: unat_eq_zero)
next
  case (snoc t ts)
  then obtain r' where r': "get_child (crashes ch n ts s) n = Some r'" "crash_times r' = ts"
    "propulsion_alerted r' \<longleftrightarrow> unat (threshold s) \<le> length ts"
    "alerts (crashes ch n ts s) =
      alerts s @ (if unat (threshold s) \<le> length ts then [(n, unat (threshold s))] else [])"
    by auto
  have "filter (\<lambda>x. t - window s \<le> x) ts = ts"
    using snoc.prems by (intro filter_True) (auto simp: algebra_simps)
  moreover have "t - window s \<le> t" using snoc.prems by auto
  ultimately have "filter (\<lambda>x. t - window s \<le> x) ts = ts" "t - window s \<le> t" .
  then show ?case
    using record_crash_effect[OF r'(1) assms(1), of t] r' assms(5)
    by (auto simp: crashes_append Let_def)
qed

section \<open>What a reload installs\<close>

lemma key_map_of: "n \<in> set (map fst al) \<longleftrightarrow> map_of al n \<noteq> None"
  by (simp add: map_of_eq_None_iff)

lemma diff_members:
  "n \<in> set (df_spawn (diff digest old new)) \<longleftrightarrow> map_of old n = None \<and> map_of new n \<noteq> None"
  "n \<in> set (df_kill (diff digest old new)) \<longleftrightarrow> map_of old n \<noteq> None \<and> map_of new n = None"
  "n \<in> set (df_keep (diff digest old new)) \<longleftrightarrow>
     (\<exists>a b. map_of old n = Some a \<and> map_of new n = Some b \<and> digest a = digest b)"
  "n \<in> set (df_changed (diff digest old new)) \<longleftrightarrow>
     (\<exists>a b. map_of old n = Some a \<and> map_of new n = Some b \<and> digest a \<noteq> digest b)"
  unfolding diff_def Let_def by (auto simp: key_map_of same_digest_def simp del: set_map)

lemma diff_distinct:
  assumes "distinct (map fst old)" and "distinct (map fst new)"
  shows "distinct (df_spawn (diff digest old new))" "distinct (df_kill (diff digest old new))"
    "distinct (df_keep (diff digest old new))" "distinct (df_changed (diff digest old new))"
  using assms by (simp_all add: diff_def Let_def distinct_filter)

lemma get_child_kill_dropped:
  "get_child (kill_dropped ns s) m = (if m \<in> set ns then None else get_child s m)"
proof (induction ns arbitrary: s)
  case (Cons n ns)
  let ?t = "case get_child s n of None \<Rightarrow> s | Some r \<Rightarrow> send_term (pid r) s"
  have t: "get_child ?t = get_child s" by (simp split: option.splits)
  have "get_child (kill_dropped (n # ns) s) m =
      get_child (kill_dropped ns (?t\<lparr>children := AList.delete n (children ?t)\<rparr>)) m"
    by (simp add: kill_dropped_def Let_def)
  then show ?case using Cons t by (simp add: get_child_update)
qed (simp add: kill_dropped_def)

lemma get_child_add_new:
  "get_child (add_new new_map ns s) m =
     (if m \<in> set ns \<and> map_of new_map m \<noteq> None then map_option fresh (map_of new_map m) else get_child s m)"
proof (induction ns arbitrary: s)
  case (Cons n ns)
  show ?case
  proof (cases "map_of new_map n")
    case None
    then show ?thesis using Cons[of s] by (auto simp: add_new_def)
  next
    case (Some sp)
    then show ?thesis
      using Cons[of "s\<lparr>children := AList.update n (fresh sp) (children s)\<rparr>"]
      by (auto simp: add_new_def get_child_update)
  qed
qed (simp add: add_new_def)

definition replaced :: "(string \<Rightarrow> datetime) \<Rightarrow> (string \<times> daemon_spec) list \<Rightarrow> string \<Rightarrow> child_record \<Rightarrow> child_record" where
  "replaced clock new_map n r =
     r\<lparr>spec := (case map_of new_map n of None \<Rightarrow> spec r | Some sp \<Rightarrow> sp),
       c_status := CsExited, pid := None, last_exit_at := Some (clock n)\<rparr>"

lemma get_child_replace_changed:
  "distinct ns \<Longrightarrow> get_child (replace_changed clock new_map ns s) m =
     (if m \<in> set ns then map_option (replaced clock new_map m) (get_child s m) else get_child s m)"
proof (induction ns arbitrary: s)
  case (Cons n ns)
  show ?case
  proof (cases "get_child s n")
    case None
    then show ?thesis using Cons by (auto simp: replace_changed_def)
  next
    case (Some r)
    let ?t = "upd_child n (replaced clock new_map n) (send_term (pid r) s)"
    have "replace_changed clock new_map (n # ns) s = replace_changed clock new_map ns ?t"
      using Some by (simp add: replace_changed_def replaced_def[abs_def])
    then show ?thesis using Cons Some by auto
  qed
qed (simp add: replace_changed_def)

section \<open>Properties\<close>

definition exact_chrono :: chrono where
  "exact_chrono = \<lparr>try_seconds = \<lambda>s. Some (s * 1000000000), checked_add_signed = \<lambda>t d. Some (t + d),
     sub_duration = \<lambda>t d. t - d, max_utc = 0\<rparr>"

lemma exact_chrono_laws: "chrono_laws exact_chrono"
  by (simp add: chrono_laws_def exact_chrono_def)

definition sample_spec :: "string \<Rightarrow> daemon_spec" where
  "sample_spec n = \<lparr>d_name = n, binary = ''sleep'', args = [], throttle_seconds = 0, env = [],
     log_stdout = None, log_stderr = None, kill_switch = None, enabled = True\<rparr>"

definition sample_port :: port where
  "sample_port = \<lparr>has_child = \<lambda>_. True, reap = \<lambda>_. Ok StillAlive, pid_is_alive = \<lambda>_. True,
     spawn_process = \<lambda>_. Ok 7, path_exists = \<lambda>_. False, save_error = None\<rparr>"

definition sample_config :: supervisor_config where
  "sample_config = \<lparr>crash_loop_threshold = 1, crash_loop_window_seconds = 300, daemons = [sample_spec ''bot'']\<rparr>"

definition sample_supervisor :: supervisor where
  "sample_supervisor = \<lparr>children = [(''bot'', fresh (sample_spec ''bot''))], threshold = 1,
     window = 300000000000, kill_switch_path = ''kill.lock'', signals_sent = [], spawned_log = [],
     alerts = [], saved = []\<rparr>"

lemma sample_supervisor_new:
  "new_supervisor exact_chrono sample_port (\<lambda>_. 0) sample_config [] ''kill.lock'' = Some sample_supervisor"
  by (simp add: new_supervisor_def sample_config_def exact_chrono_def sample_supervisor_def
      restore_child_def i64_from_u64_def sample_spec_def)

lemma sample_supervisor_reachable: "reachable (sup_init exact_chrono) (sup_step exact_chrono) sample_supervisor"
  by (rule reachable.start) (rule sup_init.intros, rule sample_supervisor_new)

text \<open>
  C8. The supervised table is consistent in every reachable state of the supervisor, whatever the
  operating system answers: names are unique and agree with the specs, a child is marked
  running exactly when it has a pid, none is left in the spawning state, and a throttled
  child waits for the deadline computed from its last exit.
\<close>

theorem supervisor_table_invariant:
  assumes "reachable (sup_init ch) (sup_step ch) s"
  shows "sup_inv ch s"
  using assms by (rule sup.reachable_inv)

theorem supervisor_table_invariant_witness:
  "\<exists>s. reachable (sup_init exact_chrono) (sup_step exact_chrono) s \<and> running_count s = 1 \<and> sup_inv exact_chrono s"
proof -
  let ?s = "snd (step_once exact_chrono sample_port 5 sample_supervisor)"
  have "reachable (sup_init exact_chrono) (sup_step exact_chrono) ?s"
    by (rule reachable.more, rule sample_supervisor_reachable, rule sup_step_once)
  moreover have "running_count ?s = 1"
    by (simp add: sample_supervisor_def sample_port_def sample_spec_def
        restore_child_def fresh_def step_once_def child_pids_def map_filter_simps decide_child_def
        get_child_def kill_switch_decision_def is_muted_def respawn_decision_def spawn_child_def
        upd_child_def persist_def running_count_def)
  ultimately show ?thesis using supervisor_table_invariant by blast
qed

text \<open>
  C33. A pass spawns only what the policy allows: in any reachable state every daemon that
  \<open>step_once\<close> tries to spawn is spawned once, had no pid after reaping, is enabled, is not
  muted by the global or its own lock, and its throttle deadline has passed since its last
  exit (unless it has no throttle or was restored as respawning).
\<close>

theorem step_once_spawn_discipline:
  assumes "reachable (sup_init ch) (sup_step ch) s"
  shows "\<exists>new. spawned_log (snd (step_once ch po now s)) = spawned_log s @ new \<and> distinct new \<and>
    (\<forall>n\<in>set new. \<exists>r. get_child (snd (reap_pass ch po now (child_pids s) s)) n = Some r \<and>
       may_spawn ch po now (path_exists po (kill_switch_path s)) r)"
proof -
  obtain e s' where r: "reap_pass ch po now (child_pids s) s = (e, s')" by fastforce
  have inv: "sup_inv ch s'"
    using reap_pass_inv[OF sup.reachable_inv[OF assms], of po now "child_pids s"] r by simp
  have log: "spawned_log s' = spawned_log s" using reap_pass_spawned[of ch po now "child_pids s" s] r by simp
  show ?thesis
  proof (cases e)
    case (Some x)
    then show ?thesis using r log by (intro exI[of _ "[]"]) (simp add: step_once_def)
  next
    case None
    have "distinct (map fst (children s'))" using inv by (simp add: sup_inv_def)
    from decide_pass_spawns[OF inv this, of po now "path_exists po (kill_switch_path s)"] None r log
    show ?thesis by (auto simp: step_once_def Let_def)
  qed
qed

theorem step_once_spawn_discipline_witness:
  "\<exists>new. spawned_log (snd (step_once exact_chrono sample_port 5 sample_supervisor)) = new \<and> new = [''bot''] \<and>
     distinct new"
proof -
  from step_once_spawn_discipline[OF sample_supervisor_reachable, of sample_port 5]
  obtain new where "spawned_log (snd (step_once exact_chrono sample_port 5 sample_supervisor)) =
      spawned_log sample_supervisor @ new" "distinct new" by blast
  moreover have "spawned_log sample_supervisor = []"
    by (simp add: sample_supervisor_def)
  moreover have "spawned_log (snd (step_once exact_chrono sample_port 5 sample_supervisor)) = [''bot'']"
    by (simp add: sample_supervisor_def sample_port_def sample_spec_def
        restore_child_def fresh_def step_once_def child_pids_def map_filter_simps decide_child_def
        get_child_def kill_switch_decision_def is_muted_def respawn_decision_def spawn_child_def
        upd_child_def persist_def)
  ultimately show ?thesis by simp
qed

text \<open>
  The crash-loop valve fires exactly once per episode: a sequence of crashes of one daemon
  that all lie within the rolling window raises no alert while it is shorter than the
  threshold, and one alert, at the crash that reaches the threshold, however long it gets.
\<close>

theorem crash_loop_alerts_once:
  assumes "chrono_laws ch" and "get_child s n = Some r" and "crash_times r = []"
    and "\<not> propulsion_alerted r" and "threshold s \<noteq> 0"
    and "\<forall>a\<in>set ts. \<forall>b\<in>set ts. a - b \<le> window s"
  shows "alerts (crashes ch n ts s) =
    alerts s @ (if unat (threshold s) \<le> length ts then [(n, unat (threshold s))] else [])"
  using crashes_in_window[OF assms] by blast

theorem crash_loop_alerts_once_witness:
  "alerts (crashes exact_chrono ''bot'' [1, 2, 3] (sample_supervisor\<lparr>threshold := 2\<rparr>)) = [(''bot'', 2)]"
proof -
  let ?s = "sample_supervisor\<lparr>threshold := 2\<rparr>"
  have "get_child ?s ''bot'' = Some (fresh (sample_spec ''bot''))"
    by (simp add: sample_supervisor_def restore_child_def get_child_def sample_spec_def)
  from crash_loop_alerts_once[OF exact_chrono_laws this, of "[1, 2, 3]"] show ?thesis
    by (simp add: fresh_def sample_supervisor_def)
qed

text \<open>
  With a threshold of one the valve never re-arms: once the alert has been raised, no later
  crash raises another, however far apart the crashes are.
\<close>

theorem crash_loop_threshold_one_never_rearms:
  assumes "chrono_laws ch" and "get_child s n = Some r" and "propulsion_alerted r"
    and "threshold s = 1" and "0 \<le> window s"
  shows "alerts (crashes ch n ts s) = alerts s"
  using assms
proof (induction ts arbitrary: s r)
  case (Cons t ts)
  obtain r' where "get_child (record_crash ch n t s) n = Some r'" "propulsion_alerted r'"
    "alerts (record_crash ch n t s) = alerts s"
    using record_crash_effect[OF Cons.prems(2,1), of t] Cons.prems(3-5) by (auto simp: Let_def)
  with Cons.IH[of "record_crash ch n t s" r'] Cons.prems show ?case by simp
qed simp

theorem crash_loop_threshold_one_never_rearms_witness:
  "alerts (crashes exact_chrono ''bot'' [0, 10 ^ 18] sample_supervisor) = [(''bot'', 1)]"
proof -
  let ?t = "record_crash exact_chrono ''bot'' 0 sample_supervisor"
  have g: "get_child sample_supervisor ''bot'' = Some (fresh (sample_spec ''bot''))"
    by (simp add: sample_supervisor_def restore_child_def get_child_def sample_spec_def)
  have a: "alerts sample_supervisor = []" "threshold sample_supervisor = 1" "window sample_supervisor = 300000000000"
    by (simp_all add: sample_supervisor_def)
  obtain r where r: "get_child ?t ''bot'' = Some r" "propulsion_alerted r" "alerts ?t = [(''bot'', 1)]"
    using record_crash_effect[OF g exact_chrono_laws, of 0] a by (auto simp: fresh_def Let_def)
  have "crashes exact_chrono ''bot'' [0, 10 ^ 18] sample_supervisor = crashes exact_chrono ''bot'' [10 ^ 18] ?t"
    by simp
  with crash_loop_threshold_one_never_rearms[OF exact_chrono_laws r(1,2), of "[10 ^ 18]"] a r(3)
  show ?thesis by simp
qed

text \<open>
  The hot-reload diff is a partition: whatever the digest, the four lists are sorted and
  duplicate-free, every name of the old or the new table is in exactly one of them, and the
  kept names are those whose two specs have the same digest.
\<close>

theorem diff_partition:
  assumes "distinct (map fst old)" and "distinct (map fst new)"
  shows "(let d = diff digest old new;
              all = df_spawn d @ df_kill d @ df_keep d @ df_changed d
          in distinct all \<and> set all = fst ` set old \<union> fst ` set new \<and>
             sorted (df_spawn d) \<and> sorted (df_kill d) \<and> sorted (df_keep d) \<and> sorted (df_changed d) \<and>
             set (df_keep d) = {n. \<exists>a b. map_of old n = Some a \<and> map_of new n = Some b \<and> digest a = digest b} \<and>
             set (df_changed d) = {n. \<exists>a b. map_of old n = Some a \<and> map_of new n = Some b \<and> digest a \<noteq> digest b})"
proof -
  let ?d = "diff digest old new"
  note dist = diff_distinct[OF assms, of digest]
  have mem: "set (df_spawn ?d) = {n. map_of old n = None \<and> map_of new n \<noteq> None}"
    "set (df_kill ?d) = {n. map_of old n \<noteq> None \<and> map_of new n = None}"
    and kc: "set (df_keep ?d) = {n. \<exists>a b. map_of old n = Some a \<and> map_of new n = Some b \<and> digest a = digest b}"
    "set (df_changed ?d) = {n. \<exists>a b. map_of old n = Some a \<and> map_of new n = Some b \<and> digest a \<noteq> digest b}"
    using diff_members[of _ digest old new] by blast+
  have "distinct (df_spawn ?d @ df_kill ?d @ df_keep ?d @ df_changed ?d)"
    unfolding distinct_append set_append using dist by (auto simp: mem kc)
  moreover have "set (df_spawn ?d @ df_kill ?d @ df_keep ?d @ df_changed ?d) = fst ` set old \<union> fst ` set new"
    unfolding set_append mem kc dom_map_of_conv_image_fst[symmetric] by (auto simp: dom_def)
  moreover have "sorted (df_spawn ?d)" "sorted (df_kill ?d)" "sorted (df_keep ?d)" "sorted (df_changed ?d)"
    by (simp_all add: diff_def Let_def)
  ultimately show ?thesis unfolding Let_def using kc by blast
qed

theorem diff_partition_witness:
  "(let d = diff (\<lambda>s. throttle_seconds s) [(''a'', sample_spec ''a''), (''b'', sample_spec ''b'')]
       [(''c'', sample_spec ''c''), (''b'', (sample_spec ''b'')\<lparr>throttle_seconds := 9\<rparr>)]
    in df_spawn d = [''c''] \<and> df_kill d = [''a''] \<and> df_keep d = [] \<and> df_changed d = [''b''] \<and>
       distinct (df_spawn d @ df_kill d @ df_keep d @ df_changed d))"
proof -
  let ?old = "[(''a'', sample_spec ''a''), (''b'', sample_spec ''b'')]"
  let ?new = "[(''c'', sample_spec ''c''), (''b'', (sample_spec ''b'')\<lparr>throttle_seconds := 9\<rparr>)]"
  have "df_spawn (diff throttle_seconds ?old ?new) = [''c'']" "df_kill (diff throttle_seconds ?old ?new) = [''a'']"
    "df_keep (diff throttle_seconds ?old ?new) = []" "df_changed (diff throttle_seconds ?old ?new) = [''b'']"
    by (simp_all add: diff_def Let_def same_digest_def sample_spec_def)
  with diff_partition[of ?old ?new throttle_seconds] show ?thesis by (simp add: Let_def)
qed

text \<open>
  A reload installs the new configuration exactly: with a digest that tells different specs
  apart, the table afterwards has precisely the configured daemons; a new one has a fresh
  record, an unchanged one keeps its record untouched, a changed one has the new spec and is
  marked exited without a pid.
\<close>

theorem reload_installs_config:
  assumes "sup_inv ch s" and "inj digest"
  shows "get_child (snd (reload digest po clock (Ok cfg) s)) n =
    (case map_of (by_name cfg) n of
       None \<Rightarrow> None
     | Some sp \<Rightarrow>
         (case get_child s n of
            None \<Rightarrow> Some (fresh sp)
          | Some r \<Rightarrow>
              if spec r = sp then Some r
              else Some (r\<lparr>spec := sp, c_status := CsExited, pid := None, last_exit_at := Some (clock n)\<rparr>)))"
proof -
  let ?old = "map (\<lambda>(k, r). (k, spec r)) (children s)"
  let ?new = "by_name cfg"
  let ?d = "diff digest ?old ?new"
  have old: "map_of ?old = map_option spec \<circ> get_child s"
    by (simp add: get_child_def[abs_def] map_of_map)
  have "distinct (map fst ?new)"
    unfolding by_name_def
    by (rule foldl_update_entries[of "\<lambda>_ _. True" d_name "\<lambda>d. d", THEN conjunct1]) auto
  moreover have "map fst ?old = map fst (children s)" by (simp add: case_prod_unfold comp_def)
  then have "distinct (map fst ?old)" using assms(1) by (simp only: sup_inv_def)
  ultimately have D: "distinct (df_changed ?d)" by (rule diff_distinct(4)[rotated])
  have ch: "get_child (snd (reload digest po clock (Ok cfg) s)) =
      get_child (replace_changed clock ?new (df_changed ?d) (add_new ?new (df_spawn ?d) (kill_dropped (df_kill ?d) s)))"
    by (rule get_child_cong) (simp add: reload_def Let_def case_prod_unfold)
  show ?thesis
    unfolding ch get_child_replace_changed[OF D] get_child_add_new get_child_kill_dropped
    using diff_members[of n digest ?old ?new] inj_eq[OF assms(2)]
    by (cases "map_of ?new n"; cases "get_child s n") (auto simp: old replaced_def)
qed

theorem reload_installs_config_witness:
  "get_child (snd (reload (\<lambda>d. d) sample_port (\<lambda>_. 9)
     (Ok \<lparr>crash_loop_threshold = 1, crash_loop_window_seconds = 300, daemons = [sample_spec ''web'']\<rparr>)
     sample_supervisor)) ''bot'' = None"
proof -
  have inv: "sup_inv exact_chrono sample_supervisor"
    by (rule new_supervisor_inv, rule sample_supervisor_new)
  have "inj (\<lambda>d :: daemon_spec. d)" by simp
  from reload_installs_config[OF inv this, of sample_port "\<lambda>_. 9" _ "''bot''"] show ?thesis
    by (simp add: by_name_def sample_spec_def)
qed

lemma collect_errors_Nil_iff:
  "collect_errors idx seen ds = [] \<longleftrightarrow>
     distinct (map d_name ds) \<and> set (map d_name ds) \<inter> seen = {} \<and>
     (\<forall>d\<in>set ds. d_name d \<noteq> [] \<and> \<not> is_blank (binary d))"
  by (induction ds arbitrary: idx seen) (auto simp: daemon_errors_def)

text \<open>
  A configuration is accepted exactly when every daemon has a name of its own that is not
  empty and a binary that is not blank.
\<close>

theorem config_validate_exact:
  "from_str_validated toml raw = Ok cfg \<longleftrightarrow>
     toml raw = Ok cfg \<and> distinct (map d_name (daemons cfg)) \<and>
     \<not> (\<exists>d\<in>set (daemons cfg). d_name d = [] \<or> is_blank (binary d))"
  by (auto simp: from_str_validated_def validate_def Let_def collect_errors_Nil_iff split: if_splits)

section \<open>Shutdown\<close>

lemma reap_owned_frame [simp]:
  "signals_sent (reap_owned po clock ps s) = signals_sent s"
  "spawned_log (reap_owned po clock ps s) = spawned_log s"
  by (induction po clock ps s rule: reap_owned.induct)
    (auto simp: mark_exited_def upd_child_def split: sum.splits reap_outcome.splits)

lemma pid_mark_exited:
  "get_child (mark_exited n code now s) k = Some r \<Longrightarrow> pid r = Some p \<Longrightarrow> get_child s k = Some r"
  by (auto simp: mark_exited_def split: if_splits)

lemma pid_reap_owned:
  "get_child (reap_owned po clock ps s) k = Some r \<Longrightarrow> pid r = Some p \<Longrightarrow> get_child s k = Some r"
proof (induction po clock ps s rule: reap_owned.induct)
  case (2 po clock n q ps s)
  then show ?case
    by (auto split: if_splits sum.splits reap_outcome.splits dest: pid_mark_exited)
qed simp

lemma wait_loop_frame:
  "signals_sent (snd (wait_loop qs s)) = signals_sent s"
  "spawned_log (snd (wait_loop qs s)) = spawned_log s"
  "get_child (snd (wait_loop qs s)) k = Some r \<Longrightarrow> pid r = Some p \<Longrightarrow> get_child s k = Some r"
  by (induction qs s rule: wait_loop.induct)
    (auto simp: Let_def reap_owned_once_def split: if_splits dest: pid_reap_owned)

lemma child_pids_iff:
  "distinct (map fst (children s)) \<Longrightarrow>
     p \<in> set (map snd (child_pids s)) \<longleftrightarrow> (\<exists>k r. get_child s k = Some r \<and> pid r = Some p)"
  by (force simp: child_pids_def List.map_filter_def get_child_def split: option.splits)

text \<open>
  Shutting down signals every child and spawns none: every pid of the table gets SIGTERM
  first; SIGKILL goes to exactly the pids that are still in the table and alive when the
  grace period ends, all of which had SIGTERM; and a pid left in the table at the end was in
  it before.
\<close>

theorem shutdown_signals_children:
  assumes "reachable (sup_init ch) (sup_step ch) s"
  shows "\<exists>killed.
    signals_sent (snd (shutdown po q qs pk hs s)) =
      signals_sent s @ map (\<lambda>p. (p, Term)) (map snd (child_pids s)) @ map (\<lambda>p. (p, Kill)) killed \<and>
    set killed \<subseteq> set (map snd (child_pids s)) \<and>
    (let (all_down, s1) = wait_loop (q # qs) (send_all Term (map snd (child_pids s)) s)
     in set killed = (if all_down then {} else {p \<in> set (map snd (child_pids s1)). pid_is_alive pk p})) \<and>
    spawned_log (snd (shutdown po q qs pk hs s)) = spawned_log s \<and>
    set (map snd (child_pids (snd (shutdown po q qs pk hs s)))) \<subseteq> set (map snd (child_pids s))"
proof -
  let ?P = "\<lambda>t. set (map snd (child_pids t))"
  let ?s0 = "send_all Term (map snd (child_pids s)) s"
  obtain b s1 where w: "wait_loop (q # qs) ?s0 = (b, s1)" by fastforce
  define killed where "killed = (if b then [] else filter (pid_is_alive pk) (map snd (child_pids s1)))"
  define s2 where "s2 = (if b then s1 else snd (wait_loop hs (send_all Kill killed s1)))"
  have sh: "snd (shutdown po q qs pk hs s) = snd (persist po s2)"
    by (cases b) (simp_all add: shutdown_def w s2_def killed_def del: wait_loop.simps)
  have inv: "sup_inv ch s" using assms by (rule sup.reachable_inv)
  have send: "sup_inv ch (send_all sg ps t) \<longleftrightarrow> sup_inv ch t" for sg ps t
    by (rule sup_inv_cong) (simp add: send_all_def)
  have inv1: "sup_inv ch s1"
    using wait_loop_inv[of ch ?s0 "q # qs"] inv by (simp add: w send del: wait_loop.simps)
  have inv2: "sup_inv ch s2" using inv1 by (simp add: s2_def wait_loop_inv send)
  have iff: "p \<in> ?P t \<longleftrightarrow> (\<exists>k r. get_child t k = Some r \<and> pid r = Some p)" if "sup_inv ch t" for t p
    using that by (intro child_pids_iff) (simp add: sup_inv_def)
  have gs: "get_child (send_all sg ps t) = get_child t" for sg ps t
    by (rule get_child_cong) (simp add: send_all_def)
  have P1: "?P s1 \<subseteq> ?P s"
    using wait_loop_frame(3)[of "q # qs" ?s0] unfolding w gs subset_iff iff[OF inv1] iff[OF inv] snd_conv
    by blast
  have P2: "?P s2 \<subseteq> ?P s1"
    using wait_loop_frame(3)[of hs "send_all Kill killed s1"]
    unfolding s2_def[symmetric] gs subset_iff iff[OF inv1] iff[OF inv2]
    by (cases b) (simp_all add: s2_def, blast?)
  have P3: "?P (snd (persist po s2)) = ?P s2" by (simp add: child_pids_def)
  have sig: "signals_sent s1 = signals_sent s @ map (\<lambda>p. (p, Term)) (map snd (child_pids s))"
    "spawned_log s1 = spawned_log s"
    using wait_loop_frame(1,2)[of "q # qs" ?s0] unfolding w by (simp_all add: send_all_def)
  have sig2: "signals_sent s2 = signals_sent s1 @ map (\<lambda>p. (p, Kill)) killed" "spawned_log s2 = spawned_log s1"
    by (simp_all add: s2_def wait_loop_frame send_all_def killed_def)
  have pers: "signals_sent (snd (persist po t)) = signals_sent t" "spawned_log (snd (persist po t)) = spawned_log t" for t
    by (simp_all add: persist_def split: option.splits)
  show ?thesis
    unfolding sh pers P3 using P1 order_trans[OF P2 P1]
    by (intro exI[of _ killed]) (auto simp: sig sig2 w killed_def simp del: wait_loop.simps)
qed

theorem shutdown_signals_children_witness:
  "\<exists>killed. signals_sent (snd (shutdown sample_port (sample_port, \<lambda>_. 0) [] sample_port []
      (snd (step_once exact_chrono sample_port 5 sample_supervisor)))) =
      (7, Term) # map (\<lambda>p. (p, Kill)) killed \<and> killed = [7]"
proof -
  let ?s = "snd (step_once exact_chrono sample_port 5 sample_supervisor)"
  have r: "reachable (sup_init exact_chrono) (sup_step exact_chrono) ?s"
    by (rule reachable.more, rule sample_supervisor_reachable, rule sup_step_once)
  note step_simps = sample_supervisor_def sample_port_def sample_spec_def fresh_def step_once_def
    child_pids_def map_filter_simps decide_child_def get_child_def kill_switch_decision_def is_muted_def
    respawn_decision_def spawn_child_def upd_child_def persist_def
  have s: "child_pids ?s = [(''bot'', 7)]" "signals_sent ?s = []"
    by (simp_all add: step_simps)
  have "signals_sent (snd (shutdown sample_port (sample_port, \<lambda>_. 0) [] sample_port [] ?s)) = [(7, Term), (7, Kill)]"
    by (simp add: step_simps shutdown_def send_all_def reap_owned_once_def any_alive_def)
  then show ?thesis
    using shutdown_signals_children[OF r, of sample_port "(sample_port, \<lambda>_. 0)" "[]" sample_port "[]"] s
    by auto
qed

end
