(* ===== verification/Verify.thy ===== *)
theory Verify
  imports Molecule "HOL-Library.AList"
begin

text \<open>
  The trace validator of \<open>crates/cosmon-verify/src\<close> (\<open>model.rs\<close>, \<open>invariants.rs\<close>,
  \<open>validator.rs\<close>, \<open>error.rs\<close>): it replays the event log against a small scheduler state and
  checks seven pluggable invariants before applying each event.  Identifiers are strings; the
  payload that neither an invariant nor the replay reads is left out of the events, and every
  event variant without a molecule, worker or merge in it is \<open>OtherEvent\<close>.  A hash map is an
  association list.  A violation message keeps the data its text is formatted from.  Reading
  one line as an envelope (\<open>Envelope::from_line\<close>, JSON) is the argument \<open>from_line\<close>.
\<close>

section \<open>Events\<close>

datatype merge_result = MergeOk | MergeConflict | MergeErr string | MergeOther string

datatype event =
  MoleculeNucleated string string
| MoleculeStatusChanged string string string
| MoleculeStepCompleted string nat nat
| MoleculeCompleted string
| MoleculeCollapsed string
| MoleculeStuck string
| Expired string
| GateStarted string | GateCompleted string | GateFailed string
| NativeStarted string | NativeCompleted string | NativeFailed string
| Resurrected string
| WorkerSpawned string
| WorkerKilled string
| MergeDispatched string string
| MergeCompleted string string merge_result
| DecaySpliced string "string list"
| OtherEvent

record envelope =
  seq :: nat
  event :: event

section \<open>The replayed state\<close>

record molecule_trace =
  trace_status :: molecule_status
  last_step :: "nat option"
  trace_total :: "nat option"
  trace_formula :: string

record worker_trace =
  alive :: bool

record scheduler_state =
  molecules :: "(string \<times> molecule_trace) list"
  workers :: "(string \<times> worker_trace) list"
  pending_merges :: "(string \<times> string) list"
  completed_merges :: "(string \<times> merge_result) list"
  events_seen :: nat

definition new_scheduler_state :: scheduler_state where
  "new_scheduler_state =
     \<lparr>molecules = [], workers = [], pending_merges = [], completed_merges = [], events_seen = 0\<rparr>"

definition status_of :: "scheduler_state \<Rightarrow> string \<Rightarrow> molecule_status option" where
  "status_of st m = map_option trace_status (map_of (molecules st) m)"

definition molecule_count :: "scheduler_state \<Rightarrow> nat" where
  "molecule_count st = length (molecules st)"

definition fresh_trace :: "string \<Rightarrow> molecule_trace" where
  "fresh_trace f = \<lparr>trace_status = Pending, last_step = None, trace_total = None, trace_formula = f\<rparr>"

definition or_insert :: "'k \<Rightarrow> 'v \<Rightarrow> ('k \<times> 'v) list \<Rightarrow> ('k \<times> 'v) list" where
  "or_insert k v al = (if map_of al k = None then al @ [(k, v)] else al)"

definition update_mol ::
  "string \<Rightarrow> (molecule_trace \<Rightarrow> molecule_trace) \<Rightarrow> scheduler_state \<Rightarrow> scheduler_state" where
  "update_mol m f st =
     (case map_of (molecules st) m of
        None \<Rightarrow> st
      | Some t \<Rightarrow> st\<lparr>molecules := AList.update m (f t) (molecules st)\<rparr>)"

fun insert_children :: "string list \<Rightarrow> (string \<times> molecule_trace) list \<Rightarrow> (string \<times> molecule_trace) list" where
  "insert_children [] al = al"
| "insert_children (c # cs) al = insert_children cs (or_insert c (fresh_trace []) al)"

fun apply_event :: "event \<Rightarrow> scheduler_state \<Rightarrow> scheduler_state" where
  "apply_event (MoleculeNucleated m f) st = st\<lparr>molecules := or_insert m (fresh_trace f) (molecules st)\<rparr>"
| "apply_event (MoleculeStatusChanged m from to) st =
     (case status_from_str to of
        Ok s \<Rightarrow> update_mol m (\<lambda>t. t\<lparr>trace_status := s\<rparr>) st
      | Err _ \<Rightarrow> st)"
| "apply_event (MoleculeStepCompleted m k n) st =
     update_mol m (\<lambda>t. t\<lparr>last_step := Some k, trace_total := Some n\<rparr>) st"
| "apply_event (MoleculeCompleted m) st = update_mol m (\<lambda>t. t\<lparr>trace_status := Completed\<rparr>) st"
| "apply_event (MoleculeCollapsed m) st = update_mol m (\<lambda>t. t\<lparr>trace_status := Collapsed\<rparr>) st"
| "apply_event (WorkerSpawned w) st = st\<lparr>workers := or_insert w \<lparr>alive = True\<rparr> (workers st)\<rparr>"
| "apply_event (WorkerKilled w) st =
     (case map_of (workers st) w of
        None \<Rightarrow> st
      | Some t \<Rightarrow> st\<lparr>workers := AList.update w (t\<lparr>alive := False\<rparr>) (workers st)\<rparr>)"
| "apply_event (MergeDispatched m b) st =
     st\<lparr>pending_merges := AList.update m b (pending_merges st)\<rparr>"
| "apply_event (MergeCompleted m b r) st =
     st\<lparr>pending_merges := AList.delete m (pending_merges st),
        completed_merges := AList.update m r (completed_merges st)\<rparr>"
| "apply_event (DecaySpliced p cs) st = st\<lparr>molecules := insert_children cs (molecules st)\<rparr>"
| "apply_event _ st = st"

definition apply_env :: "scheduler_state \<Rightarrow> envelope \<Rightarrow> scheduler_state" where
  "apply_env st env = apply_event (event env) (st\<lparr>events_seen := events_seen st + 1\<rparr>)"

section \<open>Invariants\<close>

datatype violation_message =
  UnknownMolecule string
| UnparseableFrom string string
| UnparseableTo string string
| WrongFrom string molecule_status molecule_status
| IllegalTransition string molecule_status molecule_status
| AlreadyTerminal string molecule_status string
| StepBelowLast string nat nat
| StepNotBelowTotal string nat nat
| TotalChanged string nat nat
| UnknownWorker string
| BranchMismatch string string string
| NoPriorDispatch string

record violation =
  invariant_id :: string
  v_seq :: "nat option"
  v_line :: nat
  v_message :: violation_message

definition violate :: "string \<Rightarrow> envelope \<Rightarrow> nat \<Rightarrow> violation_message \<Rightarrow> violation + unit" where
  "violate i env line msg =
     Err \<lparr>invariant_id = i, v_seq = Some (seq env), v_line = line, v_message = msg\<rparr>"

fun referenced :: "event \<Rightarrow> string option" where
  "referenced (MoleculeStatusChanged m _ _) = Some m"
| "referenced (MoleculeStepCompleted m _ _) = Some m"
| "referenced (MoleculeCompleted m) = Some m"
| "referenced (MoleculeCollapsed m) = Some m"
| "referenced (MoleculeStuck m) = Some m"
| "referenced (Expired m) = Some m"
| "referenced (GateStarted m) = Some m"
| "referenced (GateCompleted m) = Some m"
| "referenced (GateFailed m) = Some m"
| "referenced (NativeStarted m) = Some m"
| "referenced (NativeCompleted m) = Some m"
| "referenced (NativeFailed m) = Some m"
| "referenced (Resurrected m) = Some m"
| "referenced (MergeDispatched m _) = Some m"
| "referenced (MergeCompleted m _ _) = Some m"
| "referenced (DecaySpliced p _) = Some p"
| "referenced _ = None"

type_synonym check = "scheduler_state \<Rightarrow> envelope \<Rightarrow> nat \<Rightarrow> violation + unit"

definition molecule_exists_before_use :: check where
  "molecule_exists_before_use st env line =
     (case referenced (event env) of
        None \<Rightarrow> Ok ()
      | Some m \<Rightarrow>
          if map_of (molecules st) m = None
          then violate ''molecule_exists_before_use'' env line (UnknownMolecule m)
          else Ok ())"

text \<open>The transitions the log may show beyond the table: queueing and tackling.\<close>

fun pipeline_transition :: "molecule_status \<Rightarrow> molecule_status \<Rightarrow> bool" where
  "pipeline_transition Pending t = (t = Queued \<or> t = Pending \<or> t = Running)"
| "pipeline_transition Queued t = (t = Running \<or> t = Pending)"
| "pipeline_transition _ _ = False"

definition status_transition_legal :: check where
  "status_transition_legal st env line =
     (case event env of
        MoleculeStatusChanged m from to \<Rightarrow>
          (case status_of st m of
             None \<Rightarrow> Ok ()
           | Some current \<Rightarrow>
               (case status_from_str from of
                  Err _ \<Rightarrow> violate ''status_transition_legal'' env line (UnparseableFrom from m)
                | Ok parsed_from \<Rightarrow>
                    (case status_from_str to of
                       Err _ \<Rightarrow> violate ''status_transition_legal'' env line (UnparseableTo to m)
                     | Ok parsed_to \<Rightarrow>
                         if parsed_from \<noteq> current
                         then violate ''status_transition_legal'' env line (WrongFrom m parsed_from current)
                         else if \<not> (can_transition_to parsed_from parsed_to \<or>
                                    pipeline_transition parsed_from parsed_to)
                         then violate ''status_transition_legal'' env line
                                (IllegalTransition m parsed_from parsed_to)
                         else Ok ())))
      | _ \<Rightarrow> Ok ())"

fun lifecycle_kind :: "event \<Rightarrow> (string \<times> string) option" where
  "lifecycle_kind (MoleculeStepCompleted m _ _) = Some (m, ''molecule_step_completed'')"
| "lifecycle_kind (MoleculeCompleted m) = Some (m, ''molecule_completed'')"
| "lifecycle_kind (MoleculeCollapsed m) = Some (m, ''molecule_collapsed'')"
| "lifecycle_kind (MoleculeStatusChanged m _ _) = Some (m, ''molecule_status_changed'')"
| "lifecycle_kind _ = None"

definition no_events_after_terminal :: check where
  "no_events_after_terminal st env line =
     (case lifecycle_kind (event env) of
        None \<Rightarrow> Ok ()
      | Some (m, k) \<Rightarrow>
          (case status_of st m of
             None \<Rightarrow> Ok ()
           | Some s \<Rightarrow>
               if is_terminal s
               then violate ''no_events_after_terminal'' env line (AlreadyTerminal m s k)
               else Ok ()))"

definition step_monotone :: check where
  "step_monotone st env line =
     (case event env of
        MoleculeStepCompleted m k n \<Rightarrow>
          (case map_of (molecules st) m of
             None \<Rightarrow> Ok ()
           | Some t \<Rightarrow>
               (case last_step t of
                  None \<Rightarrow> Ok ()
                | Some prev \<Rightarrow>
                    if k < prev then violate ''step_monotone'' env line (StepBelowLast m k prev)
                    else Ok ()))
      | _ \<Rightarrow> Ok ())"

definition step_within_total :: check where
  "step_within_total st env line =
     (case event env of
        MoleculeStepCompleted m k n \<Rightarrow>
          if k \<ge> n then violate ''step_within_total'' env line (StepNotBelowTotal m k n)
          else
            (case map_of (molecules st) m of
               None \<Rightarrow> Ok ()
             | Some t \<Rightarrow>
                 (case trace_total t of
                    None \<Rightarrow> Ok ()
                  | Some prev \<Rightarrow>
                      if prev \<noteq> n then violate ''step_within_total'' env line (TotalChanged m prev n)
                      else Ok ()))
      | _ \<Rightarrow> Ok ())"

definition worker_spawned_before_killed :: check where
  "worker_spawned_before_killed st env line =
     (case event env of
        WorkerKilled w \<Rightarrow>
          if map_of (workers st) w = None
          then violate ''worker_spawned_before_killed'' env line (UnknownWorker w)
          else Ok ()
      | _ \<Rightarrow> Ok ())"

definition merge_completion_pairs_dispatch :: check where
  "merge_completion_pairs_dispatch st env line =
     (case event env of
        MergeCompleted m b _ \<Rightarrow>
          (case map_of (pending_merges st) m of
             Some pb \<Rightarrow>
               if pb = b then Ok ()
               else violate ''merge_completion_pairs_dispatch'' env line (BranchMismatch m b pb)
           | None \<Rightarrow> violate ''merge_completion_pairs_dispatch'' env line (NoPriorDispatch m))
      | _ \<Rightarrow> Ok ())"

definition baseline_invariants :: "check list" where
  "baseline_invariants =
     [molecule_exists_before_use, status_transition_legal, no_events_after_terminal,
      step_monotone, step_within_total, worker_spawned_before_killed,
      merge_completion_pairs_dispatch]"

section \<open>The replay loop\<close>

datatype validation_outcome =
  Certified nat nat nat
| Violated nat violation

fun check_all :: "check list \<Rightarrow> check" where
  "check_all [] st env line = Ok ()"
| "check_all (c # cs) st env line = and_then (c st env line) (\<lambda>_. check_all cs st env line)"

fun replay ::
  "(string \<Rightarrow> 'e + envelope) \<Rightarrow> check list \<Rightarrow> bool \<Rightarrow> nat \<Rightarrow> string list
     \<Rightarrow> scheduler_state \<Rightarrow> nat \<Rightarrow> nat \<Rightarrow> (nat \<times> 'e) + validation_outcome" where
  "replay from_line invs skip_unknown idx [] st replayed skipped =
     Ok (Certified replayed (molecule_count st) skipped)"
| "replay from_line invs skip_unknown idx (raw # ls) st replayed skipped =
     (let line_no = idx + 1; trimmed = trim raw
      in if trimmed = [] then replay from_line invs skip_unknown (idx + 1) ls st replayed skipped
         else
           (case from_line trimmed of
              Err e \<Rightarrow>
                if skip_unknown
                then replay from_line invs skip_unknown (idx + 1) ls st replayed (skipped + 1)
                else Err (line_no, e)
            | Ok env \<Rightarrow>
                (case check_all invs st env line_no of
                   Err v \<Rightarrow> Ok (Violated replayed v)
                 | Ok _ \<Rightarrow>
                     replay from_line invs skip_unknown (idx + 1) ls (apply_env st env)
                       (replayed + 1) skipped)))"

definition validate_str ::
  "(string \<Rightarrow> 'e + envelope) \<Rightarrow> check list \<Rightarrow> bool \<Rightarrow> string \<Rightarrow> (nat \<times> 'e) + validation_outcome" where
  "validate_str from_line invs skip_unknown trace =
     replay from_line invs skip_unknown 0 (str_lines trace) new_scheduler_state 0 0"

text \<open>
  The records that closing a molecule writes to the log: \<open>announce\<close> of
  \<open>cosmon-state/src/ops/collapse.rs\<close>, and the end of \<open>complete_one\<close> in
  \<open>cosmon-cli/src/cmd/complete.rs\<close>.
\<close>

definition announce_collapse :: "string \<Rightarrow> molecule_status \<Rightarrow> bool \<Rightarrow> event list" where
  "announce_collapse m prev previous_was_stuck =
     [MoleculeStatusChanged m (if previous_was_stuck then ''stuck'' else as_str prev) ''collapsed'',
      MoleculeCollapsed m]"

definition announce_complete :: "string \<Rightarrow> molecule_status \<Rightarrow> event list" where
  "announce_complete m prev =
     [MoleculeStatusChanged m (as_str prev) ''completed'', MoleculeCompleted m]"

section \<open>The contract of an invariant\<close>

text \<open>
  What the replay loop expects of an implementation of the trait \<open>Invariant\<close>: a verdict that
  depends on the state before the event and on the event, and a violation that names the
  invariant, the sequence number and the line.
\<close>

locale trace_invariant =
  fixes check_inv :: check
    and legal :: "scheduler_state \<Rightarrow> event \<Rightarrow> bool"
    and inv_name :: string
  assumes check_Ok_iff: "check_inv st env line = Ok () \<longleftrightarrow> legal st (event env)"
    and check_ErrD: "check_inv st env line = Err v \<Longrightarrow>
      invariant_id v = inv_name \<and> v_seq v = Some (seq env) \<and> v_line v = line"
begin

lemma verdict_line_independent:
  "check_inv st env line = Ok () \<longleftrightarrow> check_inv st env line' = Ok ()"
  by (simp add: check_Ok_iff)

lemma illegal_reported:
  assumes "\<not> legal st (event env)"
  obtains v where "check_inv st env line = Err v" "invariant_id v = inv_name"
proof -
  have "check_inv st env line \<noteq> Ok ()" using assms by (simp add: check_Ok_iff)
  then obtain v where "check_inv st env line = Err v" by (cases "check_inv st env line") auto
  then show thesis using that check_ErrD by blast
qed

end

text \<open>The seven conditions, each stated on the state and the event alone.\<close>

definition ok_exists :: "scheduler_state \<Rightarrow> event \<Rightarrow> bool" where
  "ok_exists st ev \<longleftrightarrow> (\<forall>m. referenced ev = Some m \<longrightarrow> m \<in> fst ` set (molecules st))"

definition ok_transition :: "scheduler_state \<Rightarrow> event \<Rightarrow> bool" where
  "ok_transition st ev \<longleftrightarrow>
     (\<forall>m from to cur. ev = MoleculeStatusChanged m from to \<and> status_of st m = Some cur \<longrightarrow>
        status_from_str from = Ok cur \<and>
        (\<exists>s. status_from_str to = Ok s \<and> (can_transition_to cur s \<or> pipeline_transition cur s)))"

definition ok_terminal :: "scheduler_state \<Rightarrow> event \<Rightarrow> bool" where
  "ok_terminal st ev \<longleftrightarrow>
     (\<forall>m k s. lifecycle_kind ev = Some (m, k) \<and> status_of st m = Some s \<longrightarrow> \<not> is_terminal s)"

definition ok_monotone :: "scheduler_state \<Rightarrow> event \<Rightarrow> bool" where
  "ok_monotone st ev \<longleftrightarrow>
     (\<forall>m k n t p. ev = MoleculeStepCompleted m k n \<and> map_of (molecules st) m = Some t \<and>
        last_step t = Some p \<longrightarrow> p \<le> k)"

definition ok_total :: "scheduler_state \<Rightarrow> event \<Rightarrow> bool" where
  "ok_total st ev \<longleftrightarrow>
     (\<forall>m k n. ev = MoleculeStepCompleted m k n \<longrightarrow> k < n \<and>
        (\<forall>t p. map_of (molecules st) m = Some t \<and> trace_total t = Some p \<longrightarrow> p = n))"

definition ok_killed :: "scheduler_state \<Rightarrow> event \<Rightarrow> bool" where
  "ok_killed st ev \<longleftrightarrow> (\<forall>w. ev = WorkerKilled w \<longrightarrow> w \<in> fst ` set (workers st))"

definition ok_merge :: "scheduler_state \<Rightarrow> event \<Rightarrow> bool" where
  "ok_merge st ev \<longleftrightarrow>
     (\<forall>m b r. ev = MergeCompleted m b r \<longrightarrow> map_of (pending_merges st) m = Some b)"

lemmas ok_defs = ok_exists_def ok_transition_def ok_terminal_def ok_monotone_def ok_total_def
  ok_killed_def ok_merge_def

interpretation inv_exists: trace_invariant molecule_exists_before_use ok_exists
  "''molecule_exists_before_use''"
  by unfold_locales
    (auto simp: molecule_exists_before_use_def ok_defs violate_def map_of_eq_None_iff split: option.splits if_splits)

interpretation inv_transition: trace_invariant status_transition_legal ok_transition
  "''status_transition_legal''"
  by unfold_locales
    (auto simp: status_transition_legal_def ok_defs violate_def
      split: event.splits option.splits sum.splits if_splits)

interpretation inv_terminal: trace_invariant no_events_after_terminal ok_terminal
  "''no_events_after_terminal''"
  by unfold_locales
    (auto simp: no_events_after_terminal_def ok_defs violate_def split: option.splits if_splits)

interpretation inv_monotone: trace_invariant step_monotone ok_monotone "''step_monotone''"
  by unfold_locales
    (auto simp: step_monotone_def ok_defs violate_def split: event.splits option.splits if_splits)

interpretation inv_total: trace_invariant step_within_total ok_total "''step_within_total''"
  by unfold_locales
    (auto simp: step_within_total_def ok_defs violate_def split: event.splits option.splits if_splits)

interpretation inv_killed: trace_invariant worker_spawned_before_killed ok_killed
  "''worker_spawned_before_killed''"
  by unfold_locales
    (auto simp: worker_spawned_before_killed_def ok_defs violate_def map_of_eq_None_iff
      split: event.splits if_splits)

interpretation inv_merge: trace_invariant merge_completion_pairs_dispatch ok_merge
  "''merge_completion_pairs_dispatch''"
  by unfold_locales
    (auto simp: merge_completion_pairs_dispatch_def ok_defs violate_def
      split: event.splits option.splits if_splits)

section \<open>Legal traces\<close>

definition legal :: "scheduler_state \<Rightarrow> event \<Rightarrow> bool" where
  "legal st ev \<longleftrightarrow>
     ok_exists st ev \<and> ok_transition st ev \<and> ok_terminal st ev \<and> ok_monotone st ev \<and>
     ok_total st ev \<and> ok_killed st ev \<and> ok_merge st ev"

definition after :: "scheduler_state \<Rightarrow> event \<Rightarrow> scheduler_state" where
  "after st ev = apply_event ev (st\<lparr>events_seen := events_seen st + 1\<rparr>)"

fun legal_trace :: "scheduler_state \<Rightarrow> event list \<Rightarrow> bool" where
  "legal_trace st [] = True"
| "legal_trace st (ev # evs) = (legal st ev \<and> legal_trace (after st ev) evs)"

definition state_after :: "scheduler_state \<Rightarrow> event list \<Rightarrow> scheduler_state" where
  "state_after st evs = foldl after st evs"

text \<open>The events the lines hold, the blank and the unreadable lines left out.\<close>

fun line_events :: "(string \<Rightarrow> 'e + envelope) \<Rightarrow> string list \<Rightarrow> event list" where
  "line_events from_line [] = []"
| "line_events from_line (raw # ls) =
     (if trim raw = [] then line_events from_line ls
      else case from_line (trim raw) of
             Err _ \<Rightarrow> line_events from_line ls
           | Ok env \<Rightarrow> event env # line_events from_line ls)"

definition trace_events :: "(string \<Rightarrow> 'e + envelope) \<Rightarrow> string \<Rightarrow> event list" where
  "trace_events from_line trace = line_events from_line (str_lines trace)"

lemma unit_result_cases: "r = Ok () \<or> (\<exists>e. r = Err e)"
  by (cases r) auto

lemma check_all_Ok_iff: "check_all cs st env line = Ok () \<longleftrightarrow> (\<forall>c\<in>set cs. c st env line = Ok ())"
  by (induction cs) auto

lemma check_baseline_Ok_iff:
  "check_all baseline_invariants st env line = Ok () \<longleftrightarrow> legal st (event env)"
  by (simp add: check_all_Ok_iff baseline_invariants_def legal_def inv_exists.check_Ok_iff
      inv_transition.check_Ok_iff inv_terminal.check_Ok_iff inv_monotone.check_Ok_iff
      inv_total.check_Ok_iff inv_killed.check_Ok_iff inv_merge.check_Ok_iff)

lemma legal_trace_append:
  "legal_trace st (xs @ ys) \<longleftrightarrow> legal_trace st xs \<and> legal_trace (state_after st xs) ys"
  by (induction xs arbitrary: st) (auto simp: state_after_def)

lemma replay_exact:
  "case replay from_line baseline_invariants skip idx ls st r sk of
     Err (_, e) \<Rightarrow> \<not> skip \<and> (\<exists>raw\<in>set ls. from_line (trim raw) = Err e)
   | Ok (Certified n k _) \<Rightarrow>
       legal_trace st (line_events from_line ls) \<and> n = r + length (line_events from_line ls) \<and>
       k = molecule_count (state_after st (line_events from_line ls))
   | Ok (Violated n v) \<Rightarrow>
       \<exists>xs ev ys. line_events from_line ls = xs @ ev # ys \<and> n = r + length xs \<and>
         legal_trace st xs \<and> \<not> legal (state_after st xs) ev"
proof (induction ls arbitrary: idx st r sk)
  case Nil
  show ?case by (simp add: state_after_def)
next
  case (Cons raw ls)
  show ?case
  proof (cases "trim raw = []")
    case True
    then show ?thesis using Cons[of st r "idx + 1" sk] by (auto split: sum.splits validation_outcome.splits)
  next
    case nonblank: False
    show ?thesis
    proof (cases "from_line (trim raw)")
      case (Inl e)
      then show ?thesis
        using nonblank Cons[of st r "idx + 1" "sk + 1"]
        by (auto split: sum.splits validation_outcome.splits; blast)
    next
      case (Inr env)
      show ?thesis
      proof (cases "legal st (event env)")
        case True
        then have ok: "check_all baseline_invariants st env (idx + 1) = Ok ()"
          by (simp only: check_baseline_Ok_iff)
        have ap: "apply_env st env = after st (event env)" by (simp add: apply_env_def after_def)
        show ?thesis
          using nonblank Inr True ok ap Cons[of "after st (event env)" "r + 1" "idx + 1" sk]
          by (auto split: sum.splits validation_outcome.splits simp: state_after_def)
            (metis append_Cons foldl_Cons legal_trace.simps(2) length_Cons add_Suc_right)+
      next
        case False
        then obtain v where "check_all baseline_invariants st env (idx + 1) = Err v"
          using check_baseline_Ok_iff unit_result_cases by metis
        then show ?thesis
          using nonblank Inr False
          by (auto simp: state_after_def intro!: exI[of _ "[]"])
      qed
    qed
  qed
qed

section \<open>What a legal trace guarantees\<close>

lemma map_of_or_insert: "map_of (or_insert k v al) = (\<lambda>x. if x = k \<and> map_of al k = None then Some v else map_of al x)"
  by (auto simp: or_insert_def map_add_def fun_eq_iff split: option.splits)

lemma molecules_update_mol:
  "map_of (molecules (update_mol m f st)) = (map_of (molecules st))(m := map_option f (map_of (molecules st) m))"
  by (auto simp: update_mol_def update_conv' fun_eq_iff split: option.splits)

lemma map_of_insert_children:
  "map_of (insert_children cs al) x =
     (case map_of al x of Some t \<Rightarrow> Some t | None \<Rightarrow> if x \<in> set cs then Some (fresh_trace []) else None)"
  by (induction cs al rule: insert_children.induct) (auto simp: map_of_or_insert split: option.splits)

text \<open>The effect of an event on the record of one molecule.\<close>

fun trace_effect :: "event \<Rightarrow> string \<Rightarrow> molecule_trace option \<Rightarrow> molecule_trace option" where
  "trace_effect (MoleculeNucleated m f) x t =
     (if x = m \<and> t = None then Some (fresh_trace f) else t)"
| "trace_effect (MoleculeStatusChanged m from to) x t =
     (case status_from_str to of
        Ok s \<Rightarrow> if x = m then map_option (\<lambda>t. t\<lparr>trace_status := s\<rparr>) t else t
      | Err _ \<Rightarrow> t)"
| "trace_effect (MoleculeStepCompleted m k n) x t =
     (if x = m then map_option (\<lambda>t. t\<lparr>last_step := Some k, trace_total := Some n\<rparr>) t else t)"
| "trace_effect (MoleculeCompleted m) x t =
     (if x = m then map_option (\<lambda>t. t\<lparr>trace_status := Completed\<rparr>) t else t)"
| "trace_effect (MoleculeCollapsed m) x t =
     (if x = m then map_option (\<lambda>t. t\<lparr>trace_status := Collapsed\<rparr>) t else t)"
| "trace_effect (DecaySpliced p cs) x t =
     (if x \<in> set cs \<and> t = None then Some (fresh_trace []) else t)"
| "trace_effect _ x t = t"

lemma molecules_after: "map_of (molecules (after st ev)) x = trace_effect ev x (map_of (molecules st) x)"
  by (cases ev)
    (auto simp: after_def map_of_or_insert molecules_update_mol map_of_insert_children
      split: option.splits sum.splits)

lemma map_of_Some_key: "x \<in> fst ` set al \<longleftrightarrow> map_of al x \<noteq> None"
  by (simp add: map_of_eq_None_iff)

lemma legal_keeps_terminal:
  assumes "legal st ev" and "status_of st m = Some s" and "is_terminal s"
  shows "status_of (after st ev) m = Some s"
  using assms
  by (cases ev) (auto simp: status_of_def molecules_after legal_def ok_terminal_def split: sum.splits)

lemma legal_keeps_steps:
  assumes "legal st ev" and "map_of (molecules st) m = Some t"
    and "last_step t = Some p" and "trace_total t = Some n"
  shows "\<exists>t' p'. map_of (molecules (after st ev)) m = Some t' \<and> last_step t' = Some p' \<and> p \<le> p' \<and>
    trace_total t' = Some n"
  using assms
  by (cases ev) (auto simp: molecules_after legal_def ok_monotone_def ok_total_def split: sum.splits)

definition creates :: "event \<Rightarrow> string \<Rightarrow> bool" where
  "creates ev m \<longleftrightarrow>
     (\<exists>f. ev = MoleculeNucleated m f) \<or> (\<exists>p cs. ev = DecaySpliced p cs \<and> m \<in> set cs)"

lemma known_after:
  "map_of (molecules (after st ev)) m \<noteq> None \<longleftrightarrow> map_of (molecules st) m \<noteq> None \<or> creates ev m"
  by (cases ev) (auto simp: molecules_after creates_def split: sum.splits)

lemma known_state_after:
  "map_of (molecules (state_after st evs)) m \<noteq> None \<longleftrightarrow>
     map_of (molecules st) m \<noteq> None \<or> (\<exists>ev\<in>set evs. creates ev m)"
proof (induction evs arbitrary: st)
  case (Cons ev evs)
  then show ?case using known_after[of st ev m] by (auto simp: state_after_def)
qed (simp add: state_after_def)

lemma terminal_state_after:
  assumes "legal_trace st evs" and "status_of st m = Some s" and "is_terminal s"
  shows "status_of (state_after st evs) m = Some s"
  using assms
  by (induction evs arbitrary: st) (auto simp: state_after_def legal_keeps_terminal)

lemma steps_state_after:
  assumes "legal_trace st evs" and "map_of (molecules st) m = Some t"
    and "last_step t = Some p" and "trace_total t = Some n"
  shows "\<exists>t' p'. map_of (molecules (state_after st evs)) m = Some t' \<and> last_step t' = Some p' \<and>
    p \<le> p' \<and> trace_total t' = Some n"
  using assms
proof (induction evs arbitrary: st t p)
  case (Cons ev evs)
  then obtain t' p' where "map_of (molecules (after st ev)) m = Some t'" "last_step t' = Some p'"
    "p \<le> p'" "trace_total t' = Some n"
    using legal_keeps_steps[of st ev m t p n] by auto
  with Cons.IH[of "after st ev" t' p'] Cons.prems(1) show ?case
    by (auto simp: state_after_def)
qed (simp add: state_after_def)

lemma legal_trace_splitD:
  assumes "legal_trace st (xs @ a # ys @ b # zs)"
  shows "legal_trace st xs" and "legal (state_after st xs) a"
    and "legal_trace (after (state_after st xs) a) ys"
    and "legal (state_after (after (state_after st xs) a) ys) b"
  using assms by (simp_all add: legal_trace_append)

lemma certified_legal:
  assumes "validate_str from_line baseline_invariants skip trace = Ok (Certified n k sk)"
  shows "legal_trace new_scheduler_state (trace_events from_line trace)"
  using assms replay_exact[where from_line = from_line and skip = skip and idx = 0 and ls = "str_lines trace"
      and st = new_scheduler_state and r = 0 and sk = 0]
  by (simp add: validate_str_def trace_events_def)

lemma legal_terminal_pair:
  assumes "legal st (MoleculeStatusChanged m from (as_str s))" and "is_terminal s"
    and "lifecycle_kind ev = Some (m, k)"
  shows "\<not> legal (after st (MoleculeStatusChanged m from (as_str s))) ev"
proof -
  have "map_of (molecules st) m \<noteq> None"
    using assms(1) by (simp add: legal_def ok_exists_def map_of_Some_key)
  then have "status_of (after st (MoleculeStatusChanged m from (as_str s))) m = Some s"
    by (auto simp: status_of_def molecules_after status_text.parse_print)
  with assms(2,3) show ?thesis by (auto simp: legal_def ok_terminal_def)
qed

section \<open>Properties\<close>

text \<open>A small trace of one molecule, one letter per event, for the witnesses.\<close>

fun sample_event :: "char \<Rightarrow> event" where
  "sample_event c =
     (if c = CHR ''n'' then MoleculeNucleated ''m'' ''f''
      else if c = CHR ''r'' then MoleculeStatusChanged ''m'' ''pending'' ''running''
      else if c = CHR ''a'' then MoleculeStepCompleted ''m'' 0 2
      else if c = CHR ''b'' then MoleculeStepCompleted ''m'' 1 2
      else if c = CHR ''c'' then MoleculeCompleted ''m''
      else if c = CHR ''t'' then MoleculeStatusChanged ''m'' ''running'' ''completed''
      else OtherEvent)"

definition sample_line :: "string \<Rightarrow> string + envelope" where
  "sample_line s = Ok \<lparr>seq = 0, event = sample_event (hd s)\<rparr>"

definition sample_trace :: "string \<Rightarrow> string" where
  "sample_trace cs = concat (map (\<lambda>c. [c, char_of (10::nat)]) cs)"

lemma sample_trace_events:
  "trace_events sample_line (sample_trace ''nrabcx'') =
     [MoleculeNucleated ''m'' ''f'', MoleculeStatusChanged ''m'' ''pending'' ''running'',
      MoleculeStepCompleted ''m'' 0 2, MoleculeStepCompleted ''m'' 1 2, MoleculeCompleted ''m'',
      OtherEvent]"
  by code_simp

lemma sample_trace_certified:
  "validate_str sample_line baseline_invariants True (sample_trace ''nrabcx'') = Ok (Certified 6 1 0)"
  by code_simp


text \<open>
  In a certified trace a terminal verdict is final: after a completion or a collapse of a
  molecule no status change, no step and no second verdict of that molecule follows.
\<close>

theorem certified_terminal_is_final:
  assumes "validate_str from_line baseline_invariants skip trace = Ok (Certified n k sk)"
    and "trace_events from_line trace = xs @ a # ys @ b # zs"
    and "a = MoleculeCompleted m \<or> a = MoleculeCollapsed m"
  shows "lifecycle_kind b \<noteq> Some (m, kind)"
proof
  assume b: "lifecycle_kind b = Some (m, kind)"
  note L = legal_trace_splitD[OF certified_legal[OF assms(1), unfolded assms(2)]]
  let ?st = "state_after new_scheduler_state xs"
  have "map_of (molecules ?st) m \<noteq> None"
    using L(2) assms(3) by (auto simp: legal_def ok_exists_def map_of_Some_key)
  then obtain s where "status_of (after ?st a) m = Some s" "is_terminal s"
    using assms(3) by (auto simp: status_of_def molecules_after status_simps)
  then have "status_of (state_after (after ?st a) ys) m = Some s" "is_terminal s"
    using terminal_state_after[OF L(3)] by blast+
  with L(4) b show False by (auto simp: legal_def ok_terminal_def)
qed

theorem certified_terminal_is_final_witness:
  "\<exists>xs ys b zs. trace_events sample_line (sample_trace ''nrabcx'') = xs @ MoleculeCompleted ''m'' # ys @ b # zs \<and>
     lifecycle_kind b \<noteq> Some (''m'', ''molecule_completed'')"
proof -
  have e: "trace_events sample_line (sample_trace ''nrabcx'') =
      (let xs = [MoleculeNucleated ''m'' ''f'', MoleculeStatusChanged ''m'' ''pending'' ''running'',
        MoleculeStepCompleted ''m'' 0 2, MoleculeStepCompleted ''m'' 1 2]
       in xs @ MoleculeCompleted ''m'' # [] @ OtherEvent # [])"
    by (simp add: sample_trace_events)
  show ?thesis
    using certified_terminal_is_final[OF sample_trace_certified e[unfolded Let_def]] e[unfolded Let_def]
    by blast
qed

text \<open>
  In a certified trace the steps of a molecule are consistent: every step is below its total,
  and of two step events of one molecule the later has the same total and no smaller step.
\<close>

theorem certified_steps_consistent:
  assumes "validate_str from_line baseline_invariants skip trace = Ok (Certified n k sk)"
    and "trace_events from_line trace =
      xs @ MoleculeStepCompleted m i t # ys @ MoleculeStepCompleted m j u # zs"
  shows "i \<le> j \<and> t = u \<and> j < u"
proof -
  note L = legal_trace_splitD[OF certified_legal[OF assms(1), unfolded assms(2)]]
  let ?st = "state_after new_scheduler_state xs"
  have "map_of (molecules ?st) m \<noteq> None"
    using L(2) by (simp add: legal_def ok_exists_def map_of_Some_key)
  then obtain r where "map_of (molecules (after ?st (MoleculeStepCompleted m i t))) m = Some r"
    "last_step r = Some i" "trace_total r = Some t"
    by (auto simp: molecules_after)
  from steps_state_after[OF L(3) this] L(4) show ?thesis
    by (fastforce simp: legal_def ok_monotone_def ok_total_def)
qed

theorem certified_steps_consistent_witness:
  "\<exists>xs ys zs. trace_events sample_line (sample_trace ''nrabcx'') =
     xs @ MoleculeStepCompleted ''m'' 0 2 # ys @ MoleculeStepCompleted ''m'' 1 2 # zs \<and> (0::nat) \<le> 1 \<and> (1::nat) < 2"
proof -
  have "trace_events sample_line (sample_trace ''nrabcx'') =
      [MoleculeNucleated ''m'' ''f'', MoleculeStatusChanged ''m'' ''pending'' ''running''] @
      MoleculeStepCompleted ''m'' 0 2 # [] @ MoleculeStepCompleted ''m'' 1 2 # [MoleculeCompleted ''m'', OtherEvent]"
    by (simp add: sample_trace_events)
  with certified_steps_consistent[OF sample_trace_certified this] show ?thesis by blast
qed

text \<open>
  In a certified trace every molecule is created before it is used: an event that names a
  molecule is preceded by its nucleation, or by the splice that lists it as a child.
\<close>

theorem certified_molecules_created:
  assumes "validate_str from_line baseline_invariants skip trace = Ok (Certified n k sk)"
    and "trace_events from_line trace = xs @ ev # ys" and "referenced ev = Some m"
  shows "\<exists>e\<in>set xs. creates e m"
proof -
  have "legal (state_after new_scheduler_state xs) ev"
    using certified_legal[OF assms(1)] by (simp add: assms(2) legal_trace_append)
  then have "map_of (molecules (state_after new_scheduler_state xs)) m \<noteq> None"
    using assms(3) by (simp add: legal_def ok_exists_def map_of_Some_key)
  then show ?thesis by (simp add: known_state_after new_scheduler_state_def del: not_None_eq)
qed

theorem certified_molecules_created_witness:
  "\<exists>xs ev ys. trace_events sample_line (sample_trace ''nrabcx'') = xs @ ev # ys \<and>
     referenced ev = Some ''m'' \<and> (\<exists>e\<in>set xs. creates e ''m'')"
proof -
  have "trace_events sample_line (sample_trace ''nrabcx'') =
      [MoleculeNucleated ''m'' ''f''] @ MoleculeStatusChanged ''m'' ''pending'' ''running'' #
      [MoleculeStepCompleted ''m'' 0 2, MoleculeStepCompleted ''m'' 1 2, MoleculeCompleted ''m'', OtherEvent]"
    by (simp add: sample_trace_events)
  with certified_molecules_created[OF sample_trace_certified this] show ?thesis
    by (metis referenced.simps(1))
qed

text \<open>
  C37. The validator refuses the records the program itself writes when it closes a molecule: the
  status change to a terminal status makes the verdict record that follows it illegal, so no
  trace with such a pair of records is certified.
\<close>

theorem validator_rejects_closing_records:
  assumes "trace_events from_line trace = xs @ announce_collapse m prev stuck @ ys \<or>
           trace_events from_line trace = xs @ announce_complete m prev @ ys"
  shows "validate_str from_line baseline_invariants skip trace \<noteq> Ok (Certified n k sk)"
proof
  assume "validate_str from_line baseline_invariants skip trace = Ok (Certified n k sk)"
  note L = certified_legal[OF this]
  have "\<not> legal_trace st (announce_collapse m prev stuck @ ys)"
    "\<not> legal_trace st (announce_complete m prev @ ys)" for st
    using legal_terminal_pair[of st m _ Collapsed "MoleculeCollapsed m"]
      legal_terminal_pair[of st m _ Completed "MoleculeCompleted m"]
    by (auto simp: announce_collapse_def announce_complete_def status_simps)
  with L assms show False by (auto simp: legal_trace_append)
qed

theorem validator_rejects_closing_records_witness:
  "trace_events sample_line (sample_trace ''nrtc'') =
     [MoleculeNucleated ''m'' ''f'', MoleculeStatusChanged ''m'' ''pending'' ''running''] @
     announce_complete ''m'' Running @ [] \<and>
   validate_str sample_line baseline_invariants True (sample_trace ''nrtc'') \<noteq> Ok (Certified 4 1 0)"
proof -
  have "trace_events sample_line (sample_trace ''nrtc'') =
     [MoleculeNucleated ''m'' ''f'', MoleculeStatusChanged ''m'' ''pending'' ''running''] @
     announce_complete ''m'' Running @ []"
    by code_simp
  with validator_rejects_closing_records[OF disjI2[OF this]] show ?thesis by blast
qed

text \<open>
  A kill of a worker that no spawn announced is a violation even in a trace without any
  other worker event.
\<close>

theorem unknown_worker_kill_always_rejected:
  "\<exists>v. check_all baseline_invariants new_scheduler_state \<lparr>seq = 0, event = WorkerKilled w\<rparr> line = Err v \<and>
       invariant_id v = ''worker_spawned_before_killed''"
  by (simp add: baseline_invariants_def molecule_exists_before_use_def status_transition_legal_def
      no_events_after_terminal_def step_monotone_def step_within_total_def
      worker_spawned_before_killed_def new_scheduler_state_def violate_def)

end
