(* ===== verification/CollapseContract.thy ===== *)
theory CollapseContract
  imports Molecule
begin

text \<open>
  The pure half of the conditional collapse, \<open>cosmon-core/src/collapse_contract.rs\<close>:
  idempotency keys, revisions and digests as tokens, the caller's conditions, the intent a
  request commits to, receipts and key records, the decision table and the receipt lookup.
  BLAKE3 in hexadecimal, the canonical serialization of an intent and the rendering of a
  deadline come from other packages; they are the three functions of the record
  \<open>digest_port\<close>.
\<close>

section \<open>Tokens\<close>

text \<open>\<open>s.chars().take(n)\<close> on UTF-8 bytes: a character is a byte with the continuation bytes after it.\<close>

fun take_chars :: "nat \<Rightarrow> string \<Rightarrow> string" where
  "take_chars 0 s = []"
| "take_chars (Suc n) [] = []"
| "take_chars (Suc n) (c # cs) =
     c # takeWhile is_continuation cs @ take_chars n (dropWhile is_continuation cs)"

definition ascii_lower :: "char \<Rightarrow> char" where
  "ascii_lower c = (let b = of_char c :: nat in if 65 \<le> b \<and> b \<le> 90 then char_of (b + 32) else c)"

definition REQUEST_DIGEST_DOMAIN :: string where
  "REQUEST_DIGEST_DOMAIN = ''cosmon.collapse-request.v1'' @ [char_of (0::nat)]"

definition KEY_FILE_DOMAIN :: string where
  "KEY_FILE_DOMAIN = ''cosmon.collapse-key.v1'' @ [char_of (0::nat)]"

definition RECEIPT_SCHEMA :: string where
  "RECEIPT_SCHEMA = ''cosmon.collapse-receipt.v1''"

definition B3_PREFIX :: string where
  "B3_PREFIX = ''b3:''"

datatype contract_error =
  InvalidKey string
| InvalidRevision string
| InvalidDigest string
| InvalidExpectedStatus string
| RevisionError string

fun contract_error_to_string :: "contract_error \<Rightarrow> string" where
  "contract_error_to_string (InvalidKey k) =
     ''invalid idempotency key `'' @ k @ ''`: expected [A-Za-z0-9_-]{16,128}''"
| "contract_error_to_string (InvalidRevision r) =
     ''invalid revision `'' @ r @ ''`: expected b3:<64 hex chars>''"
| "contract_error_to_string (InvalidDigest g) =
     ''invalid digest `'' @ g @ ''`: expected b3:<64 hex chars>''"
| "contract_error_to_string (InvalidExpectedStatus s) =
     ''invalid expected status `'' @ s @ ''`: expected one of pending, queued, running, frozen, starved''"
| "contract_error_to_string (RevisionError e) = ''cannot compute revision: '' @ e"

type_synonym idempotency_key = string
type_synonym molecule_revision = string
type_synonym request_digest = string

definition KEY_MIN_LEN :: nat where
  "KEY_MIN_LEN = 16"

definition KEY_MAX_LEN :: nat where
  "KEY_MAX_LEN = 128"

definition parse_key :: "string \<Rightarrow> contract_error + idempotency_key" where
  "parse_key raw =
     (let len_ok = KEY_MIN_LEN \<le> length raw \<and> length raw \<le> KEY_MAX_LEN;
          charset_ok = list_all (\<lambda>b. is_ascii_alphanumeric b \<or> b = CHR ''_'' \<or> b = CHR ''-'') raw
      in if len_ok \<and> charset_ok then Ok raw else Err (InvalidKey (take_chars 140 raw)))"

definition parse_b3 :: "string \<Rightarrow> string option" where
  "parse_b3 raw =
     (case strip_prefix B3_PREFIX raw of
        None \<Rightarrow> None
      | Some hex \<Rightarrow>
          if length hex = 64 \<and> list_all is_ascii_hexdigit hex
          then Some (B3_PREFIX @ map ascii_lower hex) else None)"

definition parse_revision :: "string \<Rightarrow> contract_error + molecule_revision" where
  "parse_revision raw =
     (case parse_b3 raw of Some r \<Rightarrow> Ok r | None \<Rightarrow> Err (InvalidRevision (take_chars 80 raw)))"

definition parse_digest :: "string \<Rightarrow> contract_error + request_digest" where
  "parse_digest raw =
     (case parse_b3 raw of Some r \<Rightarrow> Ok r | None \<Rightarrow> Err (InvalidDigest (take_chars 80 raw)))"

section \<open>Conditions and intents\<close>

datatype collapsible_status = CPending | CQueued | CRunning | CFrozen | CStarved

fun collapsible :: "collapsible_status \<Rightarrow> molecule_status" where
  "collapsible CPending = Pending"
| "collapsible CQueued = Queued"
| "collapsible CRunning = Running"
| "collapsible CFrozen = Frozen"
| "collapsible CStarved = Starved"

fun collapsible_as_str :: "collapsible_status \<Rightarrow> string" where
  "collapsible_as_str CPending = ''pending''"
| "collapsible_as_str CQueued = ''queued''"
| "collapsible_as_str CRunning = ''running''"
| "collapsible_as_str CFrozen = ''frozen''"
| "collapsible_as_str CStarved = ''starved''"

definition collapsible_from_str :: "string \<Rightarrow> contract_error + collapsible_status" where
  "collapsible_from_str s =
     (if s = ''pending'' then Ok CPending
      else if s = ''queued'' then Ok CQueued
      else if s = ''running'' \<or> s = ''active'' then Ok CRunning
      else if s = ''frozen'' then Ok CFrozen
      else if s = ''starved'' then Ok CStarved
      else Err (InvalidExpectedStatus s))"

datatype caller_context = LocalCaller "string option" | RemoteCaller string

fun actor :: "caller_context \<Rightarrow> string option" where
  "actor (LocalCaller session) = session"
| "actor (RemoteCaller subject) = Some (''jwt:'' @ subject)"

record collapse_condition =
  cond_key :: idempotency_key
  expect_status :: collapsible_status
  expect_revision :: molecule_revision
  approval_digest :: "string option"
  not_after :: "datetime option"

record collapse_intent =
  in_target :: string
  in_reason :: string
  in_cause :: "string option"
  in_account :: "string option"
  in_kind :: "string option"
  in_reason_kind :: "string option"
  in_expected_status :: string
  in_expected_revision :: string
  in_actor :: "string option"
  in_approval_digest :: "string option"
  in_not_after :: "string option"

record digest_port =
  blake3_hex :: "string \<Rightarrow> string"
  canonical_intent :: "collapse_intent \<Rightarrow> string + string"
  render_not_after :: "datetime \<Rightarrow> string"

definition file_stem :: "digest_port \<Rightarrow> idempotency_key \<Rightarrow> string" where
  "file_stem dp k = blake3_hex dp (KEY_FILE_DOMAIN @ k)"

definition intent_digest :: "digest_port \<Rightarrow> collapse_intent \<Rightarrow> contract_error + request_digest" where
  "intent_digest dp i =
     and_then (map_err RevisionError (canonical_intent dp i)) (\<lambda>body.
     Ok (B3_PREFIX @ blake3_hex dp (REQUEST_DIGEST_DOMAIN @ body)))"

section \<open>Receipts and key records\<close>

record receipt =
  rc_schema :: string
  rc_key :: idempotency_key
  rc_digest :: request_digest
  rc_molecule :: string
  rc_previous_status :: molecule_status
  rc_previous_revision :: molecule_revision
  rc_committed_at :: datetime

datatype key_phase = Reserved | Committed

record key_record =
  kr_schema :: string
  kr_key :: idempotency_key
  kr_molecule :: string
  kr_digest :: request_digest
  kr_phase :: key_phase
  kr_receipt :: "receipt option"

definition reserved_record :: "idempotency_key \<Rightarrow> string \<Rightarrow> request_digest \<Rightarrow> key_record" where
  "reserved_record k i g =
     \<lparr>kr_schema = RECEIPT_SCHEMA, kr_key = k, kr_molecule = i, kr_digest = g,
      kr_phase = Reserved, kr_receipt = None\<rparr>"

definition committed_record :: "key_record \<Rightarrow> receipt \<Rightarrow> key_record" where
  "committed_record r c = r\<lparr>kr_phase := Committed, kr_receipt := Some c\<rparr>"

text \<open>The classification of a collapse, \<open>event_v2.rs\<close>.\<close>

datatype collapse_kind =
  WorkerCrashed | GateFailed | BlockerStuck | ManualAbort | ResourceExhausted | AgentLoopFailed
| OtherReason string

fun reason_as_str :: "collapse_kind \<Rightarrow> string" where
  "reason_as_str WorkerCrashed = ''worker_crashed''"
| "reason_as_str GateFailed = ''gate_failed''"
| "reason_as_str BlockerStuck = ''blocker_stuck''"
| "reason_as_str ManualAbort = ''manual_abort''"
| "reason_as_str ResourceExhausted = ''resource_exhausted''"
| "reason_as_str AgentLoopFailed = ''agent_loop_failed''"
| "reason_as_str (OtherReason s) = s"

definition reason_of_string :: "string \<Rightarrow> collapse_kind" where
  "reason_of_string s =
     (if s = ''worker_crashed'' then WorkerCrashed
      else if s = ''gate_failed'' then GateFailed
      else if s = ''blocker_stuck'' then BlockerStuck
      else if s = ''manual_abort'' then ManualAbort
      else if s = ''resource_exhausted'' then ResourceExhausted
      else if s = ''agent_loop_failed'' then AgentLoopFailed
      else OtherReason s)"

section \<open>Outcomes and the decision\<close>

datatype outcome_kind =
  OIdempotencyKeyReused
| OReplayed
| OUnleasedPilotGesture
| OAlreadyCompleted
| OAlreadyCollapsed
| OApprovalExpired
| OUnexpectedStatus
| OStaleRevision
| OTransitioned

fun outcome_as_str :: "outcome_kind \<Rightarrow> string" where
  "outcome_as_str OIdempotencyKeyReused = ''idempotency_key_reused''"
| "outcome_as_str OReplayed = ''replayed''"
| "outcome_as_str OUnleasedPilotGesture = ''unleased_pilot_gesture''"
| "outcome_as_str OAlreadyCompleted = ''already_completed''"
| "outcome_as_str OAlreadyCollapsed = ''already_collapsed''"
| "outcome_as_str OApprovalExpired = ''approval_expired''"
| "outcome_as_str OUnexpectedStatus = ''unexpected_status''"
| "outcome_as_str OStaleRevision = ''stale_revision''"
| "outcome_as_str OTransitioned = ''transitioned''"

fun outcome_http_status :: "outcome_kind \<Rightarrow> nat" where
  "outcome_http_status OIdempotencyKeyReused = 422"
| "outcome_http_status OReplayed = 200"
| "outcome_http_status OUnleasedPilotGesture = 403"
| "outcome_http_status OAlreadyCompleted = 409"
| "outcome_http_status OAlreadyCollapsed = 409"
| "outcome_http_status OUnexpectedStatus = 409"
| "outcome_http_status OApprovalExpired = 412"
| "outcome_http_status OStaleRevision = 412"
| "outcome_http_status OTransitioned = 201"

definition outcome_is_success :: "outcome_kind \<Rightarrow> bool" where
  "outcome_is_success k \<longleftrightarrow> k = OReplayed \<or> k = OTransitioned"

datatype collapse_refusal =
  KeyReused string
| UnleasedPilotGesture string
| AlreadyCompleted
| AlreadyCollapsed "idempotency_key option"
| ApprovalExpired datetime
| UnexpectedStatus molecule_status
| StaleRevision molecule_revision

fun refusal_kind :: "collapse_refusal \<Rightarrow> outcome_kind" where
  "refusal_kind (KeyReused _) = OIdempotencyKeyReused"
| "refusal_kind (UnleasedPilotGesture _) = OUnleasedPilotGesture"
| "refusal_kind AlreadyCompleted = OAlreadyCompleted"
| "refusal_kind (AlreadyCollapsed _) = OAlreadyCollapsed"
| "refusal_kind (ApprovalExpired _) = OApprovalExpired"
| "refusal_kind (UnexpectedStatus _) = OUnexpectedStatus"
| "refusal_kind (StaleRevision _) = OStaleRevision"

datatype collapse_decision =
  Refuse collapse_refusal
| Replay receipt bool
| Admit bool

record decision_input =
  di_target :: string
  di_condition :: collapse_condition
  di_digest :: request_digest
  di_key_record :: "key_record option"
  di_status :: molecule_status
  di_revision :: molecule_revision
  di_state_receipt :: "receipt option"
  di_lease_refusal :: "string option"
  di_now :: datetime

text \<open>\<open>Option::filter\<close> on the key, and the first of several early returns.\<close>

definition receipt_for :: "idempotency_key \<Rightarrow> receipt option \<Rightarrow> receipt option" where
  "receipt_for k r = (case r of Some c \<Rightarrow> if rc_key c = k then Some c else None | None \<Rightarrow> None)"

fun first_some :: "'a option list \<Rightarrow> 'a option" where
  "first_some [] = None"
| "first_some (Some x # xs) = Some x"
| "first_some (None # xs) = first_some xs"

definition key_reused :: "decision_input \<Rightarrow> string option" where
  "key_reused d = first_some
     [case di_key_record d of
        Some r \<Rightarrow>
          if kr_molecule r \<noteq> di_target d \<or> kr_digest r \<noteq> di_digest d then Some (kr_molecule r) else None
      | None \<Rightarrow> None,
      case receipt_for (cond_key (di_condition d)) (di_state_receipt d) of
        Some c \<Rightarrow> if rc_digest c \<noteq> di_digest d then Some (rc_molecule c) else None
      | None \<Rightarrow> None]"

definition replay_of :: "decision_input \<Rightarrow> (receipt \<times> bool) option" where
  "replay_of d = first_some
     [case receipt_for (cond_key (di_condition d)) (di_state_receipt d) of
        Some c \<Rightarrow> Some (c, case di_key_record d of None \<Rightarrow> True | Some r \<Rightarrow> kr_phase r \<noteq> Committed)
      | None \<Rightarrow> None,
      case di_key_record d of
        Some r \<Rightarrow>
          (case (kr_phase r, kr_receipt r) of (Committed, Some c) \<Rightarrow> Some (c, False) | _ \<Rightarrow> None)
      | None \<Rightarrow> None]"

definition preconditions :: "decision_input \<Rightarrow> collapse_refusal option" where
  "preconditions d = first_some
     [map_option UnleasedPilotGesture (di_lease_refusal d),
      if di_status d = Completed then Some AlreadyCompleted else None,
      if di_status d = Collapsed then Some (AlreadyCollapsed (map_option rc_key (di_state_receipt d))) else None,
      case not_after (di_condition d) of
        Some t \<Rightarrow> if di_now d > t then Some (ApprovalExpired t) else None
      | None \<Rightarrow> None,
      if di_status d \<noteq> collapsible (expect_status (di_condition d))
      then Some (UnexpectedStatus (di_status d)) else None,
      if di_revision d \<noteq> expect_revision (di_condition d)
      then Some (StaleRevision (di_revision d)) else None]"

definition decide :: "decision_input \<Rightarrow> collapse_decision" where
  "decide d =
     (case key_reused d of
        Some m \<Rightarrow> Refuse (KeyReused m)
      | None \<Rightarrow>
          (case replay_of d of
             Some (c, finalize) \<Rightarrow> Replay c finalize
           | None \<Rightarrow>
               (case preconditions d of
                  Some r \<Rightarrow> Refuse r
                | None \<Rightarrow> Admit (di_key_record d = None))))"

section \<open>Lookup\<close>

datatype receipt_lookup =
  LCommitted receipt
| LReservedNotApplied request_digest
| LInconsistent string
| LBoundElsewhere
| LUnknown

fun lookup_as_str :: "receipt_lookup \<Rightarrow> string" where
  "lookup_as_str (LCommitted _) = ''committed''"
| "lookup_as_str (LReservedNotApplied _) = ''reserved_not_applied''"
| "lookup_as_str (LInconsistent _) = ''inconsistent''"
| "lookup_as_str LBoundElsewhere = ''idempotency_key_reused''"
| "lookup_as_str LUnknown = ''unknown''"

definition classify_lookup ::
  "string \<Rightarrow> idempotency_key \<Rightarrow> key_record option \<Rightarrow> molecule_status \<Rightarrow> receipt option \<Rightarrow> receipt_lookup" where
  "classify_lookup target k rec st state_receipt =
     (if (case rec of Some r \<Rightarrow> kr_molecule r \<noteq> target | None \<Rightarrow> False) then LBoundElsewhere
      else
        (case (rec, receipt_for k state_receipt) of
           (None, None) \<Rightarrow> LUnknown
         | (rec, Some c) \<Rightarrow>
             if st \<noteq> Collapsed
             then LInconsistent (''state carries the receipt but its status is '' @ as_str st)
             else
               (case rec of
                  Some r \<Rightarrow>
                    if kr_digest r \<noteq> rc_digest c
                    then LInconsistent ''key record and state receipt name different digests''
                    else if kr_receipt r \<noteq> None \<and> kr_receipt r \<noteq> Some c
                    then LInconsistent ''key record and state carry different receipts''
                    else LCommitted c
                | None \<Rightarrow> LCommitted c)
         | (Some r, None) \<Rightarrow>
             (case kr_phase r of
                Reserved \<Rightarrow> LReservedNotApplied (kr_digest r)
              | Committed \<Rightarrow>
                  LInconsistent (''key record is committed but the state of '' @ target @
                    '' does not carry its receipt (status '' @ as_str st @ '')''))))"

section \<open>What the tokens and the table guarantee\<close>

lemma parse_key_Ok_iff:
  "parse_key raw = Ok k \<longleftrightarrow> k = raw \<and> 16 \<le> length raw \<and> length raw \<le> 128 \<and>
     (\<forall>c\<in>set raw. is_ascii_alphanumeric c \<or> c = CHR ''_'' \<or> c = CHR ''-'')"
  by (auto simp: parse_key_def Let_def KEY_MIN_LEN_def KEY_MAX_LEN_def list_all_iff)

lemma of_char_ascii_lower:
  "is_ascii_hexdigit c \<Longrightarrow>
     (of_char (ascii_lower c) :: nat) = (if 65 \<le> (of_char c :: nat) \<and> (of_char c :: nat) \<le> 70 then of_char c + 32 else of_char c)"
  by (auto simp: ascii_lower_def is_ascii_hexdigit_def Let_def)

lemma hex_lower:
  "is_ascii_hexdigit c \<Longrightarrow> is_ascii_hexdigit (ascii_lower c)"
  "is_ascii_hexdigit c \<Longrightarrow> ascii_lower (ascii_lower c) = ascii_lower c"
  using of_char_ascii_lower[of c] by (auto simp: is_ascii_hexdigit_def ascii_lower_def Let_def)

lemma parse_b3_idem: "parse_b3 raw = Some t \<Longrightarrow> parse_b3 t = Some t"
  by (auto simp: parse_b3_def strip_prefix_def list_all_iff hex_lower split: option.splits if_splits)

lemma decide_Admit_iff:
  "decide d = Admit b \<longleftrightarrow> b = (di_key_record d = None) \<and> key_reused d = None \<and> replay_of d = None \<and>
     di_lease_refusal d = None \<and> di_status d = collapsible (expect_status (di_condition d)) \<and>
     di_revision d = expect_revision (di_condition d) \<and>
     (\<forall>t. not_after (di_condition d) = Some t \<longrightarrow> di_now d \<le> t)"
proof -
  have live: "collapsible x \<noteq> Completed" "collapsible x \<noteq> Collapsed" for x by (cases x; simp)+
  have "preconditions d = None \<longleftrightarrow> di_lease_refusal d = None \<and>
      di_status d = collapsible (expect_status (di_condition d)) \<and> di_revision d = expect_revision (di_condition d) \<and>
      (\<forall>t. not_after (di_condition d) = Some t \<longrightarrow> di_now d \<le> t)"
    by (cases "di_lease_refusal d"; cases "not_after (di_condition d)") (auto simp: preconditions_def live)
  then show ?thesis by (auto simp: decide_def split: option.splits)
qed

lemma replay_of_Some_iff:
  "replay_of d = Some (c, b) \<longleftrightarrow>
     (di_state_receipt d = Some c \<and> rc_key c = cond_key (di_condition d) \<and>
        b = (case di_key_record d of None \<Rightarrow> True | Some r \<Rightarrow> kr_phase r \<noteq> Committed)) \<or>
     (receipt_for (cond_key (di_condition d)) (di_state_receipt d) = None \<and> \<not> b \<and>
        (\<exists>r. di_key_record d = Some r \<and> kr_phase r = Committed \<and> kr_receipt r = Some c))"
  by (auto simp: replay_of_def receipt_for_def split: option.splits key_phase.splits if_splits)

lemma decide_Replay_iff:
  "decide d = Replay c b \<longleftrightarrow> key_reused d = None \<and> replay_of d = Some (c, b)"
  by (auto simp: decide_def split: option.splits)

lemma decide_KeyReused_iff:
  "(\<exists>m. decide d = Refuse (KeyReused m)) \<longleftrightarrow> key_reused d \<noteq> None"
proof -
  have "preconditions d \<noteq> Some (KeyReused m)" for m
    by (cases "di_lease_refusal d"; cases "not_after (di_condition d)") (auto simp: preconditions_def)
  then show ?thesis by (auto simp: decide_def split: option.splits)
qed

lemma key_reused_None_iff:
  "key_reused d = None \<longleftrightarrow>
     (\<forall>r. di_key_record d = Some r \<longrightarrow> kr_molecule r = di_target d \<and> kr_digest r = di_digest d) \<and>
     (\<forall>c. di_state_receipt d = Some c \<and> rc_key c = cond_key (di_condition d) \<longrightarrow> rc_digest c = di_digest d)"
  by (auto simp: key_reused_def receipt_for_def split: option.splits if_splits)

end
