(* ===== verification/Store.thy ===== *)
theory Store
  imports Verify CollapseContract Worker "HOL-Library.List_Lexorder" "HOL-Library.Char_ord"
begin

text \<open>
  The molecule store and the verbs that work on it: the record \<open>MoleculeData\<close> and its links
  (\<open>cosmon-state/src/lib.rs\<close>, \<open>cosmon-core/src/interaction.rs\<close>), the JSON-file store
  (\<open>cosmon-filestore/src/lib.rs\<close>), the verbs freeze, thaw and stuck
  (\<open>cosmon-state/src/ops\<close>) and the frontier projection (\<open>cosmon-state/src/frontier.rs\<close>).

  A molecule record keeps the fields that this code reads or writes; the type parameter
  \<open>'x\<close> holds all others, which it copies.  A state file is what reading and parsing it gives:
  a record, or the error text.  The disk lists the fleet directories in the order
  \<open>read_dir\<close> gives them; a molecule directory may have no state file yet.  An I/O error of
  taking the lock or of writing is the field \<open>io_fault\<close>.  The trait object
  \<open>&dyn StateStore\<close> is the record \<open>store_port\<close> of the two functions the verbs call.  The
  events a verb emits are a result; the authorization audit, a separate file, is left out.
\<close>

section \<open>Molecule records\<close>

datatype molecule_link =
  DecayedFrom string
| DecayProduct string
| MergedFrom "string list"
| MergedInto string
| TransformedFrom string
| Blocks string
| BlockedBy string
| Refines string
| RefinedBy string
| Refutes string
| RefutedBy string
| Entangled string
| CrossGalaxyBlocks string
| CrossGalaxyBlockedBy string

fun blocked_by_source :: "molecule_link \<Rightarrow> string option" where
  "blocked_by_source (BlockedBy p) = Some p"
| "blocked_by_source _ = None"

text \<open>
  The inline process record; transport, terminal identity and launch identity, which no modelled
  code looks into, are texts.
\<close>

record molecule_process =
  mp_worker_id :: string
  mp_tmux_session :: string
  mp_started_at :: datetime
  mp_pid :: "(32 word) option"
  mp_pid_start_time :: "(64 word) option"
  mp_adapter_name :: "string option"
  mp_model :: "string option"
  mp_transport :: "string option"
  mp_status :: worker_status
  mp_terminal :: "string option"
  mp_worker_launch :: "string option"
  mp_worktree_path :: "string option"

record 'x molecule_data =
  md_id :: string
  fleet_id :: string
  md_status :: molecule_status
  assigned_worker :: "string option"
  md_current_step :: nat
  md_total_steps :: nat
  md_process :: "molecule_process option"
  session_name :: "string option"
  md_updated_at :: datetime
  typed_links :: "molecule_link list"
  merged_at :: "datetime option"
  stuck_at :: "datetime option"
  md_collapse_reason :: "string option"
  md_collapse_cause :: "collapse_cause option"
  collapse_reason_kind :: "collapse_kind option"
  collapsed_step :: "nat option"
  collapse_receipt :: "receipt option"
  md_rest :: 'x

definition blocked_by :: "'x molecule_data \<Rightarrow> string list" where
  "blocked_by m = List.map_filter blocked_by_source (typed_links m)"

text \<open>Every other variant of \<open>CosmonError\<close> is its displayed text.\<close>

datatype cosmon_error = MoleculeNotFound string | StoreFailure string

section \<open>The file store\<close>

type_synonym 'x state_file = "string + 'x molecule_data"

datatype location = FleetDir string | LegacyDir

record 'x disk =
  fleet_entries :: "(string \<times> (string \<times> 'x state_file option) list) list"
  legacy_entries :: "(string \<times> 'x state_file option) list"
  io_fault :: "string option"

definition fleet_entry :: "'x disk \<Rightarrow> string \<Rightarrow> string \<Rightarrow> 'x state_file option option" where
  "fleet_entry d f i =
     (case map_of (fleet_entries d) f of None \<Rightarrow> None | Some ms \<Rightarrow> map_of ms i)"

definition molecule_dir :: "'x disk \<Rightarrow> string \<Rightarrow> location" where
  "molecule_dir d i =
     (case find (\<lambda>(f, ms). map_of ms i \<noteq> None) (fleet_entries d) of
        Some (f, ms) \<Rightarrow> FleetDir f
      | None \<Rightarrow> if map_of (legacy_entries d) i \<noteq> None then LegacyDir else FleetDir ''default'')"

fun state_json :: "'x disk \<Rightarrow> location \<Rightarrow> string \<Rightarrow> 'x state_file option" where
  "state_json d (FleetDir f) i = (case fleet_entry d f i of None \<Rightarrow> None | Some s \<Rightarrow> s)"
| "state_json d LegacyDir i = (case map_of (legacy_entries d) i of None \<Rightarrow> None | Some s \<Rightarrow> s)"

definition load_molecule :: "'x disk \<Rightarrow> string \<Rightarrow> cosmon_error + 'x molecule_data" where
  "load_molecule d i =
     (case state_json d (molecule_dir d i) i of
        None \<Rightarrow> Err (MoleculeNotFound i)
      | Some (Inl e) \<Rightarrow> Err (StoreFailure e)
      | Some (Inr m) \<Rightarrow> Ok m)"

text \<open>\<open>create_dir_all\<close> and the atomic rename.\<close>

definition write_file :: "'x disk \<Rightarrow> string \<Rightarrow> string \<Rightarrow> 'x molecule_data \<Rightarrow> 'x disk" where
  "write_file d f i m =
     d\<lparr>fleet_entries := AList.update f
         (AList.update i (Some (Ok m)) (case map_of (fleet_entries d) f of None \<Rightarrow> [] | Some ms \<Rightarrow> ms))
         (fleet_entries d)\<rparr>"

definition leaves_collapsed :: "'x molecule_data \<Rightarrow> 'x molecule_data \<Rightarrow> bool" where
  "leaves_collapsed current m \<longleftrightarrow>
     md_status current = Collapsed \<and>
     (md_status m \<noteq> Collapsed \<or> collapse_receipt m \<noteq> collapse_receipt current)"

definition write_molecule_checked ::
  "('x molecule_data \<Rightarrow> 'r) \<Rightarrow> 'x disk \<Rightarrow> string \<Rightarrow> 'x molecule_data \<Rightarrow> 'r option
     \<Rightarrow> cosmon_error + 'x disk" where
  "write_molecule_checked revision d i m expected =
     (case io_fault d of
        Some e \<Rightarrow> Err (StoreFailure e)
      | None \<Rightarrow>
          (case state_json d (molecule_dir d i) i of
             Some (Inl e) \<Rightarrow> Err (StoreFailure e)
           | Some (Inr current) \<Rightarrow>
               if leaves_collapsed current m
               then Err (StoreFailure (''molecule '' @ i @
                      '' is collapsed; cannot leave Collapsed or replace its receipt''))
               else if expected \<noteq> None \<and> expected \<noteq> Some (revision current)
               then Err (StoreFailure (''molecule '' @ i @ '' changed before conditional save''))
               else Ok (write_file d (fleet_id m) i m)
           | None \<Rightarrow>
               if expected = None then Ok (write_file d (fleet_id m) i m)
               else Err (StoreFailure ''entity not found'')))"

definition save_molecule :: "'x disk \<Rightarrow> string \<Rightarrow> 'x molecule_data \<Rightarrow> cosmon_error + 'x disk" where
  "save_molecule d i m = write_molecule_checked (\<lambda>_. ()) d i m None"

definition save_molecule_if_revision ::
  "('x molecule_data \<Rightarrow> 'r) \<Rightarrow> 'x disk \<Rightarrow> string \<Rightarrow> 'x molecule_data \<Rightarrow> 'r \<Rightarrow> cosmon_error + 'x disk" where
  "save_molecule_if_revision revision d i m expected =
     write_molecule_checked revision d i m (Some expected)"

text \<open>Listing; the filter is the predicate \<open>matches_filter\<close> computes.\<close>

record unreadable_molecule =
  u_id :: string
  u_path :: string
  u_reason :: string

record 'x molecule_listing =
  ml_molecules :: "'x molecule_data list"
  ml_unreadable :: "unreadable_molecule list"

fun state_path :: "location \<Rightarrow> string \<Rightarrow> string" where
  "state_path (FleetDir f) i = ''fleets/'' @ f @ ''/molecules/'' @ i @ ''/state.json''"
| "state_path LegacyDir i = ''ops/molecules/'' @ i @ ''/state.json''"

fun scan_molecules_dir ::
  "('x molecule_data \<Rightarrow> bool) \<Rightarrow> location \<Rightarrow> (string \<times> 'x state_file option) list
     \<Rightarrow> 'x molecule_listing \<Rightarrow> 'x molecule_listing" where
  "scan_molecules_dir keep loc [] ls = ls"
| "scan_molecules_dir keep loc ((i, f) # es) ls =
     scan_molecules_dir keep loc es
       (case f of
          None \<Rightarrow> ls
        | Some (Inr m) \<Rightarrow> if keep m then ls\<lparr>ml_molecules := ml_molecules ls @ [m]\<rparr> else ls
        | Some (Inl e) \<Rightarrow> ls\<lparr>ml_unreadable := ml_unreadable ls @
            [\<lparr>u_id = i, u_path = state_path loc i, u_reason = e\<rparr>]\<rparr>)"

definition list_molecules_report :: "('x molecule_data \<Rightarrow> bool) \<Rightarrow> 'x disk \<Rightarrow> 'x molecule_listing" where
  "list_molecules_report keep d =
     (let ls1 = fold (\<lambda>(f, es). scan_molecules_dir keep (FleetDir f) es) (fleet_entries d)
                  \<lparr>ml_molecules = [], ml_unreadable = []\<rparr>;
          ls2 = scan_molecules_dir keep LegacyDir (legacy_entries d) ls1
      in \<lparr>ml_molecules = sort_key md_id (ml_molecules ls2),
          ml_unreadable = sort_key u_path (ml_unreadable ls2)\<rparr>)"

section \<open>The frontier projection\<close>

definition FRONTIER_SCHEMA_VERSION :: nat where
  "FRONTIER_SCHEMA_VERSION = 1"

record frontier =
  fr_version :: nat
  computed_at :: datetime
  fr_ready :: "string list"

text \<open>The id-indexed hash map: of two records with one id the later stays.\<close>

definition by_id :: "'x molecule_data list \<Rightarrow> string \<Rightarrow> 'x molecule_data option" where
  "by_id ms = map_of (rev (map (\<lambda>m. (md_id m, m)) ms))"

definition predecessor_cleared :: "'x molecule_data list \<Rightarrow> string \<Rightarrow> bool" where
  "predecessor_cleared ms p =
     (case by_id ms p of
        None \<Rightarrow> False
      | Some m \<Rightarrow> if satisfies_blocked_by (md_status m) then merged_at m \<noteq> None else False)"

definition decayed_parent_cleared ::
  "'x molecule_data list \<Rightarrow> unreadable_molecule list \<Rightarrow> string \<Rightarrow> bool" where
  "decayed_parent_cleared ms us p =
     (if list_ex (\<lambda>u. u_id u = p) us then False
      else case by_id ms p of
             None \<Rightarrow> True
           | Some parent \<Rightarrow>
               (case md_status parent of
                  Collapsed \<Rightarrow> True
                | Frozen \<Rightarrow> stuck_at parent = None
                | Completed \<Rightarrow> merged_at parent \<noteq> None
                | _ \<Rightarrow> False))"

fun link_cleared ::
  "'x molecule_data list \<Rightarrow> unreadable_molecule list \<Rightarrow> molecule_link \<Rightarrow> bool" where
  "link_cleared ms us (DecayedFrom p) = decayed_parent_cleared ms us p"
| "link_cleared ms us _ = True"

definition compute_from_molecules_with_unreadable ::
  "'x molecule_data list \<Rightarrow> unreadable_molecule list \<Rightarrow> string list" where
  "compute_from_molecules_with_unreadable ms us =
     sort (map md_id
       (filter (\<lambda>m. list_all (link_cleared ms us) (typed_links m))
         (filter (\<lambda>m. list_all (predecessor_cleared ms) (blocked_by m))
           (filter (\<lambda>m. assigned_worker m = None)
             (filter (\<lambda>m. md_status m = Pending) ms)))))"

definition compute_from_molecules :: "'x molecule_data list \<Rightarrow> string list" where
  "compute_from_molecules ms = compute_from_molecules_with_unreadable ms []"

definition compute :: "datetime \<Rightarrow> 'x disk \<Rightarrow> frontier" where
  "compute now d =
     (let ls = list_molecules_report (\<lambda>_. True) d
      in \<lparr>fr_version = FRONTIER_SCHEMA_VERSION, computed_at = now,
          fr_ready = compute_from_molecules_with_unreadable (ml_molecules ls) (ml_unreadable ls)\<rparr>)"

section \<open>The verbs\<close>

record ('d, 'x) store_port =
  sp_load :: "'d \<Rightarrow> string \<Rightarrow> cosmon_error + 'x molecule_data"
  sp_save :: "'d \<Rightarrow> string \<Rightarrow> 'x molecule_data \<Rightarrow> cosmon_error + 'd"

definition file_store :: "('x disk, 'x) store_port" where
  "file_store = \<lparr>sp_load = load_molecule, sp_save = save_molecule\<rparr>"

datatype freeze_error =
  FreezeNotFound string | FreezeTerminal string molecule_status | FreezeUnavailable string

fun freeze_from_cosmon :: "string \<Rightarrow> cosmon_error \<Rightarrow> freeze_error" where
  "freeze_from_cosmon i (MoleculeNotFound _) = FreezeNotFound i"
| "freeze_from_cosmon i (StoreFailure e) = FreezeUnavailable e"

record freeze_view =
  fv_id :: string
  fv_previous_status :: molecule_status
  fv_already_frozen :: bool

definition freeze_op ::
  "('d, 'x) store_port \<Rightarrow> datetime \<Rightarrow> string \<Rightarrow> string option \<Rightarrow> 'd
     \<Rightarrow> (freeze_error + freeze_view) \<times> 'd \<times> event list" where
  "freeze_op st now i why d =
     (case sp_load st d i of
        Inl e \<Rightarrow> (Err (freeze_from_cosmon i e), d, [])
      | Inr mol \<Rightarrow>
          (let prev_status = md_status mol
           in if prev_status = Frozen
              then (Ok \<lparr>fv_id = i, fv_previous_status = prev_status, fv_already_frozen = True\<rparr>, d, [])
              else if prev_status = Completed \<or> prev_status = Collapsed
              then (Err (FreezeTerminal i prev_status), d, [])
              else
                (let updated = mol\<lparr>md_status := Frozen, md_updated_at := now\<rparr>
                 in case sp_save st d (md_id updated) updated of
                      Inl e \<Rightarrow> (Err (freeze_from_cosmon i e), d, [])
                    | Inr d' \<Rightarrow>
                        (Ok \<lparr>fv_id = i, fv_previous_status = prev_status, fv_already_frozen = False\<rparr>, d',
                         MoleculeStatusChanged i (as_str prev_status) ''frozen'' #
                         (case why of None \<Rightarrow> [] | Some r \<Rightarrow> [MoleculeStuck i])))))"

datatype thaw_error =
  ThawNotFound string | ThawInvalidStatus string molecule_status | ThawUnavailable string

fun thaw_from_cosmon :: "string \<Rightarrow> cosmon_error \<Rightarrow> thaw_error" where
  "thaw_from_cosmon i (MoleculeNotFound _) = ThawNotFound i"
| "thaw_from_cosmon i (StoreFailure e) = ThawUnavailable e"

record thaw_view =
  tv_id :: string
  tv_previous_status :: molecule_status
  tv_already_thawed :: bool

definition thaw_op ::
  "('d, 'x) store_port \<Rightarrow> datetime \<Rightarrow> string \<Rightarrow> 'd \<Rightarrow> (thaw_error + thaw_view) \<times> 'd \<times> event list" where
  "thaw_op st now i d =
     (case sp_load st d i of
        Inl e \<Rightarrow> (Err (thaw_from_cosmon i e), d, [])
      | Inr mol \<Rightarrow>
          (let prev_status = md_status mol
           in if prev_status = Running
              then (Ok \<lparr>tv_id = i, tv_previous_status = prev_status, tv_already_thawed = True\<rparr>, d, [])
              else if prev_status \<noteq> Frozen then (Err (ThawInvalidStatus i prev_status), d, [])
              else
                (let updated = mol\<lparr>md_status := Running, md_updated_at := now, stuck_at := None\<rparr>
                 in case sp_save st d (md_id updated) updated of
                      Inl e \<Rightarrow> (Err (thaw_from_cosmon i e), d, [])
                    | Inr d' \<Rightarrow>
                        (Ok \<lparr>tv_id = i, tv_previous_status = prev_status, tv_already_thawed = False\<rparr>, d',
                         [MoleculeStatusChanged i (as_str prev_status) ''running'']))))"

datatype stuck_error =
  StuckNotFound string | StuckEmptyReason | StuckTerminal string molecule_status
| StuckUnavailable string

fun stuck_from_cosmon :: "string \<Rightarrow> cosmon_error \<Rightarrow> stuck_error" where
  "stuck_from_cosmon i (MoleculeNotFound _) = StuckNotFound i"
| "stuck_from_cosmon i (StoreFailure e) = StuckUnavailable e"

record stuck_view =
  sv_id :: string
  sv_previous_status :: molecule_status
  sv_reason :: string
  sv_already_frozen :: bool

definition stuck_op ::
  "('d, 'x) store_port \<Rightarrow> datetime \<Rightarrow> string \<Rightarrow> string \<Rightarrow> 'd
     \<Rightarrow> (stuck_error + stuck_view) \<times> 'd \<times> event list" where
  "stuck_op st now i why d =
     (if is_blank why then (Err StuckEmptyReason, d, [])
      else
        (case sp_load st d i of
           Inl e \<Rightarrow> (Err (stuck_from_cosmon i e), d, [])
         | Inr mol \<Rightarrow>
             (let prev_status = md_status mol
              in if prev_status = Completed \<or> prev_status = Collapsed
                 then (Err (StuckTerminal i prev_status), d, [])
                 else
                   (let already_frozen = (prev_status = Frozen);
                        updated = mol\<lparr>md_status := Frozen, md_updated_at := now, stuck_at := Some now\<rparr>
                    in case sp_save st d (md_id updated) updated of
                         Inl e \<Rightarrow> (Err (stuck_from_cosmon i e), d, [])
                       | Inr d' \<Rightarrow>
                           (Ok \<lparr>sv_id = i, sv_previous_status = prev_status, sv_reason = why,
                              sv_already_frozen = already_frozen\<rparr>, d',
                            (if already_frozen then []
                             else [MoleculeStatusChanged i (as_str prev_status) ''frozen'']) @
                            [MoleculeStuck i])))))"

section \<open>The contract of a store\<close>

text \<open>
  What the verbs rely on: a record is stored under its own id, a save that keeps the fleet is
  read back and leaves every other molecule alone, and a collapsed molecule is never reopened
  nor its receipt replaced.  \<open>wf\<close> is the provider's consistency condition.
\<close>

locale state_store =
  fixes st :: "('d, 'x) store_port"
    and wf :: "'d \<Rightarrow> bool"
  assumes load_id: "wf d \<Longrightarrow> sp_load st d i = Ok m \<Longrightarrow> md_id m = i"
    and save_wf: "wf d \<Longrightarrow> sp_load st d i = Ok c \<Longrightarrow> md_id m = i \<Longrightarrow> fleet_id m = fleet_id c \<Longrightarrow>
      sp_save st d i m = Ok d' \<Longrightarrow> wf d'"
    and load_save: "wf d \<Longrightarrow> sp_load st d i = Ok c \<Longrightarrow> md_id m = i \<Longrightarrow> fleet_id m = fleet_id c \<Longrightarrow>
      sp_save st d i m = Ok d' \<Longrightarrow> sp_load st d' j = (if j = i then Ok m else sp_load st d j)"
    and save_sticky: "wf d \<Longrightarrow> sp_load st d i = Ok c \<Longrightarrow> sp_save st d i m = Ok d' \<Longrightarrow>
      \<not> leaves_collapsed c m"
begin

text \<open>Each verb, on a molecule it can read, either fails and changes nothing or is one update.\<close>

lemma freeze_Ok:
  assumes "wf d" and "sp_load st d i = Ok c" and "freeze_op st now i why d = (Ok v, d', evs)"
  shows "wf d' \<and> md_status c \<notin> {Completed, Collapsed} \<and>
    sp_load st d' j = (if j = i \<and> md_status c \<noteq> Frozen
      then Ok (c\<lparr>md_status := Frozen, md_updated_at := now\<rparr>) else sp_load st d j) \<and>
    v = \<lparr>fv_id = i, fv_previous_status = md_status c, fv_already_frozen = (md_status c = Frozen)\<rparr> \<and>
    evs = (if md_status c = Frozen then []
           else MoleculeStatusChanged i (as_str (md_status c)) ''frozen'' #
             (case why of None \<Rightarrow> [] | Some r \<Rightarrow> [MoleculeStuck i]))"
proof -
  let ?u = "c\<lparr>md_status := Frozen, md_updated_at := now\<rparr>"
  have i: "md_id c = i" using load_id assms(1,2) by blast
  show ?thesis
    using assms i save_wf[OF assms(1,2), of ?u] load_save[OF assms(1,2), of ?u]
    by (auto simp: freeze_op_def Let_def split: if_splits sum.splits)
qed

lemma thaw_Ok:
  assumes "wf d" and "sp_load st d i = Ok c" and "thaw_op st now i d = (Ok v, d', evs)"
  shows "wf d' \<and> md_status c \<in> {Frozen, Running} \<and>
    sp_load st d' j = (if j = i \<and> md_status c = Frozen
      then Ok (c\<lparr>md_status := Running, md_updated_at := now, stuck_at := None\<rparr>) else sp_load st d j) \<and>
    v = \<lparr>tv_id = i, tv_previous_status = md_status c, tv_already_thawed = (md_status c = Running)\<rparr> \<and>
    evs = (if md_status c = Running then [] else [MoleculeStatusChanged i ''frozen'' ''running''])"
proof -
  let ?u = "c\<lparr>md_status := Running, md_updated_at := now, stuck_at := None\<rparr>"
  have i: "md_id c = i" using load_id assms(1,2) by blast
  show ?thesis
    using assms i save_wf[OF assms(1,2), of ?u] load_save[OF assms(1,2), of ?u]
    by (auto simp: thaw_op_def Let_def split: if_splits sum.splits)
qed

lemma stuck_Ok:
  assumes "wf d" and "sp_load st d i = Ok c" and "stuck_op st now i why d = (Ok v, d', evs)"
  shows "wf d' \<and> md_status c \<notin> {Completed, Collapsed} \<and> \<not> is_blank why \<and>
    sp_load st d' j = (if j = i
      then Ok (c\<lparr>md_status := Frozen, md_updated_at := now, stuck_at := Some now\<rparr>) else sp_load st d j) \<and>
    v = \<lparr>sv_id = i, sv_previous_status = md_status c, sv_reason = why,
         sv_already_frozen = (md_status c = Frozen)\<rparr> \<and>
    evs = (if md_status c = Frozen then []
           else [MoleculeStatusChanged i (as_str (md_status c)) ''frozen'']) @ [MoleculeStuck i]"
proof -
  let ?u = "c\<lparr>md_status := Frozen, md_updated_at := now, stuck_at := Some now\<rparr>"
  have i: "md_id c = i" using load_id assms(1,2) by blast
  show ?thesis
    using assms i save_wf[OF assms(1,2), of ?u] load_save[OF assms(1,2), of ?u]
    by (auto simp: stuck_op_def Let_def split: if_splits sum.splits)
qed

lemma verb_Err:
  "freeze_op st now i why d = (Err e, d', evs) \<Longrightarrow> d' = d \<and> evs = []"
  "thaw_op st now i d = (Err e', d', evs) \<Longrightarrow> d' = d \<and> evs = []"
  "stuck_op st now i w d = (Err e'', d', evs) \<Longrightarrow> d' = d \<and> evs = []"
  by (auto simp: freeze_op_def thaw_op_def stuck_op_def Let_def split: if_splits sum.splits)

lemma verb_Ok_load:
  "freeze_op st now i why d = (Ok v, d', evs) \<Longrightarrow> \<exists>c. sp_load st d i = Ok c"
  "thaw_op st now i d = (Ok v', d', evs) \<Longrightarrow> \<exists>c. sp_load st d i = Ok c"
  "stuck_op st now i w d = (Ok v'', d', evs) \<Longrightarrow> \<exists>c. sp_load st d i = Ok c"
  by (auto simp: freeze_op_def thaw_op_def stuck_op_def split: if_splits sum.splits)

text \<open>No verb touches another molecule, and none a collapsed one.\<close>

lemma verb_frame:
  assumes "wf d"
    and "freeze_op st now i why d = (r1, d', evs) \<or> thaw_op st now i d = (r2, d', evs) \<or>
      stuck_op st now i w d = (r3, d', evs)"
  shows "wf d'"
    and "j \<noteq> i \<Longrightarrow> sp_load st d' j = sp_load st d j"
    and "sp_load st d j = Ok c \<Longrightarrow> md_status c = Collapsed \<Longrightarrow> sp_load st d' j = Ok c"
proof -
  have "wf d' \<and> (j \<noteq> i \<longrightarrow> sp_load st d' j = sp_load st d j) \<and>
    (\<forall>c. sp_load st d j = Ok c \<and> md_status c = Collapsed \<longrightarrow> sp_load st d' j = Ok c)"
    using assms(2)
  proof (elim disjE)
    assume a: "freeze_op st now i why d = (r1, d', evs)"
    show ?thesis
    proof (cases r1)
      case (Inr v)
      then obtain c where "sp_load st d i = Ok c" using a verb_Ok_load(1) by blast
      with freeze_Ok[OF assms(1) this, of now why v d' evs j] a Inr show ?thesis by auto
    qed (use a verb_Err(1) assms(1) in blast)
  next
    assume a: "thaw_op st now i d = (r2, d', evs)"
    show ?thesis
    proof (cases r2)
      case (Inr v)
      then obtain c where "sp_load st d i = Ok c" using a verb_Ok_load(2) by blast
      with thaw_Ok[OF assms(1) this, of now v d' evs j] a Inr show ?thesis by auto
    qed (use a verb_Err(2) assms(1) in blast)
  next
    assume a: "stuck_op st now i w d = (r3, d', evs)"
    show ?thesis
    proof (cases r3)
      case (Inr v)
      then obtain c where "sp_load st d i = Ok c" using a verb_Ok_load(3) by blast
      with stuck_Ok[OF assms(1) this, of now w v d' evs j] a Inr show ?thesis by auto
    qed (use a verb_Err(3) assms(1) in blast)
  qed
  then show "wf d'" "j \<noteq> i \<Longrightarrow> sp_load st d' j = sp_load st d j"
    "sp_load st d j = Ok c \<Longrightarrow> md_status c = Collapsed \<Longrightarrow> sp_load st d' j = Ok c" by blast+
qed

lemma verb_load_Err:
  "sp_load st d i = Err e \<Longrightarrow> freeze_op st now i why d = (Err (freeze_from_cosmon i e), d, [])"
  "sp_load st d i = Err e \<Longrightarrow> thaw_op st now i d = (Err (thaw_from_cosmon i e), d, [])"
  by (simp_all add: freeze_op_def thaw_op_def)

end

section \<open>The file store keeps the contract\<close>

text \<open>
  Consistency of the disk: one directory per fleet, a molecule in at most one fleet, a record
  stored under its fleet and its id.  A legacy copy may stand beside the one of the fleet.
\<close>

definition disk_wf :: "'x disk \<Rightarrow> bool" where
  "disk_wf d \<longleftrightarrow>
     distinct (map fst (fleet_entries d)) \<and>
     (\<forall>f i c. fleet_entry d f i = Some (Some (Ok c)) \<longrightarrow> fleet_id c = f \<and> md_id c = i) \<and>
     (\<forall>f g i. fleet_entry d f i \<noteq> None \<and> fleet_entry d g i \<noteq> None \<longrightarrow> f = g) \<and>
     (\<forall>i c. map_of (legacy_entries d) i = Some (Some (Ok c)) \<longrightarrow> md_id c = i)"

lemma disk_wfD:
  assumes "disk_wf d"
  shows "distinct (map fst (fleet_entries d))"
    and "fleet_entry d f i = Some (Some (Ok c)) \<Longrightarrow> fleet_id c = f \<and> md_id c = i"
    and "fleet_entry d f i = Some s \<Longrightarrow> fleet_entry d g i = Some s' \<Longrightarrow> f = g"
    and "map_of (legacy_entries d) i = Some (Some (Ok c)) \<Longrightarrow> md_id c = i"
  using assms unfolding disk_wf_def by (blast, blast, metis option.distinct(1), blast)

lemma disk_wfI:
  assumes "distinct (map fst (fleet_entries d))"
    and "\<And>f i c. fleet_entry d f i = Some (Some (Ok c)) \<Longrightarrow> fleet_id c = f \<and> md_id c = i"
    and "\<And>f g i s s'. fleet_entry d f i = Some s \<Longrightarrow> fleet_entry d g i = Some s' \<Longrightarrow> f = g"
    and "\<And>i c. map_of (legacy_entries d) i = Some (Some (Ok c)) \<Longrightarrow> md_id c = i"
  shows "disk_wf d"
  using assms unfolding disk_wf_def not_None_eq by blast

lemma fleet_entry_write [simp]:
  "fleet_entry (write_file d f i m) g j =
     (if g = f \<and> j = i then Some (Some (Ok m)) else fleet_entry d g j)"
  by (auto simp: fleet_entry_def write_file_def update_conv' split: option.splits)

lemma write_file_more [simp]:
  "legacy_entries (write_file d f i m) = legacy_entries d"
  "io_fault (write_file d f i m) = io_fault d"
  by (simp_all add: write_file_def)

lemma find_fleet:
  assumes "distinct (map fst (fleet_entries d))"
  shows "find (\<lambda>(f, ms). map_of ms i \<noteq> None) (fleet_entries d) = Some (f, ms) \<Longrightarrow> fleet_entry d f i \<noteq> None"
    and "find (\<lambda>(f, ms). map_of ms i \<noteq> None) (fleet_entries d) = None \<Longrightarrow> fleet_entry d f i = None"
proof -
  assume "find (\<lambda>(f, ms). map_of ms i \<noteq> None) (fleet_entries d) = Some (f, ms)"
  from find_SomeE[OF this] show "fleet_entry d f i \<noteq> None"
    using assms by (auto simp: fleet_entry_def)
next
  assume "find (\<lambda>(f, ms). map_of ms i \<noteq> None) (fleet_entries d) = None"
  then show "fleet_entry d f i = None"
    by (auto simp: fleet_entry_def find_None_iff split: option.splits dest!: map_of_SomeD)
qed

lemma molecule_dir_fleet:
  assumes "disk_wf d" and "fleet_entry d f i \<noteq> None"
  shows "molecule_dir d i = FleetDir f"
proof (cases "find (\<lambda>(f, ms). map_of ms i \<noteq> None) (fleet_entries d)")
  case None
  then show ?thesis using find_fleet(2)[OF disk_wfD(1)[OF assms(1)] None, of f] assms(2) by simp
next
  case (Some p)
  obtain g ms where p: "p = (g, ms)" by fastforce
  have "fleet_entry d g i \<noteq> None" using find_fleet(1)[of d i g ms] Some disk_wfD(1)[OF assms(1)] p by simp
  then have "g = f" using assms disk_wfD(3)[OF assms(1)] by blast
  then show ?thesis using Some p by (simp add: molecule_dir_def)
qed

lemma molecule_dir_other:
  assumes "disk_wf d" and "\<And>f. fleet_entry d f i = None"
  shows "molecule_dir d i = (if map_of (legacy_entries d) i \<noteq> None then LegacyDir else FleetDir ''default'')"
proof (cases "find (\<lambda>(f, ms). map_of ms i \<noteq> None) (fleet_entries d)")
  case (Some p)
  obtain g ms where "p = (g, ms)" by fastforce
  then show ?thesis using find_fleet(1)[of d i g ms] Some assms(2) disk_wfD(1)[OF assms(1)] by simp
qed (simp add: molecule_dir_def)

text \<open>Reading is a search: the fleet that has the molecule, else the legacy layout.\<close>

fun read_state :: "string \<Rightarrow> 'x state_file option \<Rightarrow> cosmon_error + 'x molecule_data" where
  "read_state i None = Err (MoleculeNotFound i)"
| "read_state i (Some (Inl e)) = Err (StoreFailure e)"
| "read_state i (Some (Inr m)) = Ok m"

lemma load_fleet: "disk_wf d \<Longrightarrow> fleet_entry d f i = Some s \<Longrightarrow> load_molecule d i = read_state i s"
  using molecule_dir_fleet[of d f i]
  by (auto simp: load_molecule_def split: option.splits sum.splits)

lemma load_legacy:
  "disk_wf d \<Longrightarrow> (\<And>f. fleet_entry d f i = None) \<Longrightarrow>
     load_molecule d i = read_state i (case map_of (legacy_entries d) i of None \<Rightarrow> None | Some s \<Rightarrow> s)"
  using molecule_dir_other[of d i]
  by (auto simp: load_molecule_def split: option.splits sum.splits)

lemma read_state_Ok_iff [simp]: "read_state i s = Ok m \<longleftrightarrow> s = Some (Ok m)"
  by (cases "(i, s)" rule: read_state.cases) auto

lemma read_state_Ok_iff' [simp]: "Ok m = read_state i s \<longleftrightarrow> s = Some (Ok m)"
  by (subst eq_commute) (rule read_state_Ok_iff)

lemma load_Ok_cases:
  assumes "disk_wf d" and "load_molecule d i = Ok m"
  obtains f where "fleet_entry d f i = Some (Some (Ok m))" "fleet_id m = f" "md_id m = i"
  | "\<And>f. fleet_entry d f i = None" "map_of (legacy_entries d) i = Some (Some (Ok m))" "md_id m = i"
proof (cases "\<exists>f. fleet_entry d f i \<noteq> None")
  case True
  then obtain f s where "fleet_entry d f i = Some s" by blast
  moreover from this have "s = Some (Ok m)"
    using load_fleet[OF assms(1), of f i s] assms(2) read_state_Ok_iff[of i s m] by simp
  ultimately show ?thesis using that(1)[of f] disk_wfD(2)[OF assms(1), of f i m] by simp
next
  case False
  then have none: "fleet_entry d f i = None" for f by blast
  then have "map_of (legacy_entries d) i = Some (Some (Ok m))"
    using load_legacy[OF assms(1), of i] assms(2) by (simp split: option.splits)
  then show ?thesis using that(2) none disk_wfD(4)[OF assms(1)] by blast
qed

lemma write_file_wf:
  assumes wf: "disk_wf d" and "md_id m = i"
    and free: "\<And>g. fleet_entry d g i \<noteq> None \<Longrightarrow> g = fleet_id m"
  shows "disk_wf (write_file d (fleet_id m) i m)"
proof -
  let ?d = "write_file d (fleet_id m) i m"
  have uniq: "f = g" if "fleet_entry ?d f j = Some s" "fleet_entry ?d g j = Some s'" for f g j s s'
  proof (cases "j = i")
    case True
    then show ?thesis using that free[of f] free[of g] by (auto split: if_splits)
  next
    case False
    then show ?thesis using that disk_wfD(3)[OF wf, of f j s g s'] by simp
  qed
  have entry: "fleet_id c = f \<and> md_id c = j" if "fleet_entry ?d f j = Some (Some (Ok c))" for f j c
    using that disk_wfD(2)[OF wf, of f j c] assms(2) by (auto split: if_splits)
  show ?thesis
  proof (rule disk_wfI)
    show "distinct (map fst (fleet_entries ?d))"
      using disk_wfD(1)[OF wf] by (simp add: write_file_def distinct_update)
    show "\<And>j c. map_of (legacy_entries ?d) j = Some (Some (Ok c)) \<Longrightarrow> md_id c = j"
      using disk_wfD(4)[OF wf] by simp
  qed (fact entry, fact uniq)
qed

lemma write_file_load:
  assumes wf: "disk_wf d" and "md_id m = i"
    and free: "\<And>g. fleet_entry d g i \<noteq> None \<Longrightarrow> g = fleet_id m"
  shows "load_molecule (write_file d (fleet_id m) i m) j = (if j = i then Ok m else load_molecule d j)"
proof -
  let ?d = "write_file d (fleet_id m) i m"
  note wf' = write_file_wf[OF assms]
  show ?thesis
  proof (cases "j = i")
    case True
    then show ?thesis using load_fleet[OF wf', of "fleet_id m" i "Some (Ok m)"] by simp
  next
    case False
    then have same: "fleet_entry ?d g j = fleet_entry d g j" for g by simp
    show ?thesis
    proof (cases "\<exists>g. fleet_entry d g j \<noteq> None")
      case True
      then obtain g s where "fleet_entry d g j = Some s" by blast
      then show ?thesis using load_fleet[OF wf, of g j s] load_fleet[OF wf', of g j s] same False by simp
    next
      case none: False
      then show ?thesis using load_legacy[OF wf, of j] load_legacy[OF wf', of j] same False by simp
    qed
  qed
qed

lemma write_checked_Ok:
  assumes "write_molecule_checked revision d i m expected = Ok d'"
  shows "d' = write_file d (fleet_id m) i m"
    and "load_molecule d i = Ok c \<Longrightarrow> \<not> leaves_collapsed c m"
    and "expected = Some r \<Longrightarrow> \<exists>c. load_molecule d i = Ok c \<and> revision c = r"
  using assms by (auto simp: write_molecule_checked_def load_molecule_def split: option.splits sum.splits if_splits)

lemma load_Ok_free:
  "disk_wf d \<Longrightarrow> load_molecule d i = Ok c \<Longrightarrow> fleet_entry d g i \<noteq> None \<Longrightarrow> g = fleet_id c"
  using load_Ok_cases[of d i c] disk_wfD(3)[of d] by (metis not_None_eq)

interpretation files: state_store file_store disk_wf
proof unfold_locales
  fix d :: "'a disk" and i m
  assume "disk_wf d" "sp_load file_store d i = Ok m"
  then show "md_id m = i" by (auto simp: file_store_def elim: load_Ok_cases)
next
  fix d d' :: "'a disk" and i c m
  assume a: "disk_wf d" "sp_load file_store d i = Ok c" "md_id m = i" "fleet_id m = fleet_id c"
    "sp_save file_store d i m = Ok d'"
  then have l: "load_molecule d i = Ok c" and s: "write_molecule_checked (\<lambda>_. ()) d i m None = Ok d'"
    by (simp_all add: file_store_def save_molecule_def)
  from s have d': "d' = write_file d (fleet_id m) i m" by (rule write_checked_Ok(1))
  have free: "fleet_entry d g i \<noteq> None \<Longrightarrow> g = fleet_id m" for g
    using load_Ok_free[OF a(1) l] a(4) by simp
  show "disk_wf d'" unfolding d' by (rule write_file_wf[OF a(1,3) free])
  show "sp_load file_store d' j = (if j = i then Ok m else sp_load file_store d j)" for j
    unfolding d' using write_file_load[OF a(1,3) free] by (simp add: file_store_def)
next
  fix d d' :: "'a disk" and i c m
  assume "sp_load file_store d i = Ok c" "sp_save file_store d i m = Ok d'"
  then show "\<not> leaves_collapsed c m"
    using write_checked_Ok(2)[of "\<lambda>_. ()" d i m None d' c] by (simp add: file_store_def save_molecule_def)
qed

lemma save_succeeds:
  assumes "io_fault d = None" and "load_molecule d i = Ok c" and "\<not> leaves_collapsed c m"
  shows "save_molecule d i m = Ok (write_file d (fleet_id m) i m)"
  using assms by (auto simp: save_molecule_def write_molecule_checked_def load_molecule_def
      split: option.splits sum.splits)

section \<open>Histories of the store\<close>

text \<open>
  What happens to a disk: the verbs, updates of a molecule that was read (plain or
  conditional on its revision), the first save of a molecule no fleet has yet, and a change
  of what the operating system answers.
\<close>

inductive store_step :: "'x disk \<Rightarrow> 'x disk \<Rightarrow> bool" where
  verb_freeze: "freeze_op file_store now i why d = (r, d', evs) \<Longrightarrow> store_step d d'"
| verb_thaw: "thaw_op file_store now i d = (r, d', evs) \<Longrightarrow> store_step d d'"
| verb_stuck: "stuck_op file_store now i w d = (r, d', evs) \<Longrightarrow> store_step d d'"
| update: "load_molecule d i = Ok c \<Longrightarrow> md_id m = i \<Longrightarrow> fleet_id m = fleet_id c \<Longrightarrow>
    save_molecule d i m = Ok d' \<Longrightarrow> store_step d d'"
| update_if: "load_molecule d i = Ok c \<Longrightarrow> md_id m = i \<Longrightarrow> fleet_id m = fleet_id c \<Longrightarrow>
    save_molecule_if_revision (revision :: 'x molecule_data \<Rightarrow> string) d i m e = Ok d' \<Longrightarrow> store_step d d'"
| create: "\<forall>f. fleet_entry d f i = None \<Longrightarrow> md_id m = i \<Longrightarrow> save_molecule d i m = Ok d' \<Longrightarrow> store_step d d'"
| fault: "store_step d (d\<lparr>io_fault := e\<rparr>)"

definition collapsed_with :: "string \<Rightarrow> receipt option \<Rightarrow> 'x disk \<Rightarrow> bool" where
  "collapsed_with i rc d \<longleftrightarrow>
     disk_wf d \<and>
     (\<exists>c. load_molecule d i = Ok c \<and> md_status c = Collapsed \<and> collapse_receipt c = rc)"

lemma collapsed_write:
  assumes "collapsed_with i rc d" and "md_id m = j"
    and free: "\<And>g. fleet_entry d g j \<noteq> None \<Longrightarrow> g = fleet_id m"
    and w: "write_molecule_checked revision d j m expected = Ok d'"
  shows "collapsed_with i rc d'"
proof -
  obtain c where wf: "disk_wf d" and c: "load_molecule d i = Ok c" "md_status c = Collapsed" "collapse_receipt c = rc"
    using assms(1) by (auto simp: collapsed_with_def)
  have d': "d' = write_file d (fleet_id m) j m" using w by (rule write_checked_Ok(1))
  have "disk_wf d'" unfolding d' by (rule write_file_wf[OF wf assms(2) free])
  moreover have "md_status m = Collapsed \<and> collapse_receipt m = rc" if "j = i"
    using write_checked_Ok(2)[OF w, of c] c that by (simp add: leaves_collapsed_def)
  ultimately show ?thesis
    using c write_file_load[OF wf assms(2) free, of i] by (auto simp: collapsed_with_def d')
qed

lemma fleet_entry_fault [simp]: "fleet_entry (d\<lparr>io_fault := e\<rparr>) = fleet_entry d"
  by (simp add: fleet_entry_def fun_eq_iff)

lemma load_fault [simp]: "load_molecule (d\<lparr>io_fault := e\<rparr>) i = load_molecule d i"
proof -
  have "state_json (d\<lparr>io_fault := e\<rparr>) l i = state_json d l i" for l by (cases l) simp_all
  moreover have "molecule_dir (d\<lparr>io_fault := e\<rparr>) i = molecule_dir d i" by (cases d) (simp only: molecule_dir_def disk.simps)
  ultimately show ?thesis by (simp only: load_molecule_def)
qed

lemma collapsed_verb:
  assumes "collapsed_with i rc d"
    and "freeze_op file_store now j why d = (r1, d', evs) \<or> thaw_op file_store now j d = (r2, d', evs) \<or>
      stuck_op file_store now j w d = (r3, d', evs)"
  shows "collapsed_with i rc d'"
  using assms(1) files.verb_frame(1,3)[OF _ assms(2)]
  unfolding collapsed_with_def by (simp add: file_store_def) blast

lemma store_step_collapsed: "collapsed_with i rc d \<Longrightarrow> store_step d d' \<Longrightarrow> collapsed_with i rc d'"
proof (erule store_step.cases)
  fix e da
  assume "d' = da\<lparr>io_fault := e\<rparr>" "d = da" "collapsed_with i rc d"
  then show ?thesis by (auto simp: collapsed_with_def disk_wf_def)
next
  fix da j c m d''
  assume a: "d = da" "d' = d''" "load_molecule da j = Ok c" "md_id m = j" "fleet_id m = fleet_id c"
    "save_molecule da j m = Ok d''" "collapsed_with i rc d"
  have "g = fleet_id m" if "fleet_entry d g j \<noteq> None" for g
    using load_Ok_free[of d j c g] a that by (simp add: collapsed_with_def)
  from collapsed_write[OF a(7,4) this, of "\<lambda>_. ()" None] a show ?thesis by (simp add: save_molecule_def)
next
  fix da j c m e d'' and revision :: "'a molecule_data \<Rightarrow> string"
  assume a: "d = da" "d' = d''" "load_molecule da j = Ok c" "md_id m = j" "fleet_id m = fleet_id c"
    "save_molecule_if_revision revision da j m e = Ok d''" "collapsed_with i rc d"
  have "g = fleet_id m" if "fleet_entry d g j \<noteq> None" for g
    using load_Ok_free[of d j c g] a that by (simp add: collapsed_with_def)
  from collapsed_write[OF a(7,4) this, of revision "Some e"] a show ?thesis
    by (simp add: save_molecule_if_revision_def)
next
  fix da j m d''
  assume a: "d = da" "d' = d''" "\<forall>f. fleet_entry da f j = None" "md_id m = j"
    "save_molecule da j m = Ok d''" "collapsed_with i rc d"
  from collapsed_write[OF a(6,4), of "\<lambda>_. ()" None] a show ?thesis by (simp add: save_molecule_def)
qed (use collapsed_verb in blast)+

interpretation collapse: invariant_system "collapsed_with i rc" store_step "collapsed_with i rc" for i rc
  by unfold_locales (auto intro: store_step_collapsed)

section \<open>Listing and frontier\<close>

lemma scan_molecules:
  "set (ml_molecules (scan_molecules_dir keep loc es ls)) =
     set (ml_molecules ls) \<union> {m. keep m \<and> (\<exists>i. (i, Some (Ok m)) \<in> set es)}"
  by (induction keep loc es ls rule: scan_molecules_dir.induct) (auto split: option.splits sum.splits)

lemma scan_fleets:
  "set (ml_molecules (fold (\<lambda>(f, es). scan_molecules_dir keep (FleetDir f) es) fs ls)) =
     set (ml_molecules ls) \<union> {m. keep m \<and> (\<exists>f es i. (f, es) \<in> set fs \<and> (i, Some (Ok m)) \<in> set es)}"
  by (induction fs arbitrary: ls) (auto simp: scan_molecules, blast+)

lemma listed_molecules:
  "set (ml_molecules (list_molecules_report keep d)) =
     {m. keep m \<and> ((\<exists>f es i. (f, es) \<in> set (fleet_entries d) \<and> (i, Some (Ok m)) \<in> set es) \<or>
                   (\<exists>i. (i, Some (Ok m)) \<in> set (legacy_entries d)))}"
  by (auto simp: list_molecules_report_def Let_def scan_molecules scan_fleets)

text \<open>No directory lists a name twice and no molecule of a fleet has a legacy copy.\<close>

definition unshadowed :: "'x disk \<Rightarrow> bool" where
  "unshadowed d \<longleftrightarrow>
     (\<forall>(f, es) \<in> set (fleet_entries d). distinct (map fst es)) \<and> distinct (map fst (legacy_entries d)) \<and>
     (\<forall>f i. fleet_entry d f i \<noteq> None \<longrightarrow> map_of (legacy_entries d) i = None)"

lemma by_id_distinct:
  assumes "distinct (map md_id ms)"
  shows "by_id ms i = Some m \<longleftrightarrow> m \<in> set ms \<and> md_id m = i"
proof -
  have "distinct (map fst (rev (map (\<lambda>m. (md_id m, m)) ms)))"
    using assms by (simp add: rev_map[symmetric] comp_def)
  from map_of_eq_Some_iff[OF this, of i m] show ?thesis by (auto simp: by_id_def)
qed

text \<open>The conditions of the frontier in terms of the molecules themselves.\<close>

definition blocker_done :: "'x molecule_data set \<Rightarrow> string \<Rightarrow> bool" where
  "blocker_done M p \<longleftrightarrow> (\<exists>b\<in>M. md_id b = p \<and> md_status b = Completed \<and> merged_at b \<noteq> None)"

definition parent_released :: "'x molecule_data set \<Rightarrow> string \<Rightarrow> bool" where
  "parent_released M p \<longleftrightarrow>
     (\<forall>b\<in>M. md_id b = p \<longrightarrow> md_status b = Collapsed \<or> (md_status b = Frozen \<and> stuck_at b = None) \<or>
        (md_status b = Completed \<and> merged_at b \<noteq> None))"

definition dispatchable :: "'x molecule_data set \<Rightarrow> string set \<Rightarrow> 'x molecule_data \<Rightarrow> bool" where
  "dispatchable M unread m \<longleftrightarrow>
     m \<in> M \<and> md_status m = Pending \<and> assigned_worker m = None \<and>
     (\<forall>p. BlockedBy p \<in> set (typed_links m) \<longrightarrow> blocker_done M p) \<and>
     (\<forall>p. DecayedFrom p \<in> set (typed_links m) \<longrightarrow> p \<notin> unread \<and> parent_released M p)"

lemma set_blocked_by: "p \<in> set (blocked_by m) \<longleftrightarrow> BlockedBy p \<in> set (typed_links m)"
proof -
  have "blocked_by_source l = Some p \<longleftrightarrow> l = BlockedBy p" for l by (cases l) auto
  then show ?thesis by (force simp: blocked_by_def List.map_filter_def)
qed

lemma by_id_case:
  assumes "distinct (map md_id ms)"
  shows "(case by_id ms p of None \<Rightarrow> False | Some m \<Rightarrow> R m) \<longleftrightarrow> (\<exists>m\<in>set ms. md_id m = p \<and> R m)"
    and "(case by_id ms p of None \<Rightarrow> True | Some m \<Rightarrow> R m) \<longleftrightarrow> (\<forall>m\<in>set ms. md_id m = p \<longrightarrow> R m)"
proof -
  have "(case by_id ms p of None \<Rightarrow> False | Some m \<Rightarrow> R m) \<longleftrightarrow> (\<exists>m. by_id ms p = Some m \<and> R m)"
    "(case by_id ms p of None \<Rightarrow> True | Some m \<Rightarrow> R m) \<longleftrightarrow> (\<forall>m. by_id ms p = Some m \<longrightarrow> R m)"
    by (auto split: option.splits)
  then show "(case by_id ms p of None \<Rightarrow> False | Some m \<Rightarrow> R m) \<longleftrightarrow> (\<exists>m\<in>set ms. md_id m = p \<and> R m)"
    and "(case by_id ms p of None \<Rightarrow> True | Some m \<Rightarrow> R m) \<longleftrightarrow> (\<forall>m\<in>set ms. md_id m = p \<longrightarrow> R m)"
    unfolding by_id_distinct[OF assms] by blast+
qed

lemma predecessor_cleared_iff:
  "distinct (map md_id ms) \<Longrightarrow> predecessor_cleared ms p \<longleftrightarrow> blocker_done (set ms) p"
  unfolding predecessor_cleared_def blocker_done_def by (simp only: by_id_case satisfies_blocked_by_def) auto

lemma decayed_parent_cleared_iff:
  assumes "distinct (map md_id ms)"
  shows "decayed_parent_cleared ms us p \<longleftrightarrow> p \<notin> u_id ` set us \<and> parent_released (set ms) p"
proof -
  have s: "(case s of Collapsed \<Rightarrow> True | Frozen \<Rightarrow> a | Completed \<Rightarrow> b | _ \<Rightarrow> False) \<longleftrightarrow>
      s = Collapsed \<or> (s = Frozen \<and> a) \<or> (s = Completed \<and> b)" for s a b
    by (cases s) auto
  show ?thesis
    unfolding decayed_parent_cleared_def parent_released_def by_id_case(2)[OF assms] s
    by (auto simp: list_ex_iff)
qed

lemma link_cleared_iff:
  "distinct (map md_id ms) \<Longrightarrow> list_all (link_cleared ms us) ls \<longleftrightarrow>
     (\<forall>p. DecayedFrom p \<in> set ls \<longrightarrow> p \<notin> u_id ` set us \<and> parent_released (set ms) p)"
proof (induction ls)
  case (Cons l ls)
  then show ?case by (cases l) (auto simp: decayed_parent_cleared_iff)
qed simp

lemma blockers_cleared_iff:
  "distinct (map md_id ms) \<Longrightarrow> list_all (predecessor_cleared ms) (blocked_by m) \<longleftrightarrow>
     (\<forall>p. BlockedBy p \<in> set (typed_links m) \<longrightarrow> blocker_done (set ms) p)"
  unfolding list_all_iff Ball_def set_blocked_by by (simp only: predecessor_cleared_iff)

lemma set_frontier:
  "distinct (map md_id ms) \<Longrightarrow>
     set (compute_from_molecules_with_unreadable ms us) = md_id ` {m. dispatchable (set ms) (u_id ` set us) m}"
  unfolding compute_from_molecules_with_unreadable_def dispatchable_def
  by (simp only: set_sort set_map set_filter link_cleared_iff blockers_cleared_iff) auto

lemma frontier_sorted_distinct:
  assumes "distinct (map md_id ms)"
  shows "sorted (compute_from_molecules_with_unreadable ms us)"
    and "distinct (compute_from_molecules_with_unreadable ms us)"
proof -
  show "sorted (compute_from_molecules_with_unreadable ms us)"
    by (simp add: compute_from_molecules_with_unreadable_def)
  show "distinct (compute_from_molecules_with_unreadable ms us)"
    using assms by (simp add: compute_from_molecules_with_unreadable_def distinct_map_filter)
qed

section \<open>Properties\<close>

definition sample_molecule :: "string \<Rightarrow> molecule_status \<Rightarrow> molecule_link list \<Rightarrow> unit molecule_data" where
  "sample_molecule i s ls = \<lparr>md_id = i, fleet_id = ''default'', md_status = s, assigned_worker = None,
     md_current_step = 1, md_total_steps = 3, md_process = None, session_name = None,
     md_updated_at = 0, typed_links = ls, merged_at = None, stuck_at = None, md_collapse_reason = None,
     md_collapse_cause = None, collapse_reason_kind = None, collapsed_step = None, collapse_receipt = None,
     md_rest = ()\<rparr>"

definition sample_disk :: "molecule_status \<Rightarrow> unit disk" where
  "sample_disk s = \<lparr>fleet_entries = [(''default'', [(''m'', Some (Ok (sample_molecule ''m'' s [])))])],
     legacy_entries = [], io_fault = None\<rparr>"

lemma sample_disk_wf: "disk_wf (sample_disk s)"
  by (rule disk_wfI) (auto simp: sample_disk_def fleet_entry_def sample_molecule_def split: if_splits)

lemma sample_disk_load: "load_molecule (sample_disk s) ''m'' = Ok (sample_molecule ''m'' s [])"
  by (simp add: load_molecule_def molecule_dir_def sample_disk_def fleet_entry_def)

text \<open>
  C9. Once collapsed, always collapsed: through every sequence of verbs, updates, conditional
  updates, first saves and I/O faults, a molecule the file store has as collapsed keeps that
  status and its collapse receipt.
\<close>

theorem collapsed_forever:
  assumes "disk_wf d" and "load_molecule d i = Ok c" and "md_status c = Collapsed"
    and "store_step\<^sup>*\<^sup>* d d'"
  shows "\<exists>c'. load_molecule d' i = Ok c' \<and> md_status c' = Collapsed \<and>
    collapse_receipt c' = collapse_receipt c"
  using collapse.steps_inv[OF assms(4), of i "collapse_receipt c"] assms(1-3)
  by (auto simp: collapsed_with_def)

theorem collapsed_forever_witness:
  "\<exists>c'. load_molecule (fst (snd (stuck_op file_store 1 ''m'' ''why'' (sample_disk Collapsed)))) ''m'' = Ok c' \<and>
     md_status c' = Collapsed \<and> collapse_receipt c' = None"
proof -
  let ?d = "sample_disk Collapsed"
  have "store_step\<^sup>*\<^sup>* ?d (fst (snd (stuck_op file_store 1 ''m'' ''why'' ?d)))"
    by (rule r_into_rtranclp, rule verb_stuck, subst prod.collapse, rule prod.collapse[symmetric])
  from collapsed_forever[OF sample_disk_wf sample_disk_load _ this] show ?thesis
    by (simp add: sample_molecule_def)
qed

text \<open>
  Freezing and thawing a molecule succeeds and only changes its status and time stamps: on a
  consistent disk without I/O fault, whatever live status it had it is running afterwards,
  no longer marked stuck, and every other molecule reads as before.
\<close>

theorem freeze_then_thaw_runs:
  assumes "disk_wf d" and "io_fault d = None" and "load_molecule d i = Ok c"
    and "md_status c \<notin> {Completed, Collapsed, Frozen}"
  shows "\<exists>v1 d1 e1 v2 d2 e2.
    freeze_op file_store t1 i why d = (Ok v1, d1, e1) \<and> thaw_op file_store t2 i d1 = (Ok v2, d2, e2) \<and>
    load_molecule d2 i = Ok (c\<lparr>md_status := Running, md_updated_at := t2, stuck_at := None\<rparr>) \<and>
    (\<forall>j. j \<noteq> i \<longrightarrow> load_molecule d2 j = load_molecule d j)"
proof -
  let ?f = "c\<lparr>md_status := Frozen, md_updated_at := t1\<rparr>"
  let ?t = "?f\<lparr>md_status := Running, md_updated_at := t2, stuck_at := None\<rparr>"
  have l: "sp_load file_store d i = Ok c" using assms(3) by (simp add: file_store_def)
  have i: "md_id c = i" using files.load_id[OF assms(1) l] .
  let ?d1 = "write_file d (fleet_id c) i ?f"
  have s1: "save_molecule d i ?f = Ok ?d1"
    using save_succeeds[OF assms(2,3), of ?f] assms(4) by (simp add: leaves_collapsed_def)
  then obtain v1 e1 where f: "freeze_op file_store t1 i why d = (Ok v1, ?d1, e1)"
    using l i assms(4) by (simp add: freeze_op_def file_store_def Let_def)
  note F = files.freeze_Ok[OF assms(1) l f]
  have wf1: "disk_wf ?d1" and l1: "sp_load file_store ?d1 i = Ok ?f" using F[of i] assms(4) by auto
  let ?d2 = "write_file ?d1 (fleet_id c) i ?t"
  have s2: "save_molecule ?d1 i ?t = Ok ?d2"
    using save_succeeds[of ?d1 i ?f ?t] assms(2) l1 by (simp add: leaves_collapsed_def file_store_def)
  then obtain v2 e2 where t: "thaw_op file_store t2 i ?d1 = (Ok v2, ?d2, e2)"
    using l1 i by (simp add: thaw_op_def file_store_def Let_def)
  have T: "sp_load file_store ?d2 j = (if j = i then Ok ?t else sp_load file_store ?d1 j)" for j
    using files.thaw_Ok[OF wf1 l1 t, of j] by simp
  have "load_molecule ?d2 i = Ok (c\<lparr>md_status := Running, md_updated_at := t2, stuck_at := None\<rparr>)"
    using T[of i] by (simp add: file_store_def)
  moreover have "load_molecule ?d2 j = load_molecule d j" if "j \<noteq> i" for j
    using T[of j] F[of j] that by (simp add: file_store_def)
  ultimately show ?thesis using f t by blast
qed

theorem freeze_then_thaw_runs_witness:
  "\<exists>d1 d2. fst (snd (freeze_op file_store 1 ''m'' None (sample_disk Pending))) = d1 \<and>
     fst (snd (thaw_op file_store 2 ''m'' d1)) = d2 \<and>
     (\<exists>c. load_molecule d2 ''m'' = Ok c \<and> md_status c = Running \<and> md_updated_at c = 2)"
proof -
  have io: "io_fault (sample_disk Pending) = None" by (simp add: sample_disk_def)
  from freeze_then_thaw_runs[OF sample_disk_wf io sample_disk_load, of 1 None 2] show ?thesis
    by (auto simp: sample_molecule_def)
qed

text \<open>
  Conditional saves exclude each other: when two writers read the same revision of a
  molecule, and one has saved a state of another revision, the save of the other is refused.
\<close>

theorem conditional_saves_exclude:
  assumes "disk_wf d" and "load_molecule d i = Ok c" and "md_id m1 = i" and "fleet_id m1 = fleet_id c"
    and "save_molecule_if_revision revision d i m1 (revision c) = Ok d1"
    and "revision m1 \<noteq> revision c"
  shows "\<exists>e. save_molecule_if_revision revision d1 i m2 (revision c) = Err (StoreFailure e)"
proof -
  have w: "write_molecule_checked revision d i m1 (Some (revision c)) = Ok d1"
    using assms(5) by (simp add: save_molecule_if_revision_def)
  have d1: "d1 = write_file d (fleet_id m1) i m1" using w by (rule write_checked_Ok(1))
  have "g = fleet_id m1" if "fleet_entry d g i \<noteq> None" for g
    using load_Ok_free[OF assms(1,2) that] assms(4) by simp
  from write_file_load[OF assms(1,3) this, of i] have l: "load_molecule d1 i = Ok m1" by (simp add: d1)
  have "io_fault d1 = None"
    using w by (simp add: d1 write_molecule_checked_def split: option.splits)
  with l show ?thesis
    using assms(6)
    by (auto simp: save_molecule_if_revision_def write_molecule_checked_def load_molecule_def
        split: option.splits sum.splits)
qed

theorem conditional_saves_exclude_witness:
  "\<exists>d1 e. save_molecule_if_revision md_status (sample_disk Running) ''m'' (sample_molecule ''m'' Frozen []) Running = Ok d1 \<and>
     save_molecule_if_revision md_status d1 ''m'' (sample_molecule ''m'' Completed []) Running = Err (StoreFailure e)"
proof -
  let ?d1 = "write_file (sample_disk Running) ''default'' ''m'' (sample_molecule ''m'' Frozen [])"
  have r: "md_status (sample_molecule ''m'' Running []) = Running" by (simp add: sample_molecule_def)
  have s: "save_molecule_if_revision md_status (sample_disk Running) ''m'' (sample_molecule ''m'' Frozen []) Running = Ok ?d1"
    by (simp add: save_molecule_if_revision_def write_molecule_checked_def molecule_dir_def fleet_entry_def
        sample_disk_def sample_molecule_def leaves_collapsed_def)
  with conditional_saves_exclude[OF sample_disk_wf sample_disk_load, of "sample_molecule ''m'' Frozen []" Running md_status ?d1
      "sample_molecule ''m'' Completed []"] r
  show ?thesis by (auto simp: sample_molecule_def)
qed

text \<open>
  A verb never touches another molecule: freeze, thaw and stuck keep the disk consistent and
  leave every other molecule as it reads, and one that fails changes nothing and logs no event.
\<close>

theorem verbs_touch_only_their_molecule:
  assumes "disk_wf d"
  shows "(let (r, d', evs) = freeze_op file_store now i why d
          in disk_wf d' \<and> (\<forall>j. j \<noteq> i \<longrightarrow> load_molecule d' j = load_molecule d j) \<and> (isl r \<longrightarrow> d' = d \<and> evs = [])) \<and>
         (let (r, d', evs) = thaw_op file_store now i d
          in disk_wf d' \<and> (\<forall>j. j \<noteq> i \<longrightarrow> load_molecule d' j = load_molecule d j) \<and> (isl r \<longrightarrow> d' = d \<and> evs = [])) \<and>
         (let (r, d', evs) = stuck_op file_store now i w d
          in disk_wf d' \<and> (\<forall>j. j \<noteq> i \<longrightarrow> load_molecule d' j = load_molecule d j) \<and> (isl r \<longrightarrow> d' = d \<and> evs = []))"
proof -
  have load: "sp_load file_store = load_molecule" by (simp add: file_store_def)
  have "case freeze_op file_store now i why d of (r, d', evs) \<Rightarrow> disk_wf d' \<and>
      (\<forall>j. j \<noteq> i \<longrightarrow> load_molecule d' j = load_molecule d j) \<and> (isl r \<longrightarrow> d' = d \<and> evs = [])"
  proof (cases "freeze_op file_store now i why d")
    case (fields r d' evs)
    note frame = files.verb_frame(1,2)[OF assms disjI1[OF fields], unfolded load]
    show ?thesis using frame files.verb_Err(1) fields by (cases r) (simp, blast, simp)
  qed
  moreover have "case thaw_op file_store now i d of (r, d', evs) \<Rightarrow> disk_wf d' \<and>
      (\<forall>j. j \<noteq> i \<longrightarrow> load_molecule d' j = load_molecule d j) \<and> (isl r \<longrightarrow> d' = d \<and> evs = [])"
  proof (cases "thaw_op file_store now i d")
    case (fields r d' evs)
    note frame = files.verb_frame(1,2)[OF assms disjI2[OF disjI1[OF fields]], unfolded load]
    show ?thesis using frame files.verb_Err(2) fields by (cases r) (simp, blast, simp)
  qed
  moreover have "case stuck_op file_store now i w d of (r, d', evs) \<Rightarrow> disk_wf d' \<and>
      (\<forall>j. j \<noteq> i \<longrightarrow> load_molecule d' j = load_molecule d j) \<and> (isl r \<longrightarrow> d' = d \<and> evs = [])"
  proof (cases "stuck_op file_store now i w d")
    case (fields r d' evs)
    note frame = files.verb_frame(1,2)[OF assms disjI2[OF disjI2[OF fields]], unfolded load]
    show ?thesis using frame files.verb_Err(3) fields by (cases r) (simp, blast, simp)
  qed
  ultimately show ?thesis unfolding Let_def by blast
qed

theorem verbs_touch_only_their_molecule_witness:
  "isl (fst (thaw_op file_store 3 ''m'' (sample_disk Completed))) \<and>
   fst (snd (thaw_op file_store 3 ''m'' (sample_disk Completed))) = sample_disk Completed"
proof -
  have "thaw_op file_store 3 ''m'' (sample_disk Completed) =
      (Err (ThawInvalidStatus ''m'' Completed), sample_disk Completed, [])"
    using sample_disk_load[of Completed] by (simp add: thaw_op_def file_store_def sample_molecule_def)
  with verbs_touch_only_their_molecule[OF sample_disk_wf[of Completed], of 3 "''m''"] show ?thesis
    by (simp add: Let_def case_prod_unfold)
qed

text \<open>
  C10. The frontier is exactly the set of dispatchable molecules, sorted and without repetition: a
  molecule is on it if and only if it is pending, has no worker, each of its blockers is a
  known molecule that completed and was merged, and each parent it decayed from is readable
  and either unknown, collapsed, frozen but not stuck, or completed and merged.
\<close>

theorem frontier_exact:
  assumes "distinct (map md_id ms)"
  shows "set (compute_from_molecules_with_unreadable ms us) =
      {i. \<exists>m\<in>set ms. md_id m = i \<and> md_status m = Pending \<and> assigned_worker m = None \<and>
        (\<forall>p. BlockedBy p \<in> set (typed_links m) \<longrightarrow>
           (\<exists>b\<in>set ms. md_id b = p \<and> md_status b = Completed \<and> merged_at b \<noteq> None)) \<and>
        (\<forall>p. DecayedFrom p \<in> set (typed_links m) \<longrightarrow> p \<notin> u_id ` set us \<and>
           (\<forall>b\<in>set ms. md_id b = p \<longrightarrow> md_status b = Collapsed \<or>
              (md_status b = Frozen \<and> stuck_at b = None) \<or> (md_status b = Completed \<and> merged_at b \<noteq> None)))} \<and>
    sorted (compute_from_molecules_with_unreadable ms us) \<and>
    distinct (compute_from_molecules_with_unreadable ms us)"
  unfolding set_frontier[OF assms] dispatchable_def blocker_done_def parent_released_def
  using frontier_sorted_distinct[OF assms] by blast

theorem frontier_exact_witness:
  "''b'' \<in> set (compute_from_molecules_with_unreadable
      [sample_molecule ''b'' Pending [BlockedBy ''a'', DecayedFrom ''p''],
       (sample_molecule ''a'' Completed [])\<lparr>merged_at := Some 4\<rparr>] []) \<and>
   ''b'' \<notin> set (compute_from_molecules_with_unreadable
      [sample_molecule ''b'' Pending [BlockedBy ''a''], sample_molecule ''a'' Completed []] [])"
proof -
  let ?x = "[sample_molecule ''b'' Pending [BlockedBy ''a'', DecayedFrom ''p''],
       (sample_molecule ''a'' Completed [])\<lparr>merged_at := Some 4\<rparr>]"
  let ?y = "[sample_molecule ''b'' Pending [BlockedBy ''a''], sample_molecule ''a'' Completed []]"
  have "distinct (map md_id ?x)" "distinct (map md_id ?y)" by (simp_all add: sample_molecule_def)
  from frontier_exact[OF this(1), of "[]"] frontier_exact[OF this(2), of "[]"] show ?thesis
    by (auto simp: sample_molecule_def)
qed

text \<open>
  The frontier does not depend on the order in which the molecules were read.
\<close>

theorem frontier_order_independent:
  assumes "distinct (map md_id ms)" and "mset ms' = mset ms"
  shows "compute_from_molecules_with_unreadable ms' us = compute_from_molecules_with_unreadable ms us"
proof -
  have "distinct (map md_id ms')"
    using assms by (metis mset_map mset_eq_imp_distinct_iff)
  moreover have "set ms' = set ms" using assms(2) by (rule mset_eq_setD)
  ultimately show ?thesis
    using assms(1) by (intro sorted_distinct_set_unique) (simp_all add: frontier_sorted_distinct set_frontier)
qed

theorem frontier_order_independent_witness:
  "compute_from_molecules_with_unreadable [sample_molecule ''b'' Pending [], sample_molecule ''a'' Pending []] [] =
   compute_from_molecules_with_unreadable [sample_molecule ''a'' Pending [], sample_molecule ''b'' Pending []] []"
  by (rule frontier_order_independent) (simp_all add: sample_molecule_def)

text \<open>
  The listing and the single reads agree: on a consistent disk where no molecule of a fleet
  has a legacy copy, a record is listed if and only if it is what reading its id returns.
\<close>

theorem listing_agrees_with_load:
  assumes "disk_wf d" and "unshadowed d"
  shows "m \<in> set (ml_molecules (list_molecules_report (\<lambda>_. True) d)) \<longleftrightarrow> load_molecule d (md_id m) = Ok m"
proof
  assume "m \<in> set (ml_molecules (list_molecules_report (\<lambda>_. True) d))"
  then consider f es i where "(f, es) \<in> set (fleet_entries d)" "(i, Some (Ok m)) \<in> set es"
    | i where "(i, Some (Ok m)) \<in> set (legacy_entries d)"
    unfolding listed_molecules by blast
  then show "load_molecule d (md_id m) = Ok m"
  proof cases
    case 1
    then have "fleet_entry d f i = Some (Some (Ok m))"
      using assms(2) disk_wfD(1)[OF assms(1)] by (auto simp: fleet_entry_def unshadowed_def)
    then show ?thesis using disk_wfD(2)[OF assms(1)] load_fleet[OF assms(1)] by fastforce
  next
    case 2
    then have l: "map_of (legacy_entries d) i = Some (Some (Ok m))" using assms(2) by (simp add: unshadowed_def)
    then have "fleet_entry d f i = None" for f using assms(2) unfolding unshadowed_def by fastforce
    then show ?thesis using l disk_wfD(4)[OF assms(1) l] load_legacy[OF assms(1), of i] by simp
  qed
next
  assume "load_molecule d (md_id m) = Ok m"
  then show "m \<in> set (ml_molecules (list_molecules_report (\<lambda>_. True) d))"
  proof (rule load_Ok_cases[OF assms(1)])
    fix f
    assume "fleet_entry d f (md_id m) = Some (Some (Ok m))"
    then show ?thesis
      unfolding listed_molecules by (auto simp: fleet_entry_def split: option.splits dest!: map_of_SomeD)
  next
    assume "map_of (legacy_entries d) (md_id m) = Some (Some (Ok m))"
    then show ?thesis unfolding listed_molecules by (auto dest: map_of_SomeD)
  qed
qed

theorem listing_agrees_with_load_witness:
  "sample_molecule ''m'' Running [] \<in> set (ml_molecules (list_molecules_report (\<lambda>_. True) (sample_disk Running)))"
proof -
  have "unshadowed (sample_disk Running)" by (simp add: unshadowed_def sample_disk_def)
  from listing_agrees_with_load[OF sample_disk_wf this, of "sample_molecule ''m'' Running []"]
  show ?thesis using sample_disk_load by (simp add: sample_molecule_def)
qed

text \<open>
  A migrated molecule haunts the frontier: a legacy record is copied into its fleet on the
  first save but never removed, so when a pending legacy molecule is frozen the store reads it
  as frozen while the frontier still offers it for dispatch.
\<close>

theorem legacy_copy_stays_on_frontier:
  assumes "disk_wf d" and "\<forall>f. fleet_entry d f i = None"
    and "map_of (legacy_entries d) i = Some (Some (Ok c))"
    and "md_status c = Pending" and "assigned_worker c = None" and "typed_links c = []"
    and "freeze_op file_store now i why d = (Ok v, d', evs)"
  shows "(\<exists>c'. load_molecule d' i = Ok c' \<and> md_status c' = Frozen) \<and> i \<in> set (fr_ready (compute t d'))"
proof -
  have l: "load_molecule d i = Ok c" using load_legacy[OF assms(1), of i] assms(2,3) by simp
  have i: "md_id c = i" using disk_wfD(4)[OF assms(1,3)] .
  have "sp_load file_store d i = Ok c" using l by (simp add: file_store_def)
  from files.freeze_Ok[OF assms(1) this assms(7), of i] assms(4)
  have "\<exists>c'. load_molecule d' i = Ok c' \<and> md_status c' = Frozen" by (simp add: file_store_def)
  moreover have "save_molecule d i (c\<lparr>md_status := Frozen, md_updated_at := now\<rparr>) = Ok d'"
    using assms(4,7) l i by (auto simp: freeze_op_def file_store_def split: sum.splits)
  then have "legacy_entries d' = legacy_entries d"
    unfolding save_molecule_def by (auto dest!: write_checked_Ok(1))
  then have "c \<in> set (ml_molecules (list_molecules_report (\<lambda>_. True) d'))"
    unfolding listed_molecules using map_of_SomeD[OF assms(3)] by auto
  then have "i \<in> set (fr_ready (compute t d'))"
    using assms(4-6) i
    by (force simp: compute_def Let_def compute_from_molecules_with_unreadable_def blocked_by_def map_filter_simps)
  ultimately show ?thesis by blast
qed

theorem legacy_copy_stays_on_frontier_witness:
  "(let d = \<lparr>fleet_entries = [], legacy_entries = [(''m'', Some (Ok (sample_molecule ''m'' Pending [])))],
             io_fault = None\<rparr>;
        d' = fst (snd (freeze_op file_store 7 ''m'' None d))
    in (\<exists>c'. load_molecule d' ''m'' = Ok c' \<and> md_status c' = Frozen) \<and> ''m'' \<in> set (fr_ready (compute 8 d')))"
proof -
  let ?d = "\<lparr>fleet_entries = [], legacy_entries = [(''m'', Some (Ok (sample_molecule ''m'' Pending [])))],
             io_fault = None\<rparr>"
  have wf: "disk_wf ?d"
    by (rule disk_wfI) (auto simp: fleet_entry_def sample_molecule_def split: if_splits)
  obtain v d' evs where f: "freeze_op file_store 7 ''m'' None ?d = (Ok v, d', evs)"
    by (simp add: freeze_op_def file_store_def load_molecule_def molecule_dir_def save_molecule_def
        write_molecule_checked_def leaves_collapsed_def sample_molecule_def Let_def)
  have "\<forall>f. fleet_entry ?d f ''m'' = None" by (simp add: fleet_entry_def)
  from legacy_copy_stays_on_frontier[OF wf this _ _ _ _ f, of "sample_molecule ''m'' Pending []" 8] f
  show ?thesis by (simp add: Let_def sample_molecule_def)
qed

end
