(* ===== verification/StoreLog.thy ===== *)
theory StoreLog
  imports Store
begin

text \<open>
  The store and the event log together: what the verbs of \<open>cosmon-state/src/ops\<close> write to
  \<open>events.jsonl\<close>, replayed by the validator of \<open>cosmon-verify\<close>.
\<close>

lemma status_from_as_str [simp]: "status_from_str (as_str s) = Ok s"
  by (rule status_text.parse_print)

lemma status_words [simp]:
  "status_from_str ''frozen'' = Ok Frozen" "status_from_str ''running'' = Ok Running"
  using status_from_as_str[of Frozen] status_from_as_str[of Running] by simp_all

lemma status_of_known: "status_of s i = Some x \<Longrightarrow> i \<in> fst ` set (molecules s)"
  by (auto simp: status_of_def map_of_Some_key)

lemma legal_status_change:
  assumes "status_of s i = Some x"
  shows "legal s (MoleculeStatusChanged i (as_str x) t) \<longleftrightarrow> \<not> is_terminal x \<and>
    (\<exists>y. status_from_str t = Ok y \<and> (can_transition_to x y \<or> pipeline_transition x y))"
  using assms status_of_known[OF assms] by (auto simp: legal_def ok_defs)

lemma legal_stuck: "legal s (MoleculeStuck i) \<longleftrightarrow> i \<in> fst ` set (molecules s)"
  by (auto simp: legal_def ok_defs)

lemma status_after_change:
  assumes "status_of s i = Some x" and "status_from_str t = Ok y"
  shows "status_of (after s (MoleculeStatusChanged i f t)) j = (if j = i then Some y else status_of s j)"
  using assms by (auto simp: status_of_def molecules_after)

lemma status_after_stuck [simp]: "status_of (after s (MoleculeStuck i)) j = status_of s j"
  by (simp add: status_of_def molecules_after)

lemma into_frozen: "\<not> is_terminal x \<and> (can_transition_to x Frozen \<or> pipeline_transition x Frozen) \<longleftrightarrow> x = Running"
  by (cases x) (auto simp: status_simps)

lemma freeze_sample:
  assumes "s \<notin> {Frozen, Completed, Collapsed}"
  shows "\<exists>v d' evs. freeze_op file_store t ''m'' why (sample_disk s) = (Ok v, d', evs) \<and>
    load_molecule d' ''m'' = Ok ((sample_molecule ''m'' s [])\<lparr>md_status := Frozen, md_updated_at := t\<rparr>)"
proof -
  let ?c = "sample_molecule ''m'' s []"
  let ?u = "?c\<lparr>md_status := Frozen, md_updated_at := t\<rparr>"
  have m: "md_status ?c = s" "md_id ?c = ''m''" by (simp_all add: sample_molecule_def)
  have "io_fault (sample_disk s) = None" by (simp add: sample_disk_def)
  from save_succeeds[OF this sample_disk_load, of ?u]
  have "save_molecule (sample_disk s) ''m'' ?u = Ok (write_file (sample_disk s) (fleet_id ?u) ''m'' ?u)"
    using assms m by (simp add: leaves_collapsed_def)
  then obtain v d' evs where f: "freeze_op file_store t ''m'' why (sample_disk s) = (Ok v, d', evs)"
    using assms m sample_disk_load[of s] by (simp add: freeze_op_def file_store_def Let_def)
  have l: "sp_load file_store (sample_disk s) ''m'' = Ok ?c" by (simp add: file_store_def sample_disk_load)
  from files.freeze_Ok[OF sample_disk_wf l f, of "''m''"] f assms m show ?thesis by (simp add: file_store_def)
qed

end
