(* ===== verification/Collapse.thy ===== *)
theory Collapse
  imports Store
begin

text \<open>
  The collapse verb, \<open>cosmon-state/src/ops/collapse.rs\<close>, over the collapse-key records of the
  file store (\<open>cosmon-filestore/src/lib.rs\<close>).  The \<open>'x vault\<close> is the disk of theory
  \<open>Store\<close> with the directory \<open>collapse-receipts\<close>: per file stem what reading and parsing the
  record gives.  Three faults of the operating system are fields of it: of the dispatch lock,
  of key-file accesses before they take effect, and of the directory sync after a durable write
  has taken effect.  The fault-injection hook of the keyed critical section is a state
  transformer, so that it stands for a crash and for what other processes do at that point.
  A revision is a function of the record that the state file holds, the lease guard a function
  of the vault.  The clock is read once per round.  The text appended to \<open>log.md\<close>, the
  authorization audit and the JSON renderers are left out.
\<close>

section \<open>Key records of the file store\<close>

record 'x vault =
  vt_disk :: "'x disk"
  vt_keys :: "(string \<times> (string + key_record)) list"
  lock_fault :: "string option"
  key_fault :: "string option"
  sync_fault :: "string option"

definition collapse_key_path :: "digest_port \<Rightarrow> idempotency_key \<Rightarrow> string" where
  "collapse_key_path dp k = ''collapse-receipts/'' @ file_stem dp k @ ''.json''"

definition lock_molecule :: "'x vault \<Rightarrow> string \<Rightarrow> cosmon_error + unit" where
  "lock_molecule v i =
     (if state_json (vt_disk v) (molecule_dir (vt_disk v) i) i = None then Err (MoleculeNotFound i)
      else case lock_fault v of None \<Rightarrow> Ok () | Some e \<Rightarrow> Err (StoreFailure e))"

definition load_molecule_revisioned ::
  "('x molecule_data \<Rightarrow> molecule_revision) \<Rightarrow> 'x vault \<Rightarrow> string
     \<Rightarrow> cosmon_error + 'x molecule_data \<times> molecule_revision" where
  "load_molecule_revisioned revision v i =
     and_then (load_molecule (vt_disk v) i) (\<lambda>m. Ok (m, revision m))"

definition save_molecule_durable ::
  "'x vault \<Rightarrow> string \<Rightarrow> 'x molecule_data \<Rightarrow> (cosmon_error + unit) \<times> 'x vault" where
  "save_molecule_durable v i m =
     (case save_molecule (vt_disk v) i m of
        Inl e \<Rightarrow> (Err e, v)
      | Inr d' \<Rightarrow>
          (case sync_fault v of None \<Rightarrow> Ok () | Some e \<Rightarrow> Err (StoreFailure e), v\<lparr>vt_disk := d'\<rparr>))"

definition read_collapse_key :: "digest_port \<Rightarrow> 'x vault \<Rightarrow> idempotency_key \<Rightarrow> cosmon_error + key_record option" where
  "read_collapse_key dp v k =
     (case key_fault v of
        Some e \<Rightarrow> Err (StoreFailure e)
      | None \<Rightarrow>
          (case map_of (vt_keys v) (file_stem dp k) of
             None \<Rightarrow> Ok None
           | Some (Inl e) \<Rightarrow>
               Err (StoreFailure (''unreadable collapse key record '' @ collapse_key_path dp k @ '': '' @ e))
           | Some (Inr r) \<Rightarrow>
               if kr_key r \<noteq> k
               then Err (StoreFailure (''collapse key record '' @ collapse_key_path dp k @ '' names another key''))
               else Ok (Some r)))"

text \<open>\<open>write_create_only\<close>: the link either creates the file or finds one; the sync comes after.\<close>

definition reserve_collapse_key ::
  "digest_port \<Rightarrow> 'x vault \<Rightarrow> key_record \<Rightarrow> (cosmon_error + bool) \<times> 'x vault" where
  "reserve_collapse_key dp v r =
     (case key_fault v of
        Some e \<Rightarrow> (Err (StoreFailure e), v)
      | None \<Rightarrow>
          (let created = (map_of (vt_keys v) (file_stem dp (kr_key r)) = None)
           in (case sync_fault v of None \<Rightarrow> Ok created | Some e \<Rightarrow> Err (StoreFailure e),
               if created then v\<lparr>vt_keys := AList.update (file_stem dp (kr_key r)) (Ok r) (vt_keys v)\<rparr> else v)))"

definition commit_collapse_key ::
  "digest_port \<Rightarrow> 'x vault \<Rightarrow> key_record \<Rightarrow> (cosmon_error + unit) \<times> 'x vault" where
  "commit_collapse_key dp v r =
     (case key_fault v of
        Some e \<Rightarrow> (Err (StoreFailure e), v)
      | None \<Rightarrow>
          (case sync_fault v of None \<Rightarrow> Ok () | Some e \<Rightarrow> Err (StoreFailure e),
           v\<lparr>vt_keys := AList.update (file_stem dp (kr_key r)) (Ok r) (vt_keys v)\<rparr>))"

text \<open>The trait object as the verb sees it.\<close>

record ('d, 'x) collapse_port =
  cp_store :: "('d, 'x) store_port"
  cp_lock :: "'d \<Rightarrow> string \<Rightarrow> cosmon_error + unit"
  cp_load_revisioned :: "'d \<Rightarrow> string \<Rightarrow> cosmon_error + 'x molecule_data \<times> molecule_revision"
  cp_save_durable :: "'d \<Rightarrow> string \<Rightarrow> 'x molecule_data \<Rightarrow> (cosmon_error + unit) \<times> 'd"
  cp_read_key :: "'d \<Rightarrow> idempotency_key \<Rightarrow> cosmon_error + key_record option"
  cp_reserve_key :: "'d \<Rightarrow> key_record \<Rightarrow> (cosmon_error + bool) \<times> 'd"
  cp_commit_key :: "'d \<Rightarrow> key_record \<Rightarrow> (cosmon_error + unit) \<times> 'd"

definition vault_store :: "('x vault, 'x) store_port" where
  "vault_store =
     \<lparr>sp_load = \<lambda>v i. load_molecule (vt_disk v) i,
      sp_save = \<lambda>v i m. and_then (save_molecule (vt_disk v) i m) (\<lambda>d'. Ok (v\<lparr>vt_disk := d'\<rparr>))\<rparr>"

definition vault_port ::
  "digest_port \<Rightarrow> ('x molecule_data \<Rightarrow> molecule_revision) \<Rightarrow> ('x vault, 'x) collapse_port" where
  "vault_port dp revision =
     \<lparr>cp_store = vault_store, cp_lock = lock_molecule, cp_load_revisioned = load_molecule_revisioned revision,
      cp_save_durable = save_molecule_durable, cp_read_key = read_collapse_key dp,
      cp_reserve_key = reserve_collapse_key dp, cp_commit_key = commit_collapse_key dp\<rparr>"

section \<open>The verb\<close>

datatype collapse_error =
  ColNotFound string
| ColInvalidCause string
| ColMismatchedAccountKind string
| ColAlreadyCompleted string
| ColUnavailable string

fun collapse_from_cosmon :: "string \<Rightarrow> cosmon_error \<Rightarrow> collapse_error" where
  "collapse_from_cosmon i (MoleculeNotFound _) = ColNotFound i"
| "collapse_from_cosmon i (StoreFailure e) = ColUnavailable e"

fun cosmon_to_string :: "cosmon_error \<Rightarrow> string" where
  "cosmon_to_string (MoleculeNotFound i) = ''molecule not found: '' @ i"
| "cosmon_to_string (StoreFailure e) = e"

fun collapse_tag :: "collapse_error \<Rightarrow> string" where
  "collapse_tag (ColNotFound _) = ''molecule-not-found''"
| "collapse_tag (ColInvalidCause _) = ''invalid-cause''"
| "collapse_tag (ColMismatchedAccountKind _) = ''mismatched-account-kind''"
| "collapse_tag (ColAlreadyCompleted _) = ''already-completed''"
| "collapse_tag (ColUnavailable _) = ''store-unavailable''"

fun collapse_http_status :: "collapse_error \<Rightarrow> nat" where
  "collapse_http_status (ColNotFound _) = 404"
| "collapse_http_status (ColInvalidCause _) = 400"
| "collapse_http_status (ColMismatchedAccountKind _) = 400"
| "collapse_http_status (ColAlreadyCompleted _) = 409"
| "collapse_http_status (ColUnavailable _) = 503"

datatype execute_error = ExCollapse collapse_error | ExUnleased string

record collapse_request =
  rq_reason :: string
  rq_cause :: "string option"
  rq_account :: "string option"
  rq_kind :: "string option"
  rq_reason_kind :: "collapse_kind option"

definition request_intent ::
  "digest_port \<Rightarrow> collapse_request \<Rightarrow> string \<Rightarrow> collapse_condition \<Rightarrow> string option \<Rightarrow> collapse_intent" where
  "request_intent dp rq target c act =
     \<lparr>in_target = target, in_reason = rq_reason rq, in_cause = rq_cause rq, in_account = rq_account rq,
      in_kind = rq_kind rq, in_reason_kind = map_option reason_as_str (rq_reason_kind rq),
      in_expected_status = collapsible_as_str (expect_status c), in_expected_revision = expect_revision c,
      in_actor = act, in_approval_digest = approval_digest c,
      in_not_after = map_option (render_not_after dp) (not_after c)\<rparr>"

record collapse_view =
  cv_id :: string
  cv_previous_status :: molecule_status
  cv_reason :: string
  cv_cause :: "collapse_cause option"
  cv_already_collapsed :: bool
  cv_previous_was_stuck :: bool

record 'x keyed_collapse =
  kc_outcome :: outcome_kind
  kc_digest :: request_digest
  kc_receipt :: "receipt option"
  kc_refusal :: "collapse_refusal option"
  kc_announced :: bool
  kc_molecule :: "'x molecule_data option"
  kc_previous_was_stuck :: bool

datatype 'x collapse_outcome =
  Unconditional collapse_view "'x molecule_data option"
| Keyed "'x keyed_collapse"

datatype collapse_stage = Decided | StageReserved | StateSaved

definition parse_cause :: "collapse_request \<Rightarrow> collapse_error + collapse_cause option" where
  "parse_cause rq =
     (let extra = (rq_account rq \<noteq> None \<or> rq_kind rq \<noteq> None)
      in case rq_cause rq of
           None \<Rightarrow> if extra then Err (ColMismatchedAccountKind ''<absent>'') else Ok None
         | Some raw \<Rightarrow>
             and_then (map_err (\<lambda>_. ColInvalidCause raw) (cause_from_str raw)) (\<lambda>cause.
             (case cause of
                RateLimit _ _ \<Rightarrow> Ok (Some (RateLimit (rq_account rq) (rq_kind rq)))
              | _ \<Rightarrow> if extra then Err (ColMismatchedAccountKind raw) else Ok (Some cause))))"

definition release_process :: "datetime \<Rightarrow> 'x molecule_data \<Rightarrow> 'x molecule_data" where
  "release_process now m = m\<lparr>md_process := None, session_name := None, md_updated_at := now\<rparr>"

text \<open>\<open>wall\<close> is what \<open>Utc::now\<close> gives inside \<open>release_process\<close>; the last line overwrites it.\<close>

definition collapsed_record ::
  "datetime \<Rightarrow> 'x molecule_data \<Rightarrow> collapse_request \<Rightarrow> collapse_cause option \<Rightarrow> receipt option \<Rightarrow> datetime
     \<Rightarrow> 'x molecule_data" where
  "collapsed_record wall m rq cause rc now =
     (let m1 = m\<lparr>md_status := Collapsed, md_collapse_reason := Some (rq_reason rq), md_collapse_cause := cause,
                collapse_reason_kind := rq_reason_kind rq, collapsed_step := Some (md_current_step m)\<rparr>;
          m2 = (if md_process m1 \<noteq> None then release_process wall m1 else m1)
      in m2\<lparr>md_updated_at := now, collapse_receipt := rc\<rparr>)"

definition was_stuck :: "molecule_status \<Rightarrow> 'x molecule_data \<Rightarrow> bool" where
  "was_stuck prev m \<longleftrightarrow> prev = Frozen \<and> stuck_at m \<noteq> None"

definition announce :: "string \<Rightarrow> molecule_status \<Rightarrow> bool \<Rightarrow> event list" where
  "announce i prev stuck =
     [MoleculeStatusChanged i (if stuck then ''stuck'' else as_str prev) ''collapsed'', MoleculeCollapsed i]"

definition unconditional ::
  "('d, 'x) collapse_port \<Rightarrow> ('d \<Rightarrow> string \<Rightarrow> caller_context \<Rightarrow> cosmon_error + string option) \<Rightarrow> caller_context
     \<Rightarrow> string \<Rightarrow> collapse_request \<Rightarrow> collapse_cause option \<Rightarrow> datetime \<Rightarrow> datetime \<Rightarrow> 'd
     \<Rightarrow> (execute_error + 'x collapse_outcome) \<times> 'd \<times> event list" where
  "unconditional cp authority caller i rq cause wall now d =
     (case authority d i caller of
        Inl e \<Rightarrow> (Err (ExCollapse (ColUnavailable (cosmon_to_string e))), d, [])
      | Inr (Some why) \<Rightarrow> (Err (ExUnleased why), d, [])
      | Inr None \<Rightarrow>
          (case sp_load (cp_store cp) d i of
             Inl e \<Rightarrow> (Err (ExCollapse (collapse_from_cosmon i e)), d, [])
           | Inr mol \<Rightarrow>
               (let prev = md_status mol; stuck = was_stuck prev mol;
                    view = \<lparr>cv_id = i, cv_previous_status = prev, cv_reason = rq_reason rq, cv_cause = cause,
                            cv_already_collapsed = (prev = Collapsed), cv_previous_was_stuck = stuck\<rparr>
                in if prev = Collapsed then (Ok (Unconditional view None), d, [])
                   else if prev = Completed then (Err (ExCollapse (ColAlreadyCompleted i)), d, [])
                   else
                     (let updated = collapsed_record wall mol rq cause None now
                      in case sp_save (cp_store cp) d (md_id updated) updated of
                           Inl e \<Rightarrow> (Err (ExCollapse (collapse_from_cosmon i e)), d, [])
                         | Inr d' \<Rightarrow>
                             (Ok (Unconditional view (Some updated)), d', announce (md_id updated) prev stuck)))))"

text \<open>The \<open>?\<close> operator over a changing store.\<close>

definition then_do :: "('e + 'a) \<times> 'd \<Rightarrow> ('a \<Rightarrow> 'd \<Rightarrow> ('e + 'b) \<times> 'd) \<Rightarrow> ('e + 'b) \<times> 'd" where
  "then_do r f = (case r of (Inl e, d) \<Rightarrow> (Inl e, d) | (Inr x, d) \<Rightarrow> f x d)"

datatype 'x admission = Retry "key_record option" | Done receipt "'x molecule_data"

definition new_receipt ::
  "idempotency_key \<Rightarrow> request_digest \<Rightarrow> string \<Rightarrow> molecule_status \<Rightarrow> molecule_revision \<Rightarrow> datetime \<Rightarrow> receipt" where
  "new_receipt k g i prev revision now =
     \<lparr>rc_schema = RECEIPT_SCHEMA, rc_key = k, rc_digest = g, rc_molecule = i, rc_previous_status = prev,
      rc_previous_revision = revision, rc_committed_at = now\<rparr>"

definition write_collapse ::
  "('d, 'x) collapse_port \<Rightarrow> (collapse_stage \<Rightarrow> 'd \<Rightarrow> (cosmon_error + unit) \<times> 'd) \<Rightarrow> key_record \<Rightarrow> receipt
     \<Rightarrow> 'x molecule_data \<Rightarrow> 'd \<Rightarrow> (cosmon_error + 'x admission) \<times> 'd" where
  "write_collapse cp hook reservation rc updated d =
     then_do (hook StageReserved d) (\<lambda>_ d1.
     then_do (cp_save_durable cp d1 (md_id updated) updated) (\<lambda>_ d2.
     then_do (hook StateSaved d2) (\<lambda>_ d3.
     then_do (cp_commit_key cp d3 (committed_record reservation rc)) (\<lambda>_ d4.
     (Ok (Done rc updated), d4)))))"

definition admit ::
  "('d, 'x) collapse_port \<Rightarrow> (collapse_stage \<Rightarrow> 'd \<Rightarrow> (cosmon_error + unit) \<times> 'd) \<Rightarrow> bool \<Rightarrow> key_record \<Rightarrow> receipt
     \<Rightarrow> 'x molecule_data \<Rightarrow> 'd \<Rightarrow> (cosmon_error + 'x admission) \<times> 'd" where
  "admit cp hook reserve reservation rc updated d =
     then_do (hook Decided d) (\<lambda>_ d1.
     then_do (if reserve then cp_reserve_key cp d1 reservation else (Ok True, d1)) (\<lambda>created d2.
     if \<not> created
     then (case cp_read_key cp d2 (kr_key reservation) of Inl e \<Rightarrow> (Err e, d2) | Inr r \<Rightarrow> (Ok (Retry r), d2))
     else write_collapse cp hook reservation rc updated d2))"

definition refused :: "request_digest \<Rightarrow> collapse_refusal \<Rightarrow> bool \<Rightarrow> 'x keyed_collapse" where
  "refused g r stuck =
     \<lparr>kc_outcome = refusal_kind r, kc_digest = g, kc_receipt = None, kc_refusal = Some r, kc_announced = False,
      kc_molecule = None, kc_previous_was_stuck = stuck\<rparr>"

definition replayed :: "request_digest \<Rightarrow> receipt \<Rightarrow> bool \<Rightarrow> bool \<Rightarrow> 'x keyed_collapse" where
  "replayed g rc announced stuck =
     \<lparr>kc_outcome = OReplayed, kc_digest = g, kc_receipt = Some rc, kc_refusal = None, kc_announced = announced,
      kc_molecule = None, kc_previous_was_stuck = stuck\<rparr>"

definition transitioned :: "request_digest \<Rightarrow> receipt \<Rightarrow> 'x molecule_data \<Rightarrow> bool \<Rightarrow> 'x keyed_collapse" where
  "transitioned g rc m stuck =
     \<lparr>kc_outcome = OTransitioned, kc_digest = g, kc_receipt = Some rc, kc_refusal = None, kc_announced = True,
      kc_molecule = Some m, kc_previous_was_stuck = stuck\<rparr>"

text \<open>What a round reads besides the key record: everything was loaded before the first round.\<close>

record 'x round_input =
  ri_id :: string
  ri_request :: collapse_request
  ri_cause :: "collapse_cause option"
  ri_condition :: collapse_condition
  ri_digest :: request_digest
  ri_mol :: "'x molecule_data"
  ri_revision :: molecule_revision
  ri_lease :: "string option"
  ri_wall :: datetime

definition round_decision :: "'x round_input \<Rightarrow> key_record option \<Rightarrow> datetime \<Rightarrow> collapse_decision" where
  "round_decision ri kr now =
     decide \<lparr>di_target = ri_id ri, di_condition = ri_condition ri, di_digest = ri_digest ri, di_key_record = kr,
             di_status = md_status (ri_mol ri), di_revision = ri_revision ri,
             di_state_receipt = collapse_receipt (ri_mol ri), di_lease_refusal = ri_lease ri, di_now = now\<rparr>"

fun keyed_rounds ::
  "('d, 'x) collapse_port \<Rightarrow> (collapse_stage \<Rightarrow> 'd \<Rightarrow> (cosmon_error + unit) \<times> 'd) \<Rightarrow> 'x round_input
     \<Rightarrow> datetime list \<Rightarrow> key_record option \<Rightarrow> 'd \<Rightarrow> (collapse_error + 'x keyed_collapse) \<times> 'd \<times> event list" where
  "keyed_rounds cp hook ri [] kr d =
     (Err (ColUnavailable (''collapse key record for '' @ ri_id ri @ '' changed twice during one decision'')), d, [])"
| "keyed_rounds cp hook ri (now # nows) kr d =
     (let i = ri_id ri; g = ri_digest ri; k = cond_key (ri_condition ri); mol = ri_mol ri;
          prev = md_status mol; stuck = was_stuck prev mol
      in case round_decision ri kr now of
           Refuse r \<Rightarrow> (Ok (refused g r stuck), d, [])
         | Replay rc finalize \<Rightarrow>
             if finalize then
               (let rec = (case kr of Some r \<Rightarrow> r | None \<Rightarrow> reserved_record k i g)
                in case cp_commit_key cp d (committed_record rec rc) of
                     (Inl e, d1) \<Rightarrow> (Err (collapse_from_cosmon i e), d1, [])
                   | (Inr _, d1) \<Rightarrow>
                       (let previous = rc_previous_status rc; st = was_stuck previous mol
                        in (Ok (replayed g rc True st), d1, announce (md_id mol) previous st)))
             else (Ok (replayed g rc False False), d, [])
         | Admit reserve \<Rightarrow>
             (let rc = new_receipt k g i prev (ri_revision ri) now;
                  updated = collapsed_record (ri_wall ri) mol (ri_request ri) (ri_cause ri) (Some rc) now
              in case admit cp hook reserve (reserved_record k i g) rc updated d of
                   (Inl e, d1) \<Rightarrow> (Err (collapse_from_cosmon i e), d1, [])
                 | (Inr (Retry kr'), d1) \<Rightarrow> keyed_rounds cp hook ri nows kr' d1
                 | (Inr (Done rc' m), d1) \<Rightarrow>
                     (Ok (transitioned g rc' m stuck), d1, announce (md_id m) prev stuck)))"

definition keyed ::
  "digest_port \<Rightarrow> ('d, 'x) collapse_port \<Rightarrow> ('d \<Rightarrow> string \<Rightarrow> caller_context \<Rightarrow> cosmon_error + string option)
     \<Rightarrow> caller_context \<Rightarrow> string \<Rightarrow> collapse_request \<Rightarrow> collapse_cause option \<Rightarrow> collapse_condition
     \<Rightarrow> datetime \<Rightarrow> (nat \<Rightarrow> datetime) \<Rightarrow> (collapse_stage \<Rightarrow> 'd \<Rightarrow> (cosmon_error + unit) \<times> 'd) \<Rightarrow> 'd
     \<Rightarrow> (collapse_error + 'x keyed_collapse) \<times> 'd \<times> event list" where
  "keyed dp cp authority caller i rq cause c wall clock hook d =
     (case intent_digest dp (request_intent dp rq i c (actor caller)) of
        Inl e \<Rightarrow> (Err (ColUnavailable (contract_error_to_string e)), d, [])
      | Inr g \<Rightarrow>
          (case cp_lock cp d i of
             Inl e \<Rightarrow> (Err (collapse_from_cosmon i e), d, [])
           | Inr _ \<Rightarrow>
               (case cp_read_key cp d (cond_key c) of
                  Inl e \<Rightarrow> (Err (collapse_from_cosmon i e), d, [])
                | Inr kr \<Rightarrow>
                    (case cp_load_revisioned cp d i of
                       Inl e \<Rightarrow> (Err (collapse_from_cosmon i e), d, [])
                     | Inr (mol, revision) \<Rightarrow>
                         (case authority d i caller of
                            Inl e \<Rightarrow> (Err (ColUnavailable (cosmon_to_string e)), d, [])
                          | Inr lease \<Rightarrow>
                              keyed_rounds cp hook
                                \<lparr>ri_id = i, ri_request = rq, ri_cause = cause, ri_condition = c, ri_digest = g,
                                 ri_mol = mol, ri_revision = revision, ri_lease = lease, ri_wall = wall\<rparr>
                                (map clock [0..<2]) kr d)))))"

definition execute_using_clock ::
  "digest_port \<Rightarrow> ('d, 'x) collapse_port \<Rightarrow> ('d \<Rightarrow> string \<Rightarrow> caller_context \<Rightarrow> cosmon_error + string option)
     \<Rightarrow> caller_context \<Rightarrow> string \<Rightarrow> collapse_request \<Rightarrow> collapse_condition option
     \<Rightarrow> datetime \<Rightarrow> (nat \<Rightarrow> datetime) \<Rightarrow> (collapse_stage \<Rightarrow> 'd \<Rightarrow> (cosmon_error + unit) \<times> 'd) \<Rightarrow> 'd
     \<Rightarrow> (execute_error + 'x collapse_outcome) \<times> 'd \<times> event list" where
  "execute_using_clock dp cp authority caller i rq condition wall clock hook d =
     (case parse_cause rq of
        Inl e \<Rightarrow> (Err (ExCollapse e), d, [])
      | Inr cause \<Rightarrow>
          (case condition of
             None \<Rightarrow> unconditional cp authority caller i rq cause wall (clock 0) d
           | Some c \<Rightarrow>
               (case keyed dp cp authority caller i rq cause c wall clock hook d of
                  (Inl e, d', evs) \<Rightarrow> (Err (ExCollapse e), d', evs)
                | (Inr v, d', evs) \<Rightarrow> (Ok (Keyed v), d', evs))))"

definition lookup_receipt ::
  "('d, 'x) collapse_port \<Rightarrow> 'd \<Rightarrow> string \<Rightarrow> idempotency_key \<Rightarrow> collapse_error + receipt_lookup" where
  "lookup_receipt cp d i k =
     and_then (map_err (collapse_from_cosmon i) (cp_read_key cp d k)) (\<lambda>r.
     and_then (map_err (collapse_from_cosmon i) (sp_load (cp_store cp) d i)) (\<lambda>mol.
     Ok (classify_lookup i k r (md_status mol) (collapse_receipt mol))))"

definition current_revision :: "('d, 'x) collapse_port \<Rightarrow> 'd \<Rightarrow> string \<Rightarrow> collapse_error + molecule_revision" where
  "current_revision cp d i =
     and_then (map_err (collapse_from_cosmon i) (cp_load_revisioned cp d i)) (\<lambda>(_, r). Ok r)"

section \<open>What the keyed collapse needs of the store\<close>

text \<open>
  \<open>mol\<close> and \<open>rec\<close> are the molecules and key records as they stand, whether or not a read succeeds
  now; \<open>own\<close> says that the file of a key is free or the key's own.  A call that fails may or may
  not have taken effect.
\<close>

locale keyed_store =
  fixes cp :: "('d, 'x) collapse_port"
    and wf :: "'d \<Rightarrow> bool"
    and mol :: "'d \<Rightarrow> string \<Rightarrow> 'x molecule_data option"
    and rec :: "'d \<Rightarrow> idempotency_key \<Rightarrow> key_record option"
    and own :: "'d \<Rightarrow> idempotency_key \<Rightarrow> bool"
  assumes load_mol: "sp_load (cp_store cp) d i = Ok m \<Longrightarrow> mol d i = Some m"
    and load_rev: "cp_load_revisioned cp d i = Ok (m, rv) \<Longrightarrow> mol d i = Some m"
    and mol_id: "wf d \<Longrightarrow> mol d i = Some m \<Longrightarrow> md_id m = i"
    and read_key: "cp_read_key cp d k = Ok x \<Longrightarrow> x = rec d k \<and> own d k"
    and rec_own: "rec d k = Some r \<Longrightarrow> own d k \<and> kr_key r = k"
    and reserve: "cp_reserve_key cp d r = (created, d') \<Longrightarrow> mol d' = mol d \<and> (wf d \<longrightarrow> wf d') \<and>
      (rec d' = rec d \<or> rec d (kr_key r) = None \<and> rec d' = (rec d)(kr_key r \<mapsto> r)) \<and>
      (created = Ok True \<longrightarrow> rec d' (kr_key r) = Some r)"
    and commit: "own d (kr_key r) \<Longrightarrow> cp_commit_key cp d r = (res, d') \<Longrightarrow> mol d' = mol d \<and> (wf d \<longrightarrow> wf d') \<and>
      (rec d' = rec d \<or> rec d' = (rec d)(kr_key r \<mapsto> r)) \<and> (res = Ok () \<longrightarrow> rec d' (kr_key r) = Some r)"
    and save: "wf d \<Longrightarrow> mol d i = Some c \<Longrightarrow> md_id m = i \<Longrightarrow> fleet_id m = fleet_id c \<Longrightarrow>
      cp_save_durable cp d i m = (res, d') \<Longrightarrow> rec d' = rec d \<and> wf d' \<and>
      (mol d' = mol d \<or> mol d' = (mol d)(i \<mapsto> m) \<and> \<not> leaves_collapsed c m) \<and>
      (res = Ok () \<longrightarrow> mol d' = (mol d)(i \<mapsto> m) \<and> \<not> leaves_collapsed c m)"
begin

definition carries :: "'d \<Rightarrow> string \<Rightarrow> receipt option \<Rightarrow> bool" where
  "carries d i rc \<longleftrightarrow> (\<exists>c. mol d i = Some c \<and> md_status c = Collapsed \<and> collapse_receipt c = rc)"

definition record_ok :: "'d \<Rightarrow> key_record \<Rightarrow> bool" where
  "record_ok d r \<longleftrightarrow>
     (kr_phase r = Reserved \<longrightarrow> kr_receipt r = None) \<and>
     (kr_phase r = Committed \<longrightarrow>
        (\<exists>rc. kr_receipt r = Some rc \<and> rc_key rc = kr_key r \<and> rc_digest rc = kr_digest r \<and>
           carries d (kr_molecule r) (Some rc)))"

definition sealed :: "'d \<Rightarrow> string \<Rightarrow> receipt \<Rightarrow> bool" where
  "sealed d i rc \<longleftrightarrow> (\<exists>r. rec d (rc_key rc) = Some r \<and> kr_molecule r = i \<and> kr_digest r = rc_digest rc)"

definition ledger_ok :: "'d \<Rightarrow> bool" where
  "ledger_ok d \<longleftrightarrow> wf d \<and>
     (\<forall>i c rc. mol d i = Some c \<longrightarrow> collapse_receipt c = Some rc \<longrightarrow> md_status c = Collapsed \<and> sealed d i rc) \<and>
     (\<forall>k r. rec d k = Some r \<longrightarrow> record_ok d r)"

definition grows :: "'d \<Rightarrow> 'd \<Rightarrow> bool" where
  "grows d d' \<longleftrightarrow>
     (\<forall>i c. mol d i = Some c \<longrightarrow> (\<exists>c'. mol d' i = Some c' \<and> fleet_id c' = fleet_id c)) \<and>
     (\<forall>i rc. carries d i rc \<longrightarrow> carries d' i rc) \<and>
     (\<forall>k r. rec d k = Some r \<longrightarrow>
        (\<exists>r'. rec d' k = Some r' \<and> kr_molecule r' = kr_molecule r \<and> kr_digest r' = kr_digest r \<and>
          (kr_phase r = Committed \<longrightarrow> kr_phase r' = Committed \<and> kr_receipt r' = kr_receipt r)))"

text \<open>One guarantee for every operation: it keeps the ledger consistent and only adds to it.\<close>

definition advances :: "'d \<Rightarrow> 'd \<Rightarrow> bool" where
  "advances d d' \<longleftrightarrow> (ledger_ok d \<longrightarrow> ledger_ok d' \<and> grows d d')"

lemma growsD:
  assumes "grows d d'"
  shows "mol d i = Some c \<Longrightarrow> \<exists>c'. mol d' i = Some c' \<and> fleet_id c' = fleet_id c"
    and "carries d i rc \<Longrightarrow> carries d' i rc"
    and "rec d k = Some r \<Longrightarrow> \<exists>r'. rec d' k = Some r' \<and> kr_molecule r' = kr_molecule r \<and> kr_digest r' = kr_digest r \<and>
          (kr_phase r = Committed \<longrightarrow> kr_phase r' = Committed \<and> kr_receipt r' = kr_receipt r)"
  using assms unfolding grows_def by blast+

lemma ledger_okD:
  assumes "ledger_ok d"
  shows "wf d"
    and "mol d i = Some c \<Longrightarrow> collapse_receipt c = Some rc \<Longrightarrow> carries d i (Some rc)"
    and "rec d k = Some r \<Longrightarrow> record_ok d r"
    and "mol d i = Some c \<Longrightarrow> collapse_receipt c = Some rc \<Longrightarrow> sealed d i rc"
  using assms unfolding ledger_ok_def carries_def by blast+

lemma grows_refl [simp]: "grows d d"
  by (simp add: grows_def)

lemma grows_trans:
  assumes "grows a b" and "grows b c"
  shows "grows a c"
  unfolding grows_def
proof (intro conjI allI impI)
  show "\<exists>c'. mol c i = Some c' \<and> fleet_id c' = fleet_id x" if "mol a i = Some x" for i x
    using growsD(1)[OF assms(1) that] growsD(1)[OF assms(2), of i] by metis
  show "carries c i rc" if "carries a i rc" for i rc
    using growsD(2)[OF assms(2)] growsD(2)[OF assms(1)] that by blast
  fix k r
  assume "rec a k = Some r"
  then obtain r1 where r1: "rec b k = Some r1" "kr_molecule r1 = kr_molecule r" "kr_digest r1 = kr_digest r"
    "kr_phase r = Committed \<longrightarrow> kr_phase r1 = Committed \<and> kr_receipt r1 = kr_receipt r" using growsD(3)[OF assms(1)] by blast
  then obtain r2 where "rec c k = Some r2" "kr_molecule r2 = kr_molecule r1" "kr_digest r2 = kr_digest r1"
    "kr_phase r1 = Committed \<longrightarrow> kr_phase r2 = Committed \<and> kr_receipt r2 = kr_receipt r1" using growsD(3)[OF assms(2)] by blast
  then show "\<exists>r'. rec c k = Some r' \<and> kr_molecule r' = kr_molecule r \<and> kr_digest r' = kr_digest r \<and>
      (kr_phase r = Committed \<longrightarrow> kr_phase r' = Committed \<and> kr_receipt r' = kr_receipt r)" using r1 by auto
qed

lemma advances_refl [simp]: "advances d d"
  by (simp add: advances_def)

lemma advances_trans: "advances a b \<Longrightarrow> advances b c \<Longrightarrow> advances a c"
  unfolding advances_def using grows_trans by blast

lemma carries_unique: "carries d i a \<Longrightarrow> carries d i b \<Longrightarrow> a = b"
  by (auto simp: carries_def)

lemma record_ok_mono: "record_ok d r \<Longrightarrow> (\<And>i rc. carries d i rc \<Longrightarrow> carries d' i rc) \<Longrightarrow> record_ok d' r"
  unfolding record_ok_def by blast

text \<open>Writing one key record, and writing one molecule.\<close>

lemma advances_key_write:
  assumes "mol d' = mol d" and "wf d \<longrightarrow> wf d'" and "rec d' = rec d \<or> rec d' = (rec d)(kr_key r \<mapsto> r)"
    and "ledger_ok d \<Longrightarrow> record_ok d r"
    and "ledger_ok d \<Longrightarrow> \<forall>r0. rec d (kr_key r) = Some r0 \<longrightarrow> kr_molecule r = kr_molecule r0 \<and> kr_digest r = kr_digest r0 \<and>
      (kr_phase r0 = Committed \<longrightarrow> kr_phase r = Committed \<and> kr_receipt r = kr_receipt r0)"
  shows "advances d d'"
  unfolding advances_def
proof (intro impI conjI)
  assume ok: "ledger_ok d"
  have c: "carries d' = carries d" using assms(1) by (simp add: carries_def fun_eq_iff)
  have "record_ok d' = record_ok d" by (simp add: record_ok_def c fun_eq_iff)
  moreover have "sealed d' i rc" if "sealed d i rc" for i rc
    using that assms(3) assms(5)[OF ok] by (auto simp: sealed_def)
  ultimately show "ledger_ok d'"
    using ok assms(1-4) unfolding ledger_ok_def by (auto split: if_splits)
  show "grows d d'" unfolding grows_def c assms(1)
    using assms(3) assms(5)[OF ok] by (auto split: if_splits)
qed

lemma advances_same: "mol d' = mol d \<Longrightarrow> rec d' = rec d \<Longrightarrow> wf d \<longrightarrow> wf d' \<Longrightarrow> advances d d'"
  unfolding advances_def ledger_ok_def record_ok_def grows_def carries_def sealed_def by simp

lemma advances_molecule_write:
  assumes "rec d' = rec d" and "wf d'" and "mol d i = Some c" and "fleet_id m = fleet_id c"
    and "mol d' = mol d \<or> mol d' = (mol d)(i \<mapsto> m) \<and> \<not> leaves_collapsed c m"
    and "ledger_ok d \<Longrightarrow> \<forall>rc. collapse_receipt m = Some rc \<longrightarrow> md_status m = Collapsed \<and> sealed d i rc"
  shows "advances d d'"
  unfolding advances_def
proof (intro impI conjI)
  assume ok: "ledger_ok d"
  have c: "carries d j rc \<Longrightarrow> carries d' j rc" for j rc
    using assms(3,5) by (auto simp: carries_def leaves_collapsed_def)
  show "ledger_ok d'"
    unfolding ledger_ok_def
  proof (intro conjI allI impI)
    have "sealed d' = sealed d" by (simp add: sealed_def assms(1) fun_eq_iff)
    then show "md_status x = Collapsed" "sealed d' j rc" if "mol d' j = Some x" "collapse_receipt x = Some rc" for j x rc
      using that assms(5) assms(6)[OF ok] ok by (auto simp: ledger_ok_def split: if_splits)
    show "record_ok d' r" if "rec d' k = Some r" for k r
      using record_ok_mono[of d r d'] c ledger_okD(3)[OF ok] that assms(1) by simp
  qed (fact assms(2))
  show "grows d d'" unfolding grows_def using c assms(1,3,4,5) by (auto split: if_splits)
qed

text \<open>
  From the reservation to the commit, with interference at the seams: the operation keeps the
  guarantee, and when it reports success the molecule carries the receipt and the key is committed.
\<close>

lemma write_collapse_advances:
  assumes hook: "\<And>s e. advances e (snd (hook s e))" and ok: "ledger_ok d"
    and c: "mol d i = Some c" and m: "md_id m = i" "fleet_id m = fleet_id c" "md_status m = Collapsed"
    and rc: "collapse_receipt m = Some rc" "rc_key rc = kr_key r" "rc_digest rc = kr_digest r"
    and r: "kr_molecule r = i"
    and bound: "rec d (kr_key r) = Some r0" "kr_molecule r0 = i" "kr_digest r0 = kr_digest r"
    and run: "write_collapse cp hook r rc m d = (res, d')"
  shows "advances d d'"
    and "res = Ok x \<Longrightarrow> x = Done rc m \<and> carries d' i (Some rc) \<and> rec d' (kr_key r) = Some (committed_record r rc)"
proof -
  obtain h1 d1 where h1: "hook StageReserved d = (h1, d1)" by fastforce
  obtain sv d2 where sv: "cp_save_durable cp d1 i m = (sv, d2)" by fastforce
  obtain h2 d3 where h2: "hook StateSaved d2 = (h2, d3)" by fastforce
  obtain cm d4 where cm: "cp_commit_key cp d3 (committed_record r rc) = (cm, d4)" by fastforce
  have a1: "advances d d1" using hook[of d StageReserved] h1 by simp
  then have ok1: "ledger_ok d1" and g1: "grows d d1" using ok by (auto simp: advances_def)
  obtain c1 where c1: "mol d1 i = Some c1" "fleet_id c1 = fleet_id c" using growsD(1)[OF g1 c] by blast
  have fl: "fleet_id m = fleet_id c1" using m(2) c1(2) by simp
  note S = save[OF ledger_okD(1)[OF ok1] c1(1) m(1) fl sv]
  have sl: "\<forall>rc'. collapse_receipt m = Some rc' \<longrightarrow> md_status m = Collapsed \<and> sealed d1 i rc'"
    using growsD(3)[OF g1 bound(1)] bound(2,3) rc m(3) by (auto simp: sealed_def)
  have a2: "advances d1 d2"
    by (rule advances_molecule_write[OF _ _ c1(1) fl]) (use S m(3) sl in auto)
  then have ok2: "ledger_ok d2" and g2: "grows d1 d2" using ok1 by (auto simp: advances_def)
  have a3: "advances d2 d3" using hook[of d2 StateSaved] h2 by simp
  then have ok3: "ledger_ok d3" and g3: "grows d2 d3" using ok2 by (auto simp: advances_def)
  have g: "grows d d3" using g1 g2 g3 grows_trans by blast
  obtain r3 where r3: "rec d3 (kr_key r) = Some r3" "kr_molecule r3 = i" "kr_digest r3 = kr_digest r"
    using growsD(3)[OF g bound(1)] bound(2,3) by auto
  have cr: "kr_key (committed_record r rc) = kr_key r" "kr_molecule (committed_record r rc) = i"
    "kr_digest (committed_record r rc) = kr_digest r" "kr_phase (committed_record r rc) = Committed"
    "kr_receipt (committed_record r rc) = Some rc"
    using r by (simp_all add: committed_record_def)
  have saved: "carries d3 i (Some rc)" if "sv = Ok ()"
    using S that m(3) rc(1) growsD(2)[OF g3] by (auto simp: carries_def)
  have a4: "advances d3 d4" if "sv = Ok ()"
  proof (rule advances_key_write)
    have "own d3 (kr_key (committed_record r rc))" using rec_own[OF r3(1)] cr by simp
    note C = commit[OF this cm]
    show "mol d4 = mol d3" "wf d3 \<longrightarrow> wf d4"
      "rec d4 = rec d3 \<or> rec d4 = (rec d3)(kr_key (committed_record r rc) \<mapsto> committed_record r rc)" using C by blast+
    show "record_ok d3 (committed_record r rc)" using saved[OF that] cr rc by (simp add: record_ok_def)
    show "\<forall>r0. rec d3 (kr_key (committed_record r rc)) = Some r0 \<longrightarrow>
        kr_molecule (committed_record r rc) = kr_molecule r0 \<and> kr_digest (committed_record r rc) = kr_digest r0 \<and>
        (kr_phase r0 = Committed \<longrightarrow> kr_phase (committed_record r rc) = Committed \<and>
           kr_receipt (committed_record r rc) = kr_receipt r0)"
    proof (intro allI impI conjI)
      fix r0
      assume "rec d3 (kr_key (committed_record r rc)) = Some r0"
      then have r0: "r0 = r3" using r3 cr by simp
      show "kr_molecule (committed_record r rc) = kr_molecule r0" "kr_digest (committed_record r rc) = kr_digest r0"
        "kr_phase (committed_record r rc) = Committed"
        using r0 r3 cr by simp_all
      assume "kr_phase r0 = Committed"
      then obtain rc' where "kr_receipt r0 = Some rc'" "carries d3 i (Some rc')"
        using ledger_okD(3)[OF ok3 r3(1)] r0 r3(2) by (auto simp: record_ok_def)
      then show "kr_receipt (committed_record r rc) = kr_receipt r0"
        using carries_unique[OF saved[OF that]] cr by fastforce
    qed
  qed
  have b: "advances d d2" "advances d d3" using a1 a2 a3 advances_trans by blast+
  have "sv = Ok () \<Longrightarrow> advances d d4" using a4 b(2) advances_trans by blast
  then show "advances d d'"
    using run a1 b
    by (auto simp: write_collapse_def then_do_def m(1) h1 sv h2 cm split: sum.splits)
  assume "res = Ok x"
  then have "sv = Ok ()" "cm = Ok ()" "x = Done rc m" "d' = d4"
    using run by (auto simp: write_collapse_def then_do_def m(1) h1 sv h2 cm split: sum.splits)
  moreover have "own d3 (kr_key (committed_record r rc))" using rec_own[OF r3(1)] cr by simp
  from commit[OF this cm] have "mol d4 = mol d3" "cm = Ok () \<longrightarrow> rec d4 (kr_key r) = Some (committed_record r rc)"
    using cr by auto
  ultimately show "x = Done rc m \<and> carries d' i (Some rc) \<and> rec d' (kr_key r) = Some (committed_record r rc)"
    using saved by (simp add: carries_def)
qed

definition committed :: "'d \<Rightarrow> idempotency_key \<Rightarrow> bool" where
  "committed d k \<longleftrightarrow> (\<exists>r. rec d k = Some r \<and> kr_phase r = Committed)"

definition settled :: "'d \<Rightarrow> idempotency_key \<Rightarrow> string \<Rightarrow> request_digest \<Rightarrow> bool" where
  "settled d k i g \<longleftrightarrow> (\<exists>r. rec d k = Some r \<and> kr_phase r = Committed \<and> kr_molecule r = i \<and> kr_digest r = g)"

lemma settled_committed: "settled d k i g \<Longrightarrow> committed d k"
  by (auto simp: settled_def committed_def)

lemma settled_mono: "grows d d' \<Longrightarrow> settled d k i g \<Longrightarrow> settled d' k i g"
  unfolding settled_def using growsD(3) by metis

lemma admit_advances:
  assumes hook: "\<And>s e. advances e (snd (hook s e))" and ok: "ledger_ok d"
    and c: "mol d i = Some c" and m: "md_id m = i" "fleet_id m = fleet_id c" "md_status m = Collapsed"
    and rc: "collapse_receipt m = Some rc" "rc_key rc = k" "rc_digest rc = g"
    and bound: "reserve \<or> (\<exists>r0. rec d k = Some r0 \<and> kr_molecule r0 = i \<and> kr_digest r0 = g)"
    and run: "admit cp hook reserve (reserved_record k i g) rc m d = (res, d')"
  shows "advances d d'"
    and "res = Ok (Done rc' m') \<Longrightarrow> rc' = rc \<and> m' = m \<and> carries d' i (Some rc) \<and>
      settled d' k i g"
    and "res = Ok (Retry kr) \<Longrightarrow> kr = rec d' k \<and> own d' k"
proof -
  let ?r = "reserved_record k i g"
  have r: "kr_key ?r = k" "kr_molecule ?r = i" "kr_digest ?r = g" "kr_phase ?r = Reserved" "kr_receipt ?r = None"
    by (simp_all add: reserved_record_def)
  obtain h1 d1 where h1: "hook Decided d = (h1, d1)" by fastforce
  have a1: "advances d d1" using hook[of d Decided] h1 by simp
  then have ok1: "ledger_ok d1" and g1: "grows d d1" using ok by (auto simp: advances_def)
  obtain rv d2 where rv: "(if reserve then cp_reserve_key cp d1 ?r else (Ok True, d1)) = (rv, d2)" by fastforce
  have R: "mol d2 = mol d1" "wf d1 \<longrightarrow> wf d2" "rec d2 = rec d1 \<or> rec d1 k = None \<and> rec d2 = (rec d1)(k \<mapsto> ?r)"
    "reserve \<and> rv = Ok True \<longrightarrow> rec d2 k = Some ?r"
    using rv reserve[of d1 ?r rv d2] r by (auto split: if_splits)
  have a2: "advances d1 d2"
  proof (cases "rec d2 = rec d1")
    case False
    then show ?thesis
      by (intro advances_key_write[where r = ?r]) (use R r in \<open>auto simp: record_ok_def\<close>)
  qed (use R advances_same in blast)
  then have ok2: "ledger_ok d2" and g2: "grows d d2" using ok1 g1 grows_trans by (auto simp: advances_def)
  have bound2: "\<exists>r0. rec d2 k = Some r0 \<and> kr_molecule r0 = i \<and> kr_digest r0 = g" if "rv = Ok True"
  proof (cases reserve)
    case True
    then show ?thesis using R(4) that r by auto
  next
    case False
    then obtain r0 where "rec d k = Some r0" "kr_molecule r0 = i" "kr_digest r0 = g" using bound by blast
    then show ?thesis using growsD(3)[OF g2] by metis
  qed
  obtain c2 where c2: "mol d2 i = Some c2" "fleet_id m = fleet_id c2" using growsD(1)[OF g2 c] m(2) by metis
  have a12: "advances d d2" using a1 a2 advances_trans by blast
  have W: "advances d2 d3 \<and> (w = Ok x \<longrightarrow> x = Done rc m \<and> carries d3 i (Some rc) \<and> rec d3 k = Some (committed_record ?r rc))"
    if w: "write_collapse cp hook ?r rc m d2 = (w, d3)" and rv: "rv = Ok True" for w d3 x
  proof -
    obtain r0 where "rec d2 (kr_key ?r) = Some r0" "kr_molecule r0 = i" "kr_digest r0 = kr_digest ?r"
      using bound2[OF rv] r by auto
    from write_collapse_advances[OF hook ok2 c2(1) m(1) c2(2) m(3) rc(1) _ _ r(2) this w] rc r
    show ?thesis by auto
  qed
  have run': "(res, d') = (case h1 of Inl e \<Rightarrow> (Inl e, d1) | Inr _ \<Rightarrow>
      (case rv of Inl e \<Rightarrow> (Inl e, d2) | Inr created \<Rightarrow>
        if \<not> created then (case cp_read_key cp d2 k of Inl e \<Rightarrow> (Err e, d2) | Inr r \<Rightarrow> (Ok (Retry r), d2))
        else write_collapse cp hook ?r rc m d2))"
    using run h1 rv r(1) by (auto simp: admit_def then_do_def split: sum.splits)
  show "advances d d'"
  proof (cases "\<exists>e. h1 = Inl e")
    case True
    then show ?thesis using run' a1 by auto
  next
    case False
    show ?thesis
    proof (cases "rv = Ok True")
      case True
      obtain w d3 where w: "write_collapse cp hook ?r rc m d2 = (w, d3)" by fastforce
      then have "d' = d3" using run' True False by (auto split: sum.splits)
      then show ?thesis using W[OF w True] a12 advances_trans by blast
    next
      case no: False
      then have "d' = d2" using run' False by (auto split: sum.splits if_splits)
      then show ?thesis using a12 by simp
    qed
  qed
  show "res = Ok (Done rc' m') \<Longrightarrow> rc' = rc \<and> m' = m \<and> carries d' i (Some rc) \<and>
      settled d' k i g"
    using run' W[of res d' "Done rc' m'"] r
    by (auto simp: committed_record_def settled_def split: sum.splits if_splits)
  show "res = Ok (Retry kr) \<Longrightarrow> kr = rec d' k \<and> own d' k"
    using run' W[of res d' "Retry kr"] read_key[of d2 k] by (auto split: sum.splits if_splits)
qed

text \<open>What a keyed call that returned promises: \<open>live\<close> says the molecule was found in a live status.\<close>

definition keyed_post :: "string \<Rightarrow> idempotency_key \<Rightarrow> request_digest \<Rightarrow> bool \<Rightarrow> 'd \<Rightarrow> 'x keyed_collapse \<Rightarrow> 'd \<Rightarrow> event list \<Rightarrow> bool" where
  "keyed_post i k g live d v d' evs \<longleftrightarrow>
     kc_digest v = g \<and>
     (outcome_is_success (kc_outcome v) \<longleftrightarrow> kc_receipt v \<noteq> None) \<and>
     (kc_receipt v = None \<longleftrightarrow> kc_refusal v \<noteq> None) \<and>
     (\<forall>rc. kc_receipt v = Some rc \<longrightarrow>
        carries d' i (Some rc) \<and> settled d' k i g \<and> rc_key rc = k \<and> rc_digest rc = g) \<and>
     (kc_outcome v = OTransitioned \<longrightarrow> live \<and> kc_announced v) \<and>
     (kc_announced v \<longrightarrow> \<not> committed d k \<and> kc_receipt v \<noteq> None) \<and> (evs \<noteq> [] \<longleftrightarrow> kc_announced v)"

lemma committed_mono: "grows d d' \<Longrightarrow> committed d k \<Longrightarrow> committed d' k"
  unfolding committed_def using growsD(3) by blast

lemma keyed_post_mono:
  assumes "keyed_post i k g live d1 v d' evs" and "grows d d1"
  shows "keyed_post i k g live d v d' evs"
  using assms(1) committed_mono[OF assms(2), of k] by (auto simp: keyed_post_def)

lemma refused_post: "keyed_post i k g live d (refused g r stuck) d' []"
  by (cases r) (simp_all add: keyed_post_def refused_def outcome_is_success_def)

text \<open>The two branches of a round that write.\<close>

lemma finalize_advances:
  assumes ok: "ledger_ok d" and kr: "kr = rec d k" "own d k"
    and nr: "\<forall>r. kr = Some r \<longrightarrow> kr_molecule r = i \<and> kr_digest r = g \<and> kr_phase r \<noteq> Committed"
    and rc: "carries d i (Some rc)" "rc_key rc = k" "rc_digest rc = g"
    and run: "cp_commit_key cp d (committed_record (case kr of Some r \<Rightarrow> r | None \<Rightarrow> reserved_record k i g) rc) = (res, d')"
  shows "advances d d'" and "res = Ok () \<Longrightarrow> carries d' i (Some rc) \<and> settled d' k i g \<and> \<not> committed d k"
proof -
  let ?r = "committed_record (case kr of Some r \<Rightarrow> r | None \<Rightarrow> reserved_record k i g) rc"
  have r: "kr_key ?r = k" "kr_molecule ?r = i" "kr_digest ?r = g" "kr_phase ?r = Committed" "kr_receipt ?r = Some rc"
    using nr rec_own[of d k] kr(1)[symmetric]
    by (cases kr; simp add: committed_record_def reserved_record_def)+
  have "own d (kr_key ?r)" using kr(2) r by simp
  note C = commit[OF this run]
  show "advances d d'"
    by (rule advances_key_write[where r = ?r]) (use C r rc kr nr in \<open>auto simp: record_ok_def\<close>)
  show "res = Ok () \<Longrightarrow> carries d' i (Some rc) \<and> settled d' k i g \<and> \<not> committed d k"
    using C r rc(1) kr(1) nr by (auto simp: carries_def committed_def settled_def)
qed

lemma replayed_receipt:
  assumes ok: "ledger_ok d" and kr: "di_key_record x = rec d (cond_key (di_condition x))"
    and nr: "key_reused x = None" and rp: "replay_of x = Some (rc, fin)"
    and snap: "\<And>rc. di_state_receipt x = Some rc \<Longrightarrow> carries d (di_target x) (Some rc)"
  shows "carries d (di_target x) (Some rc) \<and> rc_key rc = cond_key (di_condition x) \<and> rc_digest rc = di_digest x"
  using rp unfolding replay_of_Some_iff
proof (elim disjE conjE exE)
  assume "di_state_receipt x = Some rc" "rc_key rc = cond_key (di_condition x)"
  then show ?thesis using snap nr by (auto simp: key_reused_None_iff)
next
  fix r
  assume r: "di_key_record x = Some r" "kr_phase r = Committed" "kr_receipt r = Some rc"
  then have "rec d (cond_key (di_condition x)) = Some r" using kr by simp
  from rec_own[OF this] ledger_okD(3)[OF ok this] r nr show ?thesis
    by (auto simp: record_ok_def key_reused_None_iff)
qed

lemma not_committed:
  assumes ok: "ledger_ok d" and kr: "di_key_record x = rec d (cond_key (di_condition x))" and rp: "replay_of x = None"
  shows "\<not> committed d (cond_key (di_condition x))"
proof
  assume "committed d (cond_key (di_condition x))"
  then obtain r where r: "rec d (cond_key (di_condition x)) = Some r" "kr_phase r = Committed"
    by (auto simp: committed_def)
  then obtain rc where "kr_receipt r = Some rc" using ledger_okD(3)[OF ok r(1)] by (auto simp: record_ok_def)
  then show False using rp r kr by (auto simp: replay_of_def split: option.splits)
qed

lemma keyed_rounds_advances:
  assumes hook: "\<And>s e. advances e (snd (hook s e))" and ok: "ledger_ok d"
    and i: "i = ri_id ri" and k: "k = cond_key (ri_condition ri)" and g: "g = ri_digest ri"
    and m: "md_id (ri_mol ri) = i" and c: "mol d i = Some c" "fleet_id (ri_mol ri) = fleet_id c"
    and snap: "\<And>rc. collapse_receipt (ri_mol ri) = Some rc \<Longrightarrow> carries d i (Some rc)"
    and kr: "kr = rec d k" "own d k"
    and run: "keyed_rounds cp hook ri nows kr d = (res, d', evs)"
  shows "advances d d' \<and>
    (\<forall>v. res = Ok v \<longrightarrow> keyed_post i k g (md_status (ri_mol ri) = collapsible (expect_status (ri_condition ri))) d v d' evs) \<and>
    (\<forall>e. res = Err e \<longrightarrow> evs = [])"
  using ok c kr snap run
proof (induction nows arbitrary: kr d c)
  case Nil
  then show ?case by auto
next
  case (Cons now nows)
  let ?live = "md_status (ri_mol ri) = collapsible (expect_status (ri_condition ri))"
  let ?in = "\<lparr>di_target = ri_id ri, di_condition = ri_condition ri, di_digest = ri_digest ri, di_key_record = kr,
             di_status = md_status (ri_mol ri), di_revision = ri_revision ri,
             di_state_receipt = collapse_receipt (ri_mol ri), di_lease_refusal = ri_lease ri, di_now = now\<rparr>"
  have dec: "round_decision ri kr now = decide ?in" by (simp add: round_decision_def)
  show ?case
  proof (cases "round_decision ri kr now")
    case (Refuse r)
    then have "res = Ok (refused g r (was_stuck (md_status (ri_mol ri)) (ri_mol ri)))" "d' = d" "evs = []"
      using Cons.prems(7) g by (auto simp: Let_def)
    then show ?thesis using refused_post by simp
  next
    case (Replay rc fin)
    then have nr: "key_reused ?in = None" and rp: "replay_of ?in = Some (rc, fin)"
      unfolding dec decide_Replay_iff by auto
    have bound: "\<forall>r. kr = Some r \<longrightarrow> kr_molecule r = i \<and> kr_digest r = g"
      using nr i g by (auto simp: key_reused_None_iff)
    have rc: "carries d i (Some rc)" "rc_key rc = k" "rc_digest rc = g"
      using replayed_receipt[OF Cons.prems(1) _ nr rp] Cons.prems(4,6) i k g by auto
    show ?thesis
    proof (cases fin)
      case True
      then have nc: "\<forall>r. kr = Some r \<longrightarrow> kr_phase r \<noteq> Committed"
        using rp by (auto simp: replay_of_Some_iff)
      obtain cr d1 where cr: "cp_commit_key cp d
          (committed_record (case kr of Some r \<Rightarrow> r | None \<Rightarrow> reserved_record k i g) rc) = (cr, d1)" by fastforce
      note F = finalize_advances[OF Cons.prems(1,4,5) _ rc cr]
      show ?thesis
        using F bound nc Cons.prems(7) Replay True cr rc(2,3) i k g
        by (auto simp: Let_def keyed_post_def replayed_def outcome_is_success_def announce_def split: sum.splits)
    next
      case False
      then have "settled d k i g"
        using rp bound Cons.prems(4) i k g by (auto simp: replay_of_Some_iff settled_def split: option.splits)
      then show ?thesis using Cons.prems(7) Replay rc g False
        by (auto simp: Let_def keyed_post_def replayed_def outcome_is_success_def)
    qed
  next
    case (Admit reserve)
    let ?rc = "new_receipt k g i (md_status (ri_mol ri)) (ri_revision ri) now"
    let ?m = "collapsed_record (ri_wall ri) (ri_mol ri) (ri_request ri) (ri_cause ri) (Some ?rc) now"
    have ad: "reserve = (kr = None)" "key_reused ?in = None" "replay_of ?in = None" ?live
      using Admit[unfolded dec decide_Admit_iff decision_input.simps] by blast+
    have m': "md_id ?m = i" "fleet_id ?m = fleet_id c" "md_status ?m = Collapsed" "collapse_receipt ?m = Some ?rc"
      using m Cons.prems(3) by (simp_all add: collapsed_record_def release_process_def Let_def)
    have rc: "rc_key ?rc = k" "rc_digest ?rc = g" by (simp_all add: new_receipt_def)
    have bound: "reserve \<or> (\<exists>r0. rec d k = Some r0 \<and> kr_molecule r0 = i \<and> kr_digest r0 = g)"
      using ad(1,2) Cons.prems(4) i g by (auto simp: key_reused_None_iff)
    have nc: "\<not> committed d k"
      using not_committed[OF Cons.prems(1) _ ad(3)] Cons.prems(4) k by simp
    obtain ar d1 where ar: "admit cp hook reserve (reserved_record k i g) ?rc ?m d = (ar, d1)" by fastforce
    note A = admit_advances[OF hook Cons.prems(1,2) m' rc bound ar]
    have ok1: "ledger_ok d1" and g1: "grows d d1" using A(1) Cons.prems(1) by (auto simp: advances_def)
    show ?thesis
    proof (cases "\<exists>kr'. ar = Ok (Retry kr')")
      case True
      then obtain kr' where kr': "ar = Ok (Retry kr')" by blast
      obtain c1 where c1: "mol d1 i = Some c1" "fleet_id (ri_mol ri) = fleet_id c1"
        using growsD(1)[OF g1 Cons.prems(2)] Cons.prems(3) by metis
      have run: "keyed_rounds cp hook ri nows kr' d1 = (res, d', evs)"
        using Cons.prems(7) Admit ar kr' i k g by (simp add: Let_def)
      have "carries d1 i (Some rc)" if "collapse_receipt (ri_mol ri) = Some rc" for rc
        using Cons.prems(6)[OF that] growsD(2)[OF g1] by blast
      from Cons.IH[OF ok1 c1 _ _ this run] A(3)[OF kr'] show ?thesis
        using advances_trans[OF A(1)] keyed_post_mono[OF _ g1] by blast
    next
      case False
      then have "(\<exists>e. ar = Err e \<and> res = Err (collapse_from_cosmon i e) \<and> d' = d1 \<and> evs = []) \<or>
          (\<exists>rc' m''. ar = Ok (Done rc' m'') \<and> d' = d1 \<and>
            res = Ok (transitioned g rc' m'' (was_stuck (md_status (ri_mol ri)) (ri_mol ri))) \<and>
            evs = announce (md_id m'') (md_status (ri_mol ri)) (was_stuck (md_status (ri_mol ri)) (ri_mol ri)))"
        using Cons.prems(7) Admit ar i k g by (auto simp: Let_def split: sum.splits admission.splits)
      then show ?thesis
      proof (elim disjE exE conjE)
        fix rc' m''
        assume a: "ar = Ok (Done rc' m'')" "d' = d1"
          "res = Ok (transitioned g rc' m'' (was_stuck (md_status (ri_mol ri)) (ri_mol ri)))"
          "evs = announce (md_id m'') (md_status (ri_mol ri)) (was_stuck (md_status (ri_mol ri)) (ri_mol ri))"
        have "rc' = ?rc" "carries d1 i (Some ?rc)" "settled d1 k i g"
          using A(2)[OF a(1)] by auto
        then show ?thesis using a A(1) ad(4) nc rc
          by (simp add: keyed_post_def transitioned_def outcome_is_success_def announce_def)
      qed (use A(1) in auto)
    qed
  qed
qed

theorem keyed_guarantee:
  assumes hook: "\<And>s e. advances e (snd (hook s e))" and ok: "ledger_ok d"
    and run: "keyed dp cp authority caller i rq cause c wall clock hook d = (res, d', evs)"
  shows "advances d d'" and "res = Err e \<Longrightarrow> evs = []"
    and "res = Ok v \<Longrightarrow> \<exists>g m. intent_digest dp (request_intent dp rq i c (actor caller)) = Ok g \<and> mol d i = Some m \<and>
      keyed_post i (cond_key c) g (md_status m = collapsible (expect_status c)) d v d' evs"
proof -
  have "advances d d' \<and> (\<forall>e. res = Err e \<longrightarrow> evs = []) \<and>
    (\<forall>v. res = Ok v \<longrightarrow> (\<exists>g m. intent_digest dp (request_intent dp rq i c (actor caller)) = Ok g \<and> mol d i = Some m \<and>
      keyed_post i (cond_key c) g (md_status m = collapsible (expect_status c)) d v d' evs))"
  proof (cases "\<exists>g u kr m rv l. intent_digest dp (request_intent dp rq i c (actor caller)) = Ok g \<and> cp_lock cp d i = Ok u \<and>
      cp_read_key cp d (cond_key c) = Ok kr \<and> cp_load_revisioned cp d i = Ok (m, rv) \<and> authority d i caller = Ok l")
    case True
    then obtain g u kr m rv l where g: "intent_digest dp (request_intent dp rq i c (actor caller)) = Ok g"
      and r: "cp_lock cp d i = Ok u" "cp_read_key cp d (cond_key c) = Ok kr" "cp_load_revisioned cp d i = Ok (m, rv)"
        "authority d i caller = Ok l" by blast
    let ?ri = "\<lparr>ri_id = i, ri_request = rq, ri_cause = cause, ri_condition = c, ri_digest = g,
       ri_mol = m, ri_revision = rv, ri_lease = l, ri_wall = wall\<rparr>"
    have m: "mol d i = Some m" "md_id m = i" using load_rev[OF r(3)] mol_id[OF ledger_okD(1)[OF ok]] by auto
    have run': "keyed_rounds cp hook ?ri (map clock [0..<2]) kr d = (res, d', evs)"
      using run g r by (simp add: keyed_def)
    have "advances d d' \<and>
      (\<forall>v. res = Ok v \<longrightarrow> keyed_post i (cond_key c) g (md_status m = collapsible (expect_status c)) d v d' evs) \<and>
      (\<forall>e. res = Err e \<longrightarrow> evs = [])"
      by (rule keyed_rounds_advances[OF hook ok _ _ _ _ m(1) _ _ _ _ run', simplified round_input.simps])
        (use m read_key[OF r(2)] ledger_okD(2)[OF ok m(1)] in auto)
    then show ?thesis using g m(1) by blast
  next
    case False
    then have "\<exists>e. res = Err e" "d' = d" "evs = []"
      using run by (auto simp: keyed_def split: sum.splits)
    then show ?thesis by auto
  qed
  then show "advances d d'" "res = Err e \<Longrightarrow> evs = []"
    "res = Ok v \<Longrightarrow> \<exists>g m. intent_digest dp (request_intent dp rq i c (actor caller)) = Ok g \<and> mol d i = Some m \<and>
      keyed_post i (cond_key c) g (md_status m = collapsible (expect_status c)) d v d' evs" by blast+
qed

lemma keyed_started:
  assumes "keyed dp cp authority caller i rq cause c wall clock hook d = (Ok v, d', evs)"
    and "intent_digest dp (request_intent dp rq i c (actor caller)) = Ok g"
  obtains m rv l where "mol d i = Some m"
    and "keyed_rounds cp hook \<lparr>ri_id = i, ri_request = rq, ri_cause = cause, ri_condition = c, ri_digest = g,
         ri_mol = m, ri_revision = rv, ri_lease = l, ri_wall = wall\<rparr> [clock 0, clock 1] (rec d (cond_key c)) d = (Ok v, d', evs)"
proof -
  have "map clock [0..<2] = [clock 0, clock 1]" by (simp add: upt_rec)
  then obtain kr m rv l where "cp_read_key cp d (cond_key c) = Ok kr" "cp_load_revisioned cp d i = Ok (m, rv)"
    "keyed_rounds cp hook \<lparr>ri_id = i, ri_request = rq, ri_cause = cause, ri_condition = c, ri_digest = g,
         ri_mol = m, ri_revision = rv, ri_lease = l, ri_wall = wall\<rparr> [clock 0, clock 1] kr d = (Ok v, d', evs)"
    using assms by (auto simp: keyed_def split: sum.splits prod.splits)
  then show ?thesis using that[of m rv l] read_key load_rev by metis
qed

text \<open>A settled key answers every identical request with its receipt, without a write.\<close>

lemma settled_replays:
  assumes ok: "ledger_ok d" and st: "settled d (cond_key c) i g" and rc: "carries d i (Some rc)" "rc_key rc = cond_key c"
    and g: "intent_digest dp (request_intent dp rq i c (actor caller)) = Ok g"
    and run: "keyed dp cp authority caller i rq cause c wall clock hook d = (Ok v, d', evs)"
  shows "v = replayed g rc False False \<and> d' = d \<and> evs = []"
proof -
  obtain r where r: "rec d (cond_key c) = Some r" "kr_phase r = Committed" "kr_molecule r = i" "kr_digest r = g"
    using st by (auto simp: settled_def)
  obtain rc' where "kr_receipt r = Some rc'" "rc_digest rc' = g" "carries d i (Some rc')"
    using ledger_okD(3)[OF ok r(1)] r by (auto simp: record_ok_def)
  then have rd: "rc_digest rc = g" using carries_unique[OF rc(1)] by auto
  obtain m rv l where rd2: "mol d i = Some m"
      "keyed_rounds cp hook \<lparr>ri_id = i, ri_request = rq, ri_cause = cause, ri_condition = c, ri_digest = g,
         ri_mol = m, ri_revision = rv, ri_lease = l, ri_wall = wall\<rparr> [clock 0, clock 1] (Some r) d = (Ok v, d', evs)"
    using keyed_started[OF run g] r(1) by metis
  have m: "collapse_receipt m = Some rc" using rd2(1) rc(1) by (auto simp: carries_def)
  have "round_decision \<lparr>ri_id = i, ri_request = rq, ri_cause = cause, ri_condition = c, ri_digest = g,
         ri_mol = m, ri_revision = rv, ri_lease = l, ri_wall = wall\<rparr> (Some r) now = Replay rc False" for now
    using m rc(2) rd r
    by (simp add: round_decision_def decide_Replay_iff key_reused_None_iff replay_of_Some_iff)
  then show ?thesis using rd2(2) by (simp add: Let_def)
qed

lemma bound_key_refused:
  assumes r: "rec d (cond_key c) = Some r" "kr_molecule r \<noteq> i \<or> kr_digest r \<noteq> g"
    and g: "intent_digest dp (request_intent dp rq i c (actor caller)) = Ok g"
    and run: "keyed dp cp authority caller i rq cause c wall clock hook d = (Ok v, d', evs)"
  shows "kc_refusal v = Some (KeyReused (kr_molecule r)) \<and> kc_outcome v = OIdempotencyKeyReused \<and> d' = d \<and> evs = []"
proof -
  obtain m rv l where k: "keyed_rounds cp hook \<lparr>ri_id = i, ri_request = rq, ri_cause = cause, ri_condition = c, ri_digest = g,
         ri_mol = m, ri_revision = rv, ri_lease = l, ri_wall = wall\<rparr> [clock 0, clock 1] (Some r) d = (Ok v, d', evs)"
    using keyed_started[OF run g] r(1) by metis
  have "round_decision \<lparr>ri_id = i, ri_request = rq, ri_cause = cause, ri_condition = c, ri_digest = g,
         ri_mol = m, ri_revision = rv, ri_lease = l, ri_wall = wall\<rparr> (Some r) now = Refuse (KeyReused (kr_molecule r))" for now
    using r(2) by (auto simp: round_decision_def decide_def key_reused_def)
  then show ?thesis using k by (auto simp: Let_def refused_def)
qed

text \<open>Two calls in one history.\<close>

lemma keyed_at_most_once:
  assumes hook: "\<And>s e. advances e (snd (hook s e))" "\<And>s e. advances e (snd (hook' s e))" and ok: "ledger_ok d0"
    and first: "keyed dp cp authority caller i rq cause c wall clock hook d0 = (Ok v, d1, evs)" "kc_receipt v = Some rc"
    and between: "advances d1 d2"
    and second: "keyed dp cp authority' caller' i rq' cause' c' wall' clock' hook' d2 = (Ok v', d3, evs')"
  shows "kc_outcome v' \<noteq> OTransitioned" and "kc_receipt v' = None \<or> kc_receipt v' = Some rc"
    and "cond_key c' = cond_key c \<Longrightarrow> kc_announced v' = False"
    and "cond_key c' = cond_key c \<Longrightarrow> request_intent dp rq' i c' (actor caller') = request_intent dp rq i c (actor caller) \<Longrightarrow>
      v' = replayed (kc_digest v) rc False False \<and> d3 = d2 \<and> evs' = []"
proof -
  note K = keyed_guarantee[OF hook(1) ok first(1)]
  obtain g where g: "intent_digest dp (request_intent dp rq i c (actor caller)) = Ok g"
    and c1: "carries d1 i (Some rc)" "settled d1 (cond_key c) i g" "rc_key rc = cond_key c" "kc_digest v = g"
    using K(3)[OF refl] first(2) by (auto simp: keyed_post_def)
  have ok1: "ledger_ok d1" using K(1) ok by (simp add: advances_def)
  then have ok2: "ledger_ok d2" and g2: "grows d1 d2" using between by (auto simp: advances_def)
  have c2: "carries d2 i (Some rc)" "settled d2 (cond_key c) i g" using growsD(2)[OF g2] settled_mono[OF g2] c1 by blast+
  note K' = keyed_guarantee[OF hook(2) ok2 second]
  have g3: "grows d2 d3" using K'(1) ok2 by (auto simp: advances_def)
  obtain g' m where m: "mol d2 i = Some m"
    and post: "keyed_post i (cond_key c') g' (md_status m = collapsible (expect_status c')) d2 v' d3 evs'"
    using K'(3)[OF refl] by blast
  have "md_status m = Collapsed" using m c2(1) by (auto simp: carries_def)
  then have "md_status m \<noteq> collapsible (expect_status c')" by (cases "expect_status c'") auto
  then show "kc_outcome v' \<noteq> OTransitioned" using post unfolding keyed_post_def by blast
  have "rc' = rc" if "kc_receipt v' = Some rc'" for rc'
    using post that carries_unique[of d3 i "Some rc'" "Some rc"] growsD(2)[OF g3 c2(1)] by (auto simp: keyed_post_def)
  then show "kc_receipt v' = None \<or> kc_receipt v' = Some rc" by (cases "kc_receipt v'") auto
  show "kc_announced v' = False" if "cond_key c' = cond_key c"
    using post settled_committed[OF c2(2)] that by (auto simp: keyed_post_def)
  show "v' = replayed (kc_digest v) rc False False \<and> d3 = d2 \<and> evs' = []"
    if "cond_key c' = cond_key c" "request_intent dp rq' i c' (actor caller') = request_intent dp rq i c (actor caller)"
    using settled_replays[OF ok2 _ c2(1) _ _ second, of g] c2(2) c1(3,4) g that by simp
qed

text \<open>The lookup never finds the two records in contradiction.\<close>

lemma lookup_consistent:
  assumes ok: "ledger_ok d" and l: "lookup_receipt cp d i k = Ok l"
  shows "\<nexists>x. l = LInconsistent x"
    and "l = LCommitted rc \<longleftrightarrow> carries d i (Some rc) \<and> rc_key rc = k"
proof -
  obtain m where m: "mol d i = Some m" and cl: "l = classify_lookup i k (rec d k) (md_status m) (collapse_receipt m)"
    using l load_mol read_key[of d k] by (auto simp: lookup_receipt_def)
  have st: "md_status m = Collapsed \<and> (\<exists>r. rec d (rc_key rc) = Some r \<and> kr_molecule r = i \<and> kr_digest r = rc_digest rc)"
    if "collapse_receipt m = Some rc" for rc
    using ok m that unfolding ledger_ok_def sealed_def by blast
  have rk: "carries d (kr_molecule r) (Some rc)" if "rec d k = Some r" "kr_receipt r = Some rc" for r rc
    using ledger_okD(3)[OF ok that(1)] that(2) by (cases "kr_phase r") (auto simp: record_ok_def)
  have cm: "\<exists>rc. kr_receipt r = Some rc \<and> rc_key rc = k \<and> carries d (kr_molecule r) (Some rc)"
    if "rec d k = Some r" "kr_phase r = Committed" for r
    using ledger_okD(3)[OF ok that(1)] that(2) rec_own[OF that(1)] by (auto simp: record_ok_def)
  have cr: "carries d i (Some rc) \<longleftrightarrow> collapse_receipt m = Some rc" for rc
    using m st by (auto simp: carries_def)
  consider (state) c where "collapse_receipt m = Some c" "rc_key c = k"
    | (none) "receipt_for k (collapse_receipt m) = None" "\<And>c. collapse_receipt m = Some c \<Longrightarrow> rc_key c \<noteq> k"
    by (cases "collapse_receipt m") (auto simp: receipt_for_def)
  then have "(\<nexists>x. l = LInconsistent x) \<and> (l = LCommitted rc \<longleftrightarrow> carries d i (Some rc) \<and> rc_key rc = k)"
  proof cases
    case state
    then obtain r where r: "rec d k = Some r" "kr_molecule r = i" "kr_digest r = rc_digest c" "md_status m = Collapsed"
      using st by blast
    have "kr_receipt r = None \<or> kr_receipt r = Some c"
      using rk[OF r(1)] r(2) cr state(1) by (cases "kr_receipt r") auto
    then have "l = LCommitted c" using state r unfolding cl classify_lookup_def by (auto simp: receipt_for_def)
    then show ?thesis using cr state by auto
  next
    case none
    have "kr_phase r = Reserved" if "rec d k = Some r" "kr_molecule r = i" for r
      using cm[OF that(1)] that(2) cr none(2) by (cases "kr_phase r") auto
    then show ?thesis
      using none cr unfolding cl classify_lookup_def by (auto split: option.splits key_phase.splits)
  qed
  then show "\<nexists>x. l = LInconsistent x" "l = LCommitted rc \<longleftrightarrow> carries d i (Some rc) \<and> rc_key rc = k" by blast+
qed

end

section \<open>The file store keeps the contract\<close>

definition vault_mol :: "'x vault \<Rightarrow> string \<Rightarrow> 'x molecule_data option" where
  "vault_mol v i = (case load_molecule (vt_disk v) i of Inr m \<Rightarrow> Some m | Inl _ \<Rightarrow> None)"

definition vault_rec :: "digest_port \<Rightarrow> 'x vault \<Rightarrow> idempotency_key \<Rightarrow> key_record option" where
  "vault_rec dp v k =
     (case map_of (vt_keys v) (file_stem dp k) of
        Some (Inr r) \<Rightarrow> if kr_key r = k then Some r else None
      | _ \<Rightarrow> None)"

definition vault_own :: "digest_port \<Rightarrow> 'x vault \<Rightarrow> idempotency_key \<Rightarrow> bool" where
  "vault_own dp v k =
     (case map_of (vt_keys v) (file_stem dp k) of
        None \<Rightarrow> True
      | Some (Inr r) \<Rightarrow> kr_key r = k
      | Some (Inl _) \<Rightarrow> False)"

definition vault_wf :: "'x vault \<Rightarrow> bool" where
  "vault_wf v \<longleftrightarrow> disk_wf (vt_disk v)"

lemma vault_mol_Some_iff [simp]: "vault_mol v i = Some m \<longleftrightarrow> load_molecule (vt_disk v) i = Ok m"
  by (auto simp: vault_mol_def split: sum.splits)

lemma vault_mol_keys [simp]: "vault_mol (v\<lparr>vt_keys := ks\<rparr>) = vault_mol v"
  by (simp add: vault_mol_def fun_eq_iff)

lemma vault_rec_disk [simp]: "vault_rec dp (v\<lparr>vt_disk := d\<rparr>) = vault_rec dp v"
  by (simp add: vault_rec_def fun_eq_iff)

lemma vault_rec_update:
  assumes "vault_own dp v (kr_key r)"
    and "\<And>s. map_of ks s = (if s = file_stem dp (kr_key r) then Some (Ok r) else map_of (vt_keys v) s)"
  shows "vault_rec dp (v\<lparr>vt_keys := ks\<rparr>) = (vault_rec dp v)(kr_key r \<mapsto> r)"
proof
  fix k
  show "vault_rec dp (v\<lparr>vt_keys := ks\<rparr>) k = ((vault_rec dp v)(kr_key r \<mapsto> r)) k"
    using assms by (cases "file_stem dp k = file_stem dp (kr_key r)")
      (auto simp: vault_rec_def vault_own_def split: option.splits sum.splits)
qed

lemma vault_save:
  assumes wf: "disk_wf (vt_disk v)" and l: "load_molecule (vt_disk v) i = Ok c" and m: "md_id m = i" "fleet_id m = fleet_id c"
    and s: "save_molecule (vt_disk v) i m = Ok d'"
  shows "vault_mol (v\<lparr>vt_disk := d'\<rparr>) = (vault_mol v)(i \<mapsto> m)" "\<not> leaves_collapsed c m" "disk_wf d'"
proof -
  have "sp_load file_store (vt_disk v) i = Ok c" "sp_save file_store (vt_disk v) i m = Ok d'"
    using l s by (simp_all add: file_store_def)
  note L = files.load_save[OF wf this(1) m this(2)] files.save_sticky[OF wf this] files.save_wf[OF wf this(1) m this(2)]
  show "\<not> leaves_collapsed c m" "disk_wf d'" using L(2,3) by blast+
  show "vault_mol (v\<lparr>vt_disk := d'\<rparr>) = (vault_mol v)(i \<mapsto> m)"
    using L(1) by (auto simp: vault_mol_def file_store_def fun_eq_iff)
qed

interpretation ledger: keyed_store "vault_port dp revision" vault_wf vault_mol "vault_rec dp" "vault_own dp"
  for dp and revision :: "'x molecule_data \<Rightarrow> molecule_revision"
proof
  fix v v' :: "'x vault" and i k m c r rv x created res
  show "sp_load (cp_store (vault_port dp revision)) v i = Ok m \<Longrightarrow> vault_mol v i = Some m"
    by (simp add: vault_port_def vault_store_def)
  show "cp_load_revisioned (vault_port dp revision) v i = Ok (m, rv) \<Longrightarrow> vault_mol v i = Some m"
    by (simp add: vault_port_def load_molecule_revisioned_def)
  show "vault_wf v \<Longrightarrow> vault_mol v i = Some m \<Longrightarrow> md_id m = i"
    by (auto simp: vault_wf_def elim: load_Ok_cases)
  show "cp_read_key (vault_port dp revision) v k = Ok x \<Longrightarrow> x = vault_rec dp v k \<and> vault_own dp v k"
    by (auto simp: vault_port_def read_collapse_key_def vault_rec_def vault_own_def split: option.splits sum.splits if_splits)
  show "vault_rec dp v k = Some r \<Longrightarrow> vault_own dp v k \<and> kr_key r = k"
    by (auto simp: vault_rec_def vault_own_def split: option.splits sum.splits if_splits)
  show "vault_mol v' = vault_mol v \<and> (vault_wf v \<longrightarrow> vault_wf v') \<and>
      (vault_rec dp v' = vault_rec dp v \<or>
       vault_rec dp v (kr_key r) = None \<and> vault_rec dp v' = (vault_rec dp v)(kr_key r \<mapsto> r)) \<and>
      (created = Ok True \<longrightarrow> vault_rec dp v' (kr_key r) = Some r)"
    if "cp_reserve_key (vault_port dp revision) v r = (created, v')"
  proof (cases "key_fault v = None \<and> map_of (vt_keys v) (file_stem dp (kr_key r)) = None")
    case True
    then have v': "v' = v\<lparr>vt_keys := AList.update (file_stem dp (kr_key r)) (Ok r) (vt_keys v)\<rparr>"
      using that by (simp add: vault_port_def reserve_collapse_key_def)
    have "vault_own dp v (kr_key r)" using True by (simp add: vault_own_def)
    from vault_rec_update[OF this, of "AList.update (file_stem dp (kr_key r)) (Ok r) (vt_keys v)"]
    have "vault_rec dp v' = (vault_rec dp v)(kr_key r \<mapsto> r)" unfolding v' by (simp add: update_conv')
    moreover have "vault_rec dp v (kr_key r) = None" using True by (simp add: vault_rec_def)
    ultimately show ?thesis by (simp add: v' vault_wf_def)
  next
    case False
    then have "v' = v \<and> created \<noteq> Ok True"
      using that by (auto simp: vault_port_def reserve_collapse_key_def Let_def split: option.splits if_splits)
    then show ?thesis by simp
  qed
  show "vault_mol v' = vault_mol v \<and> (vault_wf v \<longrightarrow> vault_wf v') \<and>
      (vault_rec dp v' = vault_rec dp v \<or> vault_rec dp v' = (vault_rec dp v)(kr_key r \<mapsto> r)) \<and>
      (res = Ok () \<longrightarrow> vault_rec dp v' (kr_key r) = Some r)"
    if own: "vault_own dp v (kr_key r)" and run: "cp_commit_key (vault_port dp revision) v r = (res, v')"
  proof (cases "key_fault v = None")
    case True
    then have v': "v' = v\<lparr>vt_keys := AList.update (file_stem dp (kr_key r)) (Ok r) (vt_keys v)\<rparr>"
      using run by (simp add: vault_port_def commit_collapse_key_def)
    from vault_rec_update[OF own, of "AList.update (file_stem dp (kr_key r)) (Ok r) (vt_keys v)"]
    have "vault_rec dp v' = (vault_rec dp v)(kr_key r \<mapsto> r)" unfolding v' by (simp add: update_conv')
    then show ?thesis by (simp add: v' vault_wf_def)
  next
    case False
    then have "v' = v \<and> res \<noteq> Ok ()" using run by (auto simp: vault_port_def commit_collapse_key_def)
    then show ?thesis by simp
  qed
  show "vault_rec dp v' = vault_rec dp v \<and> vault_wf v' \<and>
      (vault_mol v' = vault_mol v \<or> vault_mol v' = (vault_mol v)(i \<mapsto> m) \<and> \<not> leaves_collapsed c m) \<and>
      (res = Ok () \<longrightarrow> vault_mol v' = (vault_mol v)(i \<mapsto> m) \<and> \<not> leaves_collapsed c m)"
    if a: "vault_wf v" "vault_mol v i = Some c" "md_id m = i" "fleet_id m = fleet_id c"
      "cp_save_durable (vault_port dp revision) v i m = (res, v')"
  proof (cases "save_molecule (vt_disk v) i m")
    case (Inl e)
    then have "v' = v" "res \<noteq> Ok ()" using a(5) by (auto simp: vault_port_def save_molecule_durable_def)
    then show ?thesis using a(1) by simp
  next
    case (Inr d')
    then have v': "v' = v\<lparr>vt_disk := d'\<rparr>" using a(5) by (simp add: vault_port_def save_molecule_durable_def)
    show ?thesis using vault_save[of v i c m d'] a(1-4) Inr unfolding v' by (simp add: vault_wf_def)
  qed
qed

section \<open>Histories of collapses\<close>

text \<open>
  What may happen to the vault: collapses of both kinds, the other verbs, updates of a molecule
  that was read (no other code writes a receipt), new molecules, and changes of what the
  operating system answers.  At each seam of a keyed collapse any number of such steps may happen.
\<close>

inductive vault_step ::
  "digest_port \<Rightarrow> ('x molecule_data \<Rightarrow> molecule_revision) \<Rightarrow> 'x vault \<Rightarrow> 'x vault \<Rightarrow> bool"
  for dp :: digest_port and revision :: "'x molecule_data \<Rightarrow> molecule_revision" where
  keyed_call: "(\<And>s e. (vault_step dp revision)\<^sup>*\<^sup>* e (snd (hook s e))) \<Longrightarrow>
    keyed dp (vault_port dp revision) authority caller i rq cause c wall clock hook v = (res, v', evs) \<Longrightarrow>
    vault_step dp revision v v'"
| plain_call: "unconditional (vault_port dp revision) authority caller i rq cause wall now v = (res, v', evs) \<Longrightarrow>
    vault_step dp revision v v'"
| freeze_call: "freeze_op vault_store now i why v = (r1, v', evs) \<Longrightarrow> vault_step dp revision v v'"
| thaw_call: "thaw_op vault_store now i v = (r2, v', evs) \<Longrightarrow> vault_step dp revision v v'"
| stuck_call: "stuck_op vault_store now i w v = (r3, v', evs) \<Longrightarrow> vault_step dp revision v v'"
| update_call: "load_molecule (vt_disk v) i = Ok c \<Longrightarrow> md_id m = i \<Longrightarrow> fleet_id m = fleet_id c \<Longrightarrow>
    collapse_receipt m = collapse_receipt c \<Longrightarrow> save_molecule (vt_disk v) i m = Ok d' \<Longrightarrow>
    vault_step dp revision v (v\<lparr>vt_disk := d'\<rparr>)"
| create_call: "load_molecule (vt_disk v) i = Err (MoleculeNotFound i) \<Longrightarrow> \<forall>f. fleet_entry (vt_disk v) f i = None \<Longrightarrow>
    md_id m = i \<Longrightarrow> collapse_receipt m = None \<Longrightarrow> save_molecule (vt_disk v) i m = Ok d' \<Longrightarrow>
    vault_step dp revision v (v\<lparr>vt_disk := d'\<rparr>)"
| faults: "vault_step dp revision v
    (v\<lparr>vt_disk := (vt_disk v)\<lparr>io_fault := e1\<rparr>, lock_fault := e2, key_fault := e3, sync_fault := e4\<rparr>)"

text \<open>Consistency of the vault, in terms of what it stores.\<close>

definition vault_ok :: "digest_port \<Rightarrow> 'x vault \<Rightarrow> bool" where
  "vault_ok dp v \<longleftrightarrow> disk_wf (vt_disk v) \<and>
     (\<forall>i c rc. load_molecule (vt_disk v) i = Ok c \<longrightarrow> collapse_receipt c = Some rc \<longrightarrow>
        md_status c = Collapsed \<and>
        (\<exists>r. vault_rec dp v (rc_key rc) = Some r \<and> kr_molecule r = i \<and> kr_digest r = rc_digest rc)) \<and>
     (\<forall>k r. vault_rec dp v k = Some r \<longrightarrow>
        (kr_phase r = Reserved \<longrightarrow> kr_receipt r = None) \<and>
        (kr_phase r = Committed \<longrightarrow>
           (\<exists>rc c. kr_receipt r = Some rc \<and> rc_key rc = k \<and> rc_digest rc = kr_digest r \<and>
              load_molecule (vt_disk v) (kr_molecule r) = Ok c \<and> md_status c = Collapsed \<and>
              collapse_receipt c = Some rc)))"

lemma ledger_carries_iff:
  "ledger.carries v i rc \<longleftrightarrow> (\<exists>c. load_molecule (vt_disk v) i = Ok c \<and> md_status c = Collapsed \<and> collapse_receipt c = rc)"
  by (simp add: ledger.carries_def)

lemma vault_rec_key: "vault_rec dp v k = Some r \<Longrightarrow> kr_key r = k"
  by (auto simp: vault_rec_def split: option.splits sum.splits if_splits)

lemma vault_ok_iff: "vault_ok dp v \<longleftrightarrow> ledger.ledger_ok dp v"
proof -
  have "ledger.record_ok v r \<longleftrightarrow> (kr_phase r = Reserved \<longrightarrow> kr_receipt r = None) \<and>
        (kr_phase r = Committed \<longrightarrow>
           (\<exists>rc c. kr_receipt r = Some rc \<and> rc_key rc = k \<and> rc_digest rc = kr_digest r \<and>
              load_molecule (vt_disk v) (kr_molecule r) = Ok c \<and> md_status c = Collapsed \<and>
              collapse_receipt c = Some rc))" if "vault_rec dp v k = Some r" for k r
    using vault_rec_key[OF that] by (auto simp: ledger.record_ok_def ledger_carries_iff)
  then show ?thesis
    by (simp add: vault_ok_def ledger.ledger_ok_def ledger.sealed_def vault_wf_def cong: imp_cong)
qed

lemma vault_update_advances:
  assumes l: "load_molecule (vt_disk v) i = Ok c" and m: "md_id m = i" "fleet_id m = fleet_id c"
    and rc: "collapse_receipt m = None \<or> collapse_receipt m = collapse_receipt c"
    and s: "save_molecule (vt_disk v) i m = Ok d'"
  shows "ledger.advances dp v (v\<lparr>vt_disk := d'\<rparr>)"
proof (cases "disk_wf (vt_disk v)")
  case True
  note S = vault_save[OF True l m s]
  have "md_status m = Collapsed \<and> ledger.sealed dp v i x" if "ledger.ledger_ok dp v" "collapse_receipt m = Some x" for x
    using ledger.ledger_okD(2,4)[OF that(1), of i c x] that(2) l rc S(2)
    by (auto simp: ledger_carries_iff leaves_collapsed_def)
  then show ?thesis
    by (intro ledger.advances_molecule_write[where i = i and c = c and m = m]) (use l m S in \<open>auto simp: vault_wf_def\<close>)
next
  case False
  then show ?thesis by (simp add: ledger.advances_def ledger.ledger_ok_def vault_wf_def)
qed

text \<open>Every verb is such an update, or changes nothing.\<close>

definition one_update :: "'x vault \<Rightarrow> string \<Rightarrow> 'x vault \<Rightarrow> bool" where
  "one_update v i v' \<longleftrightarrow> v' = v \<or>
     (\<exists>c m d'. load_molecule (vt_disk v) i = Ok c \<and> md_id m = i \<and> fleet_id m = fleet_id c \<and>
        (collapse_receipt m = None \<or> collapse_receipt m = collapse_receipt c) \<and>
        save_molecule (vt_disk v) i m = Ok d' \<and> v' = v\<lparr>vt_disk := d'\<rparr>)"

lemma one_update_same [simp]: "one_update v i v"
  by (simp add: one_update_def)

lemma one_updateI:
  "save_molecule (vt_disk v) i m = Ok d' \<Longrightarrow> load_molecule (vt_disk v) i = Ok c \<Longrightarrow> md_id m = i \<Longrightarrow>
     fleet_id m = fleet_id c \<Longrightarrow> collapse_receipt m = None \<or> collapse_receipt m = collapse_receipt c \<Longrightarrow>
     one_update v i (v\<lparr>vt_disk := d'\<rparr>)"
  unfolding one_update_def by blast

lemma one_update_advances:
  assumes "ledger.ledger_ok dp v \<Longrightarrow> one_update v i v'"
  shows "ledger.advances dp v v'"
proof (cases "ledger.ledger_ok dp v")
  case True
  from assms[OF this] show ?thesis unfolding one_update_def using vault_update_advances by fastforce
qed (simp add: ledger.advances_def)

lemma verb_one_update:
  assumes "\<And>c. load_molecule (vt_disk v) i = Ok c \<Longrightarrow> md_id c = i"
  shows "freeze_op vault_store now i why v = (r1, v', evs) \<Longrightarrow> one_update v i v'"
    and "thaw_op vault_store now i v = (r2, v', evs) \<Longrightarrow> one_update v i v'"
    and "stuck_op vault_store now i w v = (r3, v', evs) \<Longrightarrow> one_update v i v'"
    and "unconditional (vault_port dp revision) authority caller i rq cause wall now v = (r4, v', evs) \<Longrightarrow> one_update v i v'"
  using assms
  by (auto simp: freeze_op_def thaw_op_def stuck_op_def unconditional_def vault_port_def vault_store_def Let_def
      collapsed_record_def release_process_def split: sum.splits if_splits option.splits intro: one_updateI)

lemma ledger_load_id: "ledger.ledger_ok dp v \<Longrightarrow> load_molecule (vt_disk v) i = Ok c \<Longrightarrow> md_id c = i"
  using ledger.mol_id[of v i c] by (simp add: ledger.ledger_ok_def)

lemma create_advances:
  assumes "load_molecule (vt_disk v) i = Err (MoleculeNotFound i)" and free: "\<forall>f. fleet_entry (vt_disk v) f i = None"
    and m: "md_id m = i" "collapse_receipt m = None" and s: "save_molecule (vt_disk v) i m = Ok d'"
  shows "ledger.advances dp v (v\<lparr>vt_disk := d'\<rparr>)"
proof (cases "disk_wf (vt_disk v)")
  case True
  have d': "d' = write_file (vt_disk v) (fleet_id m) i m"
    using s unfolding save_molecule_def by (rule write_checked_Ok(1))
  have fr: "fleet_entry (vt_disk v) g i \<noteq> None \<Longrightarrow> g = fleet_id m" for g using free by simp
  have mol: "vault_mol (v\<lparr>vt_disk := d'\<rparr>) = (vault_mol v)(i \<mapsto> m)"
    using write_file_load[OF True m(1) fr] unfolding d' by (auto simp: vault_mol_def fun_eq_iff)
  have none: "vault_mol v i = None" using assms(1) by (simp add: vault_mol_def)
  have car: "ledger.carries v j rc \<Longrightarrow> ledger.carries (v\<lparr>vt_disk := d'\<rparr>) j rc" for j rc
    using mol assms(1) unfolding ledger.carries_def by auto
  show ?thesis
    unfolding ledger.advances_def
  proof (intro impI conjI)
    assume ok: "ledger.ledger_ok dp v"
    show "ledger.ledger_ok dp (v\<lparr>vt_disk := d'\<rparr>)"
      unfolding ledger.ledger_ok_def
    proof (intro conjI allI impI)
      show "vault_wf (v\<lparr>vt_disk := d'\<rparr>)"
        using write_file_wf[OF True m(1) fr] by (simp add: vault_wf_def d')
      show "ledger.record_ok (v\<lparr>vt_disk := d'\<rparr>) r" if "vault_rec dp (v\<lparr>vt_disk := d'\<rparr>) k = Some r" for k r
        using ledger.record_ok_mono[of v r] car ledger.ledger_okD(3)[OF ok, of k r] that by simp
      fix j c rc
      assume a: "vault_mol (v\<lparr>vt_disk := d'\<rparr>) j = Some c" "collapse_receipt c = Some rc"
      then have "vault_mol v j = Some c" using m(2) unfolding mol by (auto split: if_splits)
      then show "md_status c = Collapsed" "ledger.sealed dp (v\<lparr>vt_disk := d'\<rparr>) j rc"
        using a(2) ok by (auto simp: ledger.ledger_ok_def ledger.sealed_def)
    qed
    show "ledger.grows dp v (v\<lparr>vt_disk := d'\<rparr>)"
      using car none assms(1) unfolding ledger.grows_def mol by auto
  qed
qed (simp add: ledger.advances_def ledger.ledger_ok_def vault_wf_def)

lemma advances_rtranclp: "(\<lambda>x y. P x y \<and> ledger.advances dp x y)\<^sup>*\<^sup>* v v' \<Longrightarrow> ledger.advances dp v v'"
  by (induction rule: rtranclp_induct) (auto intro: ledger.advances_trans)

lemma vault_step_advances:
  "vault_step dp revision v v' \<Longrightarrow> ledger.advances dp v v'"
proof (induction rule: vault_step.induct)
  case (keyed_call hook authority caller i rq cause c wall clock v res v' evs)
  have h: "ledger.advances dp e (snd (hook s e))" for s e using advances_rtranclp[OF keyed_call(1)] .
  show ?case
  proof (cases "ledger.ledger_ok dp v")
    case True
    then show ?thesis using ledger.keyed_guarantee(1)[OF h True keyed_call(2)] by simp
  qed (simp add: ledger.advances_def)
next
  case (faults v e1 e2 e3 e4)
  show ?case
    by (rule ledger.advances_same) (auto simp: vault_mol_def vault_rec_def vault_wf_def disk_wf_def fun_eq_iff)
next
  case (update_call v i c m d')
  then show ?case using vault_update_advances by blast
next
  case (create_call v i m d')
  then show ?case using create_advances by blast
next
  case (plain_call authority caller i rq cause wall now v res v' evs)
  show ?case by (rule one_update_advances, rule verb_one_update(4)[OF ledger_load_id plain_call])
next
  case (freeze_call now i why v r1 v' evs)
  show ?case by (rule one_update_advances, rule verb_one_update(1)[OF ledger_load_id freeze_call])
next
  case (thaw_call now i v r2 v' evs)
  show ?case by (rule one_update_advances, rule verb_one_update(2)[OF ledger_load_id thaw_call])
next
  case (stuck_call now i w v r3 v' evs)
  show ?case by (rule one_update_advances, rule verb_one_update(3)[OF ledger_load_id stuck_call])
qed

lemma vault_steps_advance: "(vault_step dp revision)\<^sup>*\<^sup>* v v' \<Longrightarrow> ledger.advances dp v v'"
  by (induction rule: rtranclp_induct) (auto intro: ledger.advances_trans vault_step_advances)

interpretation vaults: invariant_system "vault_ok dp" "vault_step dp revision" "vault_ok dp"
  for dp revision
  by unfold_locales (use vault_step_advances in \<open>auto simp: vault_ok_iff ledger.advances_def\<close>)

section \<open>Runs without faults\<close>

definition healthy :: "'x vault \<Rightarrow> bool" where
  "healthy v \<longleftrightarrow> io_fault (vt_disk v) = None \<and> lock_fault v = None \<and> key_fault v = None \<and> sync_fault v = None"

definition quiet :: "collapse_stage \<Rightarrow> 'd \<Rightarrow> (cosmon_error + unit) \<times> 'd" where
  "quiet s d = (Ok (), d)"

definition crash_at :: "collapse_stage \<Rightarrow> collapse_stage \<Rightarrow> 'd \<Rightarrow> (cosmon_error + unit) \<times> 'd" where
  "crash_at s s' d = (if s' = s then Err (StoreFailure ''crash'') else Ok (), d)"

text \<open>What the keyed collapse writes: the state file, then the key record.\<close>

definition with_state :: "'x molecule_data \<Rightarrow> 'x vault \<Rightarrow> 'x vault" where
  "with_state m v = v\<lparr>vt_disk := write_file (vt_disk v) (fleet_id m) (md_id m) m\<rparr>"

definition with_key :: "digest_port \<Rightarrow> key_record \<Rightarrow> 'x vault \<Rightarrow> 'x vault" where
  "with_key dp r v = v\<lparr>vt_keys := AList.update (file_stem dp (kr_key r)) (Ok r) (vt_keys v)\<rparr>"

lemma healthy_with [simp]: "healthy (with_state m v) = healthy v" "healthy (with_key dp r v) = healthy v"
  by (simp_all add: healthy_def with_state_def with_key_def)

lemma with_key_more [simp]:
  "vt_disk (with_key dp r v) = vt_disk v" "vt_keys (with_state m v) = vt_keys v"
  "vt_disk (with_state m v) = write_file (vt_disk v) (fleet_id m) (md_id m) m"
  by (simp_all add: with_key_def with_state_def)

lemma read_with_state [simp]: "read_collapse_key dp (with_state m v) k = read_collapse_key dp v k"
  by (simp add: read_collapse_key_def with_state_def split: option.split)

lemma healthy_save:
  assumes "healthy v" and "load_molecule (vt_disk v) i = Ok c" and "\<not> leaves_collapsed c m" and "md_id m = i"
  shows "save_molecule_durable v i m = (Ok (), with_state m v)"
  using save_succeeds[of "vt_disk v" i c m] assms
  by (simp add: save_molecule_durable_def healthy_def with_state_def)

lemma healthy_keys:
  assumes "healthy v"
  shows "read_collapse_key dp (with_key dp r v) (kr_key r) = Ok (Some r)"
    and "commit_collapse_key dp v r = (Ok (), with_key dp r v)"
    and "map_of (vt_keys v) (file_stem dp (kr_key r)) = None \<Longrightarrow>
      read_collapse_key dp v (kr_key r) = Ok None \<and> reserve_collapse_key dp v r = (Ok True, with_key dp r v)"
  using assms
  by (simp_all add: read_collapse_key_def commit_collapse_key_def reserve_collapse_key_def healthy_def with_key_def
      update_conv')

lemma healthy_lock: "healthy v \<Longrightarrow> load_molecule (vt_disk v) i = Ok m \<Longrightarrow> lock_molecule v i = Ok ()"
  by (auto simp: lock_molecule_def healthy_def load_molecule_def split: option.splits)

lemma with_state_load:
  assumes "disk_wf (vt_disk v)" and "load_molecule (vt_disk v) i = Ok c" and "md_id m = i" and "fleet_id m = fleet_id c"
  shows "load_molecule (vt_disk (with_state m v)) j = (if j = i then Ok m else load_molecule (vt_disk v) j)"
  using write_file_load[OF assms(1,3), of j] load_Ok_free[OF assms(1,2)] assms(3,4) by simp

text \<open>
  A request that nothing speaks against: the molecule is as the caller confirmed, the guard does
  not object, and the approval has not expired at the given time.
\<close>

definition acceptable ::
  "('x molecule_data \<Rightarrow> molecule_revision) \<Rightarrow> collapse_condition \<Rightarrow> datetime \<Rightarrow> 'x molecule_data \<Rightarrow> bool" where
  "acceptable revision c now m \<longleftrightarrow>
     md_status m = collapsible (expect_status c) \<and> revision m = expect_revision c \<and> collapse_receipt m = None \<and>
     (case not_after c of None \<Rightarrow> True | Some t \<Rightarrow> now \<le> t)"

lemma acceptable_decision:
  assumes "acceptable (\<lambda>_. ri_revision ri) (ri_condition ri) now (ri_mol ri)" and "ri_lease ri = None"
    and "kr = None \<or> kr = Some (reserved_record (cond_key (ri_condition ri)) (ri_id ri) (ri_digest ri))"
  shows "round_decision ri kr now = Admit (kr = None)"
  using assms
  by (auto simp: round_decision_def decide_Admit_iff key_reused_None_iff acceptable_def replay_of_def receipt_for_def
      reserved_record_def split: option.splits)

definition collapse_of ::
  "datetime \<Rightarrow> 'x molecule_data \<Rightarrow> collapse_request \<Rightarrow> collapse_cause option \<Rightarrow> receipt \<Rightarrow> 'x molecule_data" where
  "collapse_of wall m rq cause rc = collapsed_record wall m rq cause (Some rc) (rc_committed_at rc)"

lemma collapse_of_fields [simp]:
  "md_id (collapse_of wall m rq cause rc) = md_id m" "fleet_id (collapse_of wall m rq cause rc) = fleet_id m"
  "md_status (collapse_of wall m rq cause rc) = Collapsed" "collapse_receipt (collapse_of wall m rq cause rc) = Some rc"
  "stuck_at (collapse_of wall m rq cause rc) = stuck_at m"
  by (simp_all add: collapse_of_def collapsed_record_def release_process_def Let_def)

text \<open>The steps of an admitted collapse, up to the stage at which the hook stops it.\<close>

lemma admit_stages:
  fixes v :: "'x vault" and g rq cause rc wall
  assumes h: "healthy v" and l: "load_molecule (vt_disk v) i = Ok m" and live: "md_status m \<noteq> Collapsed"
    and id: "md_id m = i"
    and res: "reserve \<longrightarrow> map_of (vt_keys v) (file_stem dp k) = None"
  defines "r \<equiv> reserved_record k i g" and "u \<equiv> collapse_of wall m rq cause rc"
    and "v1 \<equiv> (if reserve then with_key dp (reserved_record k i g) v else v)"
  shows "admit (vault_port dp revision) quiet reserve r rc u v =
      (Ok (Done rc u), with_key dp (committed_record r rc) (with_state u v1))"
    and "admit (vault_port dp revision) (crash_at s) reserve r rc u v =
      (Err (StoreFailure ''crash''), case s of Decided \<Rightarrow> v | StageReserved \<Rightarrow> v1 | StateSaved \<Rightarrow> with_state u v1)"
proof -
  have k: "kr_key r = k" "kr_key (committed_record r rc) = k" by (simp_all add: r_def reserved_record_def committed_record_def)
  have h1: "healthy v1" by (simp add: v1_def h)
  have l1: "load_molecule (vt_disk v1) i = Ok m" using l by (simp add: v1_def)
  have sv: "save_molecule_durable v1 i u = (Ok (), with_state u v1)"
    by (rule healthy_save[OF h1 l1]) (simp_all add: leaves_collapsed_def live u_def id)
  have rs: "reserve \<Longrightarrow> reserve_collapse_key dp v r = (Ok True, v1)" "\<not> reserve \<Longrightarrow> v1 = v"
    using healthy_keys(3)[OF h, of dp r] res k(1) by (simp_all add: v1_def flip: r_def)
  have cm: "commit_collapse_key dp (with_state u v1) (committed_record r rc) =
      (Ok (), with_key dp (committed_record r rc) (with_state u v1))"
    using healthy_keys(2)[of "with_state u v1" dp "committed_record r rc"] h1 by simp
  have u: "md_id u = i" by (simp add: u_def id)
  show "admit (vault_port dp revision) quiet reserve r rc u v =
      (Ok (Done rc u), with_key dp (committed_record r rc) (with_state u v1))"
    using rs sv cm u by (cases reserve) (simp_all add: admit_def write_collapse_def then_do_def quiet_def vault_port_def)
  show "admit (vault_port dp revision) (crash_at s) reserve r rc u v =
      (Err (StoreFailure ''crash''), case s of Decided \<Rightarrow> v | StageReserved \<Rightarrow> v1 | StateSaved \<Rightarrow> with_state u v1)"
    using rs sv cm u
    by (cases reserve; cases s) (simp_all add: admit_def write_collapse_def then_do_def crash_at_def vault_port_def)
qed

lemma keyed_vault:
  assumes h: "healthy v" and l: "load_molecule (vt_disk v) i = Ok m"
    and g: "intent_digest dp (request_intent dp rq i c (actor caller)) = Ok g"
    and a: "authority v i caller = Ok None" and k: "read_collapse_key dp v (cond_key c) = Ok kr"
  shows "keyed dp (vault_port dp revision) authority caller i rq cause c wall clock hook v =
    keyed_rounds (vault_port dp revision) hook \<lparr>ri_id = i, ri_request = rq, ri_cause = cause, ri_condition = c,
      ri_digest = g, ri_mol = m, ri_revision = revision m, ri_lease = None, ri_wall = wall\<rparr> [clock 0, clock 1] kr v"
proof -
  have "map clock [0..<2] = [clock 0, clock 1]" by (simp add: upt_rec)
  then show ?thesis using healthy_lock[OF h l] assms
    by (simp add: keyed_def vault_port_def load_molecule_revisioned_def)
qed

lemma keyed_admitted:
  fixes wall cause
  assumes h: "healthy v" and l: "load_molecule (vt_disk v) i = Ok m" "md_id m = i"
    and g: "intent_digest dp (request_intent dp rq i c (actor caller)) = Ok g"
    and a: "authority v i caller = Ok None" and acc: "acceptable revision c (clock 0) m"
    and k: "kr = None \<and> map_of (vt_keys v) (file_stem dp (cond_key c)) = None \<or>
      kr = Some (reserved_record (cond_key c) i g) \<and> read_collapse_key dp v (cond_key c) = Ok kr"
  defines "rc \<equiv> new_receipt (cond_key c) g i (md_status m) (revision m) (clock 0)"
    and "r \<equiv> reserved_record (cond_key c) i g" and "v1 \<equiv> (if kr = None then with_key dp (reserved_record (cond_key c) i g) v else v)"
  defines "u \<equiv> collapse_of wall m rq cause rc"
  shows "keyed dp (vault_port dp revision) authority caller i rq cause c wall clock quiet v =
      (Ok (transitioned g rc u (was_stuck (md_status m) m)), with_key dp (committed_record r rc) (with_state u v1),
       announce i (md_status m) (was_stuck (md_status m) m))"
    and "keyed dp (vault_port dp revision) authority caller i rq cause c wall clock (crash_at s) v =
      (Err (ColUnavailable ''crash''), case s of Decided \<Rightarrow> v | StageReserved \<Rightarrow> v1 | StateSaved \<Rightarrow> with_state u v1, [])"
proof -
  let ?ri = "\<lparr>ri_id = i, ri_request = rq, ri_cause = cause, ri_condition = c, ri_digest = g, ri_mol = m,
      ri_revision = revision m, ri_lease = None, ri_wall = wall\<rparr>"
  have k': "read_collapse_key dp v (cond_key c) = Ok kr"
    using k healthy_keys(3)[OF h, of dp r] by (auto simp: r_def reserved_record_def)
  have live: "md_status m \<noteq> Collapsed" using acc by (cases "expect_status c") (auto simp: acceptable_def)
  have dec: "round_decision ?ri kr (clock 0) = Admit (kr = None)"
    by (rule acceptable_decision) (use acc k in \<open>auto simp: acceptable_def\<close>)
  have rs: "(kr = None) \<longrightarrow> map_of (vt_keys v) (file_stem dp (cond_key c)) = None" using k by auto
  have u: "collapsed_record wall m rq cause (Some rc) (clock 0) = u"
    by (simp add: u_def collapse_of_def rc_def new_receipt_def)
  note A = admit_stages[where g = g and rq = rq and cause = cause and rc = rc and wall = wall and revision = revision,
      OF h l(1) live l(2) rs, folded r_def u_def v1_def]
  show "keyed dp (vault_port dp revision) authority caller i rq cause c wall clock quiet v =
      (Ok (transitioned g rc u (was_stuck (md_status m) m)), with_key dp (committed_record r rc) (with_state u v1),
       announce i (md_status m) (was_stuck (md_status m) m))"
    unfolding keyed_vault[where authority = authority, OF h l(1) g a k'] using A(1) l(2)
    by (simp add: Let_def dec u flip: rc_def r_def) (simp add: u_def)
  show "keyed dp (vault_port dp revision) authority caller i rq cause c wall clock (crash_at s) v =
      (Err (ColUnavailable ''crash''), case s of Decided \<Rightarrow> v | StageReserved \<Rightarrow> v1 | StateSaved \<Rightarrow> with_state u v1, [])"
    unfolding keyed_vault[where authority = authority, OF h l(1) g a k'] using A(2)[of s]
    by (simp add: Let_def dec u flip: rc_def r_def)
qed

lemma admit_interleaved:
  fixes g rq cause rc wall
  assumes h: "healthy v" and key: "map_of (vt_keys v) (file_stem dp k) = None"
    and hook: "hook Decided v = (Ok (), v)" "hook StageReserved (with_key dp (reserved_record k i g) v) = (Ok (), w)"
      "\<And>x. hook StateSaved x = (Ok (), x)"
    and w: "healthy w" "load_molecule (vt_disk w) i = Ok cw" "md_status cw \<noteq> Collapsed" and u: "md_id u = i"
  shows "admit (vault_port dp revision) hook True (reserved_record k i g) rc u v =
      (Ok (Done rc u), with_key dp (committed_record (reserved_record k i g) rc) (with_state u w))"
proof -
  have k: "kr_key (reserved_record k i g) = k" by (simp add: reserved_record_def)
  have "save_molecule_durable w i u = (Ok (), with_state u w)"
    by (rule healthy_save[OF w(1,2)]) (simp_all add: leaves_collapsed_def w(3) u)
  moreover have "reserve_collapse_key dp v (reserved_record k i g) = (Ok True, with_key dp (reserved_record k i g) v)"
    using healthy_keys(3)[OF h, of dp "reserved_record k i g"] key k by simp
  moreover have "commit_collapse_key dp (with_state u w) (committed_record (reserved_record k i g) rc) =
      (Ok (), with_key dp (committed_record (reserved_record k i g) rc) (with_state u w))"
    using healthy_keys(2)[of "with_state u w"] w(1) by simp
  ultimately show ?thesis using hook u by (simp add: admit_def write_collapse_def then_do_def vault_port_def)
qed

text \<open>A worker that completes its molecule between the reservation and the state write.\<close>

definition completing :: "'x molecule_data \<Rightarrow> collapse_stage \<Rightarrow> 'x vault \<Rightarrow> (cosmon_error + unit) \<times> 'x vault" where
  "completing m s v =
     (Ok (), if s = StageReserved
             then (case save_molecule (vt_disk v) (md_id m) (m\<lparr>md_status := Completed\<rparr>) of
                     Inr d' \<Rightarrow> v\<lparr>vt_disk := d'\<rparr>
                   | Inl _ \<Rightarrow> v)
             else v)"

lemma completing_writes:
  assumes "healthy v" and "load_molecule (vt_disk v) i = Ok m" and "md_id m = i" and "md_status m \<noteq> Collapsed"
  shows "completing m StageReserved v = (Ok (), with_state (m\<lparr>md_status := Completed\<rparr>) v)"
  using save_succeeds[of "vt_disk v" i m "m\<lparr>md_status := Completed\<rparr>"] assms
  by (simp add: completing_def healthy_def with_state_def leaves_collapsed_def)

text \<open>A transition comes from an admission in one of the two rounds.\<close>

lemma transitioned_admitted:
  assumes "keyed_rounds cp hook ri nows kr d = (Ok b, d', evs)" and "kc_outcome b = OTransitioned"
  shows "\<exists>kr' now reserve. now \<in> set nows \<and> round_decision ri kr' now = Admit reserve"
  using assms
proof (induction nows arbitrary: kr d)
  case (Cons now nows)
  show ?case
  proof (cases "round_decision ri kr now")
    case (Refuse r)
    then have "kc_outcome b = refusal_kind r" using Cons.prems(1) by (auto simp: Let_def refused_def)
    then show ?thesis using Cons.prems(2) by (cases r) auto
  next
    case (Replay rc fin)
    then have "kc_outcome b = OReplayed"
      using Cons.prems(1) by (auto simp: Let_def replayed_def split: if_splits prod.splits sum.splits)
    then show ?thesis using Cons.prems(2) by simp
  next
    case (Admit reserve)
    then show ?thesis by (intro exI[of _ kr] exI[of _ now] exI[of _ reserve]) simp
  qed
qed simp

section \<open>A sample vault\<close>

definition sample_port :: digest_port where
  "sample_port = \<lparr>blake3_hex = (\<lambda>s. s), canonical_intent = (\<lambda>i. Ok (in_target i @ in_reason i)), render_not_after = (\<lambda>_. [])\<rparr>"

definition sample_vault :: "unit vault" where
  "sample_vault = \<lparr>vt_disk = sample_disk Running, vt_keys = [], lock_fault = None, key_fault = None, sync_fault = None\<rparr>"

definition sample_condition :: collapse_condition where
  "sample_condition = \<lparr>cond_key = replicate 16 (CHR ''k''), expect_status = CRunning, expect_revision = ''rev'',
     approval_digest = None, not_after = Some 9\<rparr>"

definition sample_request :: collapse_request where
  "sample_request = \<lparr>rq_reason = ''r'', rq_cause = None, rq_account = None, rq_kind = None, rq_reason_kind = None\<rparr>"

abbreviation sample_revision :: "unit molecule_data \<Rightarrow> molecule_revision" where
  "sample_revision \<equiv> \<lambda>_. ''rev''"

abbreviation sample_run ::
  "string \<Rightarrow> (collapse_stage \<Rightarrow> unit vault \<Rightarrow> (cosmon_error + unit) \<times> unit vault) \<Rightarrow> unit vault
     \<Rightarrow> (collapse_error + unit keyed_collapse) \<times> unit vault \<times> event list" where
  "sample_run i \<equiv> keyed sample_port (vault_port sample_port sample_revision) (\<lambda>_ _ _. Ok None) (LocalCaller None) i
     sample_request None sample_condition 0 (\<lambda>_. 5)"

lemma sample_vault_ok: "vault_ok sample_port sample_vault"
proof -
  have "load_molecule (sample_disk Running) i = Ok c \<Longrightarrow> collapse_receipt c = None" for i c
    by (auto simp: load_molecule_def molecule_dir_def sample_disk_def fleet_entry_def sample_molecule_def
        split: option.splits if_splits sum.splits)
  then show ?thesis
    using sample_disk_wf[of Running] by (auto simp: vault_ok_def sample_vault_def vault_rec_def)
qed

lemma sample_vault_facts:
  "healthy sample_vault" "load_molecule (vt_disk sample_vault) ''m'' = Ok (sample_molecule ''m'' Running [])"
  "map_of (vt_keys sample_vault) x = None" "acceptable sample_revision sample_condition 5 (sample_molecule ''m'' Running [])"
  using sample_disk_load[of Running]
  by (simp_all add: sample_vault_def healthy_def sample_disk_def acceptable_def sample_condition_def sample_molecule_def)

lemma quiet_steps: "(vault_step dp revision)\<^sup>*\<^sup>* e (snd (quiet s e))"
  by (simp add: quiet_def)

section \<open>Properties\<close>

text \<open>
  C11. Exactly one collapse: after a keyed collapse has returned a receipt for a molecule, whatever
  else happens to the store, no later keyed collapse of that molecule transitions it again, none
  returns another receipt, none under the same key announces it again, and the identical request
  gets the same receipt back without a write.  Other processes may act at every seam of both calls.
\<close>

theorem keyed_collapse_once:
  assumes "vault_ok dp v0" and "\<And>s e. (vault_step dp revision)\<^sup>*\<^sup>* e (snd (hook s e))"
    and "\<And>s e. (vault_step dp revision)\<^sup>*\<^sup>* e (snd (hook' s e))"
    and "keyed dp (vault_port dp revision) authority caller i rq cause c wall clock hook v0 = (Ok a, v1, evs)"
    and "kc_receipt a = Some rc" and "(vault_step dp revision)\<^sup>*\<^sup>* v1 v2"
    and "keyed dp (vault_port dp revision) authority' caller' i rq' cause' c' wall' clock' hook' v2 = (Ok b, v3, evs')"
  shows "kc_outcome b \<noteq> OTransitioned \<and> (kc_receipt b = None \<or> kc_receipt b = Some rc) \<and>
    (cond_key c' = cond_key c \<longrightarrow> \<not> kc_announced b) \<and>
    (cond_key c' = cond_key c \<and> request_intent dp rq' i c' (actor caller') = request_intent dp rq i c (actor caller) \<longrightarrow>
       b = replayed (kc_digest a) rc False False \<and> v3 = v2 \<and> evs' = [])"
  using ledger.keyed_at_most_once[OF vault_steps_advance[OF assms(2)] vault_steps_advance[OF assms(3)]
      assms(1)[unfolded vault_ok_iff] assms(4,5) vault_steps_advance[OF assms(6)] assms(7)] by blast

theorem keyed_collapse_once_witness:
  "\<exists>a v1 evs rc b v2 evs'. sample_run ''m'' quiet sample_vault = (Ok a, v1, evs) \<and> kc_receipt a = Some rc \<and>
     sample_run ''m'' quiet v1 = (Ok b, v2, evs') \<and> b = replayed (kc_digest a) rc False False \<and> v2 = v1"
proof -
  have "\<not> isl (fst (sample_run ''m'' quiet sample_vault))" "kc_receipt (projr (fst (sample_run ''m'' quiet sample_vault))) \<noteq> None"
    "\<not> isl (fst (sample_run ''m'' quiet (fst (snd (sample_run ''m'' quiet sample_vault)))))" by code_simp+
  then obtain a v1 evs rc b v2 evs' where r: "sample_run ''m'' quiet sample_vault = (Ok a, v1, evs)" "kc_receipt a = Some rc"
    "sample_run ''m'' quiet v1 = (Ok b, v2, evs')"
    by (cases "sample_run ''m'' quiet sample_vault"; cases "fst (sample_run ''m'' quiet sample_vault)";
        cases "sample_run ''m'' quiet (fst (snd (sample_run ''m'' quiet sample_vault)))";
        cases "fst (sample_run ''m'' quiet (fst (snd (sample_run ''m'' quiet sample_vault))))") auto
  from keyed_collapse_once[OF sample_vault_ok quiet_steps quiet_steps r(1,2) _ r(3)] r show ?thesis by blast
qed

text \<open>
  A key is bound for good: once a key record names a molecule and a digest, every later keyed
  collapse under that key for another molecule or another intent is refused as a reused key, and
  writes and announces nothing.
\<close>

theorem bound_key_is_refused:
  assumes "vault_ok dp v" and "vault_rec dp v (cond_key c) = Some r" and "(vault_step dp revision)\<^sup>*\<^sup>* v v1"
    and "intent_digest dp (request_intent dp rq i c (actor caller)) = Ok g" and "kr_molecule r \<noteq> i \<or> kr_digest r \<noteq> g"
    and "keyed dp (vault_port dp revision) authority caller i rq cause c wall clock hook v1 = (Ok b, v2, evs)"
  shows "kc_refusal b = Some (KeyReused (kr_molecule r)) \<and> kc_outcome b = OIdempotencyKeyReused \<and> v2 = v1 \<and> evs = []"
proof -
  have "ledger.grows dp v v1"
    using vault_steps_advance[OF assms(3)] assms(1) by (simp add: vault_ok_iff ledger.advances_def)
  then obtain r' where "vault_rec dp v1 (cond_key c) = Some r'" "kr_molecule r' = kr_molecule r" "kr_digest r' = kr_digest r"
    using ledger.growsD(3) assms(2) by blast
  then show ?thesis using ledger.bound_key_refused[OF _ _ assms(4,6), of r'] assms(5) by simp
qed

theorem bound_key_is_refused_witness:
  "\<exists>v r b. vault_rec sample_port v (cond_key sample_condition) = Some r \<and> kr_molecule r = ''m'' \<and>
     keyed sample_port (vault_port sample_port sample_revision) (\<lambda>_ _ _. Ok None) (LocalCaller None) ''m''
       (sample_request\<lparr>rq_reason := ''other''\<rparr>) None sample_condition 0 (\<lambda>_. 5) quiet v = (Ok b, v, []) \<and>
     kc_outcome b = OIdempotencyKeyReused"
proof -
  let ?v = "fst (snd (sample_run ''m'' quiet sample_vault))"
  let ?rq = "sample_request\<lparr>rq_reason := ''other''\<rparr>" and ?r = "the (vault_rec sample_port ?v (cond_key sample_condition))"
  let ?run = "keyed sample_port (vault_port sample_port sample_revision) (\<lambda>_ _ _. Ok None) (LocalCaller None) ''m''
       ?rq None sample_condition 0 (\<lambda>_. 5) quiet ?v"
  have c: "vault_rec sample_port ?v (cond_key sample_condition) \<noteq> None" "kr_molecule ?r = ''m''"
    "kr_digest ?r \<noteq> B3_PREFIX @ REQUEST_DIGEST_DOMAIN @ ''mother''" "\<not> isl (fst ?run)" by code_simp+
  have r: "vault_rec sample_port ?v (cond_key sample_condition) = Some ?r" using c(1) by simp
  have g: "intent_digest sample_port (request_intent sample_port ?rq ''m'' sample_condition (actor (LocalCaller None))) =
      Ok (B3_PREFIX @ REQUEST_DIGEST_DOMAIN @ ''mother'')"
    by (simp add: intent_digest_def sample_port_def request_intent_def sample_request_def)
  obtain b v2 evs where run: "?run = (Ok b, v2, evs)" using c(4) by (cases ?run; cases "fst ?run") auto
  obtain x y z where "sample_run ''m'' quiet sample_vault = (x, y, z)" by (cases "sample_run ''m'' quiet sample_vault")
  from vaults.inv_step[OF sample_vault_ok keyed_call[OF quiet_steps this]] this have ok: "vault_ok sample_port ?v" by simp
  from bound_key_is_refused[OF ok r rtranclp.rtrancl_refl g disjI2[OF c(3)] run] run r c(2) show ?thesis by blast
qed

text \<open>
  The receipt lookup is never inconsistent: in every state reached from a consistent vault a
  lookup that can read its files reports a committed receipt exactly when the molecule is
  collapsed under that key with that receipt, and never that key record and state disagree.
\<close>

theorem receipt_lookup_consistent:
  assumes "vault_ok dp v" and "(vault_step dp revision)\<^sup>*\<^sup>* v v1"
    and "lookup_receipt (vault_port dp revision) v1 i k = Ok l"
  shows "(\<nexists>x. l = LInconsistent x) \<and>
    (l = LCommitted rc \<longleftrightarrow>
      (\<exists>c. load_molecule (vt_disk v1) i = Ok c \<and> md_status c = Collapsed \<and> collapse_receipt c = Some rc) \<and> rc_key rc = k)"
proof -
  have "ledger.ledger_ok dp v1" using vaults.steps_inv[OF assms(2,1)] by (simp add: vault_ok_iff)
  from ledger.lookup_consistent(1)[OF this assms(3)] ledger.lookup_consistent(2)[OF this assms(3), of rc]
  show ?thesis by (simp add: ledger_carries_iff)
qed

theorem receipt_lookup_consistent_witness:
  "\<exists>l. lookup_receipt (vault_port sample_port sample_revision) sample_vault ''m'' ''k'' = Ok l \<and> (\<nexists>x. l = LInconsistent x)"
proof -
  have l: "lookup_receipt (vault_port sample_port sample_revision) sample_vault ''m'' ''k'' = Ok LUnknown" by code_simp
  from receipt_lookup_consistent[OF sample_vault_ok rtranclp.rtrancl_refl l] l show ?thesis by blast
qed

text \<open>
  C12. A crash anywhere in the critical section is repaired by the retry: when an acceptable keyed
  collapse is cut off after the decision, after the reservation or after the state write, nothing
  is announced, and the identical request then succeeds with a receipt and announces the
  transition: as a transition if the state had not been written, as a replay if it had.
\<close>

theorem crash_then_retry_settles:
  assumes "vault_ok dp v" and "healthy v" and "load_molecule (vt_disk v) i = Ok m"
    and "map_of (vt_keys v) (file_stem dp (cond_key c)) = None"
    and "intent_digest dp (request_intent dp rq i c (actor caller)) = Ok g"
    and "\<And>v. authority v i caller = Ok None"
    and "acceptable revision c (clock 0) m" and "acceptable revision c (clock' 0) m"
  shows "\<exists>v1 b v2 rc c'. keyed dp (vault_port dp revision) authority caller i rq cause c wall clock (crash_at s) v =
      (Err (ColUnavailable ''crash''), v1, []) \<and>
    keyed dp (vault_port dp revision) authority caller i rq cause c wall' clock' quiet v1 =
      (Ok b, v2, announce i (md_status m) (was_stuck (md_status m) m)) \<and>
    kc_outcome b = (if s = StateSaved then OReplayed else OTransitioned) \<and> kc_receipt b = Some rc \<and> kc_announced b \<and>
    load_molecule (vt_disk v2) i = Ok c' \<and> md_status c' = Collapsed \<and> collapse_receipt c' = Some rc"
proof -
  let ?k = "cond_key c" and ?r = "reserved_record (cond_key c) i g"
  let ?rc = "\<lambda>t. new_receipt (cond_key c) g i (md_status m) (revision m) t"
  let ?u = "\<lambda>w t. collapse_of w m rq cause (?rc t)"
  have wf: "disk_wf (vt_disk v)" using assms(1) by (simp add: vault_ok_def)
  have id: "md_id m = i" using ledger_load_id[OF assms(1)[unfolded vault_ok_iff] assms(3)] .
  have key: "kr_key ?r = ?k" by (simp add: reserved_record_def)
  note base = assms(2,3) id assms(5) assms(6)
  note crash = keyed_admitted(2)[where authority = authority and clock = clock and kr = None and cause = cause
        and wall = wall and s = s, OF base assms(7)]
    keyed_admitted(1)[where authority = authority and clock = clock' and kr = None and cause = cause
        and wall = wall', OF base assms(8)]
  have h1: "healthy (with_key dp ?r v)" using assms(2) by simp
  have l1: "load_molecule (vt_disk (with_key dp ?r v)) i = Ok m" using assms(3) by simp
  have rd: "read_collapse_key dp (with_key dp ?r v) ?k = Ok (Some ?r)" using healthy_keys(1)[OF assms(2), of dp ?r] key by simp
  note again = keyed_admitted(1)[where authority = authority and clock = clock' and kr = "Some ?r" and cause = cause
        and wall = wall', OF h1 l1 id assms(5,6,8)]
  have lu: "load_molecule (vt_disk (with_state (?u w t) x)) i = Ok (?u w t)" if "vt_disk x = vt_disk v" for w t x
    using with_state_load[of x i m "?u w t" i] wf assms(3) id that by simp
  show ?thesis
  proof (cases s)
    case Decided
    then show ?thesis using crash assms(4) lu by (fastforce simp: transitioned_def)
  next
    case StageReserved
    then show ?thesis using crash(1) again assms(4) rd lu by (fastforce simp: transitioned_def)
  next
    case StateSaved
    let ?v1 = "with_state (?u wall (clock 0)) (with_key dp ?r v)"
    have rd1: "read_collapse_key dp ?v1 ?k = Ok (Some ?r)" using rd by simp
    have h2: "healthy ?v1" using assms(2) by simp
    have l2: "load_molecule (vt_disk ?v1) i = Ok (?u wall (clock 0))" using lu by simp
    have "round_decision \<lparr>ri_id = i, ri_request = rq, ri_cause = cause, ri_condition = c, ri_digest = g,
        ri_mol = ?u wall (clock 0), ri_revision = revision (?u wall (clock 0)), ri_lease = None, ri_wall = wall'\<rparr>
        (Some ?r) (clock' 0) = Replay (?rc (clock 0)) True"
      by (simp add: round_decision_def decide_Replay_iff key_reused_None_iff replay_of_Some_iff new_receipt_def
          reserved_record_def)
    then have "keyed dp (vault_port dp revision) authority caller i rq cause c wall' clock' quiet ?v1 =
        (Ok (replayed g (?rc (clock 0)) True (was_stuck (md_status m) m)),
         with_key dp (committed_record ?r (?rc (clock 0))) ?v1, announce i (md_status m) (was_stuck (md_status m) m))"
      unfolding keyed_vault[where authority = authority, OF h2 l2 assms(5,6) rd1]
      using healthy_keys(2)[OF h2, of dp "committed_record ?r (?rc (clock 0))"] id
      by (simp add: Let_def vault_port_def was_stuck_def new_receipt_def)
    then show ?thesis using StateSaved crash(1) assms(4) l2 by (fastforce simp: replayed_def)
  qed
qed

theorem crash_then_retry_settles_witness:
  "\<exists>v1 b v2. sample_run ''m'' (crash_at StateSaved) sample_vault = (Err (ColUnavailable ''crash''), v1, []) \<and>
     sample_run ''m'' quiet v1 = (Ok b, v2, announce ''m'' Running False) \<and> kc_outcome b = OReplayed"
proof -
  have g: "intent_digest sample_port (request_intent sample_port sample_request ''m'' sample_condition (actor (LocalCaller None))) =
      Ok (B3_PREFIX @ REQUEST_DIGEST_DOMAIN @ ''mr'')"
    by (simp add: intent_digest_def sample_port_def request_intent_def sample_request_def)
  from crash_then_retry_settles[where authority = "\<lambda>_ _ _. Ok None" and clock = "\<lambda>_. 5" and clock' = "\<lambda>_. 5" and s = StateSaved
      and wall = 0 and wall' = 0 and cause = None,
      OF sample_vault_ok sample_vault_facts(1,2,3) g refl sample_vault_facts(4,4)]
  show ?thesis by (auto simp: sample_molecule_def was_stuck_def)
qed

text \<open>
  A keyed collapse happens only on the state the caller confirmed: when it reports a transition,
  the molecule it read had the expected status and revision, the lease guard did not object, and
  the approval had not expired at the time of a decision.
\<close>

theorem keyed_transition_conditions:
  assumes "keyed dp (vault_port dp revision) authority caller i rq cause c wall clock hook v = (Ok b, v', evs)"
    and "kc_outcome b = OTransitioned"
  shows "\<exists>m. load_molecule (vt_disk v) i = Ok m \<and> md_status m = collapsible (expect_status c) \<and>
    revision m = expect_revision c \<and> authority v i caller = Ok None \<and>
    (\<forall>t. not_after c = Some t \<longrightarrow> clock 0 \<le> t \<or> clock 1 \<le> t)"
proof -
  have "map clock [0..<2] = [clock 0, clock 1]" by (simp add: upt_rec)
  then obtain g kr m l where m: "load_molecule (vt_disk v) i = Ok m" "authority v i caller = Ok l"
    and r: "keyed_rounds (vault_port dp revision) hook \<lparr>ri_id = i, ri_request = rq, ri_cause = cause, ri_condition = c,
      ri_digest = g, ri_mol = m, ri_revision = revision m, ri_lease = l, ri_wall = wall\<rparr> [clock 0, clock 1] kr v = (Ok b, v', evs)"
    using assms(1) by (auto simp: keyed_def vault_port_def load_molecule_revisioned_def split: sum.splits prod.splits)
  obtain kr' now reserve where "now \<in> {clock 0, clock 1}"
    and "round_decision \<lparr>ri_id = i, ri_request = rq, ri_cause = cause, ri_condition = c, ri_digest = g, ri_mol = m,
      ri_revision = revision m, ri_lease = l, ri_wall = wall\<rparr> kr' now = Admit reserve"
    using transitioned_admitted[OF r assms(2)] by auto
  then show ?thesis using m by (auto simp: round_decision_def decide_Admit_iff)
qed

theorem keyed_transition_conditions_witness:
  "\<exists>b v' evs. sample_run ''m'' quiet sample_vault = (Ok b, v', evs) \<and>
     (\<exists>m. load_molecule (vt_disk sample_vault) ''m'' = Ok m \<and> md_status m = Running)"
proof -
  have "\<not> isl (fst (sample_run ''m'' quiet sample_vault))"
    "kc_outcome (projr (fst (sample_run ''m'' quiet sample_vault))) = OTransitioned" by code_simp+
  then obtain b v' evs where "sample_run ''m'' quiet sample_vault = (Ok b, v', evs)" "kc_outcome b = OTransitioned"
    by (cases "sample_run ''m'' quiet sample_vault"; cases "fst (sample_run ''m'' quiet sample_vault)") auto
  with keyed_transition_conditions[OF this] show ?thesis by (auto simp: sample_condition_def)
qed

text \<open>
  The confirmation does not reach the write: a molecule that its worker completes between the
  decision of a keyed collapse and its state write (completing takes no dispatch lock) ends
  collapsed, although the collapse was confirmed for the earlier state, and the transition is
  reported and announced as if nothing had happened.
\<close>

theorem keyed_collapse_overwrites_completion:
  assumes "vault_ok dp v" and "healthy v" and "load_molecule (vt_disk v) i = Ok m"
    and "map_of (vt_keys v) (file_stem dp (cond_key c)) = None"
    and "intent_digest dp (request_intent dp rq i c (actor caller)) = Ok g"
    and "authority v i caller = Ok None" and "acceptable revision c (clock 0) m"
  shows "\<exists>b v' c' w. keyed dp (vault_port dp revision) authority caller i rq cause c wall clock (completing m) v =
      (Ok b, v', announce i (md_status m) (was_stuck (md_status m) m)) \<and> kc_outcome b = OTransitioned \<and>
    completing m StageReserved (with_key dp (reserved_record (cond_key c) i g) v) = (Ok (), w) \<and>
    load_molecule (vt_disk w) i = Ok (m\<lparr>md_status := Completed\<rparr>) \<and>
    load_molecule (vt_disk v') i = Ok c' \<and> md_status c' = Collapsed"
proof -
  let ?m = "m\<lparr>md_status := Completed\<rparr>" and ?r = "reserved_record (cond_key c) i g"
  let ?v1 = "with_key dp ?r v" and ?rc = "new_receipt (cond_key c) g i (md_status m) (revision m) (clock 0)"
  let ?w = "with_state ?m ?v1" and ?u = "collapse_of wall m rq cause ?rc"
  have wf: "disk_wf (vt_disk v)" using assms(1) by (simp add: vault_ok_def)
  have id: "md_id m = i" using ledger_load_id[OF assms(1)[unfolded vault_ok_iff] assms(3)] .
  have live: "md_status m \<noteq> Collapsed" using assms(7) by (cases "expect_status c") (auto simp: acceptable_def)
  have w: "completing m StageReserved ?v1 = (Ok (), ?w)"
    by (rule completing_writes[of _ i]) (use assms(2,3) id live in simp_all)
  have lw: "load_molecule (vt_disk ?w) j = (if j = i then Ok ?m else load_molecule (vt_disk v) j)" for j
    using with_state_load[of ?v1 i m ?m j] wf assms(3) id by simp
  have wfw: "disk_wf (vt_disk ?w)"
    using write_file_wf[OF wf, of ?m i] load_Ok_free[OF wf assms(3)] id by simp
  have ad: "admit (vault_port dp revision) (completing m) True ?r ?rc ?u v =
      (Ok (Done ?rc ?u), with_key dp (committed_record ?r ?rc) (with_state ?u ?w))"
    by (rule admit_interleaved[where hook = "completing m" and cw = ?m, OF assms(2,4) _ w]) (use assms(2) lw[of i] id in \<open>simp_all add: completing_def\<close>)
  have lu: "load_molecule (vt_disk (with_state ?u ?w)) i = Ok ?u"
    using with_state_load[OF wfw, of i ?m ?u i] lw[of i] id by simp
  have "read_collapse_key dp v (cond_key c) = Ok None"
    using healthy_keys(3)[OF assms(2), of dp ?r] assms(4) by (simp add: reserved_record_def)
  note start = keyed_vault[where authority = authority, OF assms(2,3,5,6) this]
  have "round_decision \<lparr>ri_id = i, ri_request = rq, ri_cause = cause, ri_condition = c, ri_digest = g, ri_mol = m,
      ri_revision = revision m, ri_lease = None, ri_wall = wall\<rparr> None (clock 0) = Admit True"
    using acceptable_decision[of "\<lparr>ri_id = i, ri_request = rq, ri_cause = cause, ri_condition = c, ri_digest = g, ri_mol = m,
      ri_revision = revision m, ri_lease = None, ri_wall = wall\<rparr>" "clock 0" None] assms(7) by (simp add: acceptable_def)
  then have "keyed dp (vault_port dp revision) authority caller i rq cause c wall clock (completing m) v =
      (Ok (transitioned g ?rc ?u (was_stuck (md_status m) m)), with_key dp (committed_record ?r ?rc) (with_state ?u ?w),
       announce i (md_status m) (was_stuck (md_status m) m))"
    unfolding start using ad id collapse_of_fields(1)[of wall m rq cause ?rc]
    by (simp add: Let_def new_receipt_def collapse_of_def)
  then show ?thesis using w lw[of i] lu by (fastforce simp: transitioned_def)
qed

theorem keyed_collapse_overwrites_completion_witness:
  "\<exists>b v' evs c'. sample_run ''m'' (completing (sample_molecule ''m'' Running [])) sample_vault = (Ok b, v', evs) \<and>
     load_molecule (vt_disk v') ''m'' = Ok c' \<and> md_status c' = Collapsed"
proof -
  have g: "intent_digest sample_port (request_intent sample_port sample_request ''m'' sample_condition (actor (LocalCaller None))) =
      Ok (B3_PREFIX @ REQUEST_DIGEST_DOMAIN @ ''mr'')"
    by (simp add: intent_digest_def sample_port_def request_intent_def sample_request_def)
  from keyed_collapse_overwrites_completion[where authority = "\<lambda>_ _ _. Ok None" and clock = "\<lambda>_. 5" and wall = 0 and cause = None,
      OF sample_vault_ok sample_vault_facts(1,2,3) g refl sample_vault_facts(4)]
  show ?thesis by blast
qed

end
