(* ===== verification/Lease.thy ===== *)
theory Lease
  imports Collapse Ids
begin

text \<open>
  Who may pilot a mission: leases and their decision (\<open>cosmon-core/src/pilot_lease.rs\<close>), the text
  an operator signs (\<open>operator_attestation.rs\<close>), the append-only ledgers of requests and grants
  (\<open>cosmon-filestore/src/pilot_lease_store.rs\<close>) and the guard of the lifecycle verbs
  (\<open>cosmon-harvest/src/pilot_gesture.rs\<close>), which is the authority of a collapse.

  A ledger file is its text, or the error of reading it; a missing file has the empty text.  The JSON codec of the lines, the debug rendering of a string, SHA-256 in hexadecimal, the rendering of instants, the
  signature check and the lookup of the operator's key are arguments, as are the presence
  snapshots, of which the role, mission and epoch matter.
\<close>

section \<open>Epochs and requests\<close>

type_synonym lease_epoch = "64 word"

definition epoch_first :: lease_epoch where
  "epoch_first = 1"

definition epoch_new :: "lease_epoch \<Rightarrow> id_error + lease_epoch" where
  "epoch_new raw =
     (if raw = 0 then Err (IdInvalid ''LeaseEpoch'' ''epoch 0 is the uninitialised value, not an authority'')
      else Ok raw)"

definition epoch_next :: "lease_epoch \<Rightarrow> lease_epoch" where
  "epoch_next e = saturating_add e 1"

definition show_epoch :: "lease_epoch \<Rightarrow> string" where
  "show_epoch e = show_nat (unat e)"

text \<open>\<open>u64::to_be_bytes\<close>.\<close>

definition to_be_bytes :: "lease_epoch \<Rightarrow> string" where
  "to_be_bytes e = map (\<lambda>k. char_of (unat e div 256 ^ k mod 256)) [7, 6, 5, 4, 3, 2, 1, 0]"

record id_port =
  sha256_hex :: "string \<Rightarrow> string"
  rfc3339 :: "datetime \<Rightarrow> string"

definition derive_request_id ::
  "id_port \<Rightarrow> string \<Rightarrow> string \<Rightarrow> lease_epoch option \<Rightarrow> datetime \<Rightarrow> string" where
  "derive_request_id ip mission candidate observed_epoch requested_at =
     ''req-'' @ take 12 (sha256_hex ip
       (mission @ [char_of (0::nat)] @ candidate @ [char_of (0::nat)] @
        to_be_bytes (case observed_epoch of None \<Rightarrow> 0 | Some e \<Rightarrow> e) @ [char_of (0::nat)] @ rfc3339 ip requested_at))"

record lease_request =
  lr_id :: string
  lr_mission_id :: string
  candidate_session_id :: string
  observed_holder :: "string option"
  observed_epoch :: "lease_epoch option"
  requested_by :: string
  requested_at :: datetime
  lr_reason :: string

section \<open>Attestations\<close>

record operator_attestation =
  att_key_id :: string
  att_signature :: string
  att_global_signature :: string
  att_trusted_comment :: string
  att_untrusted_comment :: string

datatype attestation_error =
  NoTrustRoot
| MissingAttestation
| UnknownKey string string
| MalformedAttestation string
| DoesNotCoverTransfer
| TrustedCommentUnsigned

datatype challenge_error =
  OperatorNameEmpty
| OperatorNameNotOneLine string
| TtlNegative int

definition CHALLENGE_V1_TAG :: string where
  "CHALLENGE_V1_TAG = ''cosmon-takeover-grant-v1''"

record grant_challenge =
  gc_mission_id :: string
  gc_holder_session_id :: string
  gc_epoch :: lease_epoch
  gc_granted_by :: string
  gc_ttl_seconds :: "int option"

text \<open>\<open>chars().any(char::is_control)\<close>: below U+0020, U+007F, and U+0080 to U+009F in two bytes.\<close>

fun has_control :: "string \<Rightarrow> bool" where
  "has_control [] = False"
| "has_control (c # cs) =
     (let b = of_char c :: nat
      in b < 32 \<or> b = 127 \<or>
         (b = 194 \<and> (case cs of d # _ \<Rightarrow> 128 \<le> (of_char d :: nat) \<and> (of_char d :: nat) \<le> 159 | [] \<Rightarrow> False)) \<or>
         has_control cs)"

definition challenge_new ::
  "string \<Rightarrow> string \<Rightarrow> lease_epoch \<Rightarrow> string \<Rightarrow> int option \<Rightarrow> challenge_error + grant_challenge" where
  "challenge_new mission holder epoch granted_by ttl =
     (if is_blank granted_by then Err OperatorNameEmpty
      else if has_control granted_by then Err (OperatorNameNotOneLine granted_by)
      else case ttl of
             Some secs \<Rightarrow>
               if secs < 0 then Err (TtlNegative secs)
               else Ok \<lparr>gc_mission_id = mission, gc_holder_session_id = holder, gc_epoch = epoch,
                        gc_granted_by = granted_by, gc_ttl_seconds = ttl\<rparr>
           | None \<Rightarrow> Ok \<lparr>gc_mission_id = mission, gc_holder_session_id = holder, gc_epoch = epoch,
                        gc_granted_by = granted_by, gc_ttl_seconds = ttl\<rparr>)"

definition canonical_bytes :: "grant_challenge \<Rightarrow> string" where
  "canonical_bytes c =
     CHALLENGE_V1_TAG @ [newline] @ ''mission='' @ gc_mission_id c @ [newline] @
     ''holder='' @ gc_holder_session_id c @ [newline] @ ''epoch='' @ show_epoch (gc_epoch c) @ [newline] @
     ''granted_by='' @ gc_granted_by c @ [newline] @
     ''ttl='' @ (case gc_ttl_seconds c of Some s \<Rightarrow> show_nat (nat s) | None \<Rightarrow> ''none'') @ [newline]"

section \<open>Leases\<close>

record pilot_lease =
  pl_mission_id :: string
  holder_session_id :: string
  pl_epoch :: lease_epoch
  pl_granted_by :: string
  pl_granted_at :: datetime
  pl_expires_at :: "datetime option"
  pl_request_id :: "string option"
  pl_attestation :: "operator_attestation option"

definition new_lease ::
  "string \<Rightarrow> string \<Rightarrow> lease_epoch \<Rightarrow> string \<Rightarrow> datetime \<Rightarrow> datetime option \<Rightarrow> pilot_lease" where
  "new_lease mission holder epoch granted_by granted_at expires_at =
     \<lparr>pl_mission_id = mission, holder_session_id = holder, pl_epoch = epoch, pl_granted_by = granted_by,
      pl_granted_at = granted_at, pl_expires_at = expires_at, pl_request_id = None, pl_attestation = None\<rparr>"

definition answering :: "lease_request \<Rightarrow> pilot_lease \<Rightarrow> pilot_lease" where
  "answering rq l = l\<lparr>pl_request_id := Some (lr_id rq)\<rparr>"

definition attested_by :: "operator_attestation \<Rightarrow> pilot_lease \<Rightarrow> pilot_lease" where
  "attested_by a l = l\<lparr>pl_attestation := Some a\<rparr>"

definition new_request ::
  "id_port \<Rightarrow> string \<Rightarrow> string \<Rightarrow> string \<Rightarrow> pilot_lease option \<Rightarrow> datetime \<Rightarrow> string \<Rightarrow> lease_request" where
  "new_request ip mission candidate by_session observed at why =
     (let oe = map_option pl_epoch observed
      in \<lparr>lr_id = derive_request_id ip mission candidate oe at, lr_mission_id = mission,
          candidate_session_id = candidate, observed_holder = map_option holder_session_id observed,
          observed_epoch = oe, requested_by = by_session, requested_at = at, lr_reason = why\<rparr>)"

definition challenge :: "pilot_lease \<Rightarrow> challenge_error + grant_challenge" where
  "challenge l =
     challenge_new (pl_mission_id l) (holder_session_id l) (pl_epoch l) (pl_granted_by l)
       (map_option (\<lambda>deadline. num_seconds (deadline - pl_granted_at l)) (pl_expires_at l))"

definition is_valid_at :: "pilot_lease \<Rightarrow> datetime \<Rightarrow> bool" where
  "is_valid_at l now = (case pl_expires_at l of Some deadline \<Rightarrow> now < deadline | None \<Rightarrow> True)"

datatype refusal_reason =
  NoLease
| UnverifiableGrantLedger
| EpochNotPresented
| NotHolder string
| EpochMismatch lease_epoch lease_epoch
| Expired datetime

datatype lease_decision = Granted lease_epoch | RefusedGesture refusal_reason

fun explain :: "(datetime \<Rightarrow> string) \<Rightarrow> refusal_reason \<Rightarrow> string" where
  "explain show_ts NoLease =
     ''no lease on this mission '' @ em_dash @ '' nobody is PRIMARY, so nobody may pilot''"
| "explain show_ts UnverifiableGrantLedger =
     ''grant lines cannot be verified '' @ em_dash @
     '' restore the per-galaxy .cosmon/takeover.pub trust root if it is missing, or repair the ledger; refusing rather than treating the mission as unleased''"
| "explain show_ts EpochNotPresented =
     ''no epoch presented '' @ em_dash @ '' a gesture must carry the epoch it believes it holds''"
| "explain show_ts (NotHolder h) = ''the lease is held by '' @ h"
| "explain show_ts (EpochMismatch p c) =
     ''stale epoch '' @ show_epoch p @ '' '' @ em_dash @ '' the mission is at epoch '' @ show_epoch c"
| "explain show_ts (Expired t) =
     ''the lease expired at '' @ show_ts t @ '' and confers nothing after that''"

definition epoch_presented_for :: "string \<Rightarrow> (string \<times> lease_epoch) option \<Rightarrow> lease_epoch option" where
  "epoch_presented_for mission claim =
     (case claim of Some (claimed, e) \<Rightarrow> if claimed = mission then Some e else None | None \<Rightarrow> None)"

definition authorize ::
  "pilot_lease option \<Rightarrow> datetime \<Rightarrow> string \<Rightarrow> lease_epoch option \<Rightarrow> lease_decision" where
  "authorize lease now session presented =
     (case lease of
        None \<Rightarrow> RefusedGesture NoLease
      | Some l \<Rightarrow>
          if \<not> is_valid_at l now
          then RefusedGesture (Expired (case pl_expires_at l of Some t \<Rightarrow> t | None \<Rightarrow> now))
          else if holder_session_id l \<noteq> session then RefusedGesture (NotHolder (holder_session_id l))
          else (case presented of
                  None \<Rightarrow> RefusedGesture EpochNotPresented
                | Some p \<Rightarrow>
                    if p \<noteq> pl_epoch l then RefusedGesture (EpochMismatch p (pl_epoch l))
                    else Granted (pl_epoch l)))"

section \<open>The ledgers\<close>

type_synonym verifier = "grant_challenge \<Rightarrow> operator_attestation \<Rightarrow> attestation_error + unit"

record lease_codec =
  enc_lease :: "pilot_lease \<Rightarrow> string"
  dec_lease :: "string \<Rightarrow> pilot_lease option"
  enc_request :: "lease_request \<Rightarrow> string"
  dec_request :: "string \<Rightarrow> lease_request option"
  debug_str :: "string \<Rightarrow> string"

record lease_disk =
  grants_file :: "string \<Rightarrow> string + string"
  requests_file :: "string \<Rightarrow> string + string"
  append_error :: "string option"

fun challenge_error_to_string :: "(string \<Rightarrow> string) \<Rightarrow> challenge_error \<Rightarrow> string" where
  "challenge_error_to_string dbg OperatorNameEmpty =
     ''granted_by is empty '' @ em_dash @ '' a grant must name the operator it claims''"
| "challenge_error_to_string dbg (OperatorNameNotOneLine s) =
     ''granted_by '' @ dbg s @ '' holds a control character '' @ em_dash @ '' it would forge a line of the challenge''"
| "challenge_error_to_string dbg (TtlNegative n) =
     ''ttl '' @ show_int n @ ''s is negative '' @ em_dash @ '' a lease cannot expire before it is granted''"

definition attested :: "(string \<Rightarrow> string) \<Rightarrow> verifier option \<Rightarrow> pilot_lease \<Rightarrow> attestation_error + unit" where
  "attested dbg ver l =
     (case ver of
        None \<Rightarrow> Err NoTrustRoot
      | Some v \<Rightarrow>
          (case pl_attestation l of
             None \<Rightarrow> Err MissingAttestation
           | Some a \<Rightarrow>
               and_then (map_err (\<lambda>e. MalformedAttestation (challenge_error_to_string dbg e)) (challenge l)) (\<lambda>c. v c a)))"

definition read_lines :: "string + string \<Rightarrow> cosmon_error + string list" where
  "read_lines f = and_then (map_err StoreFailure f) (\<lambda>t. Ok (str_lines t))"

record audited_grant =
  ag_lease :: pilot_lease
  ag_verdict :: "attestation_error + unit"

definition audit_grants :: "lease_codec \<Rightarrow> verifier option \<Rightarrow> lease_disk \<Rightarrow> string \<Rightarrow> cosmon_error + audited_grant list" where
  "audit_grants cd ver d mission =
     and_then (read_lines (grants_file d mission)) (\<lambda>ls.
     Ok (map (\<lambda>l. \<lparr>ag_lease = l, ag_verdict = attested (debug_str cd) ver l\<rparr>) (List.map_filter (dec_lease cd) ls)))"

definition grants :: "lease_codec \<Rightarrow> verifier option \<Rightarrow> lease_disk \<Rightarrow> string \<Rightarrow> cosmon_error + pilot_lease list" where
  "grants cd ver d mission =
     and_then (audit_grants cd ver d mission) (\<lambda>gs. Ok (map ag_lease (filter (\<lambda>g. \<not> isl (ag_verdict g)) gs)))"

definition requests :: "lease_codec \<Rightarrow> lease_disk \<Rightarrow> string \<Rightarrow> cosmon_error + lease_request list" where
  "requests cd d mission =
     and_then (read_lines (requests_file d mission)) (\<lambda>ls. Ok (List.map_filter (dec_request cd) ls))"

text \<open>\<open>Iterator::max_by_key\<close>: of several maxima the last.\<close>

definition max_by_epoch :: "pilot_lease list \<Rightarrow> pilot_lease option" where
  "max_by_epoch ls =
     fold (\<lambda>l acc. case acc of None \<Rightarrow> Some l | Some b \<Rightarrow> if pl_epoch b \<le> pl_epoch l then Some l else Some b) ls None"

definition current_lease :: "lease_codec \<Rightarrow> verifier option \<Rightarrow> lease_disk \<Rightarrow> string \<Rightarrow> cosmon_error + pilot_lease option" where
  "current_lease cd ver d mission = and_then (grants cd ver d mission) (\<lambda>ls. Ok (max_by_epoch ls))"

definition has_unverifiable_grant_ledger ::
  "lease_codec \<Rightarrow> verifier option \<Rightarrow> lease_disk \<Rightarrow> string \<Rightarrow> cosmon_error + bool" where
  "has_unverifiable_grant_ledger cd ver d mission =
     and_then (read_lines (grants_file d mission)) (\<lambda>ls.
     if list_ex (\<lambda>l. \<not> is_blank l) ls
     then and_then (current_lease cd ver d mission) (\<lambda>c. Ok (c = None))
     else Ok False)"

definition next_epoch :: "lease_codec \<Rightarrow> verifier option \<Rightarrow> lease_disk \<Rightarrow> string \<Rightarrow> cosmon_error + lease_epoch" where
  "next_epoch cd ver d mission =
     and_then (grants cd ver d mission) (\<lambda>ls.
     Ok (case max_by_epoch ls of None \<Rightarrow> epoch_first | Some l \<Rightarrow> epoch_next (pl_epoch l)))"

definition append_line ::
  "lease_disk \<Rightarrow> string + string \<Rightarrow> string \<Rightarrow> cosmon_error + (string + string)" where
  "append_line d f line =
     (case append_error d of
        Some e \<Rightarrow> Err (StoreFailure e)
      | None \<Rightarrow> Ok (case f of Inl e \<Rightarrow> Inl e | Inr t \<Rightarrow> Inr (t @ line @ [newline])))"

definition post_request :: "lease_codec \<Rightarrow> lease_request \<Rightarrow> lease_disk \<Rightarrow> cosmon_error + bool \<times> lease_disk" where
  "post_request cd rq d =
     and_then (requests cd d (lr_mission_id rq)) (\<lambda>rs.
     if list_ex (\<lambda>r. lr_id r = lr_id rq) rs then Ok (False, d)
     else and_then (append_line d (requests_file d (lr_mission_id rq)) (enc_request cd rq)) (\<lambda>f.
          Ok (True, d\<lparr>requests_file := (requests_file d)(lr_mission_id rq := f)\<rparr>)))"

definition find_request :: "lease_codec \<Rightarrow> lease_disk \<Rightarrow> string \<Rightarrow> string \<Rightarrow> cosmon_error + lease_request option" where
  "find_request cd d mission i =
     and_then (requests cd d mission) (\<lambda>rs. Ok (List.find (\<lambda>r. lr_id r = i) rs))"

definition unanswered_requests ::
  "lease_codec \<Rightarrow> verifier option \<Rightarrow> lease_disk \<Rightarrow> string \<Rightarrow> cosmon_error + lease_request list" where
  "unanswered_requests cd ver d mission =
     and_then (grants cd ver d mission) (\<lambda>ls.
     (let answered = List.map_filter pl_request_id ls
      in and_then (requests cd d mission) (\<lambda>rs. Ok (filter (\<lambda>r. lr_id r \<notin> set answered) rs))))"

definition grant_lease :: "lease_codec \<Rightarrow> verifier option \<Rightarrow> pilot_lease \<Rightarrow> lease_disk \<Rightarrow> cosmon_error + lease_disk" where
  "grant_lease cd ver l d =
     and_then (grants cd ver d (pl_mission_id l)) (\<lambda>ls.
     (case max_by_epoch ls of
        Some h \<Rightarrow>
          if pl_epoch l \<le> pl_epoch h
          then Err (StoreFailure (''refusing a grant at epoch '' @ show_epoch (pl_epoch l) @ '' '' @ em_dash @ '' mission '' @
                 pl_mission_id l @ '' is already at epoch '' @ show_epoch (pl_epoch h) @ ''; an epoch is used once''))
          else and_then (append_line d (grants_file d (pl_mission_id l)) (enc_lease cd l)) (\<lambda>f.
               Ok (d\<lparr>grants_file := (grants_file d)(pl_mission_id l := f)\<rparr>))
      | None \<Rightarrow>
          and_then (append_line d (grants_file d (pl_mission_id l)) (enc_lease cd l)) (\<lambda>f.
          Ok (d\<lparr>grants_file := (grants_file d)(pl_mission_id l := f)\<rparr>))))"

definition store_authorize ::
  "lease_codec \<Rightarrow> verifier option \<Rightarrow> lease_disk \<Rightarrow> string \<Rightarrow> datetime \<Rightarrow> string \<Rightarrow> lease_epoch option
     \<Rightarrow> cosmon_error + lease_decision" where
  "store_authorize cd ver d mission now session presented =
     and_then (current_lease cd ver d mission) (\<lambda>c.
     if c = None
     then and_then (has_unverifiable_grant_ledger cd ver d mission) (\<lambda>u.
          Ok (if u then RefusedGesture UnverifiableGrantLedger else authorize c now session presented))
     else Ok (authorize c now session presented))"

section \<open>The guard of the lifecycle verbs\<close>

datatype pilot_role = Primary | Copilot

text \<open>Of a presence snapshot, the fields a claim is made of.\<close>

record presence =
  pr_role :: pilot_role
  pr_mission :: "string option"
  pr_lease_epoch :: "lease_epoch option"

definition claimed_authority :: "presence \<Rightarrow> (string \<times> lease_epoch) option" where
  "claimed_authority p =
     (if pr_role p \<noteq> Primary then None
      else case (pr_mission p, pr_lease_epoch p) of (Some m, Some e) \<Rightarrow> Some (m, e) | _ \<Rightarrow> None)"

datatype gesture_error =
  UnleasedGesture string string string
| OtherGestureError string

text \<open>
  What the guard reads: the outcome of resolving the operator's key, the ledgers, the presence
  snapshots, and the clock.
\<close>

record guard_env =
  ge_codec :: lease_codec
  ge_trust :: "cosmon_error + verifier option"
  ge_leases :: lease_disk
  ge_presence :: "string \<Rightarrow> cosmon_error + presence option"
  ge_now :: datetime
  ge_show_ts :: "datetime \<Rightarrow> string"

definition gesture_store_error :: "cosmon_error \<Rightarrow> gesture_error" where
  "gesture_store_error e = OtherGestureError (cosmon_to_string e)"

definition refuse_unleased_pilot_gesture_for_session ::
  "guard_env \<Rightarrow> string \<Rightarrow> string \<Rightarrow> string option \<Rightarrow> gesture_error + unit" where
  "refuse_unleased_pilot_gesture_for_session ge mission gesture session =
     and_then (map_err gesture_store_error (ge_trust ge)) (\<lambda>ver.
     and_then (map_err gesture_store_error
                 (has_unverifiable_grant_ledger (ge_codec ge) ver (ge_leases ge) mission)) (\<lambda>u.
     if u then Err (UnleasedGesture gesture mission (explain (ge_show_ts ge) UnverifiableGrantLedger))
     else
       and_then (map_err gesture_store_error (current_lease (ge_codec ge) ver (ge_leases ge) mission)) (\<lambda>c.
       (case c of
          None \<Rightarrow> Ok ()
        | Some lease \<Rightarrow>
            (case session of
               None \<Rightarrow> Err (UnleasedGesture gesture mission
                   (''this session names no identity, and an unnamed caller holds nothing '' @ em_dash @
                    '' the lease is held by '' @ holder_session_id lease @
                    ''. Export COSMON_SESSION_ID to say who you are''))
             | Some s \<Rightarrow>
                 and_then (map_err gesture_store_error (ge_presence ge s)) (\<lambda>seat.
                 (let presented = epoch_presented_for mission (Option.bind seat claimed_authority)
                  in case authorize (Some lease) (ge_now ge) s presented of
                       Granted _ \<Rightarrow> Ok ()
                     | RefusedGesture why \<Rightarrow>
                         Err (UnleasedGesture gesture mission (explain (ge_show_ts ge) why))))))))) "

definition REMOTE_CALLER_ON_LEASED_MISSION :: string where
  "REMOTE_CALLER_ON_LEASED_MISSION =
     ''a network caller has no pilot session, and in v1 a mission under co-pilotage '' @
     ''cannot be collapsed remotely; collapse it from the session that holds the lease''"

definition ledger_error :: "string \<Rightarrow> cosmon_error" where
  "ledger_error e = StoreFailure (''pilot lease ledger: '' @ e)"

fun lease_check :: "guard_env \<Rightarrow> string \<Rightarrow> string \<Rightarrow> caller_context \<Rightarrow> cosmon_error + string option" where
  "lease_check ge gesture i (LocalCaller session) =
     (case refuse_unleased_pilot_gesture_for_session ge i gesture session of
        Inr _ \<Rightarrow> Ok None
      | Inl (UnleasedGesture _ _ why) \<Rightarrow> Ok (Some why)
      | Inl (OtherGestureError e) \<Rightarrow> Err (ledger_error e))"
| "lease_check ge gesture i (RemoteCaller _) =
     and_then (map_err (\<lambda>e. ledger_error (cosmon_to_string e)) (ge_trust ge)) (\<lambda>ver.
     and_then (map_err (\<lambda>e. ledger_error (cosmon_to_string e))
                 (has_unverifiable_grant_ledger (ge_codec ge) ver (ge_leases ge) i)) (\<lambda>u.
     if u then Ok (Some REMOTE_CALLER_ON_LEASED_MISSION)
     else and_then (map_err (\<lambda>e. ledger_error (cosmon_to_string e))
                      (current_lease (ge_codec ge) ver (ge_leases ge) i)) (\<lambda>c.
          Ok (if c \<noteq> None then Some REMOTE_CALLER_ON_LEASED_MISSION else None))))"

section \<open>The signed text\<close>

lemma has_control_newline: "newline \<in> set s \<Longrightarrow> has_control s"
  by (induction s) (auto simp: Let_def)

lemma show_nat_no_newline: "newline \<notin> set (show_nat n)"
proof (induction n rule: show_nat.induct)
  case (1 n)
  have d: "digit_char d \<noteq> newline" if "d < 10" for d :: nat
  proof
    assume "digit_char d = newline"
    then have "(of_char (digit_char d) :: nat) = 10" by simp
    then show False using that by (simp add: digit_char_def)
  qed
  show ?case
  proof (cases "n < 10")
    case True
    then show ?thesis using d[of n] by (subst show_nat.simps) auto
  next
    case False
    then show ?thesis using 1 d[of "n mod 10"] by (subst show_nat.simps) auto
  qed
qed

lemma show_nat_not_none: "show_nat n \<noteq> ''none''"
proof
  assume "show_nat n = ''none''"
  then have "parse_digits 0 ''none'' = Some n" using parse_digits_show_nat[of n] by simp
  then show False by (simp add: digit_val_def Let_def)
qed

lemma first_sep:
  fixes c :: char
  assumes "a @ c # x = b @ c # y" and "c \<notin> set a" and "c \<notin> set b"
  shows "a = b \<and> x = y"
  using split_once_Some_iff[of c "a @ c # x" a x] split_once_Some_iff[of c "b @ c # y" b y] assms by simp

lemma last_sep:
  fixes c :: char
  assumes "x @ c # a = y @ c # b" and "c \<notin> set a" and "c \<notin> set b"
  shows "a = b \<and> x = y"
  using rsplit_once_Some_iff[of c "x @ c # a" x a] rsplit_once_Some_iff[of c "y @ c # b" y b] assms by simp

lemma molecule_id_no_newline:
  assumes "parse_inner s = Ok i"
  shows "newline \<notin> set s"
proof -
  note P = parse_inner_OkD[OF assms]
  have n: "\<not> is_ascii_digit newline" "\<not> is_ascii_alphanumeric newline" "newline \<noteq> CHR ''-''"
    by (simp_all add: is_ascii_digit_def is_ascii_alphanumeric_def)
  have "newline \<notin> set (id_prefix i)" "newline \<notin> set (id_date i)" "newline \<notin> set (id_suffix i)"
    using P n unfolding is_valid_molecule_prefix_def valid_date_def valid_suffix_def list_all_iff by blast+
  then show ?thesis using P n(3) by auto
qed

definition challenge_ok :: "grant_challenge \<Rightarrow> bool" where
  "challenge_ok c \<longleftrightarrow> \<not> has_control (gc_granted_by c) \<and> (\<forall>t. gc_ttl_seconds c = Some t \<longrightarrow> 0 \<le> t)"

lemma challenge_new_ok: "challenge_new m h e g t = Ok c \<Longrightarrow> challenge_ok c"
  by (auto simp: challenge_new_def challenge_ok_def split: if_splits option.splits)

lemma canonical_bytes_inject:
  assumes eq: "canonical_bytes a = canonical_bytes b" and ok: "challenge_ok a" "challenge_ok b"
    and m: "newline \<notin> set (gc_mission_id a)" "newline \<notin> set (gc_mission_id b)"
  shows "a = b"
proof -
  let ?t = "\<lambda>c. case gc_ttl_seconds c of Some s \<Rightarrow> show_nat (nat s) | None \<Rightarrow> ''none''"
  have t: "newline \<notin> set (?t c)" for c using show_nat_no_newline by (cases "gc_ttl_seconds c") auto
  have g: "newline \<notin> set (gc_granted_by a)" "newline \<notin> set (gc_granted_by b)"
    using ok has_control_newline by (auto simp: challenge_ok_def)
  have e: "newline \<notin> set (show_epoch x)" for x using show_nat_no_newline by (simp add: show_epoch_def)
  have "gc_mission_id a @ newline # (''holder='' @ gc_holder_session_id a @ [newline] @ ''epoch='' @ show_epoch (gc_epoch a) @ [newline] @
     ''granted_by='' @ gc_granted_by a @ [newline] @ ''ttl='' @ ?t a @ [newline]) =
    gc_mission_id b @ newline # (''holder='' @ gc_holder_session_id b @ [newline] @ ''epoch='' @ show_epoch (gc_epoch b) @ [newline] @
     ''granted_by='' @ gc_granted_by b @ [newline] @ ''ttl='' @ ?t b @ [newline])"
    using eq by (simp add: canonical_bytes_def)
  from first_sep[OF this m] have mis: "gc_mission_id a = gc_mission_id b"
    and r1: "((gc_holder_session_id a @ newline # ''epoch='' @ show_epoch (gc_epoch a)) @ newline # ''granted_by='' @ gc_granted_by a) @
      newline # ''ttl='' @ ?t a =
      ((gc_holder_session_id b @ newline # ''epoch='' @ show_epoch (gc_epoch b)) @ newline # ''granted_by='' @ gc_granted_by b) @
      newline # ''ttl='' @ ?t b"
    by auto
  have ttl: "?t a = ?t b" and r2: "(gc_holder_session_id a @ newline # ''epoch='' @ show_epoch (gc_epoch a)) @ newline # ''granted_by='' @ gc_granted_by a =
      (gc_holder_session_id b @ newline # ''epoch='' @ show_epoch (gc_epoch b)) @ newline # ''granted_by='' @ gc_granted_by b"
    using last_sep[OF r1] t by auto
  have gb: "gc_granted_by a = gc_granted_by b" and r3: "gc_holder_session_id a @ newline # ''epoch='' @ show_epoch (gc_epoch a) =
      gc_holder_session_id b @ newline # ''epoch='' @ show_epoch (gc_epoch b)"
    using last_sep[OF r2] g by auto
  have h: "gc_holder_session_id a = gc_holder_session_id b" and ep: "show_epoch (gc_epoch a) = show_epoch (gc_epoch b)"
    using last_sep[OF r3] e by auto
  have "gc_epoch a = gc_epoch b" using ep by (simp add: show_epoch_def word_unat_eq_iff)
  moreover have "gc_ttl_seconds a = gc_ttl_seconds b"
    using ttl ok show_nat_not_none not_sym[OF show_nat_not_none]
    by (auto simp: challenge_ok_def split: option.splits)
  ultimately show ?thesis using mis gb h by simp
qed

section \<open>What the ledger decides\<close>

lemma max_by_epoch_snoc:
  "max_by_epoch (ls @ [l]) =
     (case max_by_epoch ls of None \<Rightarrow> Some l | Some b \<Rightarrow> if pl_epoch b \<le> pl_epoch l then Some l else Some b)"
  by (simp add: max_by_epoch_def)

lemma max_by_epoch_None [simp]: "max_by_epoch ls = None \<longleftrightarrow> ls = []"
  by (induction ls rule: rev_induct) (auto simp: max_by_epoch_snoc max_by_epoch_def[of "[]"] split: option.splits)

lemma max_by_epoch_Some: "max_by_epoch ls = Some b \<Longrightarrow> b \<in> set ls \<and> (\<forall>l\<in>set ls. pl_epoch l \<le> pl_epoch b)"
proof (induction ls arbitrary: b rule: rev_induct)
  case (snoc l ls)
  show ?case
  proof (cases "max_by_epoch ls")
    case (Some c)
    then have "c \<in> set ls" "\<forall>l\<in>set ls. pl_epoch l \<le> pl_epoch c" using snoc.IH by auto
    then show ?thesis using snoc.prems Some
      by (cases "pl_epoch c \<le> pl_epoch l") (auto simp: max_by_epoch_snoc dest: order_trans)
  next
    case None
    then have "ls = []" by simp
    then show ?thesis using snoc.prems by (simp add: max_by_epoch_def)
  qed
qed (simp add: max_by_epoch_def)

text \<open>The attested leases among the lines of a ledger.\<close>

definition valid_grants :: "lease_codec \<Rightarrow> verifier option \<Rightarrow> string list \<Rightarrow> pilot_lease list" where
  "valid_grants cd ver ls = filter (\<lambda>l. \<not> isl (attested (debug_str cd) ver l)) (List.map_filter (dec_lease cd) ls)"

lemma valid_grants_append [simp]: "valid_grants cd ver (a @ b) = valid_grants cd ver a @ valid_grants cd ver b"
  by (simp add: valid_grants_def List.map_filter_def)

lemma grants_lines: "grants_file d m = Inr t \<Longrightarrow> grants cd ver d m = Ok (valid_grants cd ver (str_lines t))"
  by (simp add: grants_def audit_grants_def read_lines_def valid_grants_def filter_map comp_def)

lemma grants_Ok: "grants cd ver d m = Ok gs \<Longrightarrow> \<exists>t. grants_file d m = Inr t \<and> gs = valid_grants cd ver (str_lines t)"
  by (cases "grants_file d m") (auto simp: grants_lines, simp add: grants_def audit_grants_def read_lines_def)

lemma current_lease_lines:
  "grants_file d m = Inr t \<Longrightarrow> current_lease cd ver d m = Ok (max_by_epoch (valid_grants cd ver (str_lines t)))"
  by (simp add: current_lease_def grants_lines)

lemma authorize_Granted_iff:
  "authorize c now s p = Granted e \<longleftrightarrow>
     (\<exists>l. c = Some l \<and> is_valid_at l now \<and> holder_session_id l = s \<and> p = Some (pl_epoch l) \<and> e = pl_epoch l)"
  by (auto simp: authorize_def split: option.splits if_splits)

lemma store_authorize_Granted:
  assumes "grants_file d m = Inr t"
  shows "store_authorize cd ver d m now s p = Ok (Granted e) \<longleftrightarrow>
    authorize (max_by_epoch (valid_grants cd ver (str_lines t))) now s p = Granted e"
proof (cases "max_by_epoch (valid_grants cd ver (str_lines t))")
  case None
  have "store_authorize cd ver d m now s p \<noteq> Ok (Granted e)"
  proof
    assume "store_authorize cd ver d m now s p = Ok (Granted e)"
    then show False
      unfolding store_authorize_def current_lease_lines[OF assms] None by (auto simp: authorize_def split: if_splits)
  qed
  then show ?thesis unfolding None by (simp add: authorize_def)
next
  case (Some l)
  then show ?thesis using assms by (simp add: store_authorize_def current_lease_lines)
qed

text \<open>Ledgers are only appended to: what is read later starts with what was there.\<close>

definition extends :: "lease_disk \<Rightarrow> lease_disk \<Rightarrow> string \<Rightarrow> bool" where
  "extends d d' m \<longleftrightarrow> (\<exists>t more. grants_file d m = Inr t \<and> grants_file d' m = Inr (t @ more))"

lemma grant_lease_Ok:
  assumes "grant_lease cd ver l d = Ok d'"
  shows "\<exists>t. grants_file d (pl_mission_id l) = Inr t \<and> grants_file d' (pl_mission_id l) = Inr (t @ enc_lease cd l @ [newline]) \<and>
    (\<forall>h\<in>set (valid_grants cd ver (str_lines t)). pl_epoch h < pl_epoch l)"
proof -
  obtain gs where gs: "grants cd ver d (pl_mission_id l) = Ok gs" using assms by (auto simp: grant_lease_def)
  then obtain t where t: "grants_file d (pl_mission_id l) = Inr t" "gs = valid_grants cd ver (str_lines t)" using grants_Ok by blast
  have lt: "\<forall>h\<in>set gs. pl_epoch h < pl_epoch l"
  proof (cases "max_by_epoch gs")
    case (Some h)
    then have "\<not> pl_epoch l \<le> pl_epoch h" using assms gs by (auto simp: grant_lease_def)
    then show ?thesis using max_by_epoch_Some[OF Some] by fastforce
  qed simp
  show ?thesis
    using assms gs t lt by (auto simp: grant_lease_def append_line_def split: option.splits if_splits)
qed

text \<open>A lease at the epoch that \<^const>\<open>next_epoch\<close> proposes is newer than every valid one, below saturation.\<close>

lemma next_epoch_newer:
  assumes "grants_file d m = Inr t" and "next_epoch cd ver d m = Ok e" and "e \<noteq> - 1"
    and "max_by_epoch (valid_grants cd ver (str_lines t)) = Some h"
  shows "pl_epoch h < e"
proof -
  have "e = saturating_add (pl_epoch h) 1"
    using assms grants_lines[OF assms(1)] by (simp add: next_epoch_def epoch_next_def)
  then have "unat e = min (unat (pl_epoch h) + 1) (2 ^ 64 - 1)" by (simp add: unat_saturating_add)
  moreover have "unat e \<noteq> 2 ^ 64 - 1"
    using assms(3) by (auto simp: word_unat_eq_iff unsigned_minus_1_eq_mask mask_eq_exp_minus_1)
  ultimately show ?thesis by (simp add: word_less_nat_alt min_def split: if_splits)
qed

lemma next_grant_accepted:
  assumes "grants_file d (pl_mission_id l) = Inr t" and "append_error d = None"
    and "next_epoch cd ver d (pl_mission_id l) = Ok (pl_epoch l)" and "pl_epoch l \<noteq> - 1"
  shows "grant_lease cd ver l d =
    Ok (d\<lparr>grants_file := (grants_file d)(pl_mission_id l := Inr (t @ enc_lease cd l @ [newline]))\<rparr>)"
  using grants_lines[OF assms(1), of cd ver] assms(1,2) next_epoch_newer[OF assms(1,3,4)]
  by (auto simp: grant_lease_def append_line_def split: option.splits dest: leD)

section \<open>A sample ledger\<close>

definition sample_attestation :: operator_attestation where
  "sample_attestation = \<lparr>att_key_id = ''k'', att_signature = ''sig'', att_global_signature = ''gsig'',
     att_trusted_comment = [], att_untrusted_comment = []\<rparr>"

definition sample_lease :: pilot_lease where
  "sample_lease = attested_by sample_attestation (new_lease ''m'' ''s'' 1 ''op'' 0 (Some 100))"

text \<open>A codec that knows one lease, and a verifier that accepts one signature.\<close>

definition sample_codec :: lease_codec where
  "sample_codec = \<lparr>enc_lease = (\<lambda>_. ''{}''), dec_lease = (\<lambda>l. if l = ''{}'' then Some sample_lease else None),
     enc_request = lr_id, dec_request = (\<lambda>_. None), debug_str = (\<lambda>s. s)\<rparr>"

definition sample_verifier :: verifier where
  "sample_verifier c a = (if att_signature a = ''sig'' then Ok () else Err DoesNotCoverTransfer)"

definition empty_ledgers :: lease_disk where
  "empty_ledgers = \<lparr>grants_file = (\<lambda>_. Inr []), requests_file = (\<lambda>_. Inr []), append_error = None\<rparr>"

definition sample_ledgers :: lease_disk where
  "sample_ledgers = empty_ledgers\<lparr>grants_file := (\<lambda>_. Inr [])(''m'' := Inr (''{}'' @ [newline]))\<rparr>"

lemma sample_lease_facts:
  "pl_mission_id sample_lease = ''m''" "pl_epoch sample_lease = 1" "holder_session_id sample_lease = ''s''"
  "dec_lease sample_codec (enc_lease sample_codec sample_lease) = Some sample_lease"
  "attested (debug_str sample_codec) (Some sample_verifier) sample_lease = Ok ()"
  by (simp_all add: sample_lease_def sample_codec_def attested_by_def new_lease_def attested_def challenge_def
      sample_attestation_def challenge_new_def num_seconds_def sample_verifier_def is_blank_def trim_start.simps Let_def)

lemma sample_grant: "grant_lease sample_codec (Some sample_verifier) sample_lease empty_ledgers = Ok sample_ledgers"
proof -
  have f: "grants_file empty_ledgers (pl_mission_id sample_lease) = Inr []" "append_error empty_ledgers = None"
    by (simp_all add: empty_ledgers_def)
  have n: "next_epoch sample_codec (Some sample_verifier) empty_ledgers (pl_mission_id sample_lease) = Ok (pl_epoch sample_lease)"
    by code_simp
  show ?thesis
    using next_grant_accepted[OF f n] by (simp add: sample_lease_facts sample_ledgers_def empty_ledgers_def sample_codec_def)
qed

section \<open>Properties\<close>

text \<open>
  The signed text determines the transfer: two challenges that were composed from molecule
  identifiers and render to the same bytes name the same mission, holder, epoch, operator and
  duration, whatever characters the session name holds.
\<close>

theorem challenge_text_injective:
  assumes "challenge_new m h e g t = Ok a" and "challenge_new m' h' e' g' t' = Ok b"
    and "parse_inner m = Ok i" and "parse_inner m' = Ok i'" and "canonical_bytes a = canonical_bytes b"
  shows "m = m' \<and> h = h' \<and> e = e' \<and> g = g' \<and> t = t'"
proof -
  have f: "gc_mission_id a = m \<and> gc_holder_session_id a = h \<and> gc_epoch a = e \<and> gc_granted_by a = g \<and> gc_ttl_seconds a = t"
    "gc_mission_id b = m' \<and> gc_holder_session_id b = h' \<and> gc_epoch b = e' \<and> gc_granted_by b = g' \<and> gc_ttl_seconds b = t'"
    using assms(1,2) by (auto simp: challenge_new_def split: if_splits option.splits)
  have "a = b"
    by (rule canonical_bytes_inject[OF assms(5) challenge_new_ok[OF assms(1)] challenge_new_ok[OF assms(2)]])
      (use molecule_id_no_newline[OF assms(3)] molecule_id_no_newline[OF assms(4)] f in simp_all)
  then show ?thesis using f by simp
qed

theorem challenge_text_injective_witness:
  "\<exists>a b. challenge_new ''cs-20260101-ab12'' ''s'' 3 ''op'' None = Ok a \<and> challenge_new ''cs-20260101-ab12'' ''s'' 3 ''op'' None = Ok b \<and>
     canonical_bytes a = canonical_bytes b \<and> (3::lease_epoch) = 3"
proof -
  let ?m = "''cs-20260101-ab12''"
  let ?c = "projr (challenge_new ?m ''s'' 3 ''op'' None)"
  have c: "challenge_new ?m ''s'' 3 ''op'' None = Ok ?c"
    by (simp add: challenge_new_def is_blank_def trim_start.simps)
  have i: "parse_inner ?m = Ok \<lparr>id_raw = ?m, id_prefix = ''cs'', id_date = ''20260101'', id_suffix = ''ab12''\<rparr>"
    using parse_inner_build[of "''cs''" "''20260101''" "''ab12''"]
    by (simp add: is_valid_molecule_prefix_def valid_date_def valid_suffix_def is_ascii_digit_def
        is_ascii_alphanumeric_def parse_u32_or_0_def parse_unsigned_def digit_val_def)
  from challenge_text_injective[OF c c i i refl] c show ?thesis by metis
qed

text \<open>
  C15. A superseded epoch stays dead: once a lease whose signature verifies is granted, no gesture
  that presents a smaller epoch is authorized on that mission, by whomever and whenever, in any
  later state of the ledger, whatever lines anybody appends to it; and at each moment at most one
  session is authorized.
\<close>

theorem superseded_epoch_is_refused:
  assumes "grant_lease cd ver l d = Ok d'" and "grants cd ver d' (pl_mission_id l) = Ok gs" and "l \<in> set gs"
    and "extends d' d'' (pl_mission_id l)"
    and "store_authorize cd ver d'' (pl_mission_id l) now s (Some e) = Ok (Granted e)"
  shows "pl_epoch l \<le> e \<and>
    (\<forall>s' e'. store_authorize cd ver d'' (pl_mission_id l) now s' (Some e') = Ok (Granted e') \<longrightarrow> s' = s \<and> e' = e)"
proof -
  obtain t where t: "grants_file d' (pl_mission_id l) = Inr (t @ enc_lease cd l @ [newline])" using grant_lease_Ok[OF assms(1)] by blast
  then obtain more where m: "grants_file d'' (pl_mission_id l) = Inr ((t @ enc_lease cd l @ [newline]) @ more)"
    using assms(4) by (auto simp: extends_def)
  have sp: "str_lines ((t @ enc_lease cd l @ [newline]) @ more) = str_lines (t @ enc_lease cd l @ [newline]) @ str_lines more"
    by (rule str_lines_terminated) simp
  let ?g = "valid_grants cd ver (str_lines ((t @ enc_lease cd l @ [newline]) @ more))"
  have "l \<in> set ?g" using assms(2,3) grants_lines[OF t, of cd ver] unfolding sp by simp
  moreover obtain c where c: "max_by_epoch ?g = Some c" "holder_session_id c = s" "e = pl_epoch c"
    using assms(5) unfolding store_authorize_Granted[OF m] authorize_Granted_iff by blast
  ultimately have "pl_epoch l \<le> e" using max_by_epoch_Some[OF c(1)] by blast
  then show ?thesis
    using c unfolding store_authorize_Granted[OF m] authorize_Granted_iff by auto
qed

theorem superseded_epoch_is_refused_witness:
  "store_authorize sample_codec (Some sample_verifier) sample_ledgers ''m'' 5 ''s'' (Some 1) = Ok (Granted 1) \<and>
   pl_epoch sample_lease \<le> 1"
proof -
  have a: "store_authorize sample_codec (Some sample_verifier) sample_ledgers (pl_mission_id sample_lease) 5 ''s'' (Some 1) =
    Ok (Granted 1)" by code_simp
  have e: "extends sample_ledgers sample_ledgers (pl_mission_id sample_lease)"
    by (simp add: extends_def sample_lease_facts sample_ledgers_def)
  have "grants sample_codec (Some sample_verifier) sample_ledgers (pl_mission_id sample_lease) = Ok [sample_lease]" by code_simp
  from conjunct1[OF superseded_epoch_is_refused[OF sample_grant this _ e a]] a show ?thesis
    unfolding sample_lease_facts(1) by simp
qed

text \<open>
  A takeover works: a lease at the next epoch, signed so that it verifies, is accepted by a
  ledger whose text ends in a newline, unless it cannot be written or the epochs are exhausted,
  and is then the current lease, under which its holder, and nobody else, is authorized until it
  expires.  (The codec reads back what it wrote, on one line.)
\<close>

theorem granted_lease_takes_over:
  assumes "grants_file d (pl_mission_id l) = Inr t" and "t = [] \<or> last t = newline" and "append_error d = None"
    and "next_epoch cd ver d (pl_mission_id l) = Ok (pl_epoch l)" and "pl_epoch l \<noteq> - 1"
    and "newline \<notin> set (enc_lease cd l)" and "dec_lease cd (strip_cr (enc_lease cd l)) = Some l"
    and "attested (debug_str cd) ver l = Ok ()"
  shows "\<exists>d'. grant_lease cd ver l d = Ok d' \<and> current_lease cd ver d' (pl_mission_id l) = Ok (Some l) \<and>
    (\<forall>now s e. store_authorize cd ver d' (pl_mission_id l) now s (Some e) = Ok (Granted e) \<longleftrightarrow>
       s = holder_session_id l \<and> e = pl_epoch l \<and> is_valid_at l now)"
proof -
  let ?m = "pl_mission_id l" and ?t = "t @ enc_lease cd l @ [newline]"
  let ?d = "d\<lparr>grants_file := (grants_file d)(?m := Inr ?t)\<rparr>"
  have g: "grant_lease cd ver l d = Ok ?d" by (rule next_grant_accepted[OF assms(1,3,4,5)])
  have f: "grants_file ?d ?m = Inr ?t" by simp
  have "str_lines ?t = str_lines t @ [strip_cr (enc_lease cd l)]"
    using str_lines_terminated[OF assms(2)] str_lines_first[OF assms(6), of "[]"] by simp
  then have v: "valid_grants cd ver (str_lines ?t) = valid_grants cd ver (str_lines t) @ [l]"
    using assms(7,8) by (simp add: valid_grants_def List.map_filter_def)
  have mx: "max_by_epoch (valid_grants cd ver (str_lines t) @ [l]) = Some l"
    using next_epoch_newer[OF assms(1,4,5)] by (auto simp: max_by_epoch_snoc less_imp_le split: option.splits)
  have "current_lease cd ver ?d ?m = Ok (Some l)" using current_lease_lines[OF f] v mx by simp
  moreover have "store_authorize cd ver ?d ?m now s (Some e) = Ok (Granted e) \<longleftrightarrow>
       s = holder_session_id l \<and> e = pl_epoch l \<and> is_valid_at l now" for now s e
    unfolding store_authorize_Granted[OF f] authorize_Granted_iff v mx by auto
  ultimately show ?thesis using g by blast
qed

theorem granted_lease_takes_over_witness:
  "\<exists>d'. grant_lease sample_codec (Some sample_verifier) sample_lease empty_ledgers = Ok d' \<and>
     current_lease sample_codec (Some sample_verifier) d' ''m'' = Ok (Some sample_lease)"
proof -
  have f: "grants_file empty_ledgers (pl_mission_id sample_lease) = Inr []" "[] = [] \<or> last [] = newline"
    "append_error empty_ledgers = None"
    by (simp_all add: empty_ledgers_def)
  have n: "next_epoch sample_codec (Some sample_verifier) empty_ledgers (pl_mission_id sample_lease) = Ok (pl_epoch sample_lease)"
    by code_simp
  have e: "pl_epoch sample_lease \<noteq> - 1" by (simp add: sample_lease_facts)
  have c: "newline \<notin> set (enc_lease sample_codec sample_lease)"
    "dec_lease sample_codec (strip_cr (enc_lease sample_codec sample_lease)) = Some sample_lease"
    by (simp_all add: sample_codec_def strip_cr_def)
  from granted_lease_takes_over[OF f n e c sample_lease_facts(5)] show ?thesis by (auto simp: sample_lease_facts)
qed

text \<open>
  A torn line swallows the next grant: when an append was cut off, so that the ledger ends in a
  fragment without a newline, the next grant is glued to the fragment.  It is acknowledged, but
  neither the current lease nor the next epoch changes: nobody takes over.  (The fragment, alone
  or followed by a whole object, is not a JSON object.)
\<close>

theorem torn_line_swallows_grant:
  assumes "grants_file d (pl_mission_id l) = Inr (t @ frag)" and "t = [] \<or> last t = newline"
    and "frag \<noteq> []" and "newline \<notin> set frag" and "append_error d = None"
    and "next_epoch cd ver d (pl_mission_id l) = Ok (pl_epoch l)" and "pl_epoch l \<noteq> - 1"
    and "newline \<notin> set (enc_lease cd l)" and "dec_lease cd frag = None"
    and "dec_lease cd (strip_cr (frag @ enc_lease cd l)) = None"
  shows "\<exists>d'. grant_lease cd ver l d = Ok d' \<and>
    current_lease cd ver d' (pl_mission_id l) = current_lease cd ver d (pl_mission_id l) \<and>
    next_epoch cd ver d' (pl_mission_id l) = next_epoch cd ver d (pl_mission_id l)"
proof -
  let ?m = "pl_mission_id l" and ?t = "(t @ frag) @ enc_lease cd l @ [newline]"
  let ?d = "d\<lparr>grants_file := (grants_file d)(?m := Inr ?t)\<rparr>"
  have g: "grant_lease cd ver l d = Ok ?d" by (rule next_grant_accepted[OF assms(1,5,6,7)])
  have f: "grants_file ?d ?m = Inr ?t" by simp
  have "str_lines ?t = str_lines t @ [strip_cr (frag @ enc_lease cd l)]"
    using str_lines_terminated[OF assms(2), of "frag @ enc_lease cd l @ [newline]"]
      str_lines_first[of "frag @ enc_lease cd l" "[]"] assms(4,8) by simp
  moreover have "str_lines (t @ frag) = str_lines t @ [frag]"
    using str_lines_terminated[OF assms(2)] str_lines_rest[OF assms(4)] assms(3) by simp
  ultimately have v: "valid_grants cd ver (str_lines ?t) = valid_grants cd ver (str_lines (t @ frag))"
    using assms(9,10) by (simp add: valid_grants_def List.map_filter_def)
  show ?thesis
    using g v current_lease_lines[OF f] current_lease_lines[OF assms(1)] grants_lines[OF f] grants_lines[OF assms(1)]
    by (auto simp: next_epoch_def)
qed

theorem torn_line_swallows_grant_witness:
  "\<exists>d'. grant_lease sample_codec (Some sample_verifier) sample_lease (empty_ledgers\<lparr>grants_file := (\<lambda>_. Inr ''{'')\<rparr>) = Ok d' \<and>
     current_lease sample_codec (Some sample_verifier) d' ''m'' = Ok None"
proof -
  let ?d = "empty_ledgers\<lparr>grants_file := (\<lambda>_. Inr ''{'')\<rparr>"
  have f: "grants_file ?d (pl_mission_id sample_lease) = Inr ([] @ ''{'')" "[] = [] \<or> last [] = newline"
    "''{'' \<noteq> []" "newline \<notin> set ''{''" "append_error ?d = None"
    by (simp_all add: empty_ledgers_def)
  have n: "next_epoch sample_codec (Some sample_verifier) ?d (pl_mission_id sample_lease) = Ok (pl_epoch sample_lease)"
    by code_simp
  have e: "pl_epoch sample_lease \<noteq> - 1" by (simp add: sample_lease_facts)
  have c: "newline \<notin> set (enc_lease sample_codec sample_lease)" "dec_lease sample_codec ''{'' = None"
    "dec_lease sample_codec (strip_cr (''{'' @ enc_lease sample_codec sample_lease)) = None"
    by (simp_all add: sample_codec_def strip_cr_def)
  have o: "current_lease sample_codec (Some sample_verifier) ?d (pl_mission_id sample_lease) = Ok None" by code_simp
  from torn_line_swallows_grant[OF f n e c] o show ?thesis by (auto simp: sample_lease_facts)
qed

lemma guard_passes:
  assumes "refuse_unleased_pilot_gesture_for_session ge m g session = Ok ()" and "grants_file (ge_leases ge) m = Inr t"
    and "ln \<in> set (str_lines t)" and "\<not> is_blank ln"
  shows "\<exists>ver le s p. ge_trust ge = Ok ver \<and> max_by_epoch (valid_grants (ge_codec ge) ver (str_lines t)) = Some le \<and>
    session = Some s \<and> holder_session_id le = s \<and> is_valid_at le (ge_now ge) \<and> ge_presence ge s = Ok (Some p) \<and>
    claimed_authority p = Some (m, pl_epoch le)"
proof -
  obtain ver where ver: "ge_trust ge = Ok ver"
    using assms(1) by (cases "ge_trust ge") (auto simp: refuse_unleased_pilot_gesture_for_session_def)
  have ex: "list_ex (\<lambda>l. \<not> is_blank l) (str_lines t)" using assms(3,4) by (auto simp: list_ex_iff)
  note R = assms(1)[unfolded refuse_unleased_pilot_gesture_for_session_def ver has_unverifiable_grant_ledger_def
      current_lease_lines[OF assms(2)] assms(2)]
  obtain le where le: "max_by_epoch (valid_grants (ge_codec ge) ver (str_lines t)) = Some le"
    using R ex by (cases "max_by_epoch (valid_grants (ge_codec ge) ver (str_lines t))") (auto simp: read_lines_def)
  have ne: "valid_grants (ge_codec ge) ver (str_lines t) \<noteq> []" using le max_by_epoch_None[of "valid_grants (ge_codec ge) ver (str_lines t)"] by force
  obtain s where s: "session = Some s"
    using R ex ne le by (cases session) (auto simp: read_lines_def)
  obtain q where q: "ge_presence ge s = Ok q"
    using R ex ne le s by (cases "ge_presence ge s") (auto simp: read_lines_def)
  obtain e where "authorize (Some le) (ge_now ge) s (epoch_presented_for m (Option.bind q claimed_authority)) = Granted e"
    using R ex ne le s q by (auto simp: read_lines_def Let_def split: lease_decision.splits)
  then have a: "is_valid_at le (ge_now ge)" "holder_session_id le = s"
    and e: "epoch_presented_for m (Option.bind q claimed_authority) = Some (pl_epoch le)"
    by (auto simp: authorize_Granted_iff)
  then obtain p where "q = Some p" "claimed_authority p = Some (m, pl_epoch le)"
    by (cases q) (auto simp: epoch_presented_for_def split: option.splits if_splits)
  then show ?thesis using ver le s q a by blast
qed

text \<open>
  C14. Only the pilot collapses a mission under co-pilotage: when the grant ledger of the mission has
  any line at all, a keyed collapse transitions it only for a local caller whose session holds
  the attested lease of the highest epoch, unexpired, and whose presence snapshot claims the
  primary role on that mission at exactly that epoch.  Remote callers, unnamed callers, callers
  with a superseded epoch, and missions whose ledger cannot be verified, are refused.
\<close>

theorem collapse_needs_current_lease:
  assumes "keyed dp (vault_port dp revision) (\<lambda>_. lease_check ge gesture) caller i rq cause c wall clock hook v = (Ok b, v', evs)"
    and "kc_outcome b = OTransitioned" and "grants_file (ge_leases ge) i = Inr t" and "ln \<in> set (str_lines t)" and "\<not> is_blank ln"
  shows "\<exists>s p ver le. caller = LocalCaller (Some s) \<and> ge_trust ge = Ok ver \<and>
    current_lease (ge_codec ge) ver (ge_leases ge) i = Ok (Some le) \<and> attested (debug_str (ge_codec ge)) ver le = Ok () \<and>
    holder_session_id le = s \<and> is_valid_at le (ge_now ge) \<and> ge_presence ge s = Ok (Some p) \<and>
    pr_role p = Primary \<and> pr_mission p = Some i \<and> pr_lease_epoch p = Some (pl_epoch le)"
proof -
  have ok: "lease_check ge gesture i caller = Ok None" using keyed_transition_conditions[OF assms(1,2)] by blast
  have "list_ex (\<lambda>l. \<not> is_blank l) (str_lines t)" using assms(4,5) by (auto simp: list_ex_iff)
  then obtain session where cl: "caller = LocalCaller session"
    using ok by (cases caller)
      (auto simp: has_unverifiable_grant_ledger_def current_lease_lines[OF assms(3)] assms(3) read_lines_def
        split: if_splits sum.splits)
  then have "refuse_unleased_pilot_gesture_for_session ge i gesture session = Ok ()"
    using ok by (auto split: sum.splits gesture_error.splits)
  from guard_passes[OF this assms(3-5)] obtain ver le s p where g: "ge_trust ge = Ok ver"
    "max_by_epoch (valid_grants (ge_codec ge) ver (str_lines t)) = Some le" "session = Some s" "holder_session_id le = s"
    "is_valid_at le (ge_now ge)" "ge_presence ge s = Ok (Some p)" "claimed_authority p = Some (i, pl_epoch le)" by blast
  have "le \<in> set (valid_grants (ge_codec ge) ver (str_lines t))" using max_by_epoch_Some[OF g(2)] by blast
  then have "attested (debug_str (ge_codec ge)) ver le = Ok ()"
    by (cases "attested (debug_str (ge_codec ge)) ver le") (auto simp: valid_grants_def)
  then show ?thesis
    using g cl current_lease_lines[OF assms(3)]
    by (auto simp: claimed_authority_def split: if_splits option.splits)
qed

definition sample_guard :: guard_env where
  "sample_guard = \<lparr>ge_codec = sample_codec, ge_trust = Ok (Some sample_verifier), ge_leases = sample_ledgers,
     ge_presence = (\<lambda>s. Ok (if s = ''s'' then Some \<lparr>pr_role = Primary, pr_mission = Some ''m'', pr_lease_epoch = Some 1\<rparr> else None)),
     ge_now = 5, ge_show_ts = (\<lambda>_. [])\<rparr>"

theorem collapse_needs_current_lease_witness:
  "\<exists>b v' evs le. keyed sample_port (vault_port sample_port sample_revision) (\<lambda>_. lease_check sample_guard ''collapse'')
       (LocalCaller (Some ''s'')) ''m'' sample_request None sample_condition 0 (\<lambda>_. 5) quiet sample_vault = (Ok b, v', evs) \<and>
     kc_outcome b = OTransitioned \<and> current_lease sample_codec (Some sample_verifier) sample_ledgers ''m'' = Ok (Some le) \<and>
     holder_session_id le = ''s''"
proof -
  let ?run = "keyed sample_port (vault_port sample_port sample_revision) (\<lambda>_. lease_check sample_guard ''collapse'')
       (LocalCaller (Some ''s'')) ''m'' sample_request None sample_condition 0 (\<lambda>_. 5) quiet sample_vault"
  have "\<not> isl (fst ?run)" "kc_outcome (projr (fst ?run)) = OTransitioned" by code_simp+
  then obtain b v' evs where r: "?run = (Ok b, v', evs)" "kc_outcome b = OTransitioned"
    by (cases ?run; cases "fst ?run") auto
  have f: "grants_file (ge_leases sample_guard) ''m'' = Inr (''{}'' @ [newline])" by (simp add: sample_guard_def sample_ledgers_def)
  have b: "''{}'' \<in> set (str_lines (''{}'' @ [newline]))" "\<not> is_blank ''{}''" by code_simp+
  from collapse_needs_current_lease[OF r f b] obtain le where
    "current_lease sample_codec (Some sample_verifier) sample_ledgers ''m'' = Ok (Some le)" "holder_session_id le = ''s''"
    by (auto simp: sample_guard_def)
  then show ?thesis using r by metis
qed

end
