(* ===== verification/Cron.thy ===== *)
theory Cron
  imports RustStd
begin

text \<open>
  The cron expressions of the patrol scheduler (\<open>cosmon-scheduler/src/cron.rs\<close>): a field is a set
  of numbers kept as the bits of a 64-bit word, filled by a counting loop on 32-bit words.  The
  loop is a partial function, since it would not end if its upper bound were the largest word;
  the parser never passes such a bound.  The wall clock of an instant in the local time zone is
  an argument.
\<close>

unbundle bit_operations_syntax

section \<open>Field sets\<close>

record field_set =
  fs_bits :: "64 word"

definition fs_empty :: field_set where
  "fs_empty = \<lparr>fs_bits = 0\<rparr>"

definition fs_insert :: "u32 \<Rightarrow> field_set \<Rightarrow> field_set" where
  "fs_insert v s = (if v < 64 then s\<lparr>fs_bits := fs_bits s OR push_bit (unat v) 1\<rparr> else s)"

definition fs_contains :: "field_set \<Rightarrow> u32 \<Rightarrow> bool" where
  "fs_contains s v \<longleftrightarrow> v < 64 \<and> drop_bit (unat v) (fs_bits s) AND 1 = 1"

datatype cron_error =
  WrongArity nat
| BadField nat string string

definition show_u32 :: "u32 \<Rightarrow> string" where
  "show_u32 w = show_nat (unat w)"

fun cron_error_to_string :: "cron_error \<Rightarrow> string" where
  "cron_error_to_string (WrongArity n) = ''cron expression must have 5 fields, got '' @ show_nat n"
| "cron_error_to_string (BadField k raw why) =
     ''cron field #'' @ show_nat k @ '' '' @ CHR 0x27 # raw @ CHR 0x27 # '' invalid: '' @ why"

section \<open>Parsing\<close>

definition parse_u32 :: "string \<Rightarrow> u32 option" where
  "parse_u32 s = map_option of_nat (parse_unsigned 32 s)"

abbreviation quoted :: "string \<Rightarrow> string" where
  "quoted s \<equiv> CHR 0x27 # s @ [CHR 0x27]"

definition parse_range :: "string \<Rightarrow> u32 \<Rightarrow> u32 \<Rightarrow> string + (u32 \<times> u32)" where
  "parse_range part lo hi =
     (if part = ''*'' then Ok (lo, hi)
      else case split_once (CHR ''-'') part of
        Some (a, b) \<Rightarrow>
          (case parse_u32 a of
             None \<Rightarrow> Err (''bad range start '' @ quoted a)
           | Some start \<Rightarrow>
               (case parse_u32 b of
                  None \<Rightarrow> Err (''bad range end '' @ quoted b)
                | Some end' \<Rightarrow>
                    if start < lo \<or> end' > hi \<or> start > end'
                    then Err (''range '' @ show_u32 start @ ''-'' @ show_u32 end' @ '' not within '' @
                              show_u32 lo @ ''..='' @ show_u32 hi)
                    else Ok (start, end')))
      | None \<Rightarrow>
          (case parse_u32 part of
             None \<Rightarrow> Err (''bad value '' @ quoted part)
           | Some v \<Rightarrow>
               if v < lo \<or> v > hi
               then Err (''value '' @ show_u32 v @ '' out of range '' @ show_u32 lo @ ''..='' @ show_u32 hi)
               else Ok (v, v)))"

text \<open>The loop over the values of a range; the bound is tested, the value inserted, the counter saturates.\<close>

partial_function (option) fill :: "u32 \<Rightarrow> u32 \<Rightarrow> u32 \<Rightarrow> field_set \<Rightarrow> field_set option" where
  [code]: "fill step end' v s =
     (if v \<le> end'
      then let s' = fs_insert v s; v' = saturating_add v step
           in if step = 0 then Some s' else fill step end' v' s'
      else Some s)"

definition parse_step :: "string \<Rightarrow> string + (string \<times> u32)" where
  "parse_step token =
     (case split_once (CHR ''/'') token of
        Some (r, s) \<Rightarrow>
          (case parse_u32 s of
             None \<Rightarrow> Err (''bad step '' @ quoted s)
           | Some step \<Rightarrow> if step = 0 then Err (''step must be >= 1, got '' @ quoted s) else Ok (r, step))
      | None \<Rightarrow> Ok (token, 1))"

definition parse_token :: "string \<Rightarrow> u32 \<Rightarrow> u32 \<Rightarrow> field_set \<Rightarrow> (string + field_set) option" where
  "parse_token token lo hi into =
     (case and_then (parse_step token) (\<lambda>(r, step). and_then (parse_range r lo hi) (\<lambda>(a, b). Ok (a, b, step))) of
        Inl e \<Rightarrow> Some (Err e)
      | Inr (start, end', step) \<Rightarrow> map_option Ok (fill step end' start into))"

fun parse_tokens :: "string list \<Rightarrow> u32 \<Rightarrow> u32 \<Rightarrow> field_set \<Rightarrow> (string + field_set) option" where
  "parse_tokens [] lo hi s = Some (Ok s)"
| "parse_tokens (t # ts) lo hi s =
     Option.bind (parse_token t lo hi s) (\<lambda>r.
     case r of Inl e \<Rightarrow> Some (Err e) | Inr s' \<Rightarrow> parse_tokens ts lo hi s')"

definition parse_field :: "string \<Rightarrow> nat \<Rightarrow> u32 \<Rightarrow> u32 \<Rightarrow> (cron_error + field_set) option" where
  "parse_field raw index lo hi =
     map_option (map_err (BadField index raw)) (parse_tokens (split_on (CHR '','') raw) lo hi fs_empty)"

record cron_expr =
  ce_minute :: field_set
  ce_hour :: field_set
  ce_day_of_month :: field_set
  ce_month :: field_set
  ce_day_of_week :: field_set

text \<open>The ranges of the five fields, in order.\<close>

definition field_ranges :: "(u32 \<times> u32) list" where
  "field_ranges = [(0, 59), (0, 23), (1, 31), (1, 12), (0, 7)]"

fun parse_fields :: "nat \<Rightarrow> string list \<Rightarrow> (u32 \<times> u32) list \<Rightarrow> (cron_error + field_set list) option" where
  "parse_fields k (f # fs) ((lo, hi) # rs) =
     Option.bind (parse_field f k lo hi) (\<lambda>r.
     case r of
       Inl e \<Rightarrow> Some (Err e)
     | Inr s \<Rightarrow> map_option (\<lambda>q. and_then q (\<lambda>ss. Ok (s # ss))) (parse_fields (k + 1) fs rs))"
| "parse_fields k _ _ = Some (Ok [])"

definition cron_of_fields :: "field_set list \<Rightarrow> cron_expr" where
  "cron_of_fields ss =
     \<lparr>ce_minute = ss ! 0, ce_hour = ss ! 1, ce_day_of_month = ss ! 2, ce_month = ss ! 3, ce_day_of_week = ss ! 4\<rparr>"

definition cron_parse_loop :: "string \<Rightarrow> (cron_error + cron_expr) option" where
  "cron_parse_loop expr =
     (let fields = split_whitespace expr
      in if length fields \<noteq> 5 then Some (Err (WrongArity (length fields)))
         else map_option (\<lambda>r. and_then r (\<lambda>ss. Ok (cron_of_fields ss))) (parse_fields 0 fields field_ranges))"

text \<open>What the parser returns; that it always returns is \<open>cron_parse_returns\<close> below.\<close>

definition cron_parse :: "string \<Rightarrow> cron_error + cron_expr" where
  "cron_parse expr = the (cron_parse_loop expr)"

record local_time =
  lt_minute :: u32
  lt_hour :: u32
  lt_day :: u32
  lt_month :: u32
  lt_weekday :: u32

definition cron_matches :: "cron_expr \<Rightarrow> local_time \<Rightarrow> bool" where
  "cron_matches c t =
     (let dow_matches = fs_contains (ce_day_of_week c) (lt_weekday t) \<or>
            (lt_weekday t = 0 \<and> fs_contains (ce_day_of_week c) 7)
      in fs_contains (ce_minute c) (lt_minute t) \<and> fs_contains (ce_hour c) (lt_hour t) \<and>
         fs_contains (ce_day_of_month c) (lt_day t) \<and> fs_contains (ce_month c) (lt_month t) \<and> dow_matches)"

section \<open>Bits\<close>

lemma fs_contains_iff: "fs_contains s v \<longleftrightarrow> v < 64 \<and> bit (fs_bits s) (unat v)"
  by (simp add: fs_contains_def bit_iff_odd_drop_bit and_one_eq odd_iff_mod_2_eq_one)

lemma fs_contains_empty [simp]: "\<not> fs_contains fs_empty v"
  by (simp add: fs_contains_iff fs_empty_def)

lemma fs_contains_insert [simp]: "fs_contains (fs_insert w s) v \<longleftrightarrow> fs_contains s v \<or> (v = w \<and> v < 64)"
proof -
  have "unat v < 64" if "v < 64" using that by (simp add: word_less_nat_alt)
  moreover have "unat v = unat w \<longleftrightarrow> v = w" by (simp add: word_unat_eq_iff)
  ultimately show ?thesis
    by (auto simp: fs_contains_iff fs_insert_def bit_or_iff bit_exp_iff)
qed

section \<open>The loop\<close>

lemma fill_returns:
  assumes "step \<noteq> 0" and "end' < 64"
  shows "\<exists>s'. fill step end' v s = Some s' \<and>
    (\<forall>x. fs_contains s' x \<longleftrightarrow> fs_contains s x \<or> (v \<le> x \<and> x \<le> end' \<and> unat step dvd unat x - unat v))"
proof (induction "64 - unat v" arbitrary: v s rule: less_induct)
  case less
  show ?case
  proof (cases "v \<le> end'")
    case False
    then show ?thesis by (subst fill.simps) auto
  next
    case True
    let ?v = "saturating_add v step"
    have v: "unat v < 64" using True assms(2) by (simp add: word_le_nat_alt word_less_nat_alt)
    have p: "0 < unat step" using assms(1) by (simp add: unat_gt_0)
    have u: "unat ?v = min (unat v + unat step) (2 ^ 32 - 1)" by (simp add: unat_saturating_add)
    have "64 - unat ?v < 64 - unat v" using u v p by simp
    from less[OF this, of "fs_insert v s"] obtain s' where s': "fill step end' ?v (fs_insert v s) = Some s'"
      "\<And>x. fs_contains s' x \<longleftrightarrow> fs_contains (fs_insert v s) x \<or> (?v \<le> x \<and> x \<le> end' \<and> unat step dvd unat x - unat ?v)"
      by blast
    have "fs_contains s' x \<longleftrightarrow> fs_contains s x \<or> (v \<le> x \<and> x \<le> end' \<and> unat step dvd unat x - unat v)" for x
    proof (cases "x \<le> end'")
      case xe: True
      then have x: "unat x < 64" using assms(2) by (simp add: word_le_nat_alt word_less_nat_alt)
      have le: "?v \<le> x \<longleftrightarrow> unat v + unat step \<le> unat x" using x u by (auto simp: word_le_nat_alt min_def)
      have eq: "x = v \<longleftrightarrow> unat x = unat v" by (simp add: word_unat_eq_iff)
      have "(unat x = unat v \<or> unat v + unat step \<le> unat x \<and> unat step dvd unat x - unat ?v) \<longleftrightarrow>
        (unat v \<le> unat x \<and> unat step dvd unat x - unat v)"
      proof (cases "unat v + unat step \<le> unat x")
        case True
        then have "unat ?v = unat v + unat step" using u x by simp
        moreover have "unat x - unat v = unat x - (unat v + unat step) + unat step" using True by simp
        ultimately have "unat step dvd unat x - unat ?v \<longleftrightarrow> unat step dvd unat x - unat v" by (metis dvd_add_triv_right_iff)
        then show ?thesis using True p by auto
      next
        case False
        have "\<not> unat step dvd unat x - unat v" if "unat v < unat x"
          using that False by (intro nat_dvd_not_less) auto
        then show ?thesis using False by (cases "unat x" "unat v" rule: linorder_cases) auto
      qed
      moreover have "x < 64" using x by (simp add: word_less_nat_alt)
      ultimately show ?thesis unfolding s'(2) using le eq xe by (auto simp: word_le_nat_alt)
    next
      case False
      then have "x \<noteq> v" using True by auto
      then show ?thesis unfolding s'(2) using False by simp
    qed
    then show ?thesis using s'(1) True assms(1) by (subst fill.simps) (simp add: Let_def)
  qed
qed

section \<open>What an expression means\<close>

text \<open>
  The reference reading of one comma-separated token: first value, last value and step, if the
  token is well-formed for the range.
\<close>

definition range_spec :: "nat \<Rightarrow> nat \<Rightarrow> string \<Rightarrow> (nat \<times> nat) option" where
  "range_spec lo hi r =
     (if r = ''*'' then Some (lo, hi)
      else case split_once (CHR ''-'') r of
        Some (a, b) \<Rightarrow>
          (case (parse_unsigned 32 a, parse_unsigned 32 b) of
             (Some x, Some y) \<Rightarrow> if lo \<le> x \<and> x \<le> y \<and> y \<le> hi then Some (x, y) else None
           | _ \<Rightarrow> None)
      | None \<Rightarrow>
          (case parse_unsigned 32 r of Some x \<Rightarrow> if lo \<le> x \<and> x \<le> hi then Some (x, x) else None | None \<Rightarrow> None))"

definition step_spec :: "string \<Rightarrow> (string \<times> nat) option" where
  "step_spec tok =
     (case split_once (CHR ''/'') tok of
        None \<Rightarrow> Some (tok, 1)
      | Some (r, s) \<Rightarrow> (case parse_unsigned 32 s of Some k \<Rightarrow> if k > 0 then Some (r, k) else None | None \<Rightarrow> None))"

definition token_spec :: "nat \<Rightarrow> nat \<Rightarrow> string \<Rightarrow> (nat \<times> nat \<times> nat) option" where
  "token_spec lo hi tok =
     (case step_spec tok of
        None \<Rightarrow> None
      | Some (r, k) \<Rightarrow> map_option (\<lambda>(a, b). (a, b, k)) (range_spec lo hi r))"

definition token_allows :: "nat \<Rightarrow> nat \<Rightarrow> string \<Rightarrow> nat \<Rightarrow> bool" where
  "token_allows lo hi tok v \<longleftrightarrow>
     (case token_spec lo hi tok of None \<Rightarrow> False | Some (a, b, k) \<Rightarrow> a \<le> v \<and> v \<le> b \<and> k dvd v - a)"

definition field_ok :: "nat \<times> nat \<Rightarrow> string \<Rightarrow> bool" where
  "field_ok r raw \<longleftrightarrow> list_all (\<lambda>t. token_spec (fst r) (snd r) t \<noteq> None) (split_on (CHR '','') raw)"

definition field_allows :: "nat \<times> nat \<Rightarrow> string \<Rightarrow> nat \<Rightarrow> bool" where
  "field_allows r raw v \<longleftrightarrow> list_ex (\<lambda>t. token_allows (fst r) (snd r) t v) (split_on (CHR '','') raw)"

lemmas spec_simps = field_ok_def field_allows_def token_spec_def token_allows_def step_spec_def range_spec_def
  parse_unsigned_def digit_val_def Let_def

lemma parse_unsigned_lt: "parse_unsigned b s = Some n \<Longrightarrow> n < 2 ^ b"
  by (auto simp: parse_unsigned_def Let_def split: if_splits option.splits)

lemma parse_unsigned_u32: "parse_unsigned 32 s = map_option unat (parse_u32 s)"
proof (cases "parse_unsigned 32 s")
  case (Some n)
  then show ?thesis using parse_unsigned_lt[OF Some] by (simp add: parse_u32_def unat_of_nat)
qed (simp add: parse_u32_def)

lemma parse_range_spec:
  "range_spec (unat lo) (unat hi) r =
     (case parse_range r lo hi of Inl _ \<Rightarrow> None | Inr (a, b) \<Rightarrow> Some (unat a, unat b))"
proof (cases "r = ''*''")
  case False
  show ?thesis
  proof (cases "split_once (CHR ''-'') r")
    case None
    then show ?thesis using False
      by (cases "parse_u32 r") (auto simp: range_spec_def parse_range_def parse_unsigned_u32 word_le_nat_alt word_less_nat_alt)
  next
    case (Some p)
    then obtain a b where p: "split_once (CHR ''-'') r = Some (a, b)" by (cases p) auto
    show ?thesis using False p
      by (cases "parse_u32 a"; cases "parse_u32 b")
        (auto simp: range_spec_def parse_range_def parse_unsigned_u32 word_le_nat_alt word_less_nat_alt)
  qed
qed (simp add: range_spec_def parse_range_def)

lemma parse_step_spec:
  "step_spec tok = (case parse_step tok of Inl _ \<Rightarrow> None | Inr (r, k) \<Rightarrow> Some (r, unat k))"
proof (cases "split_once (CHR ''/'') tok")
  case (Some p)
  then obtain r s where p: "split_once (CHR ''/'') tok = Some (r, s)" by (cases p) auto
  show ?thesis using p
    by (cases "parse_u32 s") (auto simp: step_spec_def parse_step_def parse_unsigned_u32 unat_gt_0)
qed (simp add: step_spec_def parse_step_def)

lemma parse_step_nonzero: "parse_step tok = Ok (r, k) \<Longrightarrow> k \<noteq> 0"
  by (auto simp: parse_step_def split: option.splits if_splits)

lemma parse_range_bounds: "parse_range r lo hi = Ok (a, b) \<Longrightarrow> lo \<le> hi \<Longrightarrow> lo \<le> a \<and> a \<le> b \<and> b \<le> hi"
  by (auto simp: parse_range_def split: option.splits if_splits)

lemma token_spec_parse:
  "token_spec (unat lo) (unat hi) tok =
     (case and_then (parse_step tok) (\<lambda>(r, k). and_then (parse_range r lo hi) (\<lambda>(a, b). Ok (a, b, k))) of
        Inl _ \<Rightarrow> None | Inr (a, b, k) \<Rightarrow> Some (unat a, unat b, unat k))"
  by (auto simp: token_spec_def parse_step_spec parse_range_spec split: sum.splits)

lemma parse_token_exact:
  assumes "lo \<le> hi" and "hi < 64"
  shows "\<exists>r. parse_token tok lo hi s = Some r \<and> (isl r \<longleftrightarrow> token_spec (unat lo) (unat hi) tok = None) \<and>
    (\<forall>s'. r = Ok s' \<longrightarrow> (\<forall>x. fs_contains s' x \<longleftrightarrow> fs_contains s x \<or> token_allows (unat lo) (unat hi) tok (unat x)))"
proof (cases "and_then (parse_step tok) (\<lambda>(r, k). and_then (parse_range r lo hi) (\<lambda>(a, b). Ok (a, b, k)))")
  case (Inl e)
  then show ?thesis by (simp add: parse_token_def token_spec_parse)
next
  case (Inr t)
  obtain a b k where t: "t = (a, b, k)" by (cases t)
  then obtain r where r: "parse_step tok = Ok (r, k)" "parse_range r lo hi = Ok (a, b)" using Inr by auto
  have "b < 64" using parse_range_bounds[OF r(2) assms(1)] assms(2) by auto
  from fill_returns[OF parse_step_nonzero[OF r(1)] this, of a s] obtain s' where s': "fill k b a s = Some s'"
    "\<And>x. fs_contains s' x \<longleftrightarrow> fs_contains s x \<or> a \<le> x \<and> x \<le> b \<and> unat k dvd unat x - unat a" by blast
  then show ?thesis
    unfolding parse_token_def token_allows_def token_spec_parse Inr t by (simp add: word_le_nat_alt)
qed

lemma parse_tokens_exact:
  assumes "lo \<le> hi" and "hi < 64"
  shows "\<exists>r. parse_tokens ts lo hi s = Some r \<and> (isl r \<longleftrightarrow> \<not> list_all (\<lambda>t. token_spec (unat lo) (unat hi) t \<noteq> None) ts) \<and>
    (\<forall>s'. r = Ok s' \<longrightarrow> (\<forall>x. fs_contains s' x \<longleftrightarrow> fs_contains s x \<or> list_ex (\<lambda>t. token_allows (unat lo) (unat hi) t (unat x)) ts))"
proof (induction ts arbitrary: s)
  case (Cons t ts)
  obtain r where r: "parse_token t lo hi s = Some r" "isl r \<longleftrightarrow> token_spec (unat lo) (unat hi) t = None"
    "\<And>s' x. r = Ok s' \<Longrightarrow> fs_contains s' x \<longleftrightarrow> fs_contains s x \<or> token_allows (unat lo) (unat hi) t (unat x)"
    using parse_token_exact[OF assms] by blast
  show ?case
  proof (cases r)
    case (Inl e)
    then show ?thesis using r by simp
  next
    case (Inr s1)
    then show ?thesis using r Cons[of s1] by auto
  qed
qed simp

lemma parse_field_exact:
  assumes "lo \<le> hi" and "hi < 64"
  shows "\<exists>r. parse_field raw k lo hi = Some r \<and> (isl r \<longleftrightarrow> \<not> field_ok (unat lo, unat hi) raw) \<and>
    (\<forall>s'. r = Ok s' \<longrightarrow> (\<forall>x. fs_contains s' x \<longleftrightarrow> field_allows (unat lo, unat hi) raw (unat x)))"
proof -
  obtain r where r: "parse_tokens (split_on (CHR '','') raw) lo hi fs_empty = Some r"
    "isl r \<longleftrightarrow> \<not> field_ok (unat lo, unat hi) raw"
    "\<forall>s'. r = Ok s' \<longrightarrow> (\<forall>x. fs_contains s' x \<longleftrightarrow> field_allows (unat lo, unat hi) raw (unat x))"
    using parse_tokens_exact[OF assms, of "split_on (CHR '','') raw" fs_empty] by (auto simp: field_ok_def field_allows_def)
  moreover have "isl (map_err (BadField k raw) r) = isl r" by (cases r) auto
  ultimately show ?thesis by (auto simp: parse_field_def)
qed

text \<open>The meaning of the five fields at a wall-clock time.\<close>

fun meets :: "(nat \<times> nat) list \<Rightarrow> string list \<Rightarrow> field_set list \<Rightarrow> bool" where
  "meets (r # rs) (f # fs) (s # ss) \<longleftrightarrow> (\<forall>x. fs_contains s x \<longleftrightarrow> field_allows r f (unat x)) \<and> meets rs fs ss"
| "meets [] [] [] \<longleftrightarrow> True"
| "meets _ _ _ \<longleftrightarrow> False"

definition unat2 :: "u32 \<times> u32 \<Rightarrow> nat \<times> nat" where
  "unat2 r = (unat (fst r), unat (snd r))"

lemma parse_fields_exact:
  assumes "list_all (\<lambda>(lo, hi). lo \<le> hi \<and> hi < 64) rs" and "length fs = length rs"
  shows "\<exists>r. parse_fields k fs rs = Some r \<and> (isl r \<longleftrightarrow> \<not> list_all2 field_ok (map unat2 rs) fs) \<and>
    (\<forall>ss. r = Ok ss \<longrightarrow> meets (map unat2 rs) fs ss)"
  using assms(2,1)
proof (induction fs rs arbitrary: k rule: list_induct2)
  case (Cons f fs r rs)
  obtain lo hi where lh: "r = (lo, hi)" by (cases r)
  obtain q where q: "parse_field f k lo hi = Some q" "isl q \<longleftrightarrow> \<not> field_ok (unat2 r) f"
    "\<And>s'. q = Ok s' \<Longrightarrow> (\<forall>x. fs_contains s' x \<longleftrightarrow> field_allows (unat2 r) f (unat x))"
    using parse_field_exact[of lo hi f k] Cons.prems lh by (auto simp: unat2_def)
  obtain t where t: "parse_fields (k + 1) fs rs = Some t" "isl t \<longleftrightarrow> \<not> list_all2 field_ok (map unat2 rs) fs"
    "\<And>ss. t = Ok ss \<Longrightarrow> meets (map unat2 rs) fs ss" using Cons.IH[of "k + 1"] Cons.prems by auto
  show ?case
  proof (cases q)
    case (Inl e)
    then show ?thesis using q lh by simp
  next
    case (Inr s)
    then show ?thesis using q t lh by (cases t) auto
  qed
qed simp

definition spec_ranges :: "(nat \<times> nat) list" where
  "spec_ranges = [(0, 59), (0, 23), (1, 31), (1, 12), (0, 7)]"

lemma ranges_ok: "list_all (\<lambda>(lo, hi). lo \<le> hi \<and> hi < 64) field_ranges" "map unat2 field_ranges = spec_ranges"
  by (simp_all add: field_ranges_def spec_ranges_def unat2_def)

lemma cron_parse_loop_returns:
  "\<exists>r. cron_parse_loop expr = Some r \<and>
     (isl r \<longleftrightarrow> \<not> (length (split_whitespace expr) = 5 \<and> list_all2 field_ok spec_ranges (split_whitespace expr))) \<and>
     (\<forall>c. r = Ok c \<longrightarrow> (\<exists>ss. c = cron_of_fields ss \<and> meets spec_ranges (split_whitespace expr) ss))"
proof (cases "length (split_whitespace expr) = 5")
  case True
  then have "length (split_whitespace expr) = length field_ranges" by (simp add: field_ranges_def)
  from parse_fields_exact[OF ranges_ok(1) this, of 0] obtain t where t: "parse_fields 0 (split_whitespace expr) field_ranges = Some t"
    "isl t \<longleftrightarrow> \<not> list_all2 field_ok spec_ranges (split_whitespace expr)"
    "\<forall>ss. t = Ok ss \<longrightarrow> meets spec_ranges (split_whitespace expr) ss" unfolding ranges_ok(2) by blast
  then show ?thesis using True by (cases t) (auto simp: cron_parse_loop_def Let_def)
qed (simp add: cron_parse_loop_def Let_def)

lemma cron_parse_returns: "cron_parse_loop expr = Some (cron_parse expr)"
  using cron_parse_loop_returns[of expr] by (auto simp: cron_parse_def)

lemma accepted:
  "isl (cron_parse expr) \<longleftrightarrow> \<not> (length (split_whitespace expr) = 5 \<and> list_all2 field_ok spec_ranges (split_whitespace expr))"
  using cron_parse_loop_returns[of expr] cron_parse_returns[of expr] by auto

lemma meets_five:
  assumes "meets spec_ranges fs ss"
  shows "\<exists>f0 f1 f2 f3 f4 s0 s1 s2 s3 s4. fs = [f0, f1, f2, f3, f4] \<and> ss = [s0, s1, s2, s3, s4] \<and>
    (\<forall>x. fs_contains s0 x \<longleftrightarrow> field_allows (0, 59) f0 (unat x)) \<and> (\<forall>x. fs_contains s1 x \<longleftrightarrow> field_allows (0, 23) f1 (unat x)) \<and>
    (\<forall>x. fs_contains s2 x \<longleftrightarrow> field_allows (1, 31) f2 (unat x)) \<and> (\<forall>x. fs_contains s3 x \<longleftrightarrow> field_allows (1, 12) f3 (unat x)) \<and>
    (\<forall>x. fs_contains s4 x \<longleftrightarrow> field_allows (0, 7) f4 (unat x))"
proof -
  have *: "meets (r # rs) fs ss \<longleftrightarrow> (\<exists>f fs' s ss'. fs = f # fs' \<and> ss = s # ss' \<and>
    (\<forall>x. fs_contains s x \<longleftrightarrow> field_allows r f (unat x)) \<and> meets rs fs' ss')" for r rs fs ss
    by (cases fs; cases ss) auto
  have **: "meets [] fs ss \<longleftrightarrow> fs = [] \<and> ss = []" for fs ss by (cases fs; cases ss) auto
  show ?thesis using assms unfolding spec_ranges_def * ** by blast
qed

section \<open>Properties\<close>

text \<open>
  C16. The bit sets of a parsed expression mean what the text says: an expression matches a
  wall-clock time exactly when each of its five fields has a comma-separated token whose range
  holds the value at a multiple of its step, where Sunday is 0 or 7.
\<close>

theorem cron_matches_exact:
  assumes "cron_parse expr = Ok c"
  shows "\<exists>f0 f1 f2 f3 f4. split_whitespace expr = [f0, f1, f2, f3, f4] \<and>
    (\<forall>t. cron_matches c t \<longleftrightarrow>
       field_allows (0, 59) f0 (unat (lt_minute t)) \<and> field_allows (0, 23) f1 (unat (lt_hour t)) \<and>
       field_allows (1, 31) f2 (unat (lt_day t)) \<and> field_allows (1, 12) f3 (unat (lt_month t)) \<and>
       (field_allows (0, 7) f4 (unat (lt_weekday t)) \<or> lt_weekday t = 0 \<and> field_allows (0, 7) f4 7))"
proof -
  obtain ss where c: "c = cron_of_fields ss" "meets spec_ranges (split_whitespace expr) ss"
    using cron_parse_loop_returns[of expr] cron_parse_returns[of expr] assms by auto
  from meets_five[OF c(2)] obtain f0 f1 f2 f3 f4 s0 s1 s2 s3 s4 where f: "split_whitespace expr = [f0, f1, f2, f3, f4]"
    "ss = [s0, s1, s2, s3, s4]" "\<And>x. fs_contains s0 x \<longleftrightarrow> field_allows (0, 59) f0 (unat x)"
    "\<And>x. fs_contains s1 x \<longleftrightarrow> field_allows (0, 23) f1 (unat x)" "\<And>x. fs_contains s2 x \<longleftrightarrow> field_allows (1, 31) f2 (unat x)"
    "\<And>x. fs_contains s3 x \<longleftrightarrow> field_allows (1, 12) f3 (unat x)" "\<And>x. fs_contains s4 x \<longleftrightarrow> field_allows (0, 7) f4 (unat x)" by auto
  have "cron_matches c t \<longleftrightarrow>
       field_allows (0, 59) f0 (unat (lt_minute t)) \<and> field_allows (0, 23) f1 (unat (lt_hour t)) \<and>
       field_allows (1, 31) f2 (unat (lt_day t)) \<and> field_allows (1, 12) f3 (unat (lt_month t)) \<and>
       (field_allows (0, 7) f4 (unat (lt_weekday t)) \<or> lt_weekday t = 0 \<and> field_allows (0, 7) f4 7)" for t
    unfolding c(1) f(2) by (simp add: cron_matches_def cron_of_fields_def f(3-7))
  then show ?thesis using f(1) by blast
qed

theorem cron_matches_exact_witness:
  "\<exists>c. cron_parse ''*/15 9-17 * * 1-5'' = Ok c \<and>
     cron_matches c \<lparr>lt_minute = 30, lt_hour = 9, lt_day = 1, lt_month = 2, lt_weekday = 3\<rparr> \<and>
     \<not> cron_matches c \<lparr>lt_minute = 30, lt_hour = 9, lt_day = 1, lt_month = 2, lt_weekday = 6\<rparr>"
proof -
  have ws: "split_whitespace ''*/15 9-17 * * 1-5'' = [''*/15'', ''9-17'', ''*'', ''*'', ''1-5'']" by code_simp
  then have "length (split_whitespace ''*/15 9-17 * * 1-5'') = 5 \<and> list_all2 field_ok spec_ranges (split_whitespace ''*/15 9-17 * * 1-5'')"
    by (simp add: spec_ranges_def spec_simps)
  then have "\<not> isl (cron_parse ''*/15 9-17 * * 1-5'')" using accepted by blast
  then obtain c where c: "cron_parse ''*/15 9-17 * * 1-5'' = Ok c" by (cases "cron_parse ''*/15 9-17 * * 1-5''") auto
  from cron_matches_exact[OF c] ws obtain f0 f1 f2 f3 f4 where "[f0, f1, f2, f3, f4] = [''*/15'', ''9-17'', ''*'', ''*'', ''1-5'']"
    and m: "\<And>t. cron_matches c t \<longleftrightarrow> field_allows (0, 59) f0 (unat (lt_minute t)) \<and> field_allows (0, 23) f1 (unat (lt_hour t)) \<and>
       field_allows (1, 31) f2 (unat (lt_day t)) \<and> field_allows (1, 12) f3 (unat (lt_month t)) \<and>
       (field_allows (0, 7) f4 (unat (lt_weekday t)) \<or> lt_weekday t = 0 \<and> field_allows (0, 7) f4 7)" by auto
  then show ?thesis using c by (intro exI[of _ c]) (simp add: m spec_simps)
qed

text \<open>
  The parser always returns, and accepts exactly the expressions of five fields whose every
  comma-separated token is well-formed and within the range of its field.
\<close>

theorem cron_parse_accepts_iff:
  "\<exists>r. cron_parse_loop expr = Some r \<and> cron_parse expr = r \<and>
     ((\<exists>c. r = Ok c) \<longleftrightarrow> length (split_whitespace expr) = 5 \<and> list_all2 field_ok spec_ranges (split_whitespace expr))"
proof -
  have "(\<exists>c. cron_parse expr = Ok c) \<longleftrightarrow> \<not> isl (cron_parse expr)" by (cases "cron_parse expr") auto
  then show ?thesis using cron_parse_returns[of expr] accepted[of expr] by auto
qed

text \<open>
  C36. Parsed expressions are well-typed: each field is a non-empty set of numbers within the range of
  its position.
\<close>

theorem cron_fields_typed:
  assumes "cron_parse expr = Ok c" and "(s, r) \<in> set (zip [ce_minute c, ce_hour c, ce_day_of_month c, ce_month c, ce_day_of_week c] spec_ranges)"
  shows "(\<exists>x. fs_contains s x) \<and> (\<forall>x. fs_contains s x \<longrightarrow> fst r \<le> unat x \<and> unat x \<le> snd r)"
proof -
  have ok: "list_all2 field_ok spec_ranges (split_whitespace expr)"
    using accepted[of expr] assms(1) by auto
  have rng: "fst q \<le> a \<and> a \<le> b \<and> b \<le> snd q" if "token_spec (fst q) (snd q) t = Some (a, b, k)" "fst q \<le> snd q" for q t a b k
    using that by (auto simp: token_spec_def range_spec_def split: option.splits if_splits)
  have F: "(\<exists>x. fs_contains s' x) \<and> (\<forall>x. fs_contains s' x \<longrightarrow> fst q \<le> unat x \<and> unat x \<le> snd q)"
    if "field_ok q f" "\<forall>x. fs_contains s' x \<longleftrightarrow> field_allows q f (unat x)" "fst q \<le> snd q" "snd q < 64" for q f s'
  proof -
    obtain t ts where ts: "split_on (CHR '','') f = t # ts" by (cases "split_on (CHR '','') f") auto
    then obtain a b k where t: "token_spec (fst q) (snd q) t = Some (a, b, k)"
      using \<open>field_ok q f\<close> by (cases "token_spec (fst q) (snd q) t") (auto simp: field_ok_def)
    have a: "fst q \<le> a" "a \<le> b" "b \<le> snd q" using rng[OF t that(3)] by auto
    then have "token_allows (fst q) (snd q) t (unat (word_of_nat a :: u32))"
      using that(4) by (simp add: token_allows_def t unat_of_nat)
    then have "fs_contains s' (word_of_nat a)" using that(2) ts by (simp add: field_allows_def)
    moreover have "fst q \<le> unat x \<and> unat x \<le> snd q" if "fs_contains s' x" for x
    proof -
      obtain t' where "token_allows (fst q) (snd q) t' (unat x)"
        using \<open>fs_contains s' x\<close> \<open>\<forall>x. fs_contains s' x \<longleftrightarrow> field_allows q f (unat x)\<close> by (auto simp: field_allows_def list_ex_iff)
      then obtain a b k where "token_spec (fst q) (snd q) t' = Some (a, b, k)" "a \<le> unat x" "unat x \<le> b"
        by (auto simp: token_allows_def split: option.splits)
      then show ?thesis using rng[OF _ \<open>fst q \<le> snd q\<close>] by fastforce
    qed
    ultimately show ?thesis by blast
  qed
  obtain ss where c: "c = cron_of_fields ss" "meets spec_ranges (split_whitespace expr) ss"
    using cron_parse_loop_returns[of expr] cron_parse_returns[of expr] assms(1) by auto
  from meets_five[OF c(2)] show ?thesis using ok assms(2) c(1) F
    by (auto simp: cron_of_fields_def spec_ranges_def)
qed

theorem cron_fields_typed_witness:
  "\<exists>c. cron_parse ''0 0 1 1 *'' = Ok c \<and> (\<exists>x. fs_contains (ce_month c) x)"
proof -
  have "split_whitespace ''0 0 1 1 *'' = [''0'', ''0'', ''1'', ''1'', ''*'']" by code_simp
  then have "length (split_whitespace ''0 0 1 1 *'') = 5 \<and> list_all2 field_ok spec_ranges (split_whitespace ''0 0 1 1 *'')"
    by (simp add: spec_ranges_def spec_simps)
  then have "\<not> isl (cron_parse ''0 0 1 1 *'')" using accepted by blast
  then obtain c where c: "cron_parse ''0 0 1 1 *'' = Ok c" by (cases "cron_parse ''0 0 1 1 *''") auto
  from cron_fields_typed[OF this, of "ce_month c" "(1, 12)"] c show ?thesis by (auto simp: spec_ranges_def)
qed

end
