(* ===== verification/Scheduler.thy ===== *)
theory Scheduler
  imports Cron
begin

text \<open>
  The patrol scheduler, crate \<open>cosmon-scheduler\<close>: configuration and its validation
  (\<open>config.rs\<close>), the convergence predicates and the sample reader (\<open>convergence.rs\<close>), the tick
  evaluator (\<open>tick.rs\<close>), the process dispatcher and the sunset action (\<open>dispatch.rs\<close>, \<open>hooks.rs\<close>),
  the event file (\<open>events.rs\<close>), the state file (\<open>state.rs\<close>) and the program that runs one tick
  (\<open>main.rs\<close>).

  Arguments of the model are the operating system (files, variables, processes), floating-point
  arithmetic, the local wall clock of an instant and the readers of TOML and JSON text; the state
  file holds the record that was saved.  What the program prints on the terminal is left out.
\<close>

section \<open>Configuration\<close>

datatype sunset_strategy = VarianceThreshold | SampleCount | OperatorTriggerOnly

record 'f sunset =
  su_strategy :: sunset_strategy
  sample_file :: "string option"
  min_samples :: "64 word option"
  variance_threshold :: "'f option"
  su_window :: "64 word option"
  trigger_file :: "string option"
  launchctl_plist :: "string option"
  on_sunset :: "string list"

record 'f patrol =
  pt_name :: string
  interval_seconds :: "64 word option"
  pt_cron :: "string option"
  pt_command :: "string list"
  working_dir :: "string option"
  pt_env :: "(string \<times> string) list"
  pt_kill_switch :: "string option"
  pt_log_file :: "string option"
  pt_dispatch :: string
  require_env :: "string list"
  timeout_seconds :: "64 word option"
  pt_enabled :: bool
  pt_sunset :: "'f sunset option"

record scheduler_config =
  sc_state_file :: string
  sc_log_file :: string
  sc_kill_switch :: string
  tick_interval_seconds :: "64 word"

record 'f sched_config =
  sc_scheduler :: scheduler_config
  sc_patrols :: "'f patrol list"

datatype sched_config_error = CfgIo string | CfgParse string | CfgInvalid string

definition validate_cadence :: "'f patrol \<Rightarrow> string + unit" where
  "validate_cadence p =
     (case (interval_seconds p, pt_cron p) of
        (Some _, Some _) \<Rightarrow> Err ''both `interval_seconds` and `cron` set (XOR)''
      | (None, None) \<Rightarrow> Err ''neither `interval_seconds` nor `cron` set''
      | _ \<Rightarrow> Ok ())"

definition sunset_validate :: "'f sunset \<Rightarrow> string list" where
  "sunset_validate s =
     (case min_samples s of
        Some n \<Rightarrow> if n < 1 then [''min_samples must be >= 1 (got '' @ show_nat (unat n) @ '')''] else []
      | None \<Rightarrow> []) @
     (case su_strategy s of
        VarianceThreshold \<Rightarrow>
          if sample_file s = None then [''strategy '' @ quoted ''variance-threshold'' @ '' requires `sample_file`''] else []
      | SampleCount \<Rightarrow>
          (if sample_file s = None then [''strategy '' @ quoted ''sample-count'' @ '' requires `sample_file`''] else []) @
          (if min_samples s = None then [''strategy '' @ quoted ''sample-count'' @ '' requires `min_samples`''] else [])
      | OperatorTriggerOnly \<Rightarrow> [])"

definition patrol_errors :: "nat \<Rightarrow> string list \<Rightarrow> 'f patrol \<Rightarrow> string list" where
  "patrol_errors idx seen p =
     (let pre = ''patrol['' @ show_nat idx @ ''] '' @ quoted (pt_name p) @ '': ''
      in (if pt_name p \<in> set seen then [pre @ ''duplicate name''] else []) @
         (case validate_cadence p of Inl e \<Rightarrow> [pre @ e] | Inr _ \<Rightarrow> []) @
         (if pt_command p = [] then [pre @ ''command must have at least one element''] else []) @
         (case pt_sunset p of Some s \<Rightarrow> map (\<lambda>e. pre @ ''sunset: '' @ e) (sunset_validate s) | None \<Rightarrow> []))"

fun patrols_errors :: "nat \<Rightarrow> string list \<Rightarrow> 'f patrol list \<Rightarrow> string list" where
  "patrols_errors idx seen [] = []"
| "patrols_errors idx seen (p # ps) = patrol_errors idx seen p @ patrols_errors (idx + 1) (pt_name p # seen) ps"

definition config_validate :: "'f sched_config \<Rightarrow> sched_config_error + unit" where
  "config_validate cfg =
     (let errors = patrols_errors 0 [] (sc_patrols cfg)
      in if errors = [] then Ok () else Err (CfgInvalid (join_with [newline] errors)))"

text \<open>Loading: the outcome of reading the file, the TOML reader, the validation.\<close>

definition config_load :: "(string \<Rightarrow> string + 'f sched_config) \<Rightarrow> string + string \<Rightarrow> sched_config_error + 'f sched_config" where
  "config_load toml file =
     and_then (map_err CfgIo file) (\<lambda>raw.
     and_then (map_err CfgParse (toml raw)) (\<lambda>cfg.
     and_then (config_validate cfg) (\<lambda>_. Ok cfg)))"

section \<open>The operating system and the float type\<close>

datatype read_outcome = FileText string | FileNotFound | FileError string

record 'f float_ops =
  f_parse :: "string \<Rightarrow> string + 'f"
  f_zero :: 'f
  f_add :: "'f \<Rightarrow> 'f \<Rightarrow> 'f"
  f_sub :: "'f \<Rightarrow> 'f \<Rightarrow> 'f"
  f_mul :: "'f \<Rightarrow> 'f \<Rightarrow> 'f"
  f_div :: "'f \<Rightarrow> 'f \<Rightarrow> 'f"
  f_powi :: "'f \<Rightarrow> int \<Rightarrow> 'f"
  f_sqrt :: "'f \<Rightarrow> 'f"
  f_lt :: "'f \<Rightarrow> 'f \<Rightarrow> bool"
  f_of_nat :: "nat \<Rightarrow> 'f"
  f_show :: "'f \<Rightarrow> string"

record sched_os =
  os_exists :: "string \<Rightarrow> bool"
  os_var :: "string \<Rightarrow> string option"
  os_read :: "string \<Rightarrow> read_outcome"
  os_local :: "datetime \<Rightarrow> local_time"

definition shellexpand_home :: "sched_os \<Rightarrow> string \<Rightarrow> string" where
  "shellexpand_home os path =
     (case strip_prefix ''~/'' path of
        Some rest \<Rightarrow>
          (case os_var os ''HOME'' of
             Some home \<Rightarrow> (if home \<noteq> [] \<and> last home = CHR ''/'' then home else home @ ''/'') @ rest
           | None \<Rightarrow> path)
      | None \<Rightarrow>
          if path = ''~'' then (case os_var os ''HOME'' of Some home \<Rightarrow> home | None \<Rightarrow> path)
          else path)"

definition path_exists :: "sched_os \<Rightarrow> string \<Rightarrow> bool" where
  "path_exists os path = os_exists os (shellexpand_home os path)"

definition env_var_set :: "sched_os \<Rightarrow> string \<Rightarrow> bool" where
  "env_var_set os v = (case os_var os v of Some s \<Rightarrow> s \<noteq> [] | None \<Rightarrow> False)"

section \<open>Convergence\<close>

definition rolling_stdev :: "'f float_ops \<Rightarrow> nat \<Rightarrow> 'f list \<Rightarrow> 'f option" where
  "rolling_stdev fo window values =
     (if window < 2 \<or> length values < window then None
      else let tail = drop (length values - window) values;
               n = f_of_nat fo window;
               mean = f_div fo (foldl (f_add fo) (f_zero fo) tail) n;
               sum_sq = foldl (f_add fo) (f_zero fo) (map (\<lambda>v. f_powi fo (f_sub fo v mean) 2) tail);
               variance = f_div fo sum_sq (f_sub fo n (f_of_nat fo 1))
           in Some (f_sqrt fo variance))"

definition sample_count_predicate :: "64 word \<Rightarrow> 64 word \<Rightarrow> bool" where
  "sample_count_predicate samples target \<longleftrightarrow> target \<le> samples"

definition operator_trigger_predicate :: "sched_os \<Rightarrow> string option \<Rightarrow> bool" where
  "operator_trigger_predicate os trigger = (case trigger of Some path \<Rightarrow> path_exists os path | None \<Rightarrow> False)"

definition variance_threshold_predicate :: "'f float_ops \<Rightarrow> nat \<Rightarrow> 64 word \<Rightarrow> 'f \<Rightarrow> 'f list \<Rightarrow> bool" where
  "variance_threshold_predicate fo window floor threshold values =
     (if \<not> sample_count_predicate (of_nat (length values)) floor then False
      else case rolling_stdev fo window values of
             None \<Rightarrow> False
           | Some sigma \<Rightarrow> f_lt fo (f_mul fo sigma sigma) threshold)"

datatype warning_kind = MissingFile | IoError | MalformedRow | EmptyFile

record convergence_warning =
  cw_path :: string
  cw_line :: "nat option"
  cw_kind :: warning_kind
  cw_detail :: string

record 'f sample_read =
  sr_values :: "'f list"
  sr_warnings :: "convergence_warning list"

text \<open>The rows of a sample file: numbers in file order, and a warning for each row that is none.\<close>

fun read_rows :: "'f float_ops \<Rightarrow> string \<Rightarrow> nat \<Rightarrow> string list \<Rightarrow> 'f sample_read \<times> bool" where
  "read_rows fo path idx [] = (\<lparr>sr_values = [], sr_warnings = []\<rparr>, False)"
| "read_rows fo path idx (raw_line # ls) =
     (let line = trim raw_line; (out, saw) = read_rows fo path (idx + 1) ls
      in if line = [] \<or> hd line = CHR ''#'' then (out, saw)
         else let words = split_whitespace line; lst = (if words = [] then [] else last words)
              in case f_parse fo lst of
                   Inr v \<Rightarrow> (out\<lparr>sr_values := v # sr_values out\<rparr>, True)
                 | Inl e \<Rightarrow> (out\<lparr>sr_warnings := \<lparr>cw_path = path, cw_line = Some (idx + 1), cw_kind = MalformedRow,
                       cw_detail = ''last column '' @ quoted lst @ '' not f64: '' @ e\<rparr> # sr_warnings out\<rparr>, True))"

definition read_samples_tolerant :: "'f float_ops \<Rightarrow> sched_os \<Rightarrow> string \<Rightarrow> 'f sample_read" where
  "read_samples_tolerant fo os path =
     (case os_read os path of
        FileNotFound \<Rightarrow> \<lparr>sr_values = [], sr_warnings = [\<lparr>cw_path = path, cw_line = None, cw_kind = MissingFile,
            cw_detail = ''sample file does not exist yet''\<rparr>]\<rparr>
      | FileError e \<Rightarrow> \<lparr>sr_values = [], sr_warnings = [\<lparr>cw_path = path, cw_line = None, cw_kind = IoError,
            cw_detail = ''i/o error: '' @ e\<rparr>]\<rparr>
      | FileText raw \<Rightarrow>
          (let (out, saw) = read_rows fo path 0 (str_lines raw)
           in if saw then out
              else out\<lparr>sr_warnings := sr_warnings out @ [\<lparr>cw_path = path, cw_line = None, cw_kind = EmptyFile,
                     cw_detail = ''file has no data rows (only blanks/comments)''\<rparr>]\<rparr>))"

section \<open>State\<close>

record patrol_state =
  last_fired_at :: "datetime option"
  last_exit_code :: "int option"
  last_pid :: "u32 option"
  fire_count :: "64 word"
  sunset_decided_at :: "datetime option"

definition default_patrol_state :: patrol_state where
  "default_patrol_state = \<lparr>last_fired_at = None, last_exit_code = None, last_pid = None, fire_count = 0, sunset_decided_at = None\<rparr>"

record sched_state =
  ss_version :: u32
  ss_patrols :: "string \<Rightarrow> patrol_state option"

definition default_sched_state :: sched_state where
  "default_sched_state = \<lparr>ss_version = 0, ss_patrols = (\<lambda>_. None)\<rparr>"

definition update_patrol :: "string \<Rightarrow> (patrol_state \<Rightarrow> patrol_state) \<Rightarrow> sched_state \<Rightarrow> sched_state" where
  "update_patrol name f st =
     st\<lparr>ss_patrols := (ss_patrols st)(name := Some (f (case ss_patrols st name of Some p \<Rightarrow> p | None \<Rightarrow> default_patrol_state)))\<rparr>"

datatype state_file = NoStateFile | UnreadableState string | MalformedState string | StoredState sched_state

datatype state_error = StIo string | StParse string

fun load_or_default :: "state_file \<Rightarrow> state_error + sched_state" where
  "load_or_default NoStateFile = Ok default_sched_state"
| "load_or_default (UnreadableState e) = Err (StIo e)"
| "load_or_default (MalformedState e) = Err (StParse e)"
| "load_or_default (StoredState st) = Ok st"

section \<open>The tick\<close>

datatype decision =
  WouldFire
| WouldSkip string
| WouldSunset string
| InvalidPatrol string

fun decision_label :: "decision \<Rightarrow> string" where
  "decision_label WouldFire = ''FIRE''"
| "decision_label (WouldSkip _) = ''SKIP''"
| "decision_label (WouldSunset _) = ''SUNSET''"
| "decision_label (InvalidPatrol _) = ''INVALID''"

fun decision_detail :: "decision \<Rightarrow> string" where
  "decision_detail WouldFire = []"
| "decision_detail (WouldSkip r) = r"
| "decision_detail (WouldSunset r) = r"
| "decision_detail (InvalidPatrol r) = r"

definition show_u64 :: "64 word \<Rightarrow> string" where
  "show_u64 w = show_nat (unat w)"

text \<open>\<open>DateTime::with_second(0)\<close> and \<open>with_nanosecond(0)\<close>: the start of the minute.\<close>

definition floor_minute :: "datetime \<Rightarrow> datetime" where
  "floor_minute t = t - t mod 60000000000"

definition interval_gate :: "64 word \<Rightarrow> datetime \<Rightarrow> patrol_state option \<Rightarrow> decision" where
  "interval_gate secs now prior =
     (case Option.bind prior last_fired_at of
        None \<Rightarrow> WouldFire
      | Some lst \<Rightarrow>
          (let elapsed = num_seconds (now - lst)
           in if elapsed < 0 then WouldFire
              else if int (unat secs) \<le> elapsed then WouldFire
              else WouldSkip (''not due yet; '' @ show_nat (nat (int (unat secs) - elapsed)) @ ''s until next fire'')))"

definition cron_gate :: "sched_os \<Rightarrow> string \<Rightarrow> datetime \<Rightarrow> patrol_state option \<Rightarrow> decision" where
  "cron_gate os expr now prior =
     (case cron_parse expr of
        Inl e \<Rightarrow> InvalidPatrol (''cron parse error: '' @ cron_error_to_string e)
      | Inr parsed \<Rightarrow>
          if \<not> cron_matches parsed (os_local os now) then WouldSkip ''not due yet (cron does not match this minute)''
          else (case Option.bind prior last_fired_at of
                  Some lst \<Rightarrow>
                    if floor_minute lst \<ge> floor_minute now then WouldSkip ''already fired this minute'' else WouldFire
                | None \<Rightarrow> WouldFire))"

definition cadence_gate :: "sched_os \<Rightarrow> 'f patrol \<Rightarrow> datetime \<Rightarrow> patrol_state option \<Rightarrow> decision" where
  "cadence_gate os p now prior =
     (case interval_seconds p of
        Some secs \<Rightarrow> interval_gate secs now prior
      | None \<Rightarrow>
          (case pt_cron p of
             Some expr \<Rightarrow> cron_gate os expr now prior
           | None \<Rightarrow> InvalidPatrol ''no cadence after validation''))"

text \<open>The Greek letter sigma and the superscript two of the message, in UTF-8.\<close>

definition sigma_squared :: string where
  "sigma_squared = [char_of (207::nat), char_of (131::nat), char_of (194::nat), char_of (178::nat)]"

definition sunset_gate :: "'f float_ops \<Rightarrow> sched_os \<Rightarrow> 'f sunset \<Rightarrow> decision option" where
  "sunset_gate fo os s =
     (case su_strategy s of
        VarianceThreshold \<Rightarrow>
          Option.bind (sample_file s) (\<lambda>file.
          let read = read_samples_tolerant fo os (shellexpand_home os file)
          in Option.bind (variance_threshold s) (\<lambda>threshold.
             Option.bind (su_window s) (\<lambda>window.
             let floor = (case min_samples s of Some n \<Rightarrow> n | None \<Rightarrow> 0)
             in if variance_threshold_predicate fo (unat window) floor threshold (sr_values read)
                then Some (WouldSunset (''variance-threshold converged ('' @ sigma_squared @ '' < '' @ f_show fo threshold @
                       '', window='' @ show_u64 window @ '', samples='' @ show_nat (length (sr_values read)) @ '')''))
                else None)))
      | SampleCount \<Rightarrow>
          Option.bind (sample_file s) (\<lambda>file.
          let read = read_samples_tolerant fo os (shellexpand_home os file)
          in Option.bind (min_samples s) (\<lambda>target.
             let have = of_nat (length (sr_values read)) :: 64 word
             in if sample_count_predicate have target
                then Some (WouldSunset (''sample-count reached '' @ show_u64 have @ '' (target '' @ show_u64 target @ '')''))
                else None))
      | OperatorTriggerOnly \<Rightarrow>
          if operator_trigger_predicate os (trigger_file s)
          then Some (WouldSunset (''operator-trigger file present: '' @
                 (case trigger_file s of Some f \<Rightarrow> f | None \<Rightarrow> ''<none>'')))
          else None)"

fun missing_env :: "sched_os \<Rightarrow> string list \<Rightarrow> string option" where
  "missing_env os [] = None"
| "missing_env os (v # vs) = (if \<not> env_var_set os v then Some v else missing_env os vs)"

definition evaluate_one ::
  "'f float_ops \<Rightarrow> sched_os \<Rightarrow> 'f patrol \<Rightarrow> bool \<Rightarrow> datetime \<Rightarrow> patrol_state option \<Rightarrow> decision" where
  "evaluate_one fo os p global_kill now prior =
     (case validate_cadence p of
        Inl e \<Rightarrow> InvalidPatrol e
      | Inr _ \<Rightarrow>
          if \<not> pt_enabled p then WouldSkip ''disabled''
          else if Option.bind prior sunset_decided_at \<noteq> None then WouldSkip ''already sunsetted''
          else if global_kill then WouldSkip ''global kill-switch present''
          else if (case pt_kill_switch p of Some ks \<Rightarrow> path_exists os ks | None \<Rightarrow> False) then WouldSkip ''kill-switch present''
          else (case missing_env os (require_env p) of
                  Some v \<Rightarrow> WouldSkip (''required env var '' @ v @ '' unset'')
                | None \<Rightarrow>
                    (case Option.bind (pt_sunset p) (sunset_gate fo os) of
                       Some d \<Rightarrow> d
                     | None \<Rightarrow> cadence_gate os p now prior)))"

definition tick :: "'f float_ops \<Rightarrow> sched_os \<Rightarrow> 'f sched_config \<Rightarrow> datetime \<Rightarrow> sched_state \<Rightarrow> (string \<times> decision) list" where
  "tick fo os cfg now st =
     (let global_kill = path_exists os (sc_kill_switch (sc_scheduler cfg))
      in map (\<lambda>p. (pt_name p, evaluate_one fo os p global_kill now (ss_patrols st (pt_name p)))) (sc_patrols cfg))"

section \<open>Dispatch\<close>

record spawn_spec =
  sp_program :: string
  sp_args :: "string list"
  sp_log :: string
  sp_dir :: "string option"
  sp_env :: "(string \<times> string) list"

text \<open>
  Processes: opening and duplicating a log, spawning for a patrol, waiting for its child, the
  outcome of \<open>launchctl unload\<close> (exit code, success, standard error), running the hook script, appending to a file,
  and the date of an instant.
\<close>

record proc_port =
  open_log :: "string \<Rightarrow> string + unit"
  clone_log :: "string \<Rightarrow> string + unit"
  spawn_proc :: "string \<Rightarrow> spawn_spec \<Rightarrow> string + u32"
  wait_proc :: "string \<Rightarrow> u32 \<Rightarrow> string + int option"
  launchctl_unload :: "string \<Rightarrow> string + (int option \<times> bool \<times> string)"
  run_script :: "string \<Rightarrow> datetime \<Rightarrow> string \<Rightarrow> string \<Rightarrow> string + unit"
  append_existing :: "string \<Rightarrow> string \<Rightarrow> string + unit"
  show_date :: "datetime \<Rightarrow> string"

record dispatch_outcome =
  do_pid :: "u32 option"
  do_exit_code :: "int option"

datatype sched_dispatch_error =
  EmptyCommand string
| SpawnFailed string string
| LogOpen string string string
| WaitFailed string string
| UnknownMode string string

definition process_dispatch ::
  "sched_os \<Rightarrow> proc_port \<Rightarrow> 'f patrol \<Rightarrow> scheduler_config \<Rightarrow> sched_dispatch_error + dispatch_outcome" where
  "process_dispatch os pp p sc =
     (case pt_command p of
        [] \<Rightarrow> Err (EmptyCommand (pt_name p))
      | prog # args \<Rightarrow>
          (let log = shellexpand_home os (case pt_log_file p of Some f \<Rightarrow> f | None \<Rightarrow> sc_log_file sc);
               spec = \<lparr>sp_program = prog, sp_args = args, sp_log = log,
                       sp_dir = map_option (shellexpand_home os) (working_dir p), sp_env = pt_env p\<rparr>
           in and_then (map_err (LogOpen (pt_name p) log) (open_log pp log)) (\<lambda>_.
              and_then (map_err (LogOpen (pt_name p) log) (clone_log pp log)) (\<lambda>_.
              if pt_dispatch p = ''detached''
              then and_then (map_err (SpawnFailed (pt_name p)) (spawn_proc pp (pt_name p) spec)) (\<lambda>pid.
                   Ok \<lparr>do_pid = Some pid, do_exit_code = None\<rparr>)
              else if pt_dispatch p = ''wait''
              then and_then (map_err (SpawnFailed (pt_name p)) (spawn_proc pp (pt_name p) spec)) (\<lambda>pid.
                   and_then (map_err (WaitFailed (pt_name p)) (wait_proc pp (pt_name p) pid)) (\<lambda>code.
                   Ok \<lparr>do_pid = Some pid, do_exit_code = code\<rparr>))
              else Err (UnknownMode (pt_name p) (pt_dispatch p))))))"

record sunset_outcome =
  so_plist :: "string option"
  so_unload_error :: "string option"

definition show_exit :: "int option \<Rightarrow> string" where
  "show_exit code = (let c = (case code of Some k \<Rightarrow> k | None \<Rightarrow> -1)
     in if c < 0 then CHR ''-'' # show_nat (nat (- c)) else show_nat (nat c))"

definition run_sunset_action :: "sched_os \<Rightarrow> proc_port \<Rightarrow> 'f patrol \<Rightarrow> sunset_outcome" where
  "run_sunset_action os pp p =
     (case Option.bind (pt_sunset p) launchctl_plist of
        None \<Rightarrow> \<lparr>so_plist = None, so_unload_error = None\<rparr>
      | Some raw \<Rightarrow>
          (let plist = shellexpand_home os raw
           in \<lparr>so_plist = Some plist,
               so_unload_error =
                 (case launchctl_unload pp plist of
                    Inr (code, success, stderr) \<Rightarrow>
                      if success \<and> \<not> (str_contains stderr ''Unload failed'' \<or> str_contains stderr ''failed'') then None
                      else Some (''launchctl unload exit='' @ show_exit code @ '': '' @ trim stderr)
                  | Inl e \<Rightarrow> Some (''launchctl unload spawn failed: '' @ e))\<rparr>))"

datatype hook_status = HookRan | HookFailed | HookSkipped | HookUnknown

record hook_outcome =
  ho_name :: string
  ho_error :: "string option"
  ho_status :: hook_status

definition hook_result :: "string \<Rightarrow> string + unit \<Rightarrow> hook_outcome" where
  "hook_result name r =
     (case r of
        Inr _ \<Rightarrow> \<lparr>ho_name = name, ho_error = None, ho_status = HookRan\<rparr>
      | Inl e \<Rightarrow> \<lparr>ho_name = name, ho_error = Some e, ho_status = HookFailed\<rparr>)"

definition run_notify_telegram :: "sched_os \<Rightarrow> proc_port \<Rightarrow> string \<Rightarrow> string \<Rightarrow> datetime \<Rightarrow> string \<Rightarrow> hook_outcome" where
  "run_notify_telegram os pp hook patrol now why =
     (case os_var os ''COSMON_TELEGRAM_HOOK_SCRIPT'' of
        None \<Rightarrow> \<lparr>ho_name = hook, ho_error = None, ho_status = HookSkipped\<rparr>
      | Some script \<Rightarrow> hook_result hook (run_script pp script now patrol why))"

definition append_chronicle_stub :: "proc_port \<Rightarrow> string \<Rightarrow> string \<Rightarrow> datetime \<Rightarrow> string \<Rightarrow> string + unit" where
  "append_chronicle_stub pp path patrol now why =
     append_existing pp path
       ([newline] @ ''- **'' @ show_date pp now @ '' '' @ em_dash @ '' patrol `'' @ patrol @ ''` sunsetted.** '' @ why @ [newline])"

definition run_write_chronicle_stub :: "sched_os \<Rightarrow> proc_port \<Rightarrow> string \<Rightarrow> string \<Rightarrow> datetime \<Rightarrow> string \<Rightarrow> hook_outcome" where
  "run_write_chronicle_stub os pp hook patrol now why =
     (case os_var os ''COSMON_CHRONICLE_FILE'' of
        None \<Rightarrow> \<lparr>ho_name = hook, ho_error = None, ho_status = HookSkipped\<rparr>
      | Some raw \<Rightarrow> hook_result hook (append_chronicle_stub pp (shellexpand_home os raw) patrol now why))"

definition run_one_hook :: "sched_os \<Rightarrow> proc_port \<Rightarrow> string \<Rightarrow> string \<Rightarrow> datetime \<Rightarrow> string \<Rightarrow> hook_outcome" where
  "run_one_hook os pp name patrol now why =
     (if name = ''notify_telegram'' then run_notify_telegram os pp name patrol now why
      else if name = ''write_chronicle_stub'' then run_write_chronicle_stub os pp name patrol now why
      else if name = ''unload_launchd'' then \<lparr>ho_name = name, ho_error = None, ho_status = HookSkipped\<rparr>
      else \<lparr>ho_name = name, ho_error = Some (''unknown hook '' @ quoted name), ho_status = HookUnknown\<rparr>)"

definition run_sunset_hooks :: "sched_os \<Rightarrow> proc_port \<Rightarrow> 'f patrol \<Rightarrow> datetime \<Rightarrow> string \<Rightarrow> hook_outcome list" where
  "run_sunset_hooks os pp p now why =
     (case pt_sunset p of
        None \<Rightarrow> []
      | Some s \<Rightarrow> map (\<lambda>name. run_one_hook os pp name (pt_name p) now why) (on_sunset s))"

section \<open>Events\<close>

datatype detail_value = DNum u32 | DStr string

record scheduler_event =
  sev_ts :: datetime
  sev_kind :: string
  sev_patrol :: string
  sev_detail :: "(string \<times> detail_value) list"

definition ev_ticked :: "datetime \<Rightarrow> u32 \<Rightarrow> u32 \<Rightarrow> scheduler_event" where
  "ev_ticked ts fired skipped = \<lparr>sev_ts = ts, sev_kind = ''scheduler.ticked'', sev_patrol = [],
     sev_detail = [(''patrols_fired'', DNum fired), (''patrols_skipped'', DNum skipped)]\<rparr>"

definition ev_sunsetted :: "datetime \<Rightarrow> string \<Rightarrow> string \<Rightarrow> scheduler_event" where
  "ev_sunsetted ts patrol why = \<lparr>sev_ts = ts, sev_kind = ''patrol.sunsetted'', sev_patrol = patrol,
     sev_detail = [(''reason'', DStr why)]\<rparr>"

definition ev_sunset_unload_failed :: "datetime \<Rightarrow> string \<Rightarrow> string \<Rightarrow> string \<Rightarrow> scheduler_event" where
  "ev_sunset_unload_failed ts patrol plist err = \<lparr>sev_ts = ts, sev_kind = ''patrol.sunset_unload_failed'', sev_patrol = patrol,
     sev_detail = [(''plist'', DStr plist), (''error'', DStr err)]\<rparr>"

definition ev_sunset_hook_failed :: "datetime \<Rightarrow> string \<Rightarrow> string \<Rightarrow> string \<Rightarrow> scheduler_event" where
  "ev_sunset_hook_failed ts patrol hook err = \<lparr>sev_ts = ts, sev_kind = ''patrol.sunset_hook_failed'', sev_patrol = patrol,
     sev_detail = [(''hook'', DStr hook), (''error'', DStr err)]\<rparr>"

section \<open>One run of the program\<close>

text \<open>
  The files of the scheduler and the failures of writing them; the effects of a run, which are
  not undone when the state cannot be saved.
\<close>

record sched_disk =
  sd_state :: state_file
  sd_events :: "scheduler_event list"

record sched_faults =
  append_fails :: "scheduler_event \<Rightarrow> bool"
  save_fails :: bool

datatype sched_effect = EDispatch string | ESunset string

record run_state_acc =
  ra_state :: sched_state
  ra_events :: "scheduler_event list"
  ra_fired :: u32
  ra_skipped :: u32
  ra_invalid :: bool
  ra_effects :: "sched_effect list"

definition append_event :: "sched_faults \<Rightarrow> scheduler_event \<Rightarrow> scheduler_event list \<Rightarrow> scheduler_event list" where
  "append_event fl ev evs = (if append_fails fl ev then evs else evs @ [ev])"

definition find_patrol :: "'f sched_config \<Rightarrow> string \<Rightarrow> 'f patrol option" where
  "find_patrol cfg name = List.find (\<lambda>p. pt_name p = name) (sc_patrols cfg)"

definition record_fire :: "string \<Rightarrow> datetime \<Rightarrow> dispatch_outcome \<Rightarrow> sched_state \<Rightarrow> sched_state" where
  "record_fire name now o' st =
     update_patrol name (\<lambda>e. e\<lparr>last_fired_at := Some now, last_pid := do_pid o', last_exit_code := do_exit_code o',
       fire_count := saturating_add (fire_count e) 1\<rparr>) st"

definition record_sunset :: "string \<Rightarrow> datetime \<Rightarrow> sched_state \<Rightarrow> sched_state" where
  "record_sunset name now st =
     update_patrol name (\<lambda>e. if sunset_decided_at e = None then e\<lparr>sunset_decided_at := Some now\<rparr> else e) st"

definition hook_events :: "sched_faults \<Rightarrow> datetime \<Rightarrow> string \<Rightarrow> hook_outcome list \<Rightarrow> scheduler_event list \<Rightarrow> scheduler_event list" where
  "hook_events fl now name hs evs =
     fold (\<lambda>h evs. if ho_status h = HookFailed \<or> ho_status h = HookUnknown
       then append_event fl (ev_sunset_hook_failed now name (ho_name h)
              (case ho_error h of Some e \<Rightarrow> e | None \<Rightarrow> ''hook failed with no detail'')) evs
       else evs) hs evs"

definition handle_sunset ::
  "sched_os \<Rightarrow> proc_port \<Rightarrow> sched_faults \<Rightarrow> 'f sched_config \<Rightarrow> string \<Rightarrow> string \<Rightarrow> datetime \<Rightarrow> run_state_acc \<Rightarrow> run_state_acc" where
  "handle_sunset os pp fl cfg name why now a =
     (case find_patrol cfg name of
        None \<Rightarrow> a
      | Some p \<Rightarrow>
          (let outcome = run_sunset_action os pp p;
               evs1 = (case so_unload_error outcome of
                         Some err \<Rightarrow> append_event fl (ev_sunset_unload_failed now name
                           (case so_plist outcome of Some l \<Rightarrow> l | None \<Rightarrow> []) err) (ra_events a)
                       | None \<Rightarrow> ra_events a);
               evs2 = append_event fl (ev_sunsetted now name why) evs1
           in a\<lparr>ra_state := record_sunset name now (ra_state a),
                ra_events := hook_events fl now name (run_sunset_hooks os pp p now why) evs2,
                ra_effects := ra_effects a @ [ESunset name]\<rparr>))"

definition process_decision ::
  "sched_os \<Rightarrow> proc_port \<Rightarrow> sched_faults \<Rightarrow> 'f sched_config \<Rightarrow> datetime \<Rightarrow> string \<times> decision \<Rightarrow> run_state_acc \<Rightarrow> run_state_acc" where
  "process_decision os pp fl cfg now nd a =
     (case snd nd of
        WouldFire \<Rightarrow>
          (case find_patrol cfg (fst nd) of
             None \<Rightarrow> a
           | Some p \<Rightarrow>
               (let a1 = a\<lparr>ra_effects := ra_effects a @ [EDispatch (fst nd)]\<rparr>
                in case process_dispatch os pp p (sc_scheduler cfg) of
                     Inr o' \<Rightarrow> a1\<lparr>ra_state := record_fire (fst nd) now o' (ra_state a), ra_fired := saturating_add (ra_fired a) 1\<rparr>
                   | Inl _ \<Rightarrow> a1))
      | WouldSunset why \<Rightarrow> handle_sunset os pp fl cfg (fst nd) why now a
      | WouldSkip _ \<Rightarrow> a\<lparr>ra_skipped := saturating_add (ra_skipped a) 1\<rparr>
      | InvalidPatrol _ \<Rightarrow> a\<lparr>ra_skipped := saturating_add (ra_skipped a) 1, ra_invalid := True\<rparr>)"

definition has_invalid :: "(string \<times> decision) list \<Rightarrow> bool" where
  "has_invalid ds \<longleftrightarrow> list_ex (\<lambda>(_, d). case d of InvalidPatrol _ \<Rightarrow> True | _ \<Rightarrow> False) ds"

text \<open>
  The \<open>tick\<close> subcommand: exit code, files afterwards and effects.  The evaluation reads the clock at
  \<open>now\<close>; the time that is recorded is read again afterwards, at \<open>now'\<close>.
\<close>

definition run_tick ::
  "'f float_ops \<Rightarrow> sched_os \<Rightarrow> proc_port \<Rightarrow> sched_faults \<Rightarrow> sched_config_error + 'f sched_config \<Rightarrow> bool \<Rightarrow> datetime \<Rightarrow> datetime
     \<Rightarrow> sched_disk \<Rightarrow> nat \<times> sched_disk \<times> sched_effect list" where
  "run_tick fo os pp fl cfgr dry now now' d =
     (case cfgr of
        Inl _ \<Rightarrow> (2, d, [])
      | Inr cfg \<Rightarrow>
          (case load_or_default (sd_state d) of
             Inl _ \<Rightarrow> (2, d, [])
           | Inr st \<Rightarrow>
               (let ds = tick fo os cfg now st
                in if dry then (if has_invalid ds then 3 else 0, d, [])
                   else let a = fold (process_decision os pp fl cfg now') ds
                              \<lparr>ra_state = st, ra_events = sd_events d, ra_fired = 0, ra_skipped = 0,
                               ra_invalid = False, ra_effects = []\<rparr>
                        in if save_fails fl then (5, d\<lparr>sd_events := ra_events a\<rparr>, ra_effects a)
                           else (if ra_invalid a then 3 else 0,
                                 \<lparr>sd_state = StoredState (ra_state a),
                                  sd_events = append_event fl (ev_ticked now' (ra_fired a) (ra_skipped a)) (ra_events a)\<rparr>,
                                 ra_effects a))))"

definition run_validate :: "sched_config_error + 'f sched_config \<Rightarrow> nat" where
  "run_validate cfgr = (case cfgr of Inl _ \<Rightarrow> 2 | Inr _ \<Rightarrow> 0)"

section \<open>When a patrol is due\<close>

lemma num_seconds_neg: "num_seconds x < 0 \<longleftrightarrow> x \<le> - 1000000000"
  by (auto simp: num_seconds_def pos_imp_zdiv_neg_iff pos_imp_zdiv_pos_iff)

lemma num_seconds_ge: "0 \<le> s \<Longrightarrow> 0 \<le> num_seconds x \<Longrightarrow> s \<le> num_seconds x \<longleftrightarrow> s = 0 \<or> s * 1000000000 \<le> x"
proof (cases "x < 0")
  case True
  assume "0 \<le> s" "0 \<le> num_seconds x"
  then have "num_seconds x = 0" using True by (simp add: num_seconds_def pos_imp_zdiv_neg_iff)
  then show ?thesis using True \<open>0 \<le> s\<close> by auto
next
  case False
  have "s \<le> x div 1000000000 \<longleftrightarrow> s * 1000000000 \<le> x"
  proof
    assume "s \<le> x div 1000000000"
    then show "s * 1000000000 \<le> x" using mult_right_mono[of s "x div 1000000000" 1000000000] div_mult_mod_eq[of x 1000000000]
        pos_mod_sign[of 1000000000 x] by linarith
  next
    assume "s * 1000000000 \<le> x"
    from zdiv_mono1[OF this, of 1000000000] show "s \<le> x div 1000000000" by simp
  qed
  then show ?thesis using False by (auto simp: num_seconds_def)
qed

lemma interval_gate_fires:
  "interval_gate secs now prior = WouldFire \<longleftrightarrow>
     (\<forall>l. Option.bind prior last_fired_at = Some l \<longrightarrow>
        now - l \<le> - 1000000000 \<or> secs = 0 \<or> int (unat secs) * 1000000000 \<le> now - l)"
proof (cases "Option.bind prior last_fired_at")
  case (Some l)
  have "int (unat secs) = 0 \<longleftrightarrow> secs = 0" by (simp add: uint_0_iff)
  then show ?thesis using Some num_seconds_neg[of "now - l"] num_seconds_ge[of "int (unat secs)" "now - l"]
    by (auto simp: interval_gate_def Let_def)
qed (simp add: interval_gate_def)

lemma cron_gate_fires:
  "cron_gate os expr now prior = WouldFire \<longleftrightarrow>
     (\<exists>c. cron_parse expr = Ok c \<and> cron_matches c (os_local os now)) \<and>
     (\<forall>l. Option.bind prior last_fired_at = Some l \<longrightarrow> floor_minute l < floor_minute now)"
  by (auto simp: cron_gate_def split: sum.splits option.splits)

lemma sunset_gate_sunsets: "sunset_gate fo os s = Some d \<Longrightarrow> \<exists>why. d = WouldSunset why"
  by (auto simp: sunset_gate_def Let_def bind_eq_Some_conv split: sunset_strategy.splits if_splits)

lemma missing_env_None: "missing_env os vs = None \<longleftrightarrow> (\<forall>v\<in>set vs. env_var_set os v)"
  by (induction vs) auto

text \<open>The gates a patrol has to pass before its cadence is looked at.\<close>

definition gates_open :: "'f float_ops \<Rightarrow> sched_os \<Rightarrow> 'f patrol \<Rightarrow> bool \<Rightarrow> patrol_state option \<Rightarrow> bool" where
  "gates_open fo os p global_kill prior \<longleftrightarrow>
     pt_enabled p \<and> Option.bind prior sunset_decided_at = None \<and> \<not> global_kill \<and>
     (\<forall>ks. pt_kill_switch p = Some ks \<longrightarrow> \<not> path_exists os ks) \<and> (\<forall>v\<in>set (require_env p). env_var_set os v)"

lemma evaluate_one_cases:
  "evaluate_one fo os p g now prior =
     (case validate_cadence p of
        Inl e \<Rightarrow> InvalidPatrol e
      | Inr _ \<Rightarrow>
          if gates_open fo os p g prior
          then (case Option.bind (pt_sunset p) (sunset_gate fo os) of Some d \<Rightarrow> d | None \<Rightarrow> cadence_gate os p now prior)
          else evaluate_one fo os p g now prior)"
  by (auto simp: evaluate_one_def gates_open_def missing_env_None[symmetric] split: sum.splits option.splits)

lemma gates_closed_skip:
  "validate_cadence p = Ok () \<Longrightarrow> \<not> gates_open fo os p g prior \<Longrightarrow> \<exists>r. evaluate_one fo os p g now prior = WouldSkip r"
  by (auto simp: evaluate_one_def gates_open_def missing_env_None[symmetric] split: option.splits)

lemma validate_cadence_Ok: "validate_cadence p = Ok () \<longleftrightarrow> (interval_seconds p = None) \<noteq> (pt_cron p = None)"
  by (auto simp: validate_cadence_def split: option.splits)


section \<open>What a run changes\<close>

definition effect_name :: "sched_effect \<Rightarrow> string" where
  "effect_name e = (case e of EDispatch n \<Rightarrow> n | ESunset n \<Rightarrow> n)"

definition causes :: "decision \<Rightarrow> sched_effect \<Rightarrow> bool" where
  "causes d e \<longleftrightarrow>
     (case d of WouldFire \<Rightarrow> e = EDispatch (effect_name e) | WouldSunset _ \<Rightarrow> e = ESunset (effect_name e) | _ \<Rightarrow> False)"

lemma process_effects:
  "e \<in> set (ra_effects (process_decision os pp fl cfg now nd a)) \<Longrightarrow>
     e \<in> set (ra_effects a) \<or> effect_name e = fst nd \<and> causes (snd nd) e"
  by (auto simp: process_decision_def handle_sunset_def causes_def effect_name_def Let_def
      split: decision.splits option.splits sum.splits)

lemma fold_effects:
  "e \<in> set (ra_effects (fold (process_decision os pp fl cfg now) ds a)) \<Longrightarrow>
     e \<in> set (ra_effects a) \<or> (\<exists>d. (effect_name e, d) \<in> set ds \<and> causes d e)"
proof (induction ds arbitrary: a)
  case (Cons nd ds)
  from Cons.IH[of "process_decision os pp fl cfg now nd a"] Cons.prems
  consider "e \<in> set (ra_effects (process_decision os pp fl cfg now nd a))" | d where "(effect_name e, d) \<in> set ds" "causes d e" by auto
  then show ?case
  proof cases
    case 1
    from process_effects[OF this] show ?thesis by (cases nd) auto
  qed auto
qed simp

text \<open>The entry of one patrol after one decision: only a decision on that patrol touches it.\<close>

definition entry_after ::
  "sched_os \<Rightarrow> proc_port \<Rightarrow> 'f sched_config \<Rightarrow> datetime \<Rightarrow> string \<Rightarrow> decision \<Rightarrow> patrol_state option \<Rightarrow> patrol_state option" where
  "entry_after os pp cfg now n d prior =
     (let e = (case prior of Some e \<Rightarrow> e | None \<Rightarrow> default_patrol_state)
      in case (find_patrol cfg n, d) of
           (Some p, WouldFire) \<Rightarrow>
             (case process_dispatch os pp p (sc_scheduler cfg) of
                Inr o' \<Rightarrow> Some (e\<lparr>last_fired_at := Some now, last_pid := do_pid o', last_exit_code := do_exit_code o',
                            fire_count := saturating_add (fire_count e) 1\<rparr>)
              | Inl _ \<Rightarrow> prior)
         | (Some p, WouldSunset _) \<Rightarrow>
             Some (if sunset_decided_at e = None then e\<lparr>sunset_decided_at := Some now\<rparr> else e)
         | _ \<Rightarrow> prior)"

lemma process_entry:
  "ss_patrols (ra_state (process_decision os pp fl cfg now nd a)) n =
     (if fst nd = n then entry_after os pp cfg now n (snd nd) (ss_patrols (ra_state a) n) else ss_patrols (ra_state a) n)"
  by (auto simp: process_decision_def handle_sunset_def entry_after_def record_fire_def record_sunset_def update_patrol_def Let_def
      split: decision.splits option.splits sum.splits)

lemma fold_entry_other:
  "n \<notin> fst ` set ds \<Longrightarrow> ss_patrols (ra_state (fold (process_decision os pp fl cfg now) ds a)) n = ss_patrols (ra_state a) n"
proof (induction ds arbitrary: a)
  case (Cons nd ds)
  then show ?case by (auto simp: process_entry)
qed simp

lemma fold_entry:
  "distinct (map fst ds) \<Longrightarrow> (n, d) \<in> set ds \<Longrightarrow>
     ss_patrols (ra_state (fold (process_decision os pp fl cfg now) ds a)) n =
     entry_after os pp cfg now n d (ss_patrols (ra_state a) n)"
proof (induction ds arbitrary: a)
  case (Cons nd ds)
  show ?case
  proof (cases "nd = (n, d)")
    case True
    then have "n \<notin> fst ` set ds" using Cons.prems(1) by simp
    then show ?thesis using True by (simp add: fold_entry_other process_entry)
  next
    case False
    then have "(n, d) \<in> set ds" using Cons.prems(2) by simp
    moreover from this have "n \<in> fst ` set ds" by force
    then have "fst nd \<noteq> n" using Cons.prems(1) by auto
    ultimately show ?thesis using Cons.IH Cons.prems(1) by (simp add: process_entry)
  qed
qed simp



lemma tick_map: "(n, d) \<in> set (tick fo os cfg now st) \<longleftrightarrow>
    (\<exists>p\<in>set (sc_patrols cfg). n = pt_name p \<and>
       d = evaluate_one fo os p (path_exists os (sc_kill_switch (sc_scheduler cfg))) now (ss_patrols st n))"
  by (auto simp: tick_def Let_def)

lemma tick_names: "map fst (tick fo os cfg now st) = map pt_name (sc_patrols cfg)"
  by (simp add: tick_def Let_def comp_def)

section \<open>Validated configurations\<close>

lemma patrols_errors_Nil:
  "patrols_errors k seen ps = [] \<longleftrightarrow>
     distinct (map pt_name ps) \<and> (\<forall>p\<in>set ps. pt_name p \<notin> set seen \<and> validate_cadence p = Ok () \<and> pt_command p \<noteq> [] \<and>
       (\<forall>s. pt_sunset p = Some s \<longrightarrow> sunset_validate s = []))"
proof (induction ps arbitrary: k seen)
  case (Cons p ps)
  have "patrol_errors k seen p = [] \<longleftrightarrow> pt_name p \<notin> set seen \<and> validate_cadence p = Ok () \<and> pt_command p \<noteq> [] \<and>
       (\<forall>s. pt_sunset p = Some s \<longrightarrow> sunset_validate s = [])"
    by (auto simp: patrol_errors_def Let_def split: sum.splits option.splits)
  then show ?case using Cons.IH[of "k + 1" "pt_name p # seen"] by (auto simp: image_iff)
qed simp

lemma config_validate_Ok:
  "config_validate cfg = Ok () \<longleftrightarrow>
     distinct (map pt_name (sc_patrols cfg)) \<and> (\<forall>p\<in>set (sc_patrols cfg). validate_cadence p = Ok () \<and> pt_command p \<noteq> [] \<and>
       (\<forall>s. pt_sunset p = Some s \<longrightarrow> sunset_validate s = []))"
  by (auto simp: config_validate_def Let_def patrols_errors_Nil)

lemma find_patrol_distinct:
  "distinct (map pt_name (sc_patrols cfg)) \<Longrightarrow> p \<in> set (sc_patrols cfg) \<Longrightarrow> find_patrol cfg (pt_name p) = Some p"
  unfolding find_patrol_def by (induction "sc_patrols cfg") (auto simp: find_Some_iff in_set_conv_nth distinct_conv_nth)

section \<open>Runs\<close>





lemma tick_run_state:
  assumes "run_tick fo os pp fl (Ok cfg) False now now' d = (code, d', effs)" and "\<not> save_fails fl"
    and "load_or_default (sd_state d) = Ok st" and "distinct (map pt_name (sc_patrols cfg))" and "p \<in> set (sc_patrols cfg)"
  shows "\<exists>st'. sd_state d' = StoredState st' \<and>
    ss_patrols st' (pt_name p) = entry_after os pp cfg now' (pt_name p)
      (evaluate_one fo os p (path_exists os (sc_kill_switch (sc_scheduler cfg))) now (ss_patrols st (pt_name p)))
      (ss_patrols st (pt_name p))"
proof -
  let ?d = "evaluate_one fo os p (path_exists os (sc_kill_switch (sc_scheduler cfg))) now (ss_patrols st (pt_name p))"
  let ?a = "fold (process_decision os pp fl cfg now') (tick fo os cfg now st)
      \<lparr>ra_state = st, ra_events = sd_events d, ra_fired = 0, ra_skipped = 0, ra_invalid = False, ra_effects = []\<rparr>"
  have "(pt_name p, ?d) \<in> set (tick fo os cfg now st)" using assms(5) by (auto simp: tick_map)
  moreover have "distinct (map fst (tick fo os cfg now st))" using assms(4) by (simp add: tick_names)
  ultimately have "ss_patrols (ra_state ?a) (pt_name p) = entry_after os pp cfg now' (pt_name p) ?d (ss_patrols st (pt_name p))"
    by (simp add: fold_entry)
  moreover have "sd_state d' = StoredState (ra_state ?a)" using assms(1,2,3) by (auto simp: run_tick_def Let_def)
  ultimately show ?thesis by blast
qed

lemma run_tick_effects:
  assumes "run_tick fo os pp fl (Ok cfg) dry now now' d = (code, d', effs)" and "e \<in> set effs"
  shows "\<exists>st x. load_or_default (sd_state d) = Ok st \<and> (effect_name e, x) \<in> set (tick fo os cfg now st) \<and> causes x e"
  using assms by (auto simp: run_tick_def Let_def split: sum.splits if_splits dest!: fold_effects)

section \<open>Properties\<close>

text \<open>
  C28. A patrol is dispatched by a tick exactly when its declaration has one cadence, it is enabled, was
  never sunset, no kill switch is present, its variables are set, its convergence rule does not
  hold, and it is due: never fired, or the interval has passed since the recorded fire (or the
  clock went back by a second or more), or its cron expression matches now and the recorded fire
  lies in an earlier minute.
\<close>

theorem patrol_fires_iff:
  "evaluate_one fo os p global_kill now prior = WouldFire \<longleftrightarrow>
     gates_open fo os p global_kill prior \<and> Option.bind (pt_sunset p) (sunset_gate fo os) = None \<and>
     ((\<exists>secs. interval_seconds p = Some secs \<and> pt_cron p = None \<and>
         (\<forall>l. Option.bind prior last_fired_at = Some l \<longrightarrow>
            now - l \<le> - 1000000000 \<or> secs = 0 \<or> int (unat secs) * 1000000000 \<le> now - l)) \<or>
      (\<exists>expr c. interval_seconds p = None \<and> pt_cron p = Some expr \<and> cron_parse expr = Ok c \<and> cron_matches c (os_local os now) \<and>
         (\<forall>l. Option.bind prior last_fired_at = Some l \<longrightarrow> floor_minute l < floor_minute now)))"
proof (cases "validate_cadence p")
  case (Inl e)
  then have "\<not> ((interval_seconds p = None) \<noteq> (pt_cron p = None))" using validate_cadence_Ok[of p] by auto
  then show ?thesis using Inl by (auto simp: evaluate_one_def)
next
  case (Inr u)
  then have v: "validate_cadence p = Ok ()" by simp
  show ?thesis
  proof (cases "gates_open fo os p global_kill prior")
    case False
    then show ?thesis using gates_closed_skip[OF v False, of now] by auto
  next
    case True
    have e: "evaluate_one fo os p global_kill now prior =
        (case Option.bind (pt_sunset p) (sunset_gate fo os) of Some d \<Rightarrow> d | None \<Rightarrow> cadence_gate os p now prior)"
      using evaluate_one_cases[of fo os p global_kill now prior] v True by simp
    have cad: "cadence_gate os p now prior = WouldFire \<longleftrightarrow>
     ((\<exists>secs. interval_seconds p = Some secs \<and> pt_cron p = None \<and> interval_gate secs now prior = WouldFire) \<or>
      (\<exists>expr. interval_seconds p = None \<and> pt_cron p = Some expr \<and> cron_gate os expr now prior = WouldFire))"
      using v unfolding validate_cadence_Ok by (auto simp: cadence_gate_def split: option.splits)
    show ?thesis
    proof (cases "Option.bind (pt_sunset p) (sunset_gate fo os)")
      case None
      then show ?thesis using True unfolding e by (simp add: cad interval_gate_fires cron_gate_fires) blast
    next
      case (Some d)
      then obtain s where "sunset_gate fo os s = Some d" by (auto simp: bind_eq_Some_conv)
      from sunset_gate_sunsets[OF this] obtain why where "d = WouldSunset why" by blast
      then show ?thesis using Some unfolding e by simp
    qed
  qed
qed


text \<open>
  Patrols do not disturb one another: in a run with a validated configuration whose state file is
  saved, the entry of each patrol depends only on its own decision and the outcome of its own
  dispatch.  A fire that succeeds sets the time, process and counter, a sunset is recorded
  once, and a failed dispatch, a skip or an invalid declaration leaves the entry as it was.
\<close>

theorem patrol_entry_is_local:
  assumes "config_load toml file = Ok cfg" and "run_tick fo os pp fl (Ok cfg) False now now' d = (code, d', effs)"
    and "\<not> save_fails fl" and "load_or_default (sd_state d) = Ok st" and "p \<in> set (sc_patrols cfg)"
  shows "\<exists>st'. sd_state d' = StoredState st' \<and>
    (let prior = ss_patrols st (pt_name p); e = (case prior of Some e \<Rightarrow> e | None \<Rightarrow> default_patrol_state)
     in ss_patrols st' (pt_name p) =
       (case evaluate_one fo os p (path_exists os (sc_kill_switch (sc_scheduler cfg))) now prior of
          WouldFire \<Rightarrow>
            (case process_dispatch os pp p (sc_scheduler cfg) of
               Inr o' \<Rightarrow> Some (e\<lparr>last_fired_at := Some now', last_pid := do_pid o', last_exit_code := do_exit_code o',
                           fire_count := saturating_add (fire_count e) 1\<rparr>)
             | Inl _ \<Rightarrow> prior)
        | WouldSunset _ \<Rightarrow> Some (if sunset_decided_at e = None then e\<lparr>sunset_decided_at := Some now'\<rparr> else e)
        | _ \<Rightarrow> prior))"
proof -
  have d: "distinct (map pt_name (sc_patrols cfg))" using assms(1) by (auto simp: config_load_def config_validate_Ok)
  obtain st' where "sd_state d' = StoredState st'"
    "ss_patrols st' (pt_name p) = entry_after os pp cfg now' (pt_name p)
      (evaluate_one fo os p (path_exists os (sc_kill_switch (sc_scheduler cfg))) now (ss_patrols st (pt_name p)))
      (ss_patrols st (pt_name p))"
    using tick_run_state[OF assms(2,3,4) d assms(5)] by blast
  then show ?thesis using find_patrol_distinct[OF d assms(5)]
    by (auto simp: entry_after_def Let_def split: decision.splits sum.splits)
qed

text \<open>
  A minute can be lost: the decision is taken at one reading of the clock and the fire is recorded
  at a later one.  When the minute changes in between, the run of a cron patrol is recorded in
  the next minute, so that no tick in that minute dispatches the patrol, even where its
  expression matches: the patrol runs once for two minutes.
\<close>

theorem cron_minute_lost:
  assumes "config_load toml file = Ok cfg" and "p \<in> set (sc_patrols cfg)" and "pt_cron p = Some expr"
    and "load_or_default (sd_state d) = Ok st" and "(pt_name p, WouldFire) \<in> set (tick fo os cfg now st)"
    and "process_dispatch os pp p (sc_scheduler cfg) = Ok outcome" and "\<not> save_fails fl"
    and "run_tick fo os pp fl (Ok cfg) False now now' d = (code, d1, effs)"
    and "floor_minute now < floor_minute now'" and "floor_minute later = floor_minute now'"
    and "run_tick fo os2 pp2 fl2 (Ok cfg) False later later' d1 = (code2, d2, effs2)"
  shows "EDispatch (pt_name p) \<notin> set effs2"
proof
  assume "EDispatch (pt_name p) \<in> set effs2"
  let ?g = "path_exists os (sc_kill_switch (sc_scheduler cfg))"
  have ds: "distinct (map pt_name (sc_patrols cfg))" using assms(1) by (auto simp: config_load_def config_validate_Ok)
  have uniq: "q = p" if "q \<in> set (sc_patrols cfg)" "pt_name q = pt_name p" for q
    using find_patrol_distinct[OF ds that(1)] find_patrol_distinct[OF ds assms(2)] that(2) by (metis option.inject)
  have fire: "evaluate_one fo os p ?g now (ss_patrols st (pt_name p)) = WouldFire"
    using assms(5) uniq by (auto simp: tick_map)
  obtain st1 where st1: "sd_state d1 = StoredState st1"
    "ss_patrols st1 (pt_name p) = entry_after os pp cfg now' (pt_name p) WouldFire (ss_patrols st (pt_name p))"
    using tick_run_state[OF assms(8,7,4) ds assms(2)] fire by auto
  then have l: "Option.bind (ss_patrols st1 (pt_name p)) last_fired_at = Some now'"
    using find_patrol_distinct[OF ds assms(2)] assms(6) by (simp add: entry_after_def Let_def)
  obtain x where x: "(pt_name p, x) \<in> set (tick fo os2 cfg later st1)" "causes x (EDispatch (pt_name p))"
    using run_tick_effects[OF assms(11) \<open>EDispatch (pt_name p) \<in> set effs2\<close>] st1(1) by (auto simp: effect_name_def)
  then have "x = WouldFire" by (cases x) (auto simp: causes_def)
  then have f2: "evaluate_one fo os2 p (path_exists os2 (sc_kill_switch (sc_scheduler cfg))) later (ss_patrols st1 (pt_name p)) = WouldFire"
    using x(1) uniq by (auto simp: tick_map)
  then have "validate_cadence p = Ok ()" by (auto simp: evaluate_one_def split: sum.splits)
  then have "interval_seconds p = None" using assms(3) unfolding validate_cadence_Ok by auto
  then have "cadence_gate os2 p later (ss_patrols st1 (pt_name p)) = cron_gate os2 expr later (ss_patrols st1 (pt_name p))"
    using assms(3) by (simp add: cadence_gate_def)
  then have "cron_gate os2 expr later (ss_patrols st1 (pt_name p)) = WouldFire"
    using f2 sunset_gate_sunsets[of fo os2]
    by (auto simp: evaluate_one_def bind_eq_Some_conv split: sum.splits if_splits option.splits)
  then have "floor_minute now' < floor_minute later" using l by (simp add: cron_gate_fires)
  then show False using assms(10) by simp
qed

text \<open>
  A validated rule of the strategy \<open>variance-threshold\<close> may lack the threshold, and then it never
  sunsets its patrol; the comment in \<open>sunset_gate\<close> says that the validator rules this out.
\<close>

lemma variance_rule_without_threshold:
  assumes "su_strategy s = VarianceThreshold" and "variance_threshold s = None" and "sample_file s = Some f" and "min_samples s = None"
  shows "sunset_validate s = [] \<and> sunset_gate fo os s = None"
  using assms by (simp add: sunset_validate_def sunset_gate_def)

text \<open>The state of a first boot has version 0, and it is saved like that; its documentation says the version is always 1.\<close>

lemma first_boot_version: "load_or_default NoStateFile = Ok st \<Longrightarrow> ss_version st = 0"
  by (auto simp: default_sched_state_def)

section \<open>Witnesses\<close>

text \<open>Numbers in place of floats, and a machine on which every operation succeeds.\<close>

definition int_floats :: "int float_ops" where
  "int_floats = \<lparr>f_parse = (\<lambda>s. case parse_digits 0 s of Some n \<Rightarrow> Ok (int n) | None \<Rightarrow> Err ''no''), f_zero = 0, f_add = (+), f_sub = (-),
     f_mul = (*), f_div = (div), f_powi = (\<lambda>x _. x * x), f_sqrt = (\<lambda>x. x), f_lt = (<), f_of_nat = int, f_show = (\<lambda>_. [])\<rparr>"

definition sample_os :: sched_os where
  "sample_os = \<lparr>os_exists = (\<lambda>p. p = ''stop''), os_var = (\<lambda>_. None), os_read = (\<lambda>_. FileNotFound),
     os_local = (\<lambda>t. \<lparr>lt_minute = 5, lt_hour = 1, lt_day = 1, lt_month = 1, lt_weekday = 1\<rparr>)\<rparr>"

definition sample_procs :: proc_port where
  "sample_procs = \<lparr>open_log = (\<lambda>_. Ok ()), clone_log = (\<lambda>_. Ok ()), spawn_proc = (\<lambda>_ _. Ok 7), wait_proc = (\<lambda>_ _. Ok (Some 0)),
     launchctl_unload = (\<lambda>_. Err ''none''), run_script = (\<lambda>_ _ _ _. Ok ()), append_existing = (\<lambda>_ _. Ok ()), show_date = (\<lambda>_. [])\<rparr>"

definition no_faults :: sched_faults where
  "no_faults = \<lparr>append_fails = (\<lambda>_. False), save_fails = False\<rparr>"


definition sample_patrol :: "string \<Rightarrow> 64 word option \<Rightarrow> string option \<Rightarrow> int sunset option \<Rightarrow> int patrol" where
  "sample_patrol n iv cr su = \<lparr>pt_name = n, interval_seconds = iv, pt_cron = cr, pt_command = [''true''], working_dir = None,
     pt_env = [], pt_kill_switch = None, pt_log_file = None, pt_dispatch = ''detached'', require_env = [], timeout_seconds = None,
     pt_enabled = True, pt_sunset = su\<rparr>"

definition sample_sched_config :: "int patrol list \<Rightarrow> int sched_config" where
  "sample_sched_config ps = \<lparr>sc_scheduler = \<lparr>sc_state_file = [], sc_log_file = [], sc_kill_switch = ''off'', tick_interval_seconds = 60\<rparr>,
     sc_patrols = ps\<rparr>"

definition fresh_disk :: sched_disk where
  "fresh_disk = \<lparr>sd_state = NoStateFile, sd_events = []\<rparr>"

lemma sample_cron: "\<exists>c. cron_parse ''* * * * *'' = Ok c \<and> cron_matches c (os_local sample_os t)"
proof -
  have ws: "split_whitespace ''* * * * *'' = [''*'', ''*'', ''*'', ''*'', ''*'']" by code_simp
  then have "\<not> isl (cron_parse ''* * * * *'')" by (simp add: accepted spec_ranges_def spec_simps)
  then obtain c where c: "cron_parse ''* * * * *'' = Ok c" by (cases "cron_parse ''* * * * *''") auto
  have f: "meets spec_ranges (split_whitespace ''* * * * *'') ss \<Longrightarrow> cron_matches (cron_of_fields ss) (os_local sample_os t)" for ss
    unfolding ws by (drule meets_five) (auto simp: cron_matches_def cron_of_fields_def sample_os_def spec_simps)
  obtain ss where "c = cron_of_fields ss" "meets spec_ranges (split_whitespace ''* * * * *'') ss"
    using cron_parse_loop_returns[of "''* * * * *''"] cron_parse_returns[of "''* * * * *''"] c by auto
  then show ?thesis using c f by blast
qed

theorem patrol_fires_iff_witness:
  "evaluate_one int_floats sample_os (sample_patrol ''p'' (Some 60) None None) False 100000000000
     (Some (default_patrol_state\<lparr>last_fired_at := Some 0\<rparr>)) = WouldFire"
proof -
  have "gates_open int_floats sample_os (sample_patrol ''p'' (Some 60) None None) False (Some (default_patrol_state\<lparr>last_fired_at := Some 0\<rparr>))"
    by (simp add: gates_open_def sample_patrol_def default_patrol_state_def)
  moreover have "int (unat (60 :: 64 word)) * 1000000000 \<le> 100000000000" by simp
  ultimately show ?thesis by (subst patrol_fires_iff) (simp add: sample_patrol_def)
qed


theorem patrol_entry_is_local_witness:
  "\<exists>st'. sd_state (fst (snd (run_tick int_floats sample_os sample_procs no_faults
       (Ok (sample_sched_config [sample_patrol ''p'' (Some 60) None None])) False 1 2 fresh_disk))) = StoredState st' \<and>
     Option.bind (ss_patrols st' ''p'') last_fired_at = Some 2"
proof -
  let ?p = "sample_patrol ''p'' (Some 60) None None" and ?cfg = "sample_sched_config [sample_patrol ''p'' (Some 60) None None]"
  have l: "config_load (\<lambda>_. Ok ?cfg) (Ok []) = Ok ?cfg" by code_simp
  obtain a b e where r: "run_tick int_floats sample_os sample_procs no_faults (Ok ?cfg) False 1 2 fresh_disk = (a, b, e)"
    by (cases "run_tick int_floats sample_os sample_procs no_faults (Ok ?cfg) False 1 2 fresh_disk")
  have ld: "load_or_default (sd_state fresh_disk) = Ok default_sched_state" by (simp add: fresh_disk_def)
  have p: "?p \<in> set (sc_patrols ?cfg)" by (simp add: sample_sched_config_def)
  have n: "\<not> save_fails no_faults" "pt_name ?p = ''p''" by (simp_all add: no_faults_def sample_patrol_def)
  have ev: "evaluate_one int_floats sample_os ?p (path_exists sample_os (sc_kill_switch (sc_scheduler ?cfg))) 1 (ss_patrols default_sched_state ''p'') = WouldFire"
    "process_dispatch sample_os sample_procs ?p (sc_scheduler ?cfg) = Ok \<lparr>do_pid = Some 7, do_exit_code = None\<rparr>" by code_simp+
  from patrol_entry_is_local[OF l r n(1) ld p, unfolded n(2) Let_def ev] r show ?thesis by auto
qed

theorem cron_minute_lost_witness:
  "\<exists>d1. EDispatch ''p'' \<notin> set (snd (snd (run_tick int_floats sample_os sample_procs no_faults
      (Ok (sample_sched_config [sample_patrol ''p'' None (Some ''* * * * *'') None])) False 60000000002 60000000003 d1)))"
proof -
  let ?p = "sample_patrol ''p'' None (Some ''* * * * *'') None" and ?cfg = "sample_sched_config [sample_patrol ''p'' None (Some ''* * * * *'') None]"
  let ?run = "\<lambda>a b d. run_tick int_floats sample_os sample_procs no_faults (Ok ?cfg) False a b d"
  have l: "config_load (\<lambda>_. Ok ?cfg) (Ok []) = Ok ?cfg" by code_simp
  have p: "?p \<in> set (sc_patrols ?cfg)" "pt_cron ?p = Some ''* * * * *''" by (simp_all add: sample_sched_config_def sample_patrol_def)
  have ld: "load_or_default (sd_state fresh_disk) = Ok default_sched_state" by (simp add: fresh_disk_def)
  have n: "\<not> save_fails no_faults" "pt_name ?p = ''p''" by (simp_all add: no_faults_def sample_patrol_def)
  have "cron_gate sample_os ''* * * * *'' 1 None = WouldFire" using sample_cron[of 1] by (simp add: cron_gate_fires)
  then have "evaluate_one int_floats sample_os ?p False 1 None = WouldFire"
    by (simp add: sample_patrol_def evaluate_one_def validate_cadence_def cadence_gate_def)
  then have ev: "(pt_name ?p, WouldFire) \<in> set (tick int_floats sample_os ?cfg 1 default_sched_state)"
    by (simp add: tick_def sample_sched_config_def sample_os_def path_exists_def shellexpand_home_def strip_prefix_def default_sched_state_def)
  have ds: "process_dispatch sample_os sample_procs ?p (sc_scheduler ?cfg) = Ok \<lparr>do_pid = Some 7, do_exit_code = None\<rparr>" by code_simp
  obtain a1 d1 e1 where r1: "?run 1 60000000001 fresh_disk = (a1, d1, e1)" by (cases "?run 1 60000000001 fresh_disk")
  obtain a2 d2 e2 where r2: "?run 60000000002 60000000003 d1 = (a2, d2, e2)" by (cases "?run 60000000002 60000000003 d1")
  have m: "floor_minute 1 < floor_minute 60000000001" "floor_minute 60000000002 = floor_minute 60000000001"
    by (simp_all add: floor_minute_def)
  from cron_minute_lost[OF l p ld ev ds n(1) r1 m r2] r2 n(2) show ?thesis by (intro exI[of _ d1]) simp
qed

end
