(* ===== verification/EventLog.thy ===== *)
theory EventLog
  imports RustStd "HOL-Library.Sublist"
begin

text \<open>
  The append-only event log (\<open>cosmon-state/src/event_log.rs\<close>): the writer with its cached
  sequence numbers and the checkpoint file that lets a new writer skip the history, the
  incremental reader of long-lived processes, and the resumable reader for consumers outside.

  The log is the text of one file.  An event is any value with a molecule and the mark of a
  verb (\<open>molecule_id\<close> and \<open>is_verb\<close> of the event vocabulary); the JSON codec of a line, SHA-256,
  the local hour and the outcome of each system call are arguments.  A checkpoint file is the
  record it decodes to, or nothing.  An append happens under an exclusive file lock, so it is
  one step.
\<close>

section \<open>Envelopes\<close>

type_synonym seqno = "64 word"

definition seq_next :: "seqno \<Rightarrow> seqno" where
  "seq_next s = s + 1"

datatype quality_band = Diurne | Nocturne | PostVeille

definition POST_VEILLE_QUIESCENCE_S :: nat where
  "POST_VEILLE_QUIESCENCE_S = 4 * 3600"

definition band_compute :: "nat \<Rightarrow> nat option \<Rightarrow> quality_band" where
  "band_compute local_hour latency =
     (if local_hour \<ge> 24 then Diurne
      else if \<not> (6 \<le> local_hour \<and> local_hour < 23) then Nocturne
      else if 6 \<le> local_hour \<and> local_hour < 10
      then (if (case latency of None \<Rightarrow> True | Some s \<Rightarrow> s \<ge> POST_VEILLE_QUIESCENCE_S) then PostVeille else Nocturne)
      else Diurne)"

definition compute_band_for :: "(datetime \<Rightarrow> nat) \<Rightarrow> datetime \<Rightarrow> datetime option \<Rightarrow> quality_band" where
  "compute_band_for local_hour now last_verb =
     band_compute (local_hour now)
       (Option.bind last_verb (\<lambda>prev.
          let secs = num_seconds (now - prev) in if secs < 0 then None else Some (nat secs)))"

datatype emitter_kind =
  EkCli | EkWorker | EkPatrol | EkFormulaStep | EkAttendant | EkMission | EkOversee | EkReduce | EkWhile
| EkRetrospective | EkPilot | EkOperator | EkUnknown

fun emitter_as_str :: "emitter_kind \<Rightarrow> string" where
  "emitter_as_str EkCli = ''cli''"
| "emitter_as_str EkWorker = ''worker''"
| "emitter_as_str EkPatrol = ''patrol''"
| "emitter_as_str EkFormulaStep = ''formula_step''"
| "emitter_as_str EkAttendant = ''attendant''"
| "emitter_as_str EkMission = ''mission''"
| "emitter_as_str EkOversee = ''oversee''"
| "emitter_as_str EkReduce = ''reduce''"
| "emitter_as_str EkWhile = ''while''"
| "emitter_as_str EkRetrospective = ''retrospective''"
| "emitter_as_str EkPilot = ''pilot''"
| "emitter_as_str EkOperator = ''operator''"
| "emitter_as_str EkUnknown = ''unknown''"

definition emitter_from_wire :: "string \<Rightarrow> emitter_kind" where
  "emitter_from_wire s =
     (if s = ''cli'' then EkCli else if s = ''worker'' then EkWorker else if s = ''patrol'' then EkPatrol
      else if s = ''formula_step'' then EkFormulaStep else if s = ''attendant'' then EkAttendant
      else if s = ''mission'' then EkMission else if s = ''oversee'' then EkOversee else if s = ''reduce'' then EkReduce
      else if s = ''while'' then EkWhile else if s = ''retrospective'' then EkRetrospective
      else if s = ''pilot'' then EkPilot else if s = ''operator'' then EkOperator else EkUnknown)"

record emitter_header =
  eh_kind :: emitter_kind
  eh_id :: string
  eh_meta_level :: nat

definition emitter_from_env :: "(string \<Rightarrow> string option) \<Rightarrow> emitter_header" where
  "emitter_from_env env =
     \<lparr>eh_kind = (case env ''COSMON_EMITTER_KIND'' of Some s \<Rightarrow> emitter_from_wire s | None \<Rightarrow> EkUnknown),
      eh_id = (case env ''COSMON_EMITTER_ID'' of Some s \<Rightarrow> s | None \<Rightarrow> []),
      eh_meta_level = (case Option.bind (env ''COSMON_META_LEVEL'') (parse_unsigned 8) of Some n \<Rightarrow> n | None \<Rightarrow> 0)\<rparr>"

record 'e log_envelope =
  le_seq :: seqno
  le_mol_seq :: "seqno option"
  le_timestamp :: datetime
  le_causal_parent :: "seqno option"
  le_quality_band :: "quality_band option"
  le_emitter :: emitter_header
  le_event :: 'e

text \<open>What the log uses of the events, and the codec of its lines.\<close>

record 'e event_kit =
  ek_molecule :: "'e \<Rightarrow> string option"
  ek_is_verb :: "'e \<Rightarrow> bool"
  ek_encode :: "'e log_envelope \<Rightarrow> string option"
  ek_decode :: "string \<Rightarrow> 'e log_envelope option"
  ek_from_line :: "string \<Rightarrow> 'e log_envelope option"
  ek_sha256 :: "string \<Rightarrow> string"
  ek_local_hour :: "datetime \<Rightarrow> nat"

section \<open>The writer\<close>

record seq_checkpoint =
  cp_scanned_to :: nat
  cp_next_seq :: seqno
  cp_last_verb_ts :: "datetime option"
  cp_mol_seqs :: "string \<Rightarrow> seqno option"
  cp_probe_digest :: string

record log_writer =
  w_next_seq :: seqno
  w_mol_seqs :: "string \<Rightarrow> seqno option"
  w_scanned_to :: nat
  w_primed_from :: nat
  w_last_verb_ts :: "datetime option"
  w_emitter :: emitter_header

record log_files =
  lf_log :: string
  lf_sidecar :: "seq_checkpoint option"

definition CHECKPOINT_PROBE_BYTES :: nat where
  "CHECKPOINT_PROBE_BYTES = 4096"

definition le_bytes :: "nat \<Rightarrow> string" where
  "le_bytes n = map (\<lambda>k. char_of (n div 256 ^ k mod 256)) [0, 1, 2, 3, 4, 5, 6, 7]"

definition prefix_probe_digest :: "'e event_kit \<Rightarrow> string \<Rightarrow> nat \<Rightarrow> string" where
  "prefix_probe_digest k log prefix_len =
     (let probe_len = min prefix_len CHECKPOINT_PROBE_BYTES; start = prefix_len - probe_len
      in ek_sha256 k (le_bytes prefix_len @ take probe_len (drop start log)))"

fun trim_end_cr :: "string \<Rightarrow> string" where
  "trim_end_cr s = (if s \<noteq> [] \<and> last s = CHR 0x0D then trim_end_cr (butlast s) else s)"

declare trim_end_cr.simps [simp del]

text \<open>The caches after one complete line.\<close>

definition absorb_envelope :: "'e event_kit \<Rightarrow> 'e log_envelope \<Rightarrow> log_writer \<Rightarrow> log_writer" where
  "absorb_envelope k env w =
     (let cand = seq_next (le_seq env);
          w1 = (if cand > w_next_seq w then w\<lparr>w_next_seq := cand\<rparr> else w);
          w2 = (case (ek_molecule k (le_event env), le_mol_seq env) of
                  (Some m, Some ms) \<Rightarrow>
                    (let entry = (case w_mol_seqs w1 m of Some s \<Rightarrow> s | None \<Rightarrow> 0)
                     in w1\<lparr>w_mol_seqs := (w_mol_seqs w1)(m := Some (if seq_next ms > entry then seq_next ms else entry))\<rparr>)
                | _ \<Rightarrow> w1)
      in if ek_is_verb k (le_event env) \<and> (case w_last_verb_ts w2 of None \<Rightarrow> True | Some prev \<Rightarrow> le_timestamp env > prev)
         then w2\<lparr>w_last_verb_ts := Some (le_timestamp env)\<rparr> else w2)"

definition absorb_line :: "'e event_kit \<Rightarrow> string \<Rightarrow> log_writer \<Rightarrow> log_writer" where
  "absorb_line k line w =
     (if \<not> utf8_valid line \<or> trim_end_cr line = [] then w
      else case ek_decode k (trim_end_cr line) of None \<Rightarrow> w | Some env \<Rightarrow> absorb_envelope k env w)"

text \<open>The walk over the bytes behind the cursor: complete lines only, a partial one stays.\<close>

function absorb_lines :: "'e event_kit \<Rightarrow> string \<Rightarrow> log_writer \<Rightarrow> log_writer" where
  "absorb_lines k delta w =
     (case split_once newline delta of
        None \<Rightarrow> w
      | Some (line, rest) \<Rightarrow>
          absorb_lines k rest ((absorb_line k line w)\<lparr>w_scanned_to := w_scanned_to w + length line + 1\<rparr>))"
  by pat_completeness auto
termination
  by (relation "measure (\<lambda>(_, d, _). length d)") (auto simp: split_once_Some_iff)

declare absorb_lines.simps [simp del]

definition catch_up_scan :: "'e event_kit \<Rightarrow> string \<Rightarrow> log_writer \<Rightarrow> log_writer" where
  "catch_up_scan k log w =
     (let w1 = (if length log < w_scanned_to w
                then w\<lparr>w_next_seq := 0, w_mol_seqs := (\<lambda>_. None), w_scanned_to := 0, w_last_verb_ts := None\<rparr> else w)
      in if length log = w_scanned_to w1 then w1
         else absorb_lines k (drop (w_scanned_to w1) log) w1)"

definition restore_checkpoint :: "'e event_kit \<Rightarrow> log_files \<Rightarrow> log_writer \<Rightarrow> log_writer" where
  "restore_checkpoint k fs w =
     (case lf_sidecar fs of
        None \<Rightarrow> w
      | Some c \<Rightarrow>
          if cp_scanned_to c > length (lf_log fs) then w
          else if prefix_probe_digest k (lf_log fs) (cp_scanned_to c) \<noteq> cp_probe_digest c then w
          else w\<lparr>w_scanned_to := cp_scanned_to c, w_next_seq := cp_next_seq c, w_last_verb_ts := cp_last_verb_ts c,
                 w_mol_seqs := cp_mol_seqs c\<rparr>)"

definition save_checkpoint :: "'e event_kit \<Rightarrow> bool \<Rightarrow> log_writer \<Rightarrow> log_files \<Rightarrow> log_files" where
  "save_checkpoint k fails w fs =
     (if fails then fs
      else fs\<lparr>lf_sidecar := Some \<lparr>cp_scanned_to = w_scanned_to w, cp_next_seq = w_next_seq w, cp_last_verb_ts = w_last_verb_ts w,
                cp_mol_seqs = w_mol_seqs w, cp_probe_digest = prefix_probe_digest k (lf_log fs) (w_scanned_to w)\<rparr>\<rparr>)"

definition new_writer :: "emitter_header \<Rightarrow> log_writer" where
  "new_writer e = \<lparr>w_next_seq = 0, w_mol_seqs = (\<lambda>_. None), w_scanned_to = 0, w_primed_from = 0, w_last_verb_ts = None, w_emitter = e\<rparr>"

definition open_writer :: "'e event_kit \<Rightarrow> emitter_header \<Rightarrow> log_files \<Rightarrow> log_writer" where
  "open_writer k e fs =
     (let w = restore_checkpoint k fs (new_writer e)
      in catch_up_scan k (lf_log fs) (w\<lparr>w_primed_from := w_scanned_to w\<rparr>))"

datatype log_error = InvalidData | WriteFailed | SyncFailed

text \<open>
  One emission under the lock.  \<open>write_fault = Some n\<close> is a write that stops after \<open>n\<close> bytes of the
  line; \<open>now\<close> is the clock when the band is computed, \<open>stamp\<close> when the envelope is built.
\<close>

record emit_call =
  em_now :: datetime
  em_stamp :: datetime
  write_fault :: "nat option"
  sidecar_fails :: bool
  sync_fails :: bool

definition emit_locked ::
  "'e event_kit \<Rightarrow> emit_call \<Rightarrow> 'e \<Rightarrow> seqno option \<Rightarrow> emitter_header \<Rightarrow> log_writer \<Rightarrow> log_files
     \<Rightarrow> (log_error + seqno) \<times> log_writer \<times> log_files" where
  "emit_locked k c ev parent hdr w0 fs =
     (let w = catch_up_scan k (lf_log fs) w0;
          global = w_next_seq w;
          mseq = map_option (\<lambda>m. case w_mol_seqs w m of Some s \<Rightarrow> s | None \<Rightarrow> 0) (ek_molecule k ev);
          band = (if ek_is_verb k ev then Some (compute_band_for (ek_local_hour k) (em_now c) (w_last_verb_ts w)) else None);
          env = \<lparr>le_seq = global, le_mol_seq = mseq, le_timestamp = em_stamp c, le_causal_parent = parent,
                 le_quality_band = band, le_emitter = hdr, le_event = ev\<rparr>
      in case ek_encode k env of
           None \<Rightarrow> (Err InvalidData, w, fs)
         | Some text \<Rightarrow>
             (let line = text @ [newline]
              in case write_fault c of
                   Some n \<Rightarrow> (Err WriteFailed, w, fs\<lparr>lf_log := lf_log fs @ take n line\<rparr>)
                 | None \<Rightarrow>
                     (let w1 = w\<lparr>w_next_seq := seq_next global\<rparr>;
                          w2 = (case (ek_molecule k ev, mseq) of
                                  (Some m, Some s) \<Rightarrow> w1\<lparr>w_mol_seqs := (w_mol_seqs w1)(m := Some (seq_next s))\<rparr>
                                | _ \<Rightarrow> w1);
                          w3 = (if ek_is_verb k ev then w2\<lparr>w_last_verb_ts := Some (em_stamp c)\<rparr> else w2);
                          w4 = w3\<lparr>w_scanned_to := w_scanned_to w3 + length line\<rparr>
                      in (Ok global, w4, save_checkpoint k (sidecar_fails c) w4 (fs\<lparr>lf_log := lf_log fs @ line\<rparr>)))))"

definition emit_with_emitter :: "'e event_kit \<Rightarrow> emit_call \<Rightarrow> 'e \<Rightarrow> seqno option \<Rightarrow> emitter_header \<Rightarrow> log_writer \<Rightarrow> log_files
     \<Rightarrow> (log_error + seqno) \<times> log_writer \<times> log_files" where
  "emit_with_emitter k c ev parent hdr w fs = emit_locked k c ev parent hdr w fs"

definition set_emitter :: "emitter_header \<Rightarrow> log_writer \<Rightarrow> log_writer" where
  "set_emitter hdr w = w\<lparr>w_emitter := hdr\<rparr>"

definition emit :: "'e event_kit \<Rightarrow> emit_call \<Rightarrow> 'e \<Rightarrow> seqno option \<Rightarrow> log_writer \<Rightarrow> log_files
     \<Rightarrow> (log_error + seqno) \<times> log_writer \<times> log_files" where
  "emit k c ev parent w fs = emit_with_emitter k c ev parent (w_emitter w) w fs"

text \<open>The writer of a single event; a failing \<open>fsync\<close> turns the result into an error, the line is in the log all the same.\<close>

definition synced :: "emit_call \<Rightarrow> (log_error + seqno) \<times> log_writer \<times> log_files \<Rightarrow> (log_error + seqno) \<times> log_files" where
  "synced c x = (case x of (Inr s, _, fs) \<Rightarrow> (if sync_fails c then Err SyncFailed else Ok s, fs) | (Inl e, _, fs) \<Rightarrow> (Err e, fs))"

definition emit_one :: "'e event_kit \<Rightarrow> emit_call \<Rightarrow> (string \<Rightarrow> string option) \<Rightarrow> 'e \<Rightarrow> seqno option \<Rightarrow> log_files
     \<Rightarrow> (log_error + seqno) \<times> log_files" where
  "emit_one k c env ev parent fs = synced c (emit k c ev parent (open_writer k (emitter_from_env env) fs) fs)"

definition emit_one_with_emitter :: "'e event_kit \<Rightarrow> emit_call \<Rightarrow> (string \<Rightarrow> string option) \<Rightarrow> 'e \<Rightarrow> seqno option \<Rightarrow> emitter_header
     \<Rightarrow> log_files \<Rightarrow> (log_error + seqno) \<times> log_files" where
  "emit_one_with_emitter k c env ev parent hdr fs =
     synced c (emit_with_emitter k c ev parent hdr (open_writer k (emitter_from_env env) fs) fs)"

section \<open>Readers\<close>

definition read_line :: "'e event_kit \<Rightarrow> string \<Rightarrow> 'e log_envelope option" where
  "read_line k l = (if is_blank l then None else ek_from_line k l)"

definition read_all :: "'e event_kit \<Rightarrow> string \<Rightarrow> log_error + 'e log_envelope list" where
  "read_all k log =
     (if list_all utf8_valid (str_lines log) then Ok (List.map_filter (read_line k) (str_lines log)) else Err InvalidData)"

datatype 'e tail_item = Restarted | TailEnvelope "'e log_envelope"

text \<open>The identity of a file is its device and inode.\<close>

record log_tail =
  tl_offset :: nat
  tl_identity :: "(nat \<times> nat) option"

definition TAIL_READ_CHUNK :: nat where
  "TAIL_READ_CHUNK = 4 * 1024 * 1024"

text \<open>\<open>buf[..end].split\<close> at newlines, blank and unreadable pieces dropped.\<close>

definition tail_items :: "'e event_kit \<Rightarrow> string \<Rightarrow> 'e log_envelope list" where
  "tail_items k text = List.map_filter (\<lambda>l. if utf8_valid l then read_line k l else None) (split_on newline text)"

text \<open>
  The read loop: what is left of the file, the buffer, the bytes still to read, the sizes the
  reads return (a read of nothing ends the loop), the offset and what was handed out.
\<close>

fun tail_loop ::
  "'e event_kit \<Rightarrow> nat list \<Rightarrow> string \<Rightarrow> string \<Rightarrow> nat \<Rightarrow> nat \<Rightarrow> 'e tail_item list \<Rightarrow> nat \<times> 'e tail_item list" where
  "tail_loop k [] rest buf remaining offset out = (offset, out)"
| "tail_loop k (g # gs) rest buf remaining offset out =
     (if remaining = 0 then (offset, out)
      else let want = min remaining TAIL_READ_CHUNK;
               got = min g want;
               buf1 = buf @ take got rest
           in if got = 0 then (offset, out)
              else case rsplit_once newline buf1 of
                     None \<Rightarrow> tail_loop k gs (drop got rest) buf1 (remaining - got) offset out
                   | Some (lines, partial) \<Rightarrow>
                       tail_loop k gs (drop got rest) partial (remaining - got) (offset + length lines + 1)
                         (out @ map TailEnvelope (tail_items k lines)))"

definition read_new :: "'e event_kit \<Rightarrow> nat list \<Rightarrow> nat \<times> nat \<Rightarrow> string \<Rightarrow> log_tail \<Rightarrow> log_tail \<times> 'e tail_item list" where
  "read_new k gots ident log t =
     (let restart = length log < tl_offset t \<or> (case tl_identity t of Some seen \<Rightarrow> seen \<noteq> ident | None \<Rightarrow> False);
          offset = (if restart then 0 else tl_offset t);
          out = (if restart then [Restarted] else [])
      in if length log = offset then (\<lparr>tl_offset = offset, tl_identity = Some ident\<rparr>, out)
         else let (offset', out') = tail_loop k gots (drop offset log) [] (length log - offset) offset out
              in (\<lparr>tl_offset = offset', tl_identity = Some ident\<rparr>, out'))"

section \<open>Resumable cursors\<close>

record ledger_cursor =
  lc_epoch :: string
  lc_offset :: nat

definition cursor_parse :: "string \<Rightarrow> ledger_cursor option" where
  "cursor_parse raw =
     (case split_once (CHR ''.'') (trim raw) of
        None \<Rightarrow> None
      | Some (epoch, offset) \<Rightarrow>
          if epoch = [] \<or> \<not> list_all is_ascii_hexdigit epoch then None
          else map_option (\<lambda>n. \<lparr>lc_epoch = epoch, lc_offset = n\<rparr>) (parse_unsigned 64 offset))"

definition cursor_show :: "ledger_cursor \<Rightarrow> string" where
  "cursor_show c = lc_epoch c @ ''.'' @ show_nat (lc_offset c)"

datatype reset_reason = EpochChanged | LedgerTruncated | CursorInvalid

fun reset_as_str :: "reset_reason \<Rightarrow> string" where
  "reset_as_str EpochChanged = ''epoch_changed''"
| "reset_as_str LedgerTruncated = ''truncated''"
| "reset_as_str CursorInvalid = ''cursor_invalid''"

datatype ledger_read = LReset reset_reason ledger_cursor | LLine string ledger_cursor

definition LEDGER_EPOCH_ABSENT :: string where
  "LEDGER_EPOCH_ABSENT = ''0''"

definition LEDGER_READ_CHUNK :: nat where
  "LEDGER_READ_CHUNK = 1024 * 1024"

text \<open>The file a reader finds: none, or its epoch (the digest of its identity) and its text.\<close>

type_synonym ledger_file = "(string \<times> string) option"

definition is_line_start :: "string \<Rightarrow> nat \<Rightarrow> bool" where
  "is_line_start log offset \<longleftrightarrow> offset = 0 \<or> log ! (offset - 1) = newline"

definition ledger_open :: "ledger_file \<Rightarrow> string option \<Rightarrow> ledger_cursor \<times> reset_reason option" where
  "ledger_open f after =
     (let (epoch, log) = (case f of Some (e, t) \<Rightarrow> (e, t) | None \<Rightarrow> (LEDGER_EPOCH_ABSENT, []));
          start = \<lparr>lc_epoch = epoch, lc_offset = 0\<rparr>
      in case after of
           None \<Rightarrow> (start, None)
         | Some raw \<Rightarrow>
             (case cursor_parse raw of
                None \<Rightarrow> (start, Some CursorInvalid)
              | Some c \<Rightarrow>
                  if lc_epoch c \<noteq> epoch then (start, Some EpochChanged)
                  else if lc_offset c > length log \<or> \<not> is_line_start log (lc_offset c) then (start, Some CursorInvalid)
                  else (\<lparr>lc_epoch = epoch, lc_offset = lc_offset c\<rparr>, None)))"

text \<open>The search for the last newline, backwards in pieces of 8192 bytes.\<close>

function last_line_boundary :: "string \<Rightarrow> nat \<Rightarrow> nat" where
  "last_line_boundary log end' =
     (if end' = 0 then 0
      else let start = end' - 8192
           in case rsplit_once newline (take (end' - start) (drop start log)) of
                Some (a, _) \<Rightarrow> start + length a + 1
              | None \<Rightarrow> last_line_boundary log start)"
  by pat_completeness auto
termination
  by (relation "measure snd") auto

declare last_line_boundary.simps [simp del]

definition ledger_head :: "ledger_file \<Rightarrow> ledger_cursor" where
  "ledger_head f =
     (case f of
        Some (epoch, log) \<Rightarrow> \<lparr>lc_epoch = epoch, lc_offset = last_line_boundary log (length log)\<rparr>
      | None \<Rightarrow> \<lparr>lc_epoch = LEDGER_EPOCH_ABSENT, lc_offset = 0\<rparr>)"

text \<open>Filling the buffer until it holds enough lines, with the sizes the reads return.\<close>

fun fill_buffer :: "nat \<Rightarrow> nat list \<Rightarrow> string \<Rightarrow> string \<Rightarrow> nat \<Rightarrow> nat \<Rightarrow> string" where
  "fill_buffer max_lines [] rest buf remaining newlines = buf"
| "fill_buffer max_lines (g # gs) rest buf remaining newlines =
     (if remaining = 0 \<or> newlines \<ge> max_lines then buf
      else let want = min remaining LEDGER_READ_CHUNK; got = min g want
           in if got = 0 then buf
              else fill_buffer max_lines gs (drop got rest) (buf @ take got rest) (remaining - got)
                     (newlines + length (filter (\<lambda>c. c = newline) (take got rest))))"

fun take_lines :: "nat \<Rightarrow> string \<Rightarrow> ledger_cursor \<Rightarrow> ledger_cursor \<times> ledger_read list" where
  "take_lines 0 buf c = (c, [])"
| "take_lines (Suc n) buf c =
     (case split_once newline buf of
        None \<Rightarrow> (c, [])
      | Some (line, rest) \<Rightarrow>
          (let c' = c\<lparr>lc_offset := lc_offset c + length line + 1\<rparr>;
               (c'', out) = take_lines n rest c'
           in (c'', if \<not> utf8_valid line \<or> is_blank line then out else LLine line c' # out)))"

definition read_batch :: "nat list \<Rightarrow> ledger_file \<Rightarrow> nat \<Rightarrow> ledger_cursor \<Rightarrow> ledger_cursor \<times> ledger_read list" where
  "read_batch gots f max_lines c =
     (case f of
        None \<Rightarrow>
          if lc_epoch c \<noteq> LEDGER_EPOCH_ABSENT
          then let c' = \<lparr>lc_epoch = LEDGER_EPOCH_ABSENT, lc_offset = 0\<rparr> in (c', [LReset EpochChanged c'])
          else (c, [])
      | Some (epoch, log) \<Rightarrow>
          (let (c1, out) =
             (if epoch \<noteq> lc_epoch c
              then let c' = \<lparr>lc_epoch = epoch, lc_offset = 0\<rparr>
                   in (c', if lc_epoch c = LEDGER_EPOCH_ABSENT \<and> lc_offset c = 0 then [] else [LReset EpochChanged c'])
              else if length log < lc_offset c
              then let c' = c\<lparr>lc_offset := 0\<rparr> in (c', [LReset LedgerTruncated c'])
              else (c, []))
           in if length log = lc_offset c1 \<or> max_lines = 0 then (c1, out)
              else let buf = fill_buffer max_lines gots (drop (lc_offset c1) log) [] (length log - lc_offset c1) 0;
                       (c2, ls) = take_lines max_lines buf c1
                   in (c2, out @ ls)))"

section \<open>Complete lines\<close>

text \<open>The lines of a text that end in a newline, and the bytes they take.\<close>

definition complete_lines :: "string \<Rightarrow> string list" where
  "complete_lines s = butlast (split_on newline s)"

definition bytes_of :: "string list \<Rightarrow> nat" where
  "bytes_of ls = sum_list (map (\<lambda>l. length l + 1) ls)"

definition ends_line :: "string \<Rightarrow> bool" where
  "ends_line s \<longleftrightarrow> s = [] \<or> last s = newline"

lemma complete_lines_free [simp]: "newline \<notin> set s \<Longrightarrow> complete_lines s = []"
  by (simp add: complete_lines_def split_on_free)

lemma complete_lines_Nil [simp]: "complete_lines [] = []"
  by simp

lemma complete_lines_first: "newline \<notin> set l \<Longrightarrow> complete_lines (l @ newline # r) = l # complete_lines r"
  by (simp add: complete_lines_def split_on_append split_on_free)

lemma complete_lines_append: "ends_line p \<Longrightarrow> complete_lines (p @ r) = complete_lines p @ complete_lines r"
proof (cases p rule: rev_cases)
  case (snoc a c)
  assume "ends_line p"
  then have "p = a @ [newline]" using snoc by (simp add: ends_line_def)
  then show ?thesis using split_on_append[of newline a r] split_on_append[of newline a "[]"]
    by (simp add: complete_lines_def butlast_append)
qed simp

lemma bytes_of_simps [simp]:
  "bytes_of [] = 0" "bytes_of (l # ls) = Suc (length l + bytes_of ls)" "bytes_of (a @ b) = bytes_of a + bytes_of b"
  by (simp_all add: bytes_of_def)

lemma first_line_cases:
  obtains "newline \<notin> set s" | l r where "s = l @ newline # r" "newline \<notin> set l"
  by (meson split_list_first)

text \<open>A text is its complete lines and a rest without newline.\<close>

lemma complete_lines_split:
  "\<exists>p r. s = p @ r \<and> ends_line p \<and> newline \<notin> set r \<and> length p = bytes_of (complete_lines s) \<and> complete_lines s = complete_lines p"
proof (induction s rule: length_induct)
  case (1 s)
  show ?case
  proof (cases s rule: first_line_cases)
    case 1
    then show ?thesis by (intro exI[of _ "[]"] exI[of _ s]) (simp add: ends_line_def)
  next
    case (2 l r)
    then have "length r < length s" by simp
    with "1.IH" obtain p q where "r = p @ q" "ends_line p" "newline \<notin> set q" "length p = bytes_of (complete_lines r)"
      "complete_lines r = complete_lines p" by blast
    then show ?thesis using 2 complete_lines_first[OF 2(2), of r] complete_lines_first[OF 2(2), of p]
      by (intro exI[of _ "l @ newline # p"] exI[of _ q]) (auto simp: ends_line_def)
  qed
qed

lemma bytes_of_complete: "ends_line s \<Longrightarrow> bytes_of (complete_lines s) = length s"
proof (induction s rule: length_induct)
  case (1 s)
  show ?case
  proof (cases s rule: first_line_cases)
    case 1
    then show ?thesis using "1.prems" by (cases s rule: rev_cases) (auto simp: ends_line_def)
  next
    case (2 l r)
    then have "ends_line r" using "1.prems" by (auto simp: ends_line_def split: if_splits)
    then show ?thesis using 2 "1.IH" complete_lines_first[OF 2(2), of r] by simp
  qed
qed

lemma split_once_newline: "split_once newline (l @ newline # r) = Some (l, r) \<longleftrightarrow> newline \<notin> set l"
  by (simp add: split_once_Some_iff)

section \<open>The incremental walk\<close>

lemma absorb_scanned [simp]: "w_scanned_to (absorb_line k l w) = w_scanned_to w"
  by (auto simp: absorb_line_def absorb_envelope_def Let_def split: option.splits)

lemma absorb_line_upd: "absorb_line k l (w\<lparr>w_scanned_to := n\<rparr>) = (absorb_line k l w)\<lparr>w_scanned_to := n\<rparr>"
  by (auto simp: absorb_line_def absorb_envelope_def Let_def split: option.splits)

lemma fold_absorb_upd: "fold (absorb_line k) ls (w\<lparr>w_scanned_to := n\<rparr>) = (fold (absorb_line k) ls w)\<lparr>w_scanned_to := n\<rparr>"
  by (induction ls arbitrary: w) (simp_all add: absorb_line_upd)

lemma fold_absorb_scanned [simp]: "w_scanned_to (fold (absorb_line k) ls w) = w_scanned_to w"
  by (induction ls arbitrary: w) simp_all

lemma absorb_lines_fold:
  "absorb_lines k delta w =
     (fold (absorb_line k) (complete_lines delta) w)\<lparr>w_scanned_to := w_scanned_to w + bytes_of (complete_lines delta)\<rparr>"
proof (induction delta arbitrary: w rule: length_induct)
  case (1 delta)
  show ?case
  proof (cases delta rule: first_line_cases)
    case 1
    then show ?thesis using split_once_None_iff[of newline delta] by (subst absorb_lines.simps) simp
  next
    case (2 l r)
    then have "split_once newline delta = Some (l, r)" by (simp add: split_once_newline)
    then show ?thesis using "1.IH" 2 complete_lines_first[OF 2(2), of r]
      by (subst absorb_lines.simps) (simp add: fold_absorb_upd)
  qed
qed

text \<open>The caches a walk over the whole text gives.\<close>

definition full_walk :: "'e event_kit \<Rightarrow> string \<Rightarrow> log_writer" where
  "full_walk k log = fold (absorb_line k) (complete_lines log) (new_writer \<lparr>eh_kind = EkUnknown, eh_id = [], eh_meta_level = 0\<rparr>)"

definition same_seqs :: "log_writer \<Rightarrow> log_writer \<Rightarrow> bool" where
  "same_seqs a b \<longleftrightarrow> w_next_seq a = w_next_seq b \<and> w_mol_seqs a = w_mol_seqs b"

lemma same_seqs_absorb: "same_seqs a b \<Longrightarrow> same_seqs (absorb_line k l a) (absorb_line k l b)"
  by (auto simp: same_seqs_def absorb_line_def absorb_envelope_def Let_def split: option.splits)

lemma same_seqs_fold: "same_seqs a b \<Longrightarrow> same_seqs (fold (absorb_line k) ls a) (fold (absorb_line k) ls b)"
  by (induction ls arbitrary: a b) (simp_all add: same_seqs_absorb)

text \<open>A writer whose cursor stands behind complete lines of the log, with the sequence numbers of a walk over them.\<close>

definition in_step :: "'e event_kit \<Rightarrow> string \<Rightarrow> log_writer \<Rightarrow> bool" where
  "in_step k log w \<longleftrightarrow>
     (\<exists>p r. log = p @ r \<and> ends_line p \<and> w_scanned_to w = length p \<and> same_seqs w (full_walk k p))"

lemma full_walk_append: "ends_line p \<Longrightarrow> full_walk k (p @ r) = fold (absorb_line k) (complete_lines r) (full_walk k p)"
  by (simp add: full_walk_def complete_lines_append)

lemma catch_up_full:
  assumes "in_step k log w"
  shows "same_seqs (catch_up_scan k log w) (full_walk k log)"
    and "w_scanned_to (catch_up_scan k log w) = bytes_of (complete_lines log)"
proof -
  obtain p r where p: "log = p @ r" "ends_line p" "w_scanned_to w = length p" "same_seqs w (full_walk k p)"
    using assms by (auto simp: in_step_def)
  have l: "bytes_of (complete_lines log) = length p + bytes_of (complete_lines r)"
    using p(1) complete_lines_append[OF p(2), of r] bytes_of_complete[OF p(2)] by simp
  have c: "catch_up_scan k (p @ r) w = absorb_lines k r w"
    using p(1,3) by (cases "r = []") (auto simp: catch_up_scan_def Let_def absorb_lines_fold)
  show "same_seqs (catch_up_scan k log w) (full_walk k log)"
    unfolding p(1) c full_walk_append[OF p(2)] using same_seqs_fold[OF p(4), of k "complete_lines r"]
    by (simp add: absorb_lines_fold same_seqs_def)
  show "w_scanned_to (catch_up_scan k log w) = bytes_of (complete_lines log)"
    unfolding l unfolding p(1) c by (simp add: absorb_lines_fold p(3))
qed

lemma catch_up_in_step: "in_step k log w \<Longrightarrow> in_step k log (catch_up_scan k log w)"
proof -
  assume a: "in_step k log w"
  obtain p r where p: "log = p @ r" "ends_line p" "length p = bytes_of (complete_lines log)" "complete_lines log = complete_lines p"
    using complete_lines_split[of log] by blast
  then have "full_walk k p = full_walk k log" by (simp add: full_walk_def)
  then show ?thesis using p catch_up_full[OF a] unfolding in_step_def by metis
qed

lemma in_step_append: "in_step k log w \<Longrightarrow> in_step k (log @ extra) w"
  unfolding in_step_def by (metis append.assoc)

lemma new_in_step: "in_step k log (new_writer e)"
  unfolding in_step_def
  by (intro exI[of _ "[]"] exI[of _ log]) (simp add: ends_line_def new_writer_def full_walk_def same_seqs_def)

lemma probe_prefix: "n \<le> length log \<Longrightarrow> prefix_probe_digest k (log @ extra) n = prefix_probe_digest k log n"
  by (simp add: prefix_probe_digest_def Let_def min_def)

text \<open>A checkpoint that was written for a prefix of the log.\<close>

definition sound_checkpoint :: "'e event_kit \<Rightarrow> string \<Rightarrow> seq_checkpoint \<Rightarrow> bool" where
  "sound_checkpoint k log c \<longleftrightarrow>
     (\<exists>p r. log = p @ r \<and> ends_line p \<and> cp_scanned_to c = length p \<and> cp_next_seq c = w_next_seq (full_walk k p) \<and>
        cp_mol_seqs c = w_mol_seqs (full_walk k p))"

lemma sound_append: "sound_checkpoint k log c \<Longrightarrow> sound_checkpoint k (log @ extra) c"
  unfolding sound_checkpoint_def by (metis append.assoc)

lemma restore_in_step:
  assumes "in_step k (lf_log fs) w" and "\<And>c. lf_sidecar fs = Some c \<Longrightarrow> sound_checkpoint k (lf_log fs) c"
  shows "in_step k (lf_log fs) (restore_checkpoint k fs w)"
proof (cases "lf_sidecar fs")
  case (Some c)
  with assms(2) obtain p r where "lf_log fs = p @ r" "ends_line p" "cp_scanned_to c = length p"
    "cp_next_seq c = w_next_seq (full_walk k p)" "cp_mol_seqs c = w_mol_seqs (full_walk k p)"
    by (auto simp: sound_checkpoint_def)
  then have "in_step k (lf_log fs) (w\<lparr>w_scanned_to := cp_scanned_to c, w_next_seq := cp_next_seq c, w_last_verb_ts := cp_last_verb_ts c,
                 w_mol_seqs := cp_mol_seqs c\<rparr>)"
    unfolding in_step_def by (intro exI[of _ p] exI[of _ r]) (simp add: same_seqs_def)
  then show ?thesis using Some assms(1) by (simp add: restore_checkpoint_def)
qed (simp add: restore_checkpoint_def assms(1))

lemma in_step_primed: "in_step k log (w\<lparr>w_primed_from := n\<rparr>) = in_step k log w"
  by (simp add: in_step_def same_seqs_def)

lemma open_full:
  assumes "\<And>c. lf_sidecar fs = Some c \<Longrightarrow> sound_checkpoint k (lf_log fs) c"
  shows "in_step k (lf_log fs) (open_writer k e fs)" and "same_seqs (open_writer k e fs) (full_walk k (lf_log fs))"
    and "w_scanned_to (open_writer k e fs) = bytes_of (complete_lines (lf_log fs))"
proof -
  let ?w = "restore_checkpoint k fs (new_writer e)"
  have "in_step k (lf_log fs) (?w\<lparr>w_primed_from := w_scanned_to ?w\<rparr>)"
    using restore_in_step[OF new_in_step assms] by (simp add: in_step_primed)
  from catch_up_in_step[OF this] catch_up_full[OF this]
  show "in_step k (lf_log fs) (open_writer k e fs)" "same_seqs (open_writer k e fs) (full_walk k (lf_log fs))"
    "w_scanned_to (open_writer k e fs) = bytes_of (complete_lines (lf_log fs))"
    by (simp_all add: open_writer_def Let_def)
qed

section \<open>Numbered logs\<close>

definition decode_line :: "'e event_kit \<Rightarrow> string \<Rightarrow> 'e log_envelope option" where
  "decode_line k l = (if \<not> utf8_valid l \<or> trim_end_cr l = [] then None else ek_decode k (trim_end_cr l))"

definition envelopes :: "'e event_kit \<Rightarrow> string \<Rightarrow> 'e log_envelope list" where
  "envelopes k log = List.map_filter (decode_line k) (complete_lines log)"

definition mol_count :: "'e event_kit \<Rightarrow> string \<Rightarrow> 'e log_envelope list \<Rightarrow> nat" where
  "mol_count k m es = length (filter (\<lambda>e. ek_molecule k (le_event e) = Some m) es)"

definition numbered :: "'e event_kit \<Rightarrow> 'e log_envelope list \<Rightarrow> bool" where
  "numbered k es \<longleftrightarrow>
     (\<forall>i<length es. le_seq (es ! i) = of_nat i \<and>
        le_mol_seq (es ! i) = map_option (\<lambda>m. of_nat (mol_count k m (take i es))) (ek_molecule k (le_event (es ! i))))"

lemma numbered_snoc:
  "numbered k (es @ [e]) \<longleftrightarrow>
     numbered k es \<and> le_seq e = of_nat (length es) \<and>
     le_mol_seq e = map_option (\<lambda>m. of_nat (mol_count k m es)) (ek_molecule k (le_event e))"
  by (auto simp: numbered_def nth_append less_Suc_eq)

lemma mol_count_le: "mol_count k m es \<le> length es"
  by (simp add: mol_count_def)

lemma mol_count_snoc: "mol_count k m (es @ [e]) = mol_count k m es + (if ek_molecule k (le_event e) = Some m then 1 else 0)"
  by (simp add: mol_count_def)

lemma fold_absorb_envelopes:
  "fold (absorb_line k) ls w = fold (absorb_envelope k) (List.map_filter (decode_line k) ls) w"
  by (induction ls arbitrary: w) (auto simp: absorb_line_def decode_line_def List.map_filter_simps split: option.splits)

lemma of_nat_less_64: "a < b \<Longrightarrow> b < 2 ^ 64 \<Longrightarrow> (of_nat a :: 64 word) < of_nat b"
  by (simp add: word_less_nat_alt unat_of_nat)

lemma of_nat_next: "n + 1 < 2 ^ 64 \<Longrightarrow> (of_nat n :: 64 word) < seq_next (of_nat n)"
  using of_nat_less_64[of n "n + 1"] by (simp add: seq_next_def add.commute)

lemma walk_numbered:
  assumes "numbered k es" and "length es < 2 ^ 64"
  shows "w_next_seq (fold (absorb_envelope k) es (new_writer e)) = of_nat (length es) \<and>
    (\<forall>m. w_mol_seqs (fold (absorb_envelope k) es (new_writer e)) m =
      (if mol_count k m es = 0 then None else Some (of_nat (mol_count k m es))))"
  using assms
proof (induction es rule: rev_induct)
  case (snoc x es)
  let ?w = "fold (absorb_envelope k) es (new_writer e)"
  have IH: "w_next_seq ?w = of_nat (length es)"
    "\<And>m. w_mol_seqs ?w m = (if mol_count k m es = 0 then None else Some (of_nat (mol_count k m es)))"
    using snoc by (auto simp: numbered_snoc)
  have x: "le_seq x = of_nat (length es)"
    "le_mol_seq x = map_option (\<lambda>m. of_nat (mol_count k m es)) (ek_molecule k (le_event x))"
    using snoc.prems(1) by (auto simp: numbered_snoc)
  have n: "(of_nat (length es) :: 64 word) < seq_next (of_nat (length es))"
    using of_nat_next[of "length es"] snoc.prems(2) by simp
  have c: "(of_nat (mol_count k m es) :: 64 word) < seq_next (of_nat (mol_count k m es))" for m
    using of_nat_next[of "mol_count k m es"] snoc.prems(2) mol_count_le[of k m es] by simp
  have "w_next_seq (absorb_envelope k x ?w) = of_nat (length (es @ [x]))"
    using n by (auto simp: absorb_envelope_def Let_def x IH(1) seq_next_def add.commute split: option.splits)
  moreover have "w_mol_seqs (absorb_envelope k x ?w) m =
      (if mol_count k m (es @ [x]) = 0 then None else Some (of_nat (mol_count k m (es @ [x]))))" for m
  proof (cases "ek_molecule k (le_event x)")
    case None
    then show ?thesis using x(2) by (simp add: absorb_envelope_def Let_def IH(2) mol_count_snoc)
  next
    case (Some q)
    have z: "mol_count k q es = 0 \<Longrightarrow> (0 :: 64 word) < seq_next 0" by (simp add: seq_next_def)
    show ?thesis using Some x(2) c[of q] z
      by (auto simp: absorb_envelope_def Let_def IH(2) mol_count_snoc seq_next_def add.commute)
  qed
  ultimately show ?case by simp
qed (simp add: new_writer_def mol_count_def)

section \<open>Any number of writers\<close>

text \<open>What the readers and writers rely on of the codec: one line of text per envelope that reads back as it.\<close>

definition codec_ok :: "'e event_kit \<Rightarrow> bool" where
  "codec_ok k \<longleftrightarrow>
     (\<forall>env t. ek_encode k env = Some t \<longrightarrow>
        ek_decode k t = Some env \<and> ek_from_line k t = Some env \<and> newline \<notin> set t \<and> utf8_valid t \<and> \<not> is_blank t \<and> last t \<noteq> CHR 0x0D)"

lemma codec_okD:
  assumes "codec_ok k" and "ek_encode k env = Some t"
  shows "decode_line k t = Some env" and "newline \<notin> set t" and "t \<noteq> []"
proof -
  have c: "ek_decode k t = Some env" "newline \<notin> set t" "utf8_valid t" "\<not> is_blank t" "last t \<noteq> CHR 0x0D"
    using assms unfolding codec_ok_def by blast+
  have "is_blank []" unfolding is_blank_def by (subst trim_start.simps) simp
  then have n: "t \<noteq> []" using c(4) by blast
  have "trim_end_cr t = t" using c(5) by (subst trim_end_cr.simps) simp
  then show "decode_line k t = Some env" "newline \<notin> set t" "t \<noteq> []" using c n by (simp_all add: decode_line_def)
qed

lemma envelopes_append_line:
  assumes "codec_ok k" and "ek_encode k env = Some t" and "ends_line log"
  shows "envelopes k (log @ t @ [newline]) = envelopes k log @ [env]" and "ends_line (log @ t @ [newline])"
  using codec_okD[OF assms(1,2)] complete_lines_append[OF assms(3), of "t @ [newline]"] complete_lines_first[of t "[]"]
  by (simp_all add: envelopes_def List.map_filter_def ends_line_def)

record log_system =
  sys_files :: log_files
  sys_writers :: "nat \<Rightarrow> log_writer option"

text \<open>
  Processes open and drop writers, emit through them, and the checkpoint file may get lost.  A
  write may fail before it has written anything; the step does not cover a write that stops in
  the middle of the line.
\<close>

inductive log_step :: "'e event_kit \<Rightarrow> log_system \<Rightarrow> log_system \<Rightarrow> bool" for k where
  opened: "log_step k s (s\<lparr>sys_writers := (sys_writers s)(i := Some (open_writer k hdr (sys_files s)))\<rparr>)"
| dropped: "log_step k s (s\<lparr>sys_writers := (sys_writers s)(i := None)\<rparr>)"
| emitted: "sys_writers s i = Some w \<Longrightarrow> write_fault c \<in> {None, Some 0} \<Longrightarrow>
    emit_locked k c ev parent hdr w (sys_files s) = (r, w', fs') \<Longrightarrow>
    log_step k s \<lparr>sys_files = fs', sys_writers = (sys_writers s)(i := Some w')\<rparr>"
| forgotten: "log_step k s (s\<lparr>sys_files := (sys_files s)\<lparr>lf_sidecar := None\<rparr>\<rparr>)"

definition log_start :: "log_system \<Rightarrow> bool" where
  "log_start s \<longleftrightarrow> lf_log (sys_files s) = [] \<and> lf_sidecar (sys_files s) = None \<and> sys_writers s = (\<lambda>_. None)"

definition files_ok :: "'e event_kit \<Rightarrow> log_files \<Rightarrow> bool" where
  "files_ok k fs \<longleftrightarrow>
     numbered k (envelopes k (lf_log fs)) \<and> (\<forall>c. lf_sidecar fs = Some c \<longrightarrow> sound_checkpoint k (lf_log fs) c)"

definition log_inv :: "'e event_kit \<Rightarrow> log_system \<Rightarrow> bool" where
  "log_inv k s \<longleftrightarrow>
     ends_line (lf_log (sys_files s)) \<and>
     (length (envelopes k (lf_log (sys_files s))) < 2 ^ 64 \<longrightarrow>
        files_ok k (sys_files s) \<and> (\<forall>i w. sys_writers s i = Some w \<longrightarrow> in_step k (lf_log (sys_files s)) w))"

lemma full_walk_numbered:
  assumes "numbered k (envelopes k log)" and "length (envelopes k log) < 2 ^ 64"
  shows "w_next_seq (full_walk k log) = of_nat (length (envelopes k log))"
    and "w_mol_seqs (full_walk k log) m =
      (if mol_count k m (envelopes k log) = 0 then None else Some (of_nat (mol_count k m (envelopes k log))))"
  using walk_numbered[OF assms, of "\<lparr>eh_kind = EkUnknown, eh_id = [], eh_meta_level = 0\<rparr>"]
  by (simp_all add: full_walk_def fold_absorb_envelopes envelopes_def)

text \<open>What a successful emission does to a numbered log.\<close>

lemma emit_numbered:
  assumes "codec_ok k" and "ends_line (lf_log fs)" and "files_ok k fs" and "in_step k (lf_log fs) w"
    and "length (envelopes k (lf_log fs)) + 1 < 2 ^ 64"
    and "emit_locked k c ev parent hdr w fs = (Ok g, w', fs')"
  shows "\<exists>t env. lf_log fs' = lf_log fs @ t @ [newline] \<and> ek_encode k env = Some t \<and> le_event env = ev \<and> le_seq env = g \<and>
    numbered k (envelopes k (lf_log fs) @ [env]) \<and> in_step k (lf_log fs') w' \<and> files_ok k fs'"
proof -
  let ?log = "lf_log fs" and ?es = "envelopes k (lf_log fs)" and ?v = "catch_up_scan k (lf_log fs) w"
  have num: "numbered k ?es" and len: "length ?es < 2 ^ 64" using assms(3,5) by (auto simp: files_ok_def)
  have nx: "w_next_seq ?v = of_nat (length ?es)"
    and ms: "\<And>m. w_mol_seqs ?v m = (if mol_count k m ?es = 0 then None else Some (of_nat (mol_count k m ?es)))"
    using catch_up_full(1)[OF assms(4)] full_walk_numbered[OF num len] by (simp_all add: same_seqs_def)
  have sc: "w_scanned_to ?v = length ?log" using catch_up_full(2)[OF assms(4)] bytes_of_complete[OF assms(2)] by simp
  define env where "env = \<lparr>le_seq = w_next_seq ?v, le_mol_seq = map_option (\<lambda>m. case w_mol_seqs ?v m of Some s \<Rightarrow> s | None \<Rightarrow> 0) (ek_molecule k ev),
    le_timestamp = em_stamp c, le_causal_parent = parent,
    le_quality_band = (if ek_is_verb k ev then Some (compute_band_for (ek_local_hour k) (em_now c) (w_last_verb_ts ?v)) else None),
    le_emitter = hdr, le_event = ev\<rparr>"
  obtain t where t: "ek_encode k env = Some t" "write_fault c = None" and g: "g = w_next_seq ?v"
    and log': "lf_log fs' = ?log @ t @ [newline]"
    using assms(6) unfolding emit_locked_def Let_def env_def[symmetric]
    by (auto simp: save_checkpoint_def split: option.splits if_splits)
  note A = envelopes_append_line[OF assms(1) t(1) assms(2)]
  have mseq: "le_mol_seq env = map_option (\<lambda>m. of_nat (mol_count k m ?es)) (ek_molecule k ev)"
    by (cases "ek_molecule k ev") (auto simp: env_def ms)
  have num': "numbered k (?es @ [env])" using num nx mseq by (simp add: numbered_snoc env_def)
  have len': "length (envelopes k (?log @ t @ [newline])) < 2 ^ 64" using assms(5) A(1) by simp
  note W = full_walk_numbered[OF num'[folded A(1)] len']
  have w': "w_next_seq w' = seq_next (of_nat (length ?es))" "w_scanned_to w' = length ?log + length t + 1"
    "w_mol_seqs w' = (case ek_molecule k ev of None \<Rightarrow> w_mol_seqs ?v | Some m \<Rightarrow> (w_mol_seqs ?v)(m := Some (seq_next (of_nat (mol_count k m ?es)))))"
    using assms(6) t(1) unfolding emit_locked_def Let_def env_def[symmetric]
    by (auto simp: t(2) sc nx ms split: option.splits if_splits)
  have eq: "w_mol_seqs w' m = w_mol_seqs (full_walk k (?log @ t @ [newline])) m" for m
    unfolding W(2) A(1) w'(3) by (auto simp: ms mol_count_snoc env_def seq_next_def add.commute split: option.splits)
  have same: "same_seqs w' (full_walk k (lf_log fs'))"
    using W(1) A(1) eq w'(1) log' by (auto simp: same_seqs_def seq_next_def add.commute)
  have step: "in_step k (lf_log fs') w'"
    unfolding in_step_def using same A(2) log' w'(2) by (intro exI[of _ "lf_log fs'"] exI[of _ "[]"]) simp
  have side: "lf_sidecar fs' = (if sidecar_fails c then lf_sidecar fs else
      Some \<lparr>cp_scanned_to = w_scanned_to w', cp_next_seq = w_next_seq w', cp_last_verb_ts = w_last_verb_ts w',
                cp_mol_seqs = w_mol_seqs w', cp_probe_digest = prefix_probe_digest k (lf_log fs') (w_scanned_to w')\<rparr>)"
    using assms(6) t(1) log' unfolding emit_locked_def Let_def env_def[symmetric]
    by (auto simp: save_checkpoint_def t(2) split: option.splits if_splits)
  have "sound_checkpoint k (lf_log fs') x" if "lf_sidecar fs' = Some x" for x
  proof (cases "sidecar_fails c")
    case True
    then have "sound_checkpoint k ?log x" using that side assms(3) by (auto simp: files_ok_def)
    then show ?thesis unfolding log' by (rule sound_append)
  next
    case False
    then show ?thesis using that side same A(2) log' w'(2)
      unfolding sound_checkpoint_def same_seqs_def by (intro exI[of _ "lf_log fs'"] exI[of _ "[]"]) auto
  qed
  then have "files_ok k fs'" using num' A(1) log' by (simp add: files_ok_def)
  then show ?thesis using log' t(1) num' step g by (intro exI[of _ t] exI[of _ env]) (simp add: env_def)
qed

lemma emit_failed:
  assumes "emit_locked k c ev parent hdr w fs = (Err e, w', fs')" and "write_fault c \<in> {None, Some 0}"
  shows "fs' = fs \<and> w' = catch_up_scan k (lf_log fs) w"
  using assms by (auto simp: emit_locked_def Let_def split: option.splits if_splits)

lemma emit_appends:
  assumes "emit_locked k c ev parent hdr w fs = (Ok g, w', fs')"
  shows "\<exists>t env. lf_log fs' = lf_log fs @ t @ [newline] \<and> ek_encode k env = Some t"
  using assms by (auto simp: emit_locked_def save_checkpoint_def Let_def split: option.splits if_splits)

lemma emit_step_inv:
  assumes "codec_ok k" and "log_inv k s" and "sys_writers s i = Some w" and "write_fault c \<in> {None, Some 0}"
    and "emit_locked k c ev parent hdr w (sys_files s) = (r, w', fs')"
  shows "log_inv k \<lparr>sys_files = fs', sys_writers = (sys_writers s)(i := Some w')\<rparr>"
proof (cases r)
  case (Inl e)
  have f: "fs' = sys_files s" "w' = catch_up_scan k (lf_log (sys_files s)) w"
    using emit_failed[OF assms(5)[unfolded Inl] assms(4)] by simp_all
  have "in_step k (lf_log (sys_files s)) w \<Longrightarrow> in_step k (lf_log (sys_files s)) w'" unfolding f(2) by (rule catch_up_in_step)
  then show ?thesis using assms(2,3) f(1) by (simp add: log_inv_def)
next
  case (Inr g)
  note E = assms(5)[unfolded Inr]
  have el: "ends_line (lf_log (sys_files s))" using assms(2) by (simp add: log_inv_def)
  obtain t env where t: "lf_log fs' = lf_log (sys_files s) @ t @ [newline]" "ek_encode k env = Some t" using emit_appends[OF E] by blast
  note A = envelopes_append_line[OF assms(1) t(2) el]
  have "files_ok k fs' \<and> in_step k (lf_log fs') w' \<and> (\<forall>j v. sys_writers s j = Some v \<longrightarrow> in_step k (lf_log fs') v)"
    if len: "length (envelopes k (lf_log fs')) < 2 ^ 64"
  proof -
    have l: "length (envelopes k (lf_log (sys_files s))) + 1 < 2 ^ 64" using len A(1) t(1) by simp
    then have I: "files_ok k (sys_files s)" "\<forall>i w. sys_writers s i = Some w \<longrightarrow> in_step k (lf_log (sys_files s)) w"
      using assms(2) by (auto simp: log_inv_def)
    then have "in_step k (lf_log (sys_files s)) w" using assms(3) by blast
    from emit_numbered[OF assms(1) el I(1) this l E] I(2) t(1) in_step_append show ?thesis by (metis append.assoc)
  qed
  then show ?thesis using A(2) t(1) by (auto simp: log_inv_def)
qed

lemma log_step_inv:
  assumes "log_step k s s'" and "codec_ok k" and "log_inv k s"
  shows "log_inv k s'"
  using assms
proof cases
  case (opened i hdr)
  then show ?thesis using assms(3) open_full(1)[of "sys_files s" k hdr] by (auto simp: log_inv_def files_ok_def)
next
  case (emitted i w c ev parent hdr r w' fs')
  from emit_step_inv[OF assms(2,3) emitted(2-4)] emitted(1) show ?thesis by simp
qed (auto simp: log_inv_def files_ok_def split: if_splits)

interpretation logs: invariant_system log_start "log_step k" "\<lambda>s. codec_ok k \<longrightarrow> log_inv k s" for k
proof unfold_locales
  show "codec_ok k \<longrightarrow> log_inv k s" if "log_start s" for s
    using that by (auto simp: log_start_def log_inv_def files_ok_def ends_line_def numbered_def envelopes_def List.map_filter_simps)
qed (use log_step_inv in blast)

lemma numbered_increasing: "numbered k es \<Longrightarrow> length es \<le> 2 ^ 64 \<Longrightarrow> sorted_wrt (<) (map le_seq es)"
  by (auto simp: sorted_wrt_iff_nth_less numbered_def word_less_nat_alt unat_of_nat)

section \<open>What the readers deliver\<close>

text \<open>The envelopes a reader hands out for a list of complete lines.\<close>

definition tail_envelopes :: "'e event_kit \<Rightarrow> string list \<Rightarrow> 'e log_envelope list" where
  "tail_envelopes k ls = List.map_filter (\<lambda>l. if utf8_valid l then read_line k l else None) ls"

lemma tail_envelopes_append [simp]: "tail_envelopes k (a @ b) = tail_envelopes k a @ tail_envelopes k b"
  by (simp add: tail_envelopes_def List.map_filter_def)

lemma tail_items_lines: "tail_items k text = tail_envelopes k (complete_lines (text @ [newline]))"
  by (simp add: tail_items_def tail_envelopes_def complete_lines_def split_on_append butlast_append)

lemma complete_lines_last:
  assumes "newline \<notin> set b"
  shows "complete_lines (a @ newline # b) = complete_lines (a @ [newline])"
    and "bytes_of (complete_lines (a @ newline # b)) = length a + 1"
proof -
  have e: "ends_line (a @ [newline])" by (simp add: ends_line_def)
  show "complete_lines (a @ newline # b) = complete_lines (a @ [newline])"
    using complete_lines_append[OF e, of b] assms by simp
  then show "bytes_of (complete_lines (a @ newline # b)) = length a + 1" using bytes_of_complete[OF e] by simp
qed

lemma tail_loop_lines:
  assumes "newline \<notin> set buf" and "list_all ((<) 0) gots" and "length rest \<le> length gots"
  shows "tail_loop k gots rest buf (length rest) off out =
    (off + bytes_of (complete_lines (buf @ rest)), out @ map TailEnvelope (tail_envelopes k (complete_lines (buf @ rest))))"
  using assms
proof (induction k gots rest buf "length rest" off out rule: tail_loop.induct)
  case (1 k rest buf off out)
  then show ?case by (simp add: tail_envelopes_def List.map_filter_simps)
next
  case (2 k g gs rest buf off out)
  define got where "got = min g (min (length rest) TAIL_READ_CHUNK)"
  show ?case
  proof (cases "rest = []")
    case True
    then show ?thesis using 2(3) by (simp add: tail_envelopes_def List.map_filter_simps)
  next
    case False
    then have g: "got \<noteq> 0" using 2(4) by (auto simp: got_def TAIL_READ_CHUNK_def)
    have l: "length rest - got = length (drop got rest)" "length (drop got rest) \<le> length gs" "list_all ((<) 0) gs"
      using g 2(4,5) by auto
    show ?thesis
    proof (cases "rsplit_once newline (buf @ take got rest)")
      case None
      then have n: "newline \<notin> set (buf @ take got rest)" by (simp add: rsplit_once_None_iff)
      have "tail_loop k (g # gs) rest buf (length rest) off out =
          tail_loop k gs (drop got rest) (buf @ take got rest) (length (drop got rest)) off out"
        using False g None l(1) by (simp add: Let_def got_def[symmetric])
      also have "\<dots> = (off + bytes_of (complete_lines ((buf @ take got rest) @ drop got rest)),
          out @ map TailEnvelope (tail_envelopes k (complete_lines ((buf @ take got rest) @ drop got rest))))"
        using False g None l n by (intro 2(1)[of _ got]) (auto simp: got_def)
      finally show ?thesis by simp
    next
      case (Some ab)
      obtain a b where ab: "ab = (a, b)" by (cases ab)
      have s: "buf @ take got rest = a @ newline # b" "newline \<notin> set b"
        using Some ab by (simp_all add: rsplit_once_Some_iff)
      have w: "buf @ rest = (a @ [newline]) @ (b @ drop got rest)"
        using s(1) by (metis append.assoc append_Cons append_Nil append_take_drop_id)
      have e: "ends_line (a @ [newline])" by (simp add: ends_line_def)
      have "tail_loop k (g # gs) rest buf (length rest) off out =
          tail_loop k gs (drop got rest) b (length (drop got rest)) (off + length a + 1) (out @ map TailEnvelope (tail_items k a))"
        using False g Some ab l(1) by (simp add: Let_def got_def[symmetric])
      also have "\<dots> = (off + length a + 1 + bytes_of (complete_lines (b @ drop got rest)),
          (out @ map TailEnvelope (tail_items k a)) @ map TailEnvelope (tail_envelopes k (complete_lines (b @ drop got rest))))"
        using False g Some ab l s(2) by (intro 2(2)[of _ got]) (auto simp: got_def)
      finally show ?thesis
        using w complete_lines_append[OF e, of "b @ drop got rest"] bytes_of_complete[OF e] tail_items_lines[of k a] by simp
    qed
  qed
qed

text \<open>A tail that has handed out the complete lines of a prefix.\<close>

lemma read_new_lines:
  assumes "log = p @ r" and "ends_line p" and "tl_offset t = length p" and "tl_identity t \<in> {None, Some ident}"
    and "list_all ((<) 0) gots" and "length r \<le> length gots"
  shows "read_new k gots ident log t =
    (\<lparr>tl_offset = bytes_of (complete_lines log), tl_identity = Some ident\<rparr>, map TailEnvelope (tail_envelopes k (complete_lines r)))"
proof -
  have b: "bytes_of (complete_lines log) = length p + bytes_of (complete_lines r)"
    using assms(1) complete_lines_append[OF assms(2), of r] bytes_of_complete[OF assms(2)] by simp
  have i: "\<not> (case tl_identity t of Some seen \<Rightarrow> seen \<noteq> ident | None \<Rightarrow> False)" using assms(4) by auto
  show ?thesis
  proof (cases "r = []")
    case True
    then show ?thesis using assms(1,3) i b by (simp add: read_new_def tail_envelopes_def List.map_filter_simps)
  next
    case False
    then show ?thesis using assms(1,3) i b tail_loop_lines[of "[]" gots r k "length p" "[]"] assms(5,6)
      by (simp add: read_new_def)
  qed
qed

text \<open>A process that polls the file: the sizes its reads return and the text it finds, poll after poll.\<close>

fun tail_polls :: "'e event_kit \<Rightarrow> nat \<times> nat \<Rightarrow> (nat list \<times> string) list \<Rightarrow> log_tail \<Rightarrow> log_tail \<times> 'e tail_item list" where
  "tail_polls k ident [] t = (t, [])"
| "tail_polls k ident ((gots, log) # ps) t =
     (let (t1, a) = read_new k gots ident log t; (t2, b) = tail_polls k ident ps t1 in (t2, a @ b))"

fun growing :: "string \<Rightarrow> string list \<Rightarrow> bool" where
  "growing cur [] = True"
| "growing cur (log # ls) = (prefix cur log \<and> growing log ls)"

definition enough_reads :: "nat list \<Rightarrow> string \<Rightarrow> bool" where
  "enough_reads gots log \<longleftrightarrow> list_all ((<) 0) gots \<and> length log \<le> length gots"

lemma tail_polls_lines:
  assumes "growing cur (map snd ps)" and "list_all (\<lambda>(gots, log). enough_reads gots log) ps"
    and "tl_offset t = bytes_of (complete_lines cur)" and "tl_identity t \<in> {None, Some ident}" and "ps \<noteq> []"
  shows "\<exists>ls. complete_lines (last (cur # map snd ps)) = complete_lines cur @ ls \<and>
    tail_polls k ident ps t = (\<lparr>tl_offset = bytes_of (complete_lines cur @ ls), tl_identity = Some ident\<rparr>, map TailEnvelope (tail_envelopes k ls))"
  using assms
proof (induction ps arbitrary: cur t)
  case (Cons gl ps)
  obtain gots log where gl: "gl = (gots, log)" by (cases gl)
  obtain p q where p: "cur = p @ q" "ends_line p" "length p = bytes_of (complete_lines cur)" "complete_lines cur = complete_lines p"
    using complete_lines_split[of cur] by blast
  obtain r where r: "log = p @ r" using Cons.prems(1) gl p(1) by (auto simp: prefix_def)
  have cl: "complete_lines log = complete_lines cur @ complete_lines r" using complete_lines_append[OF p(2), of r] r p(4) by simp
  have rn: "read_new k gots ident log t =
    (\<lparr>tl_offset = bytes_of (complete_lines log), tl_identity = Some ident\<rparr>, map TailEnvelope (tail_envelopes k (complete_lines r)))"
    using Cons.prems(2,3,4) gl p(3) r by (intro read_new_lines[OF r p(2)]) (auto simp: enough_reads_def)
  show ?case
  proof (cases "ps = []")
    case True
    then show ?thesis using rn cl gl by (intro exI[of _ "complete_lines r"]) simp
  next
    case False
    obtain ls where ls: "complete_lines (last (log # map snd ps)) = complete_lines log @ ls"
      "tail_polls k ident ps \<lparr>tl_offset = bytes_of (complete_lines log), tl_identity = Some ident\<rparr> =
        (\<lparr>tl_offset = bytes_of (complete_lines log @ ls), tl_identity = Some ident\<rparr>, map TailEnvelope (tail_envelopes k ls))"
      using Cons.IH[of log "\<lparr>tl_offset = bytes_of (complete_lines log), tl_identity = Some ident\<rparr>"] Cons.prems(1,2) gl False by auto
    then show ?thesis using rn cl gl False by (intro exI[of _ "complete_lines r @ ls"]) simp
  qed
qed simp

section \<open>What the resumable reader delivers\<close>

lemma show_nat_digits: "list_all (\<lambda>c. 48 \<le> (of_char c :: nat) \<and> (of_char c :: nat) < 58) (show_nat n)"
proof (induction n rule: show_nat.induct)
  case (1 n)
  have d: "48 \<le> (of_char (digit_char m) :: nat) \<and> (of_char (digit_char m) :: nat) < 58" if "m < 10" for m
    using that by (simp add: digit_char_def)
  show ?case using 1 d[of n] d[of "n mod 10"] by (subst show_nat.simps) auto
qed

lemma parse_show_nat: "n < 2 ^ b \<Longrightarrow> parse_unsigned b (show_nat n) = Some n"
  using show_nat_digits[of n] parse_digits_show_nat[of n]
  by (cases "show_nat n") (auto simp: parse_unsigned_def)

definition epoch_ok :: "string \<Rightarrow> bool" where
  "epoch_ok e \<longleftrightarrow> e \<noteq> [] \<and> list_all is_ascii_hexdigit e"

lemma hexdigit_printable: "is_ascii_hexdigit c \<Longrightarrow> 33 \<le> (of_char c :: nat) \<and> (of_char c :: nat) < 128 \<and> c \<noteq> CHR ''.''"
  by (auto simp: is_ascii_hexdigit_def Let_def)

lemma cursor_parse_show:
  assumes "epoch_ok (lc_epoch c)" and "lc_offset c < 2 ^ 64"
  shows "cursor_parse (cursor_show c) = Some c"
proof -
  have e: "list_all (\<lambda>x. 33 \<le> (of_char x :: nat) \<and> (of_char x :: nat) < 128) (lc_epoch c)" "CHR ''.'' \<notin> set (lc_epoch c)"
    using assms(1) hexdigit_printable by (auto simp: epoch_ok_def list_all_iff)
  have d: "list_all (\<lambda>x. 33 \<le> (of_char x :: nat) \<and> (of_char x :: nat) < 128) (show_nat (lc_offset c))"
    using show_nat_digits[of "lc_offset c"] by (rule list.pred_mono_strong) simp
  have "trim (cursor_show c) = cursor_show c" using e(1) d by (intro trim_printable) (simp add: cursor_show_def)
  then show ?thesis
    using assms e(2) parse_show_nat[OF assms(2)] split_once_Some_iff[of "CHR ''.''" "cursor_show c" "lc_epoch c" "show_nat (lc_offset c)"]
    by (simp add: cursor_parse_def cursor_show_def epoch_ok_def)
qed

definition newlines :: "string \<Rightarrow> nat" where
  "newlines s = length (filter (\<lambda>c. c = newline) s)"

lemma newlines_simps [simp]: "newlines [] = 0" "newlines (a @ b) = newlines a + newlines b" "newlines (newline # a) = Suc (newlines a)"
  by (simp_all add: newlines_def)

lemma newlines_free [simp]: "newline \<notin> set a \<Longrightarrow> newlines a = 0"
  by (auto simp: newlines_def filter_empty_conv)

text \<open>The buffer is a prefix of the rest of the file that holds all of it or enough lines.\<close>

lemma fill_buffer_prefix:
  assumes "list_all ((<) 0) gots" and "length rest \<le> length gots"
  shows "\<exists>a b. rest = a @ b \<and> fill_buffer m gots rest buf (length rest) n = buf @ a \<and> (b = [] \<or> m \<le> n + newlines a)"
  using assms
proof (induction m gots rest buf "length rest" n rule: fill_buffer.induct)
  case (1 m rest buf n)
  then show ?case by simp
next
  case (2 m g gs rest buf n)
  define got where "got = min g (min (length rest) LEDGER_READ_CHUNK)"
  show ?case
  proof (cases "rest = [] \<or> m \<le> n")
    case True
    then show ?thesis by (intro exI[of _ "[]"] exI[of _ rest]) auto
  next
    case False
    then have g: "got \<noteq> 0" using 2(2) by (auto simp: got_def LEDGER_READ_CHUNK_def)
    have l: "length rest - got = length (drop got rest)" "length (drop got rest) \<le> length gs" "list_all ((<) 0) gs"
      using g 2(2,3) by auto
    have s: "fill_buffer m (g # gs) rest buf (length rest) n =
        fill_buffer m gs (drop got rest) (buf @ take got rest) (length (drop got rest)) (n + newlines (take got rest))"
      using False g l(1) by (simp add: Let_def newlines_def got_def[symmetric])
    have "\<exists>a b. drop got rest = a @ b \<and>
        fill_buffer m gs (drop got rest) (buf @ take got rest) (length (drop got rest)) (n + newlines (take got rest)) = (buf @ take got rest) @ a \<and>
        (b = [] \<or> m \<le> n + newlines (take got rest) + newlines a)"
      using False g l unfolding newlines_def[of "take got rest"] by (intro 2(1)[of _ got]) (auto simp: got_def)
    then obtain a b where ab: "drop got rest = a @ b" "fill_buffer m (g # gs) rest buf (length rest) n = buf @ take got rest @ a"
      "b = [] \<or> m \<le> n + newlines (take got rest) + newlines a" unfolding s append.assoc by blast
    have "rest = (take got rest @ a) @ b" using ab(1) append_take_drop_id[of got rest] by simp
    moreover have "b = [] \<or> m \<le> n + newlines (take got rest @ a)" using ab(3) by (simp add: add.assoc)
    ultimately show ?thesis using ab(2) by blast
  qed
qed

text \<open>What a consumer is given for a list of complete lines: the readable ones, each with the cursor behind it.\<close>

fun ledger_lines :: "string list \<Rightarrow> ledger_cursor \<Rightarrow> ledger_read list" where
  "ledger_lines [] c = []"
| "ledger_lines (l # ls) c =
     (let c' = c\<lparr>lc_offset := lc_offset c + length l + 1\<rparr>
      in if utf8_valid l \<and> \<not> is_blank l then LLine l c' # ledger_lines ls c' else ledger_lines ls c')"

lemma take_lines_complete:
  "take_lines n buf c =
     (c\<lparr>lc_offset := lc_offset c + bytes_of (take n (complete_lines buf))\<rparr>, ledger_lines (take n (complete_lines buf)) c)"
proof (induction n buf c rule: take_lines.induct)
  case (2 n buf c)
  show ?case
  proof (cases buf rule: first_line_cases)
    case 1
    then show ?thesis using split_once_None_iff[of newline buf] by simp
  next
    case (2 l r)
    then have "split_once newline buf = Some (l, r)" by (simp add: split_once_newline)
    then show ?thesis using "2.IH" complete_lines_first[OF 2(2), of r] 2 by (simp add: Let_def)
  qed
qed simp

lemma length_complete_lines: "length (complete_lines s) = newlines s"
proof (induction s rule: length_induct)
  case (1 s)
  then show ?case by (cases s rule: first_line_cases) (simp_all add: complete_lines_first)
qed

lemma take_complete_prefix: "n \<le> newlines a \<Longrightarrow> take n (complete_lines (a @ b)) = take n (complete_lines a)"
proof -
  assume n: "n \<le> newlines a"
  obtain p r where p: "a = p @ r" "ends_line p" "complete_lines a = complete_lines p" using complete_lines_split[of a] by blast
  then show ?thesis using n length_complete_lines[of a] complete_lines_append[OF p(2), of "r @ b"] by simp
qed

lemma read_batch_lines:
  assumes "log = p @ r" and "lc_epoch c = epoch" and "lc_offset c = length p" and "list_all ((<) 0) gots" and "length r \<le> length gots"
  shows "read_batch gots (Some (epoch, log)) n c =
    (c\<lparr>lc_offset := length p + bytes_of (take n (complete_lines r))\<rparr>, ledger_lines (take n (complete_lines r)) c)"
proof -
  obtain a b where ab: "r = a @ b" "fill_buffer n gots r [] (length r) 0 = a" "b = [] \<or> n \<le> newlines a"
    using fill_buffer_prefix[OF assms(4,5), of n "[]" 0] unfolding append_Nil add_0 by blast
  have "take n (complete_lines a) = take n (complete_lines r)" using ab(1,3) take_complete_prefix[of n a b] by auto
  moreover have "c\<lparr>lc_offset := length p\<rparr> = c" using assms(3) by simp
  ultimately show ?thesis using assms(1-3) ab(2) take_lines_complete[of n a c] by (auto simp: read_batch_def)
qed

text \<open>Behind its first lines a text is at the start of a line.\<close>

lemma line_prefix: "\<exists>p r. s = p @ r \<and> ends_line p \<and> length p = bytes_of (take n (complete_lines s)) \<and> complete_lines r = drop n (complete_lines s)"
proof (induction n arbitrary: s)
  case 0
  show ?case by (intro exI[of _ "[]"] exI[of _ s]) (simp add: ends_line_def)
next
  case (Suc n)
  show ?case
  proof (cases s rule: first_line_cases)
    case 1
    then show ?thesis by (intro exI[of _ "[]"] exI[of _ s]) (simp add: ends_line_def)
  next
    case (2 l r)
    obtain p q where p: "r = p @ q" "ends_line p" "length p = bytes_of (take n (complete_lines r))" "complete_lines q = drop n (complete_lines r)"
      using Suc.IH[of r] by blast
    have "s = (l @ newline # p) @ q" using 2(1) p(1) by simp
    moreover have "ends_line (l @ newline # p)" using p(2) by (auto simp: ends_line_def)
    moreover have "complete_lines s = l # complete_lines r" using 2(1) complete_lines_first[OF 2(2)] by simp
    then have "length (l @ newline # p) = bytes_of (take (Suc n) (complete_lines s))" "complete_lines q = drop (Suc n) (complete_lines s)"
      using p(3,4) by simp_all
    ultimately show ?thesis by blast
  qed
qed

lemma last_line_boundary_complete:
  "e \<le> length log \<Longrightarrow> last_line_boundary log e = bytes_of (complete_lines (take e log))"
proof (induction log e rule: last_line_boundary.induct)
  case (1 log e)
  define st where "st = e - 8192"
  define piece where "piece = take (e - st) (drop st log)"
  have te: "take e log = take st log @ piece" unfolding piece_def using take_add[of st "e - st" log] by (simp add: st_def)
  show ?case
  proof (cases "e = 0")
    case True
    then show ?thesis by (subst last_line_boundary.simps) simp
  next
    case False
    show ?thesis
    proof (cases "rsplit_once newline piece")
      case None
      then have "newline \<notin> set piece" by (simp add: rsplit_once_None_iff)
      moreover obtain p q where p: "take st log = p @ q" "ends_line p" "newline \<notin> set q" "complete_lines (take st log) = complete_lines p"
        using complete_lines_split[of "take st log"] by blast
      ultimately have "complete_lines (take e log) = complete_lines (take st log)"
        using te complete_lines_append[OF p(2), of "q @ piece"] by simp
      moreover have "last_line_boundary log e = last_line_boundary log st"
        using False None by (subst last_line_boundary.simps) (simp add: st_def piece_def)
      moreover have "last_line_boundary log st = bytes_of (complete_lines (take st log))"
        using 1 False None by (intro "1.IH") (auto simp: st_def piece_def)
      ultimately show ?thesis by simp
    next
      case (Some ab)
      obtain a b where ab: "ab = (a, b)" by (cases ab)
      then have s: "piece = a @ newline # b" "newline \<notin> set b" using Some by (simp_all add: rsplit_once_Some_iff)
      have "last_line_boundary log e = st + length a + 1"
        using False Some ab by (subst last_line_boundary.simps) (simp add: st_def piece_def)
      moreover have "bytes_of (complete_lines (take e log)) = length (take st log @ a) + 1"
        using complete_lines_last(2)[OF s(2), of "take st log @ a"] te s(1) by simp
      ultimately show ?thesis using 1(2) by (simp add: st_def)
    qed
  qed
qed

section \<open>A concrete codec\<close>

text \<open>Events of one molecule, of which the codec knows the first two.\<close>

definition demo_env :: "seqno \<Rightarrow> unit log_envelope" where
  "demo_env s = \<lparr>le_seq = s, le_mol_seq = Some s, le_timestamp = 0, le_causal_parent = None, le_quality_band = None,
     le_emitter = \<lparr>eh_kind = EkCli, eh_id = [], eh_meta_level = 0\<rparr>, le_event = ()\<rparr>"

definition demo_encode :: "unit log_envelope \<Rightarrow> string option" where
  "demo_encode env = (if env = demo_env 0 then Some ''a'' else if env = demo_env 1 then Some ''b'' else None)"

definition demo_decode :: "string \<Rightarrow> unit log_envelope option" where
  "demo_decode t = (if t = ''a'' then Some (demo_env 0) else if t = ''b'' then Some (demo_env 1) else None)"

definition demo_kit :: "unit event_kit" where
  "demo_kit = \<lparr>ek_molecule = (\<lambda>_. Some ''m''), ek_is_verb = (\<lambda>_. False), ek_encode = demo_encode, ek_decode = demo_decode,
     ek_from_line = demo_decode, ek_sha256 = (\<lambda>_. ''00''), ek_local_hour = (\<lambda>_. 12)\<rparr>"

definition demo_call :: emit_call where
  "demo_call = \<lparr>em_now = 0, em_stamp = 0, write_fault = None, sidecar_fails = False, sync_fails = False\<rparr>"

definition demo_hdr :: emitter_header where
  "demo_hdr = \<lparr>eh_kind = EkCli, eh_id = [], eh_meta_level = 0\<rparr>"

lemma demo_letter: "is_blank [c] \<longleftrightarrow> ws_len [c] \<noteq> 0"
  unfolding is_blank_def by (subst trim_start.simps) (auto simp: trim_start.simps[of "[]"])

lemma demo_codec_ok: "codec_ok demo_kit"
  by (auto simp: codec_ok_def demo_kit_def demo_encode_def demo_decode_def demo_letter split: if_splits)

definition demo_files :: log_files where
  "demo_files = \<lparr>lf_log = [], lf_sidecar = None\<rparr>"

definition demo_system :: log_system where
  "demo_system = \<lparr>sys_files = demo_files, sys_writers = [0 \<mapsto> new_writer demo_hdr, 1 \<mapsto> new_writer demo_hdr]\<rparr>"

lemma demo_open: "open_writer demo_kit demo_hdr demo_files = new_writer demo_hdr"
  by (simp add: open_writer_def restore_checkpoint_def catch_up_scan_def new_writer_def demo_files_def Let_def)

lemma demo_reachable: "reachable log_start (log_step demo_kit) demo_system"
proof -
  let ?s0 = "\<lparr>sys_files = demo_files, sys_writers = (\<lambda>_. None)\<rparr>"
  have "reachable log_start (log_step demo_kit) ?s0" by (rule start) (simp add: log_start_def demo_files_def)
  from reachable.more[OF this opened[of demo_kit ?s0 0 demo_hdr]]
  have "reachable log_start (log_step demo_kit) \<lparr>sys_files = demo_files, sys_writers = [0 \<mapsto> new_writer demo_hdr]\<rparr>"
    by (simp add: demo_open)
  from reachable.more[OF this opened[of demo_kit _ 1 demo_hdr]] show ?thesis by (simp add: demo_open demo_system_def)
qed

lemmas demo_simps = demo_kit_def demo_encode_def demo_decode_def demo_call_def demo_hdr_def demo_env_def

text \<open>The state after the first writer has emitted one event.\<close>

definition demo_writer :: "log_writer" where
  "demo_writer = (new_writer demo_hdr)\<lparr>w_next_seq := 1, w_mol_seqs := [''m'' \<mapsto> 1], w_scanned_to := 2\<rparr>"

definition demo_first :: log_files where
  "demo_first = \<lparr>lf_log = ''a'' @ [newline],
     lf_sidecar = Some \<lparr>cp_scanned_to = 2, cp_next_seq = 1, cp_last_verb_ts = None, cp_mol_seqs = [''m'' \<mapsto> 1], cp_probe_digest = ''00''\<rparr>\<rparr>"

lemma demo_emit_first: "emit_locked demo_kit demo_call () None demo_hdr (new_writer demo_hdr) demo_files = (Ok 0, demo_writer, demo_first)"
  by (simp add: emit_locked_def demo_simps demo_files_def demo_first_def demo_writer_def catch_up_scan_def new_writer_def
      save_checkpoint_def prefix_probe_digest_def seq_next_def Let_def)

lemma demo_trim: "trim_end_cr ''a'' = ''a''" "trim_end_cr ''b'' = ''b''"
  by (subst trim_end_cr.simps, simp)+

lemma demo_line: "complete_lines (''a'' @ [newline]) = [''a'']" "complete_lines (''a'' @ newline # ''b'' @ [newline]) = [''a'', ''b'']"
  by (simp_all add: complete_lines_def)

lemma demo_catch_up: "catch_up_scan demo_kit (lf_log demo_first) (new_writer demo_hdr) = demo_writer"
  using demo_line(1)
  by (simp add: catch_up_scan_def demo_first_def demo_writer_def absorb_lines_fold absorb_line_def absorb_envelope_def new_writer_def
      demo_simps demo_trim seq_next_def Let_def)

lemma demo_emit_second: "\<exists>w fs. emit_locked demo_kit demo_call () None demo_hdr (new_writer demo_hdr) demo_first = (Ok 1, w, fs) \<and>
    lf_log fs = ''a'' @ [newline] @ ''b'' @ [newline]"
  by (simp add: emit_locked_def demo_catch_up save_checkpoint_def Let_def)
    (simp add: demo_simps demo_first_def demo_writer_def new_writer_def save_checkpoint_def Let_def)

section \<open>Properties of the writer\<close>

text \<open>
  C13. Every event has its number: whatever processes open, drop and emit through any number of
  writers in any order, with checkpoints written, lost or failing to be written, the n-th event of the log
  carries sequence number n, counted from 0, and per molecule its number among the events of that
  molecule; a successful emission appends exactly its event under the number it returns.  (At
  most \<open>2^64\<close> events, and no write that stops in the middle of a line.)
\<close>

theorem log_stays_numbered:
  assumes "codec_ok k" and "reachable log_start (log_step k) s" and "sys_writers s i = Some w"
    and "write_fault c \<in> {None, Some 0}" and "emit_locked k c ev parent hdr w (sys_files s) = (r, w', fs')"
    and "length (envelopes k (lf_log (sys_files s))) + 1 < 2 ^ 64"
  shows "numbered k (envelopes k (lf_log fs')) \<and> sorted_wrt (<) (map le_seq (envelopes k (lf_log fs'))) \<and>
    (\<forall>g. r = Ok g \<longrightarrow> (\<exists>env. envelopes k (lf_log fs') = envelopes k (lf_log (sys_files s)) @ [env] \<and> le_seq env = g \<and> le_event env = ev))"
proof -
  have inv: "log_inv k s" using logs.reachable_inv[OF assms(2)] assms(1) by blast
  then have el: "ends_line (lf_log (sys_files s))" and ok: "files_ok k (sys_files s)" "in_step k (lf_log (sys_files s)) w"
    using assms(3,6) by (auto simp: log_inv_def)
  have *: "numbered k (envelopes k (lf_log fs')) \<and> length (envelopes k (lf_log fs')) \<le> 2 ^ 64 \<and>
    (\<forall>g. r = Ok g \<longrightarrow> (\<exists>env. envelopes k (lf_log fs') = envelopes k (lf_log (sys_files s)) @ [env] \<and> le_seq env = g \<and> le_event env = ev))"
  proof (cases r)
    case (Inl e)
    then show ?thesis using emit_failed[of k c ev parent hdr w "sys_files s" e w' fs'] assms(4,5,6) ok(1) by (auto simp: files_ok_def)
  next
    case (Inr g)
    from emit_numbered[OF assms(1) el ok assms(6) assms(5)[unfolded Inr]] obtain t env where
      t: "lf_log fs' = lf_log (sys_files s) @ t @ [newline]" "ek_encode k env = Some t" "le_event env = ev" "le_seq env = g"
      "numbered k (envelopes k (lf_log (sys_files s)) @ [env])" by blast
    then show ?thesis using envelopes_append_line(1)[OF assms(1) t(2) el] Inr assms(6) by simp
  qed
  then show ?thesis using numbered_increasing[of k "envelopes k (lf_log fs')"] by blast
qed

theorem log_stays_numbered_witness:
  "\<exists>w' fs'. emit_locked demo_kit demo_call () None demo_hdr (new_writer demo_hdr) demo_first = (Ok 1, w', fs') \<and>
     numbered demo_kit (envelopes demo_kit (lf_log fs')) \<and> sorted_wrt (<) (map le_seq (envelopes demo_kit (lf_log fs')))"
proof -
  let ?s = "\<lparr>sys_files = demo_first, sys_writers = [0 \<mapsto> demo_writer, 1 \<mapsto> new_writer demo_hdr]\<rparr>"
  have "log_step demo_kit demo_system \<lparr>sys_files = demo_first, sys_writers = (sys_writers demo_system)(0 := Some demo_writer)\<rparr>"
  proof (rule emitted)
    show "sys_writers demo_system 0 = Some (new_writer demo_hdr)" "write_fault demo_call \<in> {None, Some 0}"
      by (simp_all add: demo_system_def demo_call_def)
    show "emit_locked demo_kit demo_call () None demo_hdr (new_writer demo_hdr) (sys_files demo_system) = (Ok 0, demo_writer, demo_first)"
      using demo_emit_first by (simp add: demo_system_def)
  qed
  moreover have "(sys_writers demo_system)(0 := Some demo_writer) = [0 \<mapsto> demo_writer, 1 \<mapsto> new_writer demo_hdr]"
    by (auto simp: demo_system_def)
  ultimately have r: "reachable log_start (log_step demo_kit) ?s" using reachable.more[OF demo_reachable] by simp
  obtain w fs where e: "emit_locked demo_kit demo_call () None demo_hdr (new_writer demo_hdr) (sys_files ?s) = (Ok 1, w, fs)"
    using demo_emit_second by auto
  have l: "length (envelopes demo_kit (lf_log (sys_files ?s))) + 1 < 2 ^ 64"
    using demo_line(1) by (simp add: envelopes_def demo_first_def List.map_filter_def)
  from log_stays_numbered[OF demo_codec_ok r _ _ e l, of 1] e show ?thesis by (simp add: demo_call_def)
qed

text \<open>
  C35. The checkpoint is only a cache: a writer that resumes from a checkpoint written by a writer
  in step with the log, however much was appended since, has the same next number, the same
  numbers per molecule and the same cursor as one that walks the whole file.
\<close>

theorem checkpoint_resume_is_full_walk:
  assumes "in_step k log w" and "fs = save_checkpoint k False w \<lparr>lf_log = log, lf_sidecar = old\<rparr>"
  shows "w_next_seq (open_writer k hdr (fs\<lparr>lf_log := log @ extra\<rparr>)) = w_next_seq (open_writer k hdr \<lparr>lf_log = log @ extra, lf_sidecar = None\<rparr>) \<and>
    w_mol_seqs (open_writer k hdr (fs\<lparr>lf_log := log @ extra\<rparr>)) = w_mol_seqs (open_writer k hdr \<lparr>lf_log = log @ extra, lf_sidecar = None\<rparr>) \<and>
    w_scanned_to (open_writer k hdr (fs\<lparr>lf_log := log @ extra\<rparr>)) = w_scanned_to (open_writer k hdr \<lparr>lf_log = log @ extra, lf_sidecar = None\<rparr>) \<and>
    w_scanned_to (restore_checkpoint k (fs\<lparr>lf_log := log @ extra\<rparr>) (new_writer hdr)) = w_scanned_to w"
proof -
  let ?a = "fs\<lparr>lf_log := log @ extra\<rparr>" and ?b = "\<lparr>lf_log = log @ extra, lf_sidecar = None\<rparr>"
  obtain p r where p: "log = p @ r" "ends_line p" "w_scanned_to w = length p" "same_seqs w (full_walk k p)"
    using assms(1) by (auto simp: in_step_def)
  then have s: "lf_sidecar ?a = Some x \<Longrightarrow> sound_checkpoint k log x" for x
    unfolding assms(2) save_checkpoint_def sound_checkpoint_def same_seqs_def
    by (intro exI[of _ p] exI[of _ r]) auto
  have "same_seqs (open_writer k hdr ?a) (full_walk k (log @ extra))" "w_scanned_to (open_writer k hdr ?a) = bytes_of (complete_lines (log @ extra))"
    using open_full(2,3)[of ?a k hdr] sound_append[OF s] by simp_all
  moreover have "same_seqs (open_writer k hdr ?b) (full_walk k (log @ extra))" "w_scanned_to (open_writer k hdr ?b) = bytes_of (complete_lines (log @ extra))"
    using open_full(2,3)[of ?b k hdr] by simp_all
  moreover have "w_scanned_to w \<le> length log" using p by simp
  then have "restore_checkpoint k ?a (new_writer hdr) = (new_writer hdr)\<lparr>w_scanned_to := w_scanned_to w, w_next_seq := w_next_seq w,
      w_last_verb_ts := w_last_verb_ts w, w_mol_seqs := w_mol_seqs w\<rparr>"
    unfolding assms(2) by (simp add: save_checkpoint_def restore_checkpoint_def probe_prefix)
  ultimately show ?thesis by (simp add: same_seqs_def new_writer_def)
qed

theorem checkpoint_resume_is_full_walk_witness:
  "w_next_seq (open_writer demo_kit demo_hdr (save_checkpoint demo_kit False demo_writer demo_first\<lparr>lf_log := lf_log demo_first @ ''b'' @ [newline]\<rparr>)) =
   w_next_seq (open_writer demo_kit demo_hdr \<lparr>lf_log = lf_log demo_first @ ''b'' @ [newline], lf_sidecar = None\<rparr>)"
proof -
  have "in_step demo_kit (lf_log demo_first) demo_writer"
    using catch_up_in_step[OF new_in_step, of demo_kit "lf_log demo_first" demo_hdr] by (simp add: demo_catch_up)
  from checkpoint_resume_is_full_walk[OF this refl, where old = "lf_sidecar demo_first" and hdr = demo_hdr and extra = "''b'' @ [newline]"]
  moreover have "\<lparr>lf_log = lf_log demo_first, lf_sidecar = lf_sidecar demo_first\<rparr> = demo_first" by simp
  ultimately show ?thesis by (simp del: log_files.surjective)
qed

text \<open>
  A torn line swallows the next event: when a write was cut off in the middle of its line, the
  next emission is appended to the fragment.  It returns a number, but the log holds no new
  event, and a writer that walks the file gives the number again to the next one.  (The fragment
  followed by a line is not JSON.)
\<close>

theorem torn_line_swallows_event:
  assumes "codec_ok k" and "ends_line log"
    and "newline \<notin> set frag" and "\<And>t env. ek_encode k env = Some t \<Longrightarrow> decode_line k (frag @ t) = None"
    and "emit_one k c penv ev parent \<lparr>lf_log = log @ frag, lf_sidecar = None\<rparr> = (Ok g, fs)"
  shows "envelopes k (lf_log fs) = envelopes k log \<and> g = w_next_seq (full_walk k log) \<and>
    w_next_seq (open_writer k hdr (fs\<lparr>lf_sidecar := None\<rparr>)) = g"
proof -
  let ?fs = "\<lparr>lf_log = log @ frag, lf_sidecar = None\<rparr>" and ?h = "emitter_from_env penv"
  obtain w' where e: "emit_locked k c ev parent (w_emitter (open_writer k ?h ?fs)) (open_writer k ?h ?fs) ?fs = (Ok g, w', fs)"
    using assms(5) by (auto simp: emit_one_def emit_def emit_with_emitter_def synced_def split: prod.splits sum.splits if_splits)
  have step: "in_step k (log @ frag) (open_writer k ?h ?fs)" using open_full(1)[of ?fs k ?h] by simp
  have cf: "complete_lines (log @ frag) = complete_lines log" using complete_lines_append[OF assms(2)] assms(3) by simp
  obtain t env where t: "lf_log fs = (log @ frag) @ t @ [newline]" "ek_encode k env = Some t" using emit_appends[OF e] by auto
  have "newline \<notin> set (frag @ t)" using codec_okD(2)[OF assms(1) t(2)] assms(3) by simp
  then have cl: "complete_lines (lf_log fs) = complete_lines log @ [frag @ t]"
    using t(1) complete_lines_append[OF assms(2), of "(frag @ t) @ [newline]"] complete_lines_first[of "frag @ t" "[]"] by simp
  have env: "envelopes k (lf_log fs) = envelopes k log"
    using cl assms(4)[OF t(2)] by (simp add: envelopes_def List.map_filter_def)
  have fw: "full_walk k (lf_log fs) = full_walk k log" "full_walk k (log @ frag) = full_walk k log"
    using env cf by (simp_all add: full_walk_def fold_absorb_envelopes envelopes_def)
  have "g = w_next_seq (catch_up_scan k (log @ frag) (open_writer k ?h ?fs))"
    using e by (auto simp: emit_locked_def Let_def split: option.splits)
  then have g: "g = w_next_seq (full_walk k log)" using catch_up_full(1)[OF step] fw(2) by (simp add: same_seqs_def)
  moreover have "w_next_seq (open_writer k hdr (fs\<lparr>lf_sidecar := None\<rparr>)) = w_next_seq (full_walk k (lf_log fs))"
    using open_full(2)[of "fs\<lparr>lf_sidecar := None\<rparr>" k hdr] by (simp add: same_seqs_def)
  ultimately show ?thesis using env fw(1) by simp
qed

definition demo_torn :: log_files where
  "demo_torn = \<lparr>lf_log = (''a'' @ [newline]) @ ''x'', lf_sidecar = None\<rparr>"

lemma demo_emit_torn: "\<exists>fs. emit_one demo_kit demo_call [''COSMON_EMITTER_KIND'' \<mapsto> ''cli''] () None demo_torn = (Ok 1, fs)"
proof -
  have h: "emitter_from_env [''COSMON_EMITTER_KIND'' \<mapsto> ''cli''] = demo_hdr"
    by (simp add: emitter_from_env_def emitter_from_wire_def demo_hdr_def)
  have cl: "complete_lines (lf_log demo_torn) = [''a'']"
    by (simp add: demo_torn_def complete_lines_def)
  have "catch_up_scan demo_kit (lf_log demo_torn) (new_writer demo_hdr) = demo_writer"
    using cl by (simp add: catch_up_scan_def demo_torn_def demo_writer_def absorb_lines_fold absorb_line_def absorb_envelope_def new_writer_def
      demo_simps demo_trim seq_next_def Let_def)
  moreover have "(new_writer demo_hdr)\<lparr>w_primed_from := 0\<rparr> = new_writer demo_hdr" "w_scanned_to (new_writer demo_hdr) = 0"
    by (simp_all add: new_writer_def)
  ultimately have w: "open_writer demo_kit demo_hdr demo_torn = demo_writer"
    by (simp add: open_writer_def restore_checkpoint_def Let_def demo_torn_def)
  have "catch_up_scan demo_kit (lf_log demo_torn) demo_writer = demo_writer"
    by (simp add: catch_up_scan_def demo_torn_def demo_writer_def absorb_lines_fold Let_def)
  then show ?thesis unfolding emit_one_def emit_def emit_with_emitter_def h w
    by (simp add: emit_locked_def Let_def) (simp add: demo_writer_def demo_simps new_writer_def synced_def Let_def)
qed

theorem torn_line_swallows_event_witness:
  "\<exists>fs. emit_one demo_kit demo_call [''COSMON_EMITTER_KIND'' \<mapsto> ''cli''] () None demo_torn = (Ok 1, fs) \<and>
     envelopes demo_kit (lf_log fs) = envelopes demo_kit (''a'' @ [newline])"
proof -
  obtain fs where e: "emit_one demo_kit demo_call [''COSMON_EMITTER_KIND'' \<mapsto> ''cli''] () None demo_torn = (Ok 1, fs)"
    using demo_emit_torn by blast
  have t: "decode_line demo_kit (''x'' @ t) = None" if "ek_encode demo_kit env = Some t" for t env
  proof -
    have "t = ''a'' \<or> t = ''b''" using that by (auto simp: demo_kit_def demo_encode_def split: if_splits)
    moreover have "trim_end_cr ''xa'' = ''xa''" "trim_end_cr ''xb'' = ''xb''" by (subst trim_end_cr.simps, simp)+
    ultimately show ?thesis by (auto simp: decode_line_def demo_kit_def demo_decode_def)
  qed
  from torn_line_swallows_event[OF demo_codec_ok _ _ t e[unfolded demo_torn_def]] e show ?thesis
    by (simp add: ends_line_def)
qed

section \<open>Properties of the readers\<close>

text \<open>
  C30. Exactly once: a process that polls a growing log gets, over all its polls, the envelope of every
  readable complete line once and in order, however the appends and the reads cut the
  lines, no restart, and its offset stands behind the last complete line.  (Each read gives
  at least a byte, and the polls read on to the end of the file they found.)
\<close>

theorem tail_delivers_exactly_once:
  assumes "growing [] (map snd ps)" and "list_all (\<lambda>(gots, log). enough_reads gots log) ps" and "ps \<noteq> []"
  shows "tail_polls k ident ps \<lparr>tl_offset = 0, tl_identity = None\<rparr> =
    (\<lparr>tl_offset = bytes_of (complete_lines (snd (last ps))), tl_identity = Some ident\<rparr>,
     map TailEnvelope (tail_envelopes k (complete_lines (snd (last ps)))))"
  using tail_polls_lines[OF assms(1,2), of "\<lparr>tl_offset = 0, tl_identity = None\<rparr>" ident k] assms(3)
  by (auto simp: last_map)

theorem tail_delivers_exactly_once_witness:
  "tail_polls demo_kit (1, 7) [([1, 2], ''a''), ([1, 1, 3, 1], ''a'' @ newline # ''b''), ([4, 4, 4, 4], ''a'' @ newline # ''b'' @ [newline])]
     \<lparr>tl_offset = 0, tl_identity = None\<rparr> =
   (\<lparr>tl_offset = 4, tl_identity = Some (1, 7)\<rparr>, map TailEnvelope (tail_envelopes demo_kit [''a'', ''b'']))"
  using tail_delivers_exactly_once[of "[([1, 2], ''a''), ([1, 1, 3, 1], ''a'' @ newline # ''b''), ([4, 4, 4, 4], ''a'' @ newline # ''b'' @ [newline])]"
      demo_kit "(1, 7)"] demo_line(2)
  by (simp add: enough_reads_def)

text \<open>
  Resuming by cursor: a consumer that stopped behind some complete lines of a log and comes back
  with the text of its cursor is let in without a reset, whatever was appended since, and a batch of at
  most n lines gives it the next n complete lines, each readable one with the cursor behind it; the
  cursor it is left with again stands behind complete lines, so the next batch or the next
  session goes on from there.
\<close>

theorem ledger_resumes:
  assumes "epoch_ok epoch" and "ends_line p" and "length p < 2 ^ 64" and "enough_reads gots r"
    and "c = \<lparr>lc_epoch = epoch, lc_offset = length p\<rparr>"
  shows "ledger_open (Some (epoch, p @ r)) (Some (cursor_show c)) = (c, None) \<and>
    (\<exists>q s. r = q @ s \<and> ends_line (p @ q) \<and> complete_lines q = take n (complete_lines r) \<and>
       read_batch gots (Some (epoch, p @ r)) n c = (\<lparr>lc_epoch = epoch, lc_offset = length (p @ q)\<rparr>, ledger_lines (complete_lines q) c))"
proof -
  have "is_line_start (p @ r) (length p)"
    using assms(2) by (cases p rule: rev_cases) (auto simp: is_line_start_def ends_line_def)
  then have o: "ledger_open (Some (epoch, p @ r)) (Some (cursor_show c)) = (c, None)"
    using cursor_parse_show[of c] assms(1,3,5) by (simp add: ledger_open_def)
  obtain q s where q: "r = q @ s" "ends_line q" "length q = bytes_of (take n (complete_lines r))" "complete_lines s = drop n (complete_lines r)"
    using line_prefix[of r n] by blast
  have "complete_lines q @ complete_lines s = take n (complete_lines r) @ drop n (complete_lines r)"
    unfolding append_take_drop_id using complete_lines_append[OF q(2), of s] q(1) by simp
  then have cq: "complete_lines q = take n (complete_lines r)" unfolding q(4) append_same_eq .
  have "ends_line (p @ q)" using assms(2) q(2) by (auto simp: ends_line_def last_append)
  then show ?thesis
    using o q(1) q(3) cq read_batch_lines[of "p @ r" p r c epoch gots n] assms(4,5) unfolding enough_reads_def
    by (intro conjI exI[of _ q] exI[of _ s]) simp_all
qed

theorem ledger_resumes_witness:
  "ledger_open (Some (''1f'', ''a'' @ newline # ''b'' @ [newline])) (Some ''1f.2'') = (\<lparr>lc_epoch = ''1f'', lc_offset = 2\<rparr>, None)"
proof -
  have "enough_reads [9, 9] (''b'' @ [newline])" "epoch_ok ''1f''" "ends_line (''a'' @ [newline])"
    by (simp_all add: enough_reads_def epoch_ok_def is_ascii_hexdigit_def ends_line_def)
  moreover have "cursor_show \<lparr>lc_epoch = ''1f'', lc_offset = 2\<rparr> = ''1f.2''"
    by code_simp
  ultimately show ?thesis
    using ledger_resumes[of "''1f''" "''a'' @ [newline]" "[9, 9]" "''b'' @ [newline]" "\<lparr>lc_epoch = ''1f'', lc_offset = 2\<rparr>" 1] by simp
qed

text \<open>
  The head cursor of a log stands behind its last complete line, wherever the 8 KiB pieces of the backward
  search cut it; a consumer that starts there gets exactly the lines completed later.
\<close>

theorem head_skips_history:
  assumes "enough_reads gots (drop (bytes_of (complete_lines log)) log @ extra)"
  shows "lc_offset (ledger_head (Some (epoch, log))) = bytes_of (complete_lines log) \<and>
    complete_lines (log @ extra) = complete_lines log @ complete_lines (drop (bytes_of (complete_lines log)) log @ extra) \<and>
    snd (read_batch gots (Some (epoch, log @ extra)) n (ledger_head (Some (epoch, log)))) =
      ledger_lines (take n (drop (length (complete_lines log)) (complete_lines (log @ extra)))) (ledger_head (Some (epoch, log)))"
proof -
  let ?c = "ledger_head (Some (epoch, log))"
  obtain p r where p: "log = p @ r" "ends_line p" "length p = bytes_of (complete_lines log)" "complete_lines log = complete_lines p"
    using complete_lines_split[of log] by blast
  then have r: "drop (bytes_of (complete_lines log)) log = r" by (metis append_eq_conv_conj)
  have c: "?c = \<lparr>lc_epoch = epoch, lc_offset = length p\<rparr>"
    using last_line_boundary_complete[of "length log" log] p(3) by (simp add: ledger_head_def)
  have cl: "complete_lines (log @ extra) = complete_lines log @ complete_lines (r @ extra)"
    using complete_lines_append[OF p(2), of "r @ extra"] p(1,4) by simp
  show ?thesis
    using cl r c p(3) read_batch_lines[of "log @ extra" p "r @ extra" ?c epoch gots n] p(1) assms
    unfolding enough_reads_def by simp
qed

theorem head_skips_history_witness:
  "snd (read_batch [9, 9] (Some (''1f'', (''a'' @ newline # ''x'') @ [newline])) 5 (ledger_head (Some (''1f'', ''a'' @ newline # ''x'')))) =
     [LLine ''x'' \<lparr>lc_epoch = ''1f'', lc_offset = 4\<rparr>]"
proof -
  have c: "complete_lines (''a'' @ newline # ''x'') = [''a'']" "complete_lines ((''a'' @ newline # ''x'') @ [newline]) = [''a'', ''x'']"
    by (simp_all add: complete_lines_def)
  let ?h = "ledger_head (Some (''1f'', ''a'' @ newline # ''x''))"
  have H: "lc_offset ?h = 2 \<and> snd (read_batch [9, 9] (Some (''1f'', (''a'' @ newline # ''x'') @ [newline])) 5 ?h) = ledger_lines [''x''] ?h"
    using head_skips_history[of "[9, 9]" "''a'' @ newline # ''x''" "[newline]" "''1f''" 5] unfolding c
    by (auto simp: enough_reads_def simp del: ledger_lines.simps)
  moreover have "lc_epoch ?h = ''1f''" by (simp add: ledger_head_def)
  ultimately show ?thesis by (simp add: demo_letter Let_def)
qed

end
