(* ===== verification/DagPolicy.thy ===== *)
theory DagPolicy
  imports Plan GraphOps CriticalPath Store Formula
begin

text \<open>
  The dispatch policy of the runtime (\<open>cosmon-runtime/src/dag_policy.rs\<close>): it compiles the
  links of the stored molecules into a dependency graph, keeps an execution plan over it, and
  on every tick turns a snapshot of the store into the list of molecules to dispatch.  It is
  where the graph library (\<open>Plan\<close>, \<open>GraphOps\<close>, \<open>CriticalPath\<close>) meets the store and its frontier
  (\<open>Store\<close>).

  The record of a molecule is that of \<open>Store\<close>; the fields only the runtime reads are the record
  \<open>run_fields\<close> in its open end.  The order in which a hash set is iterated is the argument \<open>it\<close>.
  \<open>None\<close> as a result is a loop that does not end.
\<close>

section \<open>Data\<close>

datatype tackled_by = TackledHuman | TackledRuntime "32 word"

record 'y run_fields =
  rf_formula_id :: string
  rf_freeze_on_last_step :: bool
  rf_tackled_by :: "tackled_by option"
  rf_tackled_at :: "datetime option"
  rf_other :: 'y

type_synonym 'y mol = "'y run_fields molecule_data"

definition mark_tackled :: "datetime \<Rightarrow> tackled_by \<Rightarrow> 'y mol \<Rightarrow> 'y mol" where
  "mark_tackled now who m =
     m\<lparr>md_rest := (md_rest m)\<lparr>rf_tackled_by := Some who, rf_tackled_at := Some now\<rparr>, md_updated_at := now\<rparr>"

definition is_human_claimed :: "'y mol \<Rightarrow> bool" where
  "is_human_claimed m \<longleftrightarrow> rf_tackled_by (md_rest m) = Some TackledHuman"

datatype runtime_action =
  ANucleate string "(string \<times> string) list"
| AEvolve string string
| AComplete string string
| ACollapse string string
| ANoOp

type_synonym limit_key = "string \<times> nat"

record 'y dag_policy =
  dp_edges :: "string edges"
  dp_plan :: "string plan"
  dp_known :: "string set"
  dp_completed :: "string set"
  dp_evidence :: string
  dp_limits :: "(limit_key \<times> nat) list"
  dp_needs_recompile :: bool
  dp_affinity :: "('y mol \<Rightarrow> string option) option"
  dp_resident :: "string option"
  dp_switches_saved :: nat

definition policy_new :: "string plan \<Rightarrow> string edges \<Rightarrow> 'y dag_policy" where
  "policy_new pl es =
     \<lparr>dp_edges = es, dp_plan = pl, dp_known = set (edge_nodes es) \<union> plan_ready pl, dp_completed = {},
      dp_evidence = ''dag-policy: critical-path dispatch'', dp_limits = [], dp_needs_recompile = False,
      dp_affinity = None, dp_resident = None, dp_switches_saved = 0\<rparr>"

definition with_affinity :: "('y mol \<Rightarrow> string option) \<Rightarrow> 'y dag_policy \<Rightarrow> 'y dag_policy" where
  "with_affinity f p = p\<lparr>dp_affinity := Some f\<rparr>"

definition with_resident_model :: "string option \<Rightarrow> 'y dag_policy \<Rightarrow> 'y dag_policy" where
  "with_resident_model m p = p\<lparr>dp_resident := m\<rparr>"

definition with_limits :: "(limit_key \<times> nat) list \<Rightarrow> 'y dag_policy \<Rightarrow> 'y dag_policy" where
  "with_limits ls p = p\<lparr>dp_limits := ls\<rparr>"

definition with_evidence :: "string \<Rightarrow> 'y dag_policy \<Rightarrow> 'y dag_policy" where
  "with_evidence e p = p\<lparr>dp_evidence := e\<rparr>"

section \<open>Keeping the plan\<close>

definition rebuild_plan :: "(string list \<Rightarrow> string list) \<Rightarrow> 'y dag_policy \<Rightarrow> 'y dag_policy option" where
  "rebuild_plan it p =
     map_option (\<lambda>r. case r of Inr pl \<Rightarrow> p\<lparr>dp_plan := pl\<rparr> | Inl _ \<Rightarrow> p)
       (new_with_roots it (dp_edges p) (dp_completed p) (dp_known p))"

fun pre_complete :: "string list \<Rightarrow> 'y dag_policy \<Rightarrow> bool \<Rightarrow> bool \<times> 'y dag_policy" where
  "pre_complete [] p changed = (changed, p)"
| "pre_complete (i # is) p changed =
     (let p1 = p\<lparr>dp_known := insert i (dp_known p)\<rparr>
      in if i \<in> dp_completed p1 then pre_complete is p1 changed
         else pre_complete is
                (p1\<lparr>dp_completed := insert i (dp_completed p1), dp_plan := snd (mark_done (dp_plan p1) i)\<rparr>) True)"

definition with_pre_completed :: "(string list \<Rightarrow> string list) \<Rightarrow> string list \<Rightarrow> 'y dag_policy \<Rightarrow> 'y dag_policy option" where
  "with_pre_completed it is p =
     (let (changed, p1) = pre_complete is p False in if changed then rebuild_plan it p1 else Some p1)"

fun product_of :: "molecule_link \<Rightarrow> string option" where
  "product_of (DecayProduct i) = Some i"
| "product_of (Blocks t) = Some t"
| "product_of _ = None"

definition plan_done_of :: "string \<Rightarrow> 'y dag_policy \<Rightarrow> 'y dag_policy" where
  "plan_done_of i p = p\<lparr>dp_plan := snd (mark_done (dp_plan p) i)\<rparr>"

definition absorb_terminal ::
  "(string list \<Rightarrow> string list) \<Rightarrow> string \<Rightarrow> molecule_link list \<Rightarrow> 'y dag_policy \<Rightarrow> (bool \<times> 'y dag_policy) option" where
  "absorb_terminal it i ls p =
     (let p1 = p\<lparr>dp_completed := insert i (dp_completed p)\<rparr>;
          products = List.map_filter product_of ls
      in if products = [] then Some (False, plan_done_of i p1)
         else map_option
                (\<lambda>r. case r of
                   Inr merged \<Rightarrow> (True, p1\<lparr>dp_edges := merged, dp_known := dp_known p1 \<union> set products\<rparr>)
                 | Inl _ \<Rightarrow> (False, plan_done_of i p1))
                (insert_subgraph it (dp_edges p1) (map (\<lambda>q. (i, q)) products)))"

fun absorb_all ::
  "(string list \<Rightarrow> string list) \<Rightarrow> 'y mol list \<Rightarrow> bool \<Rightarrow> 'y dag_policy \<Rightarrow> (bool \<times> 'y dag_policy) option" where
  "absorb_all it [] spliced p = Some (spliced, p)"
| "absorb_all it (m # ms) spliced p =
     Option.bind (absorb_terminal it (md_id m) (typed_links m) p)
       (\<lambda>(s, p1). absorb_all it ms (spliced \<or> s) p1)"

definition gc :: "(string list \<Rightarrow> string list) \<Rightarrow> 'y dag_policy \<Rightarrow> 'y dag_policy option" where
  "gc it p =
     rebuild_plan it
       (p\<lparr>dp_edges := filter (\<lambda>(src, dst). \<not> (src \<in> dp_completed p \<and> dst \<in> dp_completed p)) (dp_edges p)\<rparr>)"

section \<open>One tick\<close>

definition counts_as_terminal :: "'y mol \<Rightarrow> bool" where
  "counts_as_terminal m =
     (case md_status m of
        Completed \<Rightarrow> True
      | Collapsed \<Rightarrow> True
      | Frozen \<Rightarrow> rf_freeze_on_last_step (md_rest m) \<and> stuck_at m = None
      | _ \<Rightarrow> False)"

definition newly_terminal :: "'y mol list \<Rightarrow> 'y dag_policy \<Rightarrow> 'y mol list" where
  "newly_terminal ms p =
     filter counts_as_terminal
       (List.map_filter (\<lambda>i. if i \<in> dp_completed p then None else by_id ms i) (sorted_list_of_set (dp_known p)))"

definition mol_key :: "'y mol \<Rightarrow> limit_key" where
  "mol_key m = (rf_formula_id (md_rest m), md_current_step m)"

fun running_per_key :: "'y mol list \<Rightarrow> (limit_key \<Rightarrow> nat option) \<Rightarrow> limit_key \<Rightarrow> nat option" where
  "running_per_key [] f = f"
| "running_per_key (m # ms) f =
     running_per_key ms
       (if md_status m = Running then f(mol_key m := Some ((case f (mol_key m) of Some n \<Rightarrow> n | None \<Rightarrow> 0) + 1)) else f)"

fun admit_within_limits ::
  "(limit_key \<Rightarrow> nat option) \<Rightarrow> (string \<Rightarrow> 'y mol option) \<Rightarrow> (limit_key \<Rightarrow> nat option) \<Rightarrow> string list \<Rightarrow> string list" where
  "admit_within_limits caps snap running [] = []"
| "admit_within_limits caps snap running (i # is) =
     (case snap i of
        None \<Rightarrow> admit_within_limits caps snap running is
      | Some m \<Rightarrow>
          (case caps (mol_key m) of
             None \<Rightarrow> i # admit_within_limits caps snap running is
           | Some cap \<Rightarrow>
               (let now = (case running (mol_key m) of Some n \<Rightarrow> n | None \<Rightarrow> 0)
                in if now < cap
                   then i # admit_within_limits caps snap (running(mol_key m := Some (now + 1))) is
                   else admit_within_limits caps snap running is)))"

definition affinity_reorder :: "'y mol list \<Rightarrow> string list \<Rightarrow> 'y dag_policy \<Rightarrow> string list \<times> 'y dag_policy" where
  "affinity_reorder ms eligible p =
     (case dp_affinity p of
        None \<Rightarrow> (eligible, p)
      | Some resolve \<Rightarrow>
          (let model_of = (\<lambda>i. Option.bind (by_id ms i) resolve);
               naive = model_switch_count eligible model_of (dp_resident p);
               ordered = affinity_order eligible model_of (dp_resident p);
               clustered = model_switch_count ordered model_of (dp_resident p);
               p1 = p\<lparr>dp_switches_saved := dp_switches_saved p + (naive - clustered)\<rparr>
           in (ordered,
               case (if ordered = [] then None else model_of (last ordered)) of
                 Some m \<Rightarrow> p1\<lparr>dp_resident := Some m\<rparr>
               | None \<Rightarrow> p1)))"

definition eligible_now :: "'y mol list \<Rightarrow> string set \<Rightarrow> 'y dag_policy \<Rightarrow> string list" where
  "eligible_now ms critical p =
     (let eligible = sort_key (\<lambda>i. (i \<notin> critical, i))
            (filter (\<lambda>i. i \<in> set (compute_from_molecules ms)) (sorted_list_of_set (plan_ready (dp_plan p))))
      in if dp_limits p = [] then eligible
         else admit_within_limits (map_of (dp_limits p)) (by_id ms) (running_per_key ms (\<lambda>_. None)) eligible)"

definition mark_pending_ready :: "'y mol list \<Rightarrow> 'y dag_policy \<Rightarrow> 'y dag_policy" where
  "mark_pending_ready ms p =
     p\<lparr>dp_plan := fold (\<lambda>m pl. if md_status m = Pending then mark_ready pl (md_id m) else pl) ms (dp_plan p)\<rparr>"

definition dispatch_marked :: "string list \<Rightarrow> 'y dag_policy \<Rightarrow> runtime_action list \<times> 'y dag_policy" where
  "dispatch_marked is p =
     (map (\<lambda>i. AEvolve i (dp_evidence p)) is, p\<lparr>dp_plan := fold (\<lambda>i pl. mark_running pl i) is (dp_plan p)\<rparr>)"

definition next_actions ::
  "(string list \<Rightarrow> string list) \<Rightarrow> 'y mol list \<Rightarrow> 'y dag_policy \<Rightarrow> (runtime_action list \<times> 'y dag_policy) option" where
  "next_actions it ms p =
     (let p1 = mark_pending_ready ms p
      in Option.bind (absorb_all it (newly_terminal ms p1) False p1) (\<lambda>(needs_rebuild, p2).
         Option.bind (if needs_rebuild then rebuild_plan it (p2\<lparr>dp_needs_recompile := True\<rparr>) else Some p2) (\<lambda>p3.
         map_option (\<lambda>r.
           let critical = (case r of Inl _ \<Rightarrow> {} | Inr path \<Rightarrow> set path);
               (ordered, p4) = affinity_reorder ms (eligible_now ms critical p3) p3
           in dispatch_marked ordered p4)
           (critical_path_weighted it (dp_edges p3) (\<lambda>_. 1)))))"

definition tracks_molecule :: "'y dag_policy \<Rightarrow> string \<Rightarrow> bool" where
  "tracks_molecule p i \<longleftrightarrow> i \<in> dp_known p"

section \<open>Compiling the graph from the store\<close>

fun blocks_target :: "molecule_link \<Rightarrow> string option" where
  "blocks_target (Blocks t) = Some t"
| "blocks_target _ = None"

fun decay_product_id :: "molecule_link \<Rightarrow> string option" where
  "decay_product_id (DecayProduct i) = Some i"
| "decay_product_id _ = None"

definition neighbours :: "'x molecule_data \<Rightarrow> string list" where
  "neighbours m = blocked_by m @ List.map_filter blocks_target (typed_links m) @ List.map_filter decay_product_id (typed_links m)"

definition enqueue_new :: "string list \<Rightarrow> string set \<times> string list \<Rightarrow> string set \<times> string list" where
  "enqueue_new is vq = foldl (\<lambda>(v, q) i. if i \<in> v then (v, q) else (insert i v, q @ [i])) vq is"

type_synonym loaded_links = "(string \<times> molecule_link list) list"

partial_function (option) compile_walk ::
  "(string \<Rightarrow> cosmon_error + 'x molecule_data) \<Rightarrow> string set \<Rightarrow> string list \<Rightarrow> loaded_links \<Rightarrow> (cosmon_error + loaded_links) option" where
  "compile_walk load visited queue loaded =
     (case queue of
        [] \<Rightarrow> Some (Ok loaded)
      | i # q \<Rightarrow>
          (case load i of
             Inl (MoleculeNotFound j) \<Rightarrow> compile_walk load visited q loaded
           | Inl (StoreFailure e) \<Rightarrow> Some (Err (StoreFailure e))
           | Inr m \<Rightarrow>
               (let (v', q') = enqueue_new (neighbours m) (visited, q)
                in compile_walk load v' q' (AList.update i (typed_links m) loaded))))"

declare compile_walk.simps [code] kahn.simps [code] walk_parents.simps [code]

definition link_edges :: "loaded_links \<Rightarrow> string \<Rightarrow> molecule_link \<Rightarrow> string edges" where
  "link_edges loaded i l =
     (case l of
        BlockedBy s \<Rightarrow> if map_of loaded s \<noteq> None then [(s, i)] else []
      | Blocks t \<Rightarrow>
          (case map_of loaded t of
             None \<Rightarrow> []
           | Some ls \<Rightarrow> if BlockedBy i \<in> set ls then [] else [(i, t)])
      | DecayProduct c \<Rightarrow> if map_of loaded c \<noteq> None then [(i, c)] else []
      | _ \<Rightarrow> [])"

definition compiled_edges :: "loaded_links \<Rightarrow> string edges" where
  "compiled_edges loaded =
     concat (map (\<lambda>i. concat (map (link_edges loaded i) (case map_of loaded i of Some ls \<Rightarrow> ls | None \<Rightarrow> [])))
       (sort (map fst loaded)))"

definition compile_plan ::
  "(string list \<Rightarrow> string list) \<Rightarrow> (string \<Rightarrow> cosmon_error + 'x molecule_data) \<Rightarrow> string list
     \<Rightarrow> (cosmon_error + string plan \<times> string edges) option" where
  "compile_plan it load roots =
     (let (v, q) = enqueue_new roots ({}, [])
      in Option.bind (compile_walk load v q []) (\<lambda>r.
         case r of
           Inl e \<Rightarrow> Some (Err e)
         | Inr loaded \<Rightarrow>
             (let es = compiled_edges loaded
              in map_option
                   (\<lambda>s. case s of
                      Inl (CycleError n) \<Rightarrow> Err (StoreFailure (''dependency cycle in compiled DAG at molecule '' @ n))
                    | Inr pl \<Rightarrow> Ok (pl, es))
                   (new_with_roots it es {} {i \<in> set roots. map_of loaded i \<noteq> None}))))"

definition recompile ::
  "(string list \<Rightarrow> string list) \<Rightarrow> (string \<Rightarrow> cosmon_error + 'y mol) \<Rightarrow> 'y dag_policy \<Rightarrow> (cosmon_error + 'y dag_policy) option" where
  "recompile it load p =
     Option.bind (compile_plan it load (it (sorted_list_of_set (dp_known p)))) (\<lambda>r.
       case r of
         Inl e \<Rightarrow> Some (Err e)
       | Inr (_, es) \<Rightarrow>
           map_option (\<lambda>p1. Ok (p1\<lparr>dp_needs_recompile := False\<rparr>))
             (rebuild_plan it (p\<lparr>dp_known := dp_known p \<union> set (edge_nodes es), dp_edges := es\<rparr>)))"

fun references_known :: "string set \<Rightarrow> molecule_link \<Rightarrow> bool" where
  "references_known known (BlockedBy s) = (s \<in> known)"
| "references_known known (DecayProduct i) = (i \<in> known)"
| "references_known known _ = False"

definition adopt :: "'y mol \<Rightarrow> 'y dag_policy \<Rightarrow> 'y dag_policy" where
  "adopt m p =
     (if (md_status m = Pending \<or> md_status m = Running) \<and> list_ex (references_known (dp_known p)) (typed_links m)
      then p\<lparr>dp_known := insert (md_id m) (dp_known p)\<rparr> else p)"

definition refresh_scope ::
  "(string list \<Rightarrow> string list) \<Rightarrow> (string \<Rightarrow> cosmon_error + 'y mol) \<Rightarrow> (cosmon_error + 'y mol list) \<Rightarrow> 'y dag_policy
     \<Rightarrow> (cosmon_error + 'y dag_policy) option \<times> 'y dag_policy" where
  "refresh_scope it load listing p =
     (case listing of
        Inl e \<Rightarrow> (Some (Err e), p)
      | Inr all \<Rightarrow> (let p1 = fold adopt all p in (recompile it load p1, p1)))"

section \<open>The invariant\<close>

text \<open>The plan is one over the policy's graph whose finished nodes are the completed molecules.\<close>

definition plan_fits :: "'y dag_policy \<Rightarrow> bool" where
  "plan_fits p \<longleftrightarrow>
     plan_inv (dp_edges p) (plan_skipped (dp_plan p)) (dp_known p) (dp_plan p) \<and> satisfied (dp_plan p) = dp_completed p"

definition graph_ok :: "'y dag_policy \<Rightarrow> bool" where
  "graph_ok p \<longleftrightarrow> acyclic (set (dp_edges p)) \<and> finite (dp_known p) \<and> nodes (dp_edges p) \<subseteq> dp_known p"

definition policy_inv :: "'y dag_policy \<Rightarrow> bool" where
  "policy_inv p \<longleftrightarrow> graph_ok p \<and> plan_fits p"

lemma rebuild_plan_fits:
  assumes "hash_order it" and "graph_ok p"
  obtains pl where "rebuild_plan it p = Some (p\<lparr>dp_plan := pl\<rparr>)" and "policy_inv (p\<lparr>dp_plan := pl\<rparr>)"
    and "plan_running pl = {}"
proof -
  define pl where "pl = \<lparr>plan_edges = dp_edges p,
          plan_ready = {n \<in> dp_known p \<union> nodes (dp_edges p). n \<notin> dp_completed p \<and> preds (dp_edges p) n \<subseteq> dp_completed p},
          plan_running = {}, plan_done = {}, plan_skipped = dp_completed p\<rparr>"
  have ac: "acyclic (set (dp_edges p))" using assms(2) by (simp add: graph_ok_def)
  then have n: "new_with_roots it (dp_edges p) (dp_completed p) (dp_known p) = Some (Ok pl)"
    using new_with_roots_iff[OF assms(1), of "dp_edges p" "dp_completed p" "dp_known p" pl] by (simp add: pl_def)
  have i: "plan_inv (dp_edges p) (dp_completed p) (dp_known p) pl"
    by (rule plan_inv_init[unfolded plan_init_def]) (use n assms(1) in blast)
  show ?thesis
  proof (rule that)
    show "rebuild_plan it p = Some (p\<lparr>dp_plan := pl\<rparr>)" by (simp add: rebuild_plan_def n)
    have "satisfied pl = dp_completed p" "plan_skipped pl = dp_completed p" by (simp_all add: pl_def satisfied_def)
    then show "policy_inv (p\<lparr>dp_plan := pl\<rparr>)"
      using i assms(2) by (simp add: policy_inv_def plan_fits_def graph_ok_def)
    show "plan_running pl = {}" by (simp add: pl_def)
  qed
qed

lemma satisfied_mark_done: "satisfied (snd (mark_done pl i)) = insert i (satisfied pl)"
  by (auto simp: mark_done_def satisfied_def Let_def)

lemma skipped_mark_done [simp]: "plan_skipped (snd (mark_done pl i)) = plan_skipped pl"
  by (simp add: mark_done_def Let_def)

lemma plan_done_fits:
  assumes "plan_fits p"
  shows "plan_fits (plan_done_of i (p\<lparr>dp_completed := insert i (dp_completed p)\<rparr>))"
  using assms plan_inv_mark_done[of "dp_edges p" "plan_skipped (dp_plan p)" "dp_known p" "dp_plan p" i]
  by (simp add: plan_fits_def plan_done_of_def satisfied_mark_done)

text \<open>What absorbing finished molecules leaves alone, and what it adds.\<close>

definition absorbed :: "string set \<Rightarrow> 'y dag_policy \<Rightarrow> 'y dag_policy \<Rightarrow> bool" where
  "absorbed S p q \<longleftrightarrow>
     dp_completed q = dp_completed p \<union> S \<and> dp_known p \<subseteq> dp_known q \<and> set (dp_edges p) \<subseteq> set (dp_edges q) \<and>
     dp_evidence q = dp_evidence p \<and> dp_limits q = dp_limits p \<and> dp_affinity q = dp_affinity p \<and> dp_resident q = dp_resident p \<and>
     dp_switches_saved q = dp_switches_saved p"

lemma absorbed_refl [simp]: "absorbed {} p p"
  by (simp add: absorbed_def)

lemma absorbed_trans: "absorbed S p q \<Longrightarrow> absorbed T q r \<Longrightarrow> absorbed (S \<union> T) p r"
  by (auto simp: absorbed_def)

lemma nodes_edges: "nodes es = fst ` set es \<union> snd ` set es"
  by (force simp: nodes_def elim: edge_nodes.elims)

lemma absorb_terminal_ok:
  assumes it: "hash_order it" and g: "graph_ok p" and k: "i \<in> dp_known p"
  obtains s q where "absorb_terminal it i ls p = Some (s, q)" and "graph_ok q" and "absorbed {i} p q"
    and "\<not> s \<Longrightarrow> plan_fits p \<Longrightarrow> plan_fits q" and "\<not> s \<Longrightarrow> dp_edges q = dp_edges p \<and> dp_known q = dp_known p"
proof -
  let ?p1 = "p\<lparr>dp_completed := insert i (dp_completed p)\<rparr>" and ?ps = "List.map_filter product_of ls"
  let ?new = "map (\<lambda>q. (i, q)) ?ps"
  have fin: "graph_ok (plan_done_of i ?p1)" "absorbed {i} p (plan_done_of i ?p1)"
    "plan_fits p \<Longrightarrow> plan_fits (plan_done_of i ?p1)" "dp_edges (plan_done_of i ?p1) = dp_edges p" "dp_known (plan_done_of i ?p1) = dp_known p"
    using g plan_done_fits[of p i] by (simp_all add: graph_ok_def absorbed_def plan_done_of_def)
  consider (none) "?ps = []" | (ok) "?ps \<noteq> []" "acyclic (set (dp_edges p) \<union> set ?new)"
    | (cyc) "?ps \<noteq> []" "\<not> acyclic (set (dp_edges p) \<union> set ?new)" by blast
  then show ?thesis
  proof cases
    case none
    then show ?thesis using fin by (intro that[of False "plan_done_of i ?p1"]) (simp_all add: absorb_terminal_def)
  next
    case ok
    let ?m = "sorted_list_of_set (set (dp_edges p) \<union> set ?new)"
    let ?q = "?p1\<lparr>dp_edges := ?m, dp_known := dp_known p \<union> set ?ps\<rparr>"
    have m: "insert_subgraph it (dp_edges p) ?new = Some (Ok ?m)" using insert_subgraph_correct[OF it, of "dp_edges p" ?new] ok(2) by blast
    have "nodes ?m \<subseteq> dp_known p \<union> set ?ps" using g k unfolding graph_ok_def nodes_edges by auto
    then have "graph_ok ?q" using g ok(2) by (simp add: graph_ok_def)
    then show ?thesis using m ok(1) by (intro that[of True ?q]) (auto simp: absorb_terminal_def absorbed_def Let_def)
  next
    case cyc
    then obtain e where "insert_subgraph it (dp_edges p) ?new = Some (Err e)" using insert_subgraph_correct[OF it, of "dp_edges p" ?new] by auto
    then show ?thesis using cyc(1) fin by (intro that[of False "plan_done_of i ?p1"]) (simp_all add: absorb_terminal_def)
  qed
qed

lemma absorb_all_ok:
  assumes "hash_order it" and "graph_ok p" and "md_id ` set ms \<subseteq> dp_known p" and "\<not> spliced \<Longrightarrow> plan_fits p"
  obtains s q where "absorb_all it ms spliced p = Some (s, q)" and "graph_ok q" and "absorbed (md_id ` set ms) p q"
    and "\<not> s \<Longrightarrow> plan_fits q" and "\<not> s \<Longrightarrow> \<not> spliced \<and> dp_edges q = dp_edges p \<and> dp_known q = dp_known p"
  using assms(2-4)
proof (induction ms arbitrary: p spliced thesis)
  case Nil
  then show ?case by (intro Nil(1)[of spliced p]) simp_all
next
  case (Cons m ms)
  obtain s q where q: "absorb_terminal it (md_id m) (typed_links m) p = Some (s, q)" "graph_ok q" "absorbed {md_id m} p q"
    "\<not> s \<Longrightarrow> plan_fits p \<Longrightarrow> plan_fits q" "\<not> s \<Longrightarrow> dp_edges q = dp_edges p \<and> dp_known q = dp_known p"
    using absorb_terminal_ok[OF assms(1) Cons.prems(2), of "md_id m" "typed_links m"] Cons.prems(3) by auto
  have k: "md_id ` set ms \<subseteq> dp_known q" using q(3) Cons.prems(3) by (auto simp: absorbed_def)
  have f: "\<not> (spliced \<or> s) \<Longrightarrow> plan_fits q" using q(4) Cons.prems(4) by blast
  obtain t r where r: "absorb_all it ms (spliced \<or> s) q = Some (t, r)" "graph_ok r" "absorbed (md_id ` set ms) q r"
    "\<not> t \<Longrightarrow> plan_fits r" "\<not> t \<Longrightarrow> \<not> (spliced \<or> s) \<and> dp_edges r = dp_edges q \<and> dp_known r = dp_known q"
    using Cons.IH[OF _ q(2) k f] by blast
  have "absorbed (md_id ` set (m # ms)) p r" using absorbed_trans[OF q(3) r(3)] by simp
  then show ?case using q(1,5) r by (intro Cons.prems(1)[of t r]) auto
qed

section \<open>What a tick does\<close>

lemma in_map_filter: "x \<in> set (List.map_filter f xs) \<longleftrightarrow> (\<exists>y\<in>set xs. f y = Some x)"
  by (force simp: List.map_filter_def)

lemma newly_terminal_iff:
  assumes "distinct (map md_id ms)" and "finite (dp_known p)"
  shows "m \<in> set (newly_terminal ms p) \<longleftrightarrow> m \<in> set ms \<and> md_id m \<in> dp_known p - dp_completed p \<and> counts_as_terminal m"
proof -
  have "m \<in> set (List.map_filter (\<lambda>i. if i \<in> dp_completed p then None else by_id ms i) (sorted_list_of_set (dp_known p))) \<longleftrightarrow>
      (\<exists>i\<in>dp_known p. i \<notin> dp_completed p \<and> by_id ms i = Some m)"
    using assms(2) by (auto simp: in_map_filter split: if_splits)
  also have "\<dots> \<longleftrightarrow> m \<in> set ms \<and> md_id m \<in> dp_known p - dp_completed p"
    unfolding by_id_distinct[OF assms(1)] by blast
  finally show ?thesis by (auto simp: newly_terminal_def)
qed

lemma by_id_SomeD: "by_id ms i = Some m \<Longrightarrow> m \<in> set ms \<and> md_id m = i"
  by (auto simp: by_id_def dest: map_of_SomeD)

lemma newly_terminal_sub:
  "set (newly_terminal ms p) \<subseteq> set ms" "finite (dp_known p) \<Longrightarrow> md_id ` set (newly_terminal ms p) \<subseteq> dp_known p"
  using by_id_SomeD by (fastforce simp: newly_terminal_def in_map_filter split: if_splits)+

lemma mark_ready_fits: "plan_fits p \<Longrightarrow> plan_fits (p\<lparr>dp_plan := mark_ready (dp_plan p) i\<rparr>)"
  using plan_inv_mark_ready[of "dp_edges p" "plan_skipped (dp_plan p)" "dp_known p" "dp_plan p" i]
  by (auto simp: plan_fits_def mark_ready_def satisfied_def)

lemma mark_running_fits: "plan_fits p \<Longrightarrow> plan_fits (p\<lparr>dp_plan := mark_running (dp_plan p) i\<rparr>)"
  using plan_inv_mark_running[of "dp_edges p" "plan_skipped (dp_plan p)" "dp_known p" "dp_plan p" i]
  by (auto simp: plan_fits_def mark_running_def satisfied_def)

lemma fold_plan_fits:
  fixes p :: "'y dag_policy"
  assumes "\<And>x q. plan_fits (q :: 'y dag_policy) \<Longrightarrow> plan_fits (q\<lparr>dp_plan := f x (dp_plan q)\<rparr>)" and "plan_fits p"
  shows "plan_fits (p\<lparr>dp_plan := fold f xs (dp_plan p)\<rparr>)"
  using assms(2)
proof (induction xs arbitrary: p)
  case (Cons x xs)
  from Cons.IH[OF assms(1)[OF Cons.prems, of x]] show ?case by simp
qed simp

lemma mark_pending_fits: "plan_fits p \<Longrightarrow> plan_fits (mark_pending_ready ms p)"
  unfolding mark_pending_ready_def by (rule fold_plan_fits) (auto intro: mark_ready_fits)

lemma mark_pending_frame [simp]:
  "dp_edges (mark_pending_ready ms p) = dp_edges p" "dp_known (mark_pending_ready ms p) = dp_known p"
  "dp_completed (mark_pending_ready ms p) = dp_completed p" "graph_ok (mark_pending_ready ms p) = graph_ok p"
  by (simp_all add: mark_pending_ready_def graph_ok_def)

lemma absorbed_pending: "absorbed S (mark_pending_ready ms p) q = absorbed S p q"
  by (simp add: absorbed_def mark_pending_ready_def)

lemma fold_ready_running:
  "plan_running (fold (\<lambda>m pl. if md_status m = Pending then mark_ready pl (md_id m) else pl) ms pl) =
     plan_running pl - md_id ` {m \<in> set ms. md_status m = Pending}"
  by (induction ms arbitrary: pl) (auto simp: mark_ready_def)

lemma mark_pending_running: "m \<in> set ms \<Longrightarrow> md_status m = Pending \<Longrightarrow> md_id m \<notin> plan_running (dp_plan (mark_pending_ready ms p))"
  by (auto simp: mark_pending_ready_def fold_ready_running)

text \<open>Absorbing marks plan nodes as done and leaves the running ones alone otherwise.\<close>

lemma mark_done_running: "plan_running (snd (mark_done pl i)) \<subseteq> plan_running pl"
  by (auto simp: mark_done_def Let_def)

lemma absorb_terminal_running:
  assumes "absorb_terminal it i ls p = Some (s, q)"
  shows "plan_running (dp_plan q) \<subseteq> plan_running (dp_plan p)"
proof -
  have "dp_plan q = dp_plan p \<or> dp_plan q = snd (mark_done (dp_plan p) i)"
  proof (cases "insert_subgraph it (dp_edges p) (map (Pair i) (List.map_filter product_of ls))")
    case (Some r)
    then show ?thesis using assms unfolding absorb_terminal_def plan_done_of_def Let_def
      by (cases r) (auto split: if_split_asm)
  qed (use assms in \<open>auto simp: absorb_terminal_def plan_done_of_def Let_def split: if_split_asm\<close>)
  then show ?thesis using mark_done_running[of "dp_plan p" i] by auto
qed

lemma absorb_all_running:
  "absorb_all it ms sp p = Some (s, q) \<Longrightarrow> plan_running (dp_plan q) \<subseteq> plan_running (dp_plan p)"
proof (induction it ms sp p rule: absorb_all.induct)
  case (2 it m ms sp p)
  then obtain t r where "absorb_terminal it (md_id m) (typed_links m) p = Some (t, r)" "absorb_all it ms (sp \<or> t) r = Some (s, q)"
    by (auto simp: bind_eq_Some_conv)
  with 2 absorb_terminal_running show ?case by (metis subset_trans)
qed simp

lemma set_admit: "set (admit_within_limits caps snap run is) \<subseteq> set is"
proof (induction "is" arbitrary: run)
  case (Cons i "is")
  then have "set (admit_within_limits caps snap r is) \<subseteq> set (i # is)" for r by (meson order_trans set_subset_Cons)
  then show ?case by (simp add: Let_def split: option.splits)
qed simp

lemma distinct_admit: "distinct is \<Longrightarrow> distinct (admit_within_limits caps snap run is)"
proof (induction "is" arbitrary: run)
  case (Cons i "is")
  then have "distinct (admit_within_limits caps snap r is)" "i \<notin> set (admit_within_limits caps snap r is)" for r
    using set_admit[of caps snap r "is"] by auto
  then show ?case by (simp add: Let_def split: option.splits)
qed simp

lemma eligible_facts:
  assumes "finite (plan_ready (dp_plan p))"
  shows "distinct (eligible_now ms crit p)"
    and "set (eligible_now ms crit p) \<subseteq> set (compute_from_molecules ms) \<inter> plan_ready (dp_plan p)"
    and "dp_limits p = [] \<Longrightarrow> set (eligible_now ms crit p) = set (compute_from_molecules ms) \<inter> plan_ready (dp_plan p)"
proof -
  let ?es = "sort_key (\<lambda>i. (i \<notin> crit, i)) (filter (\<lambda>i. i \<in> set (compute_from_molecules ms)) (sorted_list_of_set (plan_ready (dp_plan p))))"
  have d: "distinct ?es" "set ?es = set (compute_from_molecules ms) \<inter> plan_ready (dp_plan p)" using assms by auto
  show "distinct (eligible_now ms crit p)" using d(1) distinct_admit[OF d(1), of "map_of (dp_limits p)" "by_id ms" "running_per_key ms (\<lambda>_. None)"] by (simp add: eligible_now_def Let_def)
  show "set (eligible_now ms crit p) \<subseteq> set (compute_from_molecules ms) \<inter> plan_ready (dp_plan p)"
    using d(2) set_admit[of "map_of (dp_limits p)" "by_id ms" "running_per_key ms (\<lambda>_. None)" ?es] by (simp add: eligible_now_def Let_def)
  show "dp_limits p = [] \<Longrightarrow> set (eligible_now ms crit p) = set (compute_from_molecules ms) \<inter> plan_ready (dp_plan p)"
    using d(2) by (simp add: eligible_now_def Let_def)
qed

lemma reorder_facts:
  assumes "affinity_reorder ms is p = (ordered, q)"
  shows "mset ordered = mset is" and "dp_plan q = dp_plan p" and "dp_edges q = dp_edges p" and "dp_known q = dp_known p"
    and "dp_completed q = dp_completed p" and "dp_limits q = dp_limits p" and "dp_evidence q = dp_evidence p"
  using assms affinity_order_mset by (auto simp: affinity_reorder_def Let_def split: option.splits)

lemma critical_returns:
  assumes "hash_order it" and "acyclic (set es)" and "card (nodes es) < 2 ^ 64"
  shows "\<exists>path. critical_path_weighted it es (\<lambda>_. 1) = Some (Ok path)"
proof (cases "es = []")
  case True
  from toposort_acyclic[OF assms(1,2)] obtain ord where "toposort it es = Some (Ok ord)" "set ord = nodes es" .
  then show ?thesis using True by (simp add: critical_path_weighted_def nodes_def)
next
  case False
  have "total_weight es (\<lambda>_. 1) < 2 ^ 64" using assms(3) by (simp add: total_weight_def)
  from critical_path_weighted_run[OF assms(1,2) this False] show ?thesis by metis
qed

lemma ready_finite: "policy_inv p \<Longrightarrow> finite (plan_ready (dp_plan p))"
  by (auto simp: policy_inv_def graph_ok_def plan_fits_def plan_inv_def intro: finite_subset)

text \<open>
  A tick in terms of its parts: the policy \<open>q\<close> the choice is made in, the chosen molecules and their
  order, and the marks it leaves.
\<close>

lemma next_actions_parts:
  assumes "hash_order it" and "policy_inv p"
    and "next_actions it ms p = Some (acts, p')"
  obtains q crit ordered q' where "policy_inv q"
    and "absorbed (md_id ` set (newly_terminal ms p)) p q"
    and "\<And>m. m \<in> set ms \<Longrightarrow> md_status m = Pending \<Longrightarrow> md_id m \<notin> plan_running (dp_plan q)"
    and "mset ordered = mset (eligible_now ms crit q)" and "affinity_reorder ms (eligible_now ms crit q) q = (ordered, q')"
    and "acts = map (\<lambda>i. AEvolve i (dp_evidence p)) ordered"
    and "p' = q'\<lparr>dp_plan := fold (\<lambda>i pl. mark_running pl i) ordered (dp_plan q)\<rparr>" and "policy_inv p'"
proof -
  let ?p1 = "mark_pending_ready ms p"
  let ?T = "md_id ` set (newly_terminal ms p)"
  have g: "graph_ok p" and f: "plan_fits ?p1" and fin: "finite (dp_known p)"
    using assms(2) mark_pending_fits by (auto simp: policy_inv_def graph_ok_def)
  have nt: "md_id ` set (newly_terminal ms ?p1) = ?T"
    by (simp add: newly_terminal_def)
  obtain s p2 where a: "absorb_all it (newly_terminal ms ?p1) False ?p1 = Some (s, p2)" "graph_ok p2" "absorbed ?T p p2"
    "\<not> s \<Longrightarrow> plan_fits p2"
  proof -
    have k: "md_id ` set (newly_terminal ms ?p1) \<subseteq> dp_known ?p1" unfolding nt using newly_terminal_sub(2)[OF fin] by simp
    have g1: "graph_ok ?p1" and f1: "\<not> False \<Longrightarrow> plan_fits ?p1" using g f by simp_all
    show ?thesis by (rule absorb_all_ok[OF assms(1) g1 k f1, of False]) (auto simp: nt absorbed_pending intro: that)
  qed
  obtain q where q: "(if s then rebuild_plan it (p2\<lparr>dp_needs_recompile := True\<rparr>) else Some p2) = Some q" "policy_inv q"
    "absorbed ?T p q" "\<And>m. m \<in> set ms \<Longrightarrow> md_status m = Pending \<Longrightarrow> md_id m \<notin> plan_running (dp_plan q)"
  proof (cases s)
    case True
    have "graph_ok (p2\<lparr>dp_needs_recompile := True\<rparr>)" using a(2) by (simp add: graph_ok_def)
    from rebuild_plan_fits[OF assms(1) this] obtain pl where
      pl: "rebuild_plan it (p2\<lparr>dp_needs_recompile := True\<rparr>) = Some (p2\<lparr>dp_needs_recompile := True, dp_plan := pl\<rparr>)"
      "policy_inv (p2\<lparr>dp_needs_recompile := True, dp_plan := pl\<rparr>)" "plan_running pl = {}" by auto
    then show ?thesis using True a(3) by (intro that[of "p2\<lparr>dp_needs_recompile := True, dp_plan := pl\<rparr>"]) (simp_all add: absorbed_def)
  next
    case False
    then show ?thesis using a absorb_all_running[OF a(1)] mark_pending_running
      by (intro that[of p2]) (auto simp: policy_inv_def)
  qed
  obtain r where r: "critical_path_weighted it (dp_edges q) (\<lambda>_. 1) = Some r"
    using assms(3) a(1) q(1) by (auto simp: next_actions_def Let_def)
  define crit where "crit = (case r of Inl _ \<Rightarrow> {} | Inr path \<Rightarrow> set path)"
  obtain ordered q' where o: "affinity_reorder ms (eligible_now ms crit q) q = (ordered, q')" by fastforce
  note R = reorder_facts[OF o]
  have n: "next_actions it ms p = Some (dispatch_marked ordered q')"
    using a(1) q(1) r o by (simp add: next_actions_def Let_def crit_def)
  then have acts: "acts = map (\<lambda>i. AEvolve i (dp_evidence p)) ordered"
    and p': "p' = q'\<lparr>dp_plan := fold (\<lambda>i pl. mark_running pl i) ordered (dp_plan q)\<rparr>"
    using assms(3) R q(3) by (simp_all add: dispatch_marked_def absorbed_def)
  have "plan_fits q'" using q(2) R by (simp add: policy_inv_def plan_fits_def)
  then have "plan_fits (q'\<lparr>dp_plan := fold (\<lambda>i pl. mark_running pl i) ordered (dp_plan q')\<rparr>)"
    by (rule fold_plan_fits[rotated]) (rule mark_running_fits)
  then have "policy_inv p'" using q(2) R unfolding p' by (simp add: policy_inv_def graph_ok_def plan_fits_def)
  then show ?thesis using q R(1) o acts p' by (intro that[of q ordered crit q']) simp_all
qed

section \<open>A tick returns\<close>

definition products :: "'x molecule_data list \<Rightarrow> string set" where
  "products ms = (\<Union>m\<in>set ms. set (List.map_filter product_of (typed_links m)))"

lemma absorb_terminal_known:
  assumes "absorb_terminal it i ls p = Some (s, q)"
  shows "dp_known q \<subseteq> dp_known p \<union> set (List.map_filter product_of ls)"
proof (cases "insert_subgraph it (dp_edges p) (map (Pair i) (List.map_filter product_of ls))")
  case (Some r)
  then show ?thesis using assms unfolding absorb_terminal_def plan_done_of_def Let_def
    by (cases r) (auto split: if_split_asm)
qed (use assms in \<open>auto simp: absorb_terminal_def plan_done_of_def Let_def split: if_split_asm\<close>)

lemma absorb_all_known: "absorb_all it ms sp p = Some (s, q) \<Longrightarrow> dp_known q \<subseteq> dp_known p \<union> products ms"
proof (induction ms arbitrary: sp p)
  case (Cons m ms)
  then obtain t r where r: "absorb_terminal it (md_id m) (typed_links m) p = Some (t, r)" "absorb_all it ms (sp \<or> t) r = Some (s, q)"
    by (auto simp: bind_eq_Some_conv)
  have "products (m # ms) = set (List.map_filter product_of (typed_links m)) \<union> products ms" by (simp add: products_def)
  then show ?case using Cons.IH[OF r(2)] absorb_terminal_known[OF r(1)] by blast
qed simp

lemma finite_products [simp]: "finite (products ms)"
  by (simp add: products_def)

lemma next_actions_returns:
  assumes "hash_order it" and "policy_inv p" and "card (dp_known p \<union> products ms) < 2 ^ 64"
  shows "\<exists>acts p'. next_actions it ms p = Some (acts, p')"
proof -
  let ?p1 = "mark_pending_ready ms p" and ?t = "newly_terminal ms (mark_pending_ready ms p)"
  have fin: "finite (dp_known p)" using assms(2) by (simp add: policy_inv_def graph_ok_def)
  have sub: "set ?t \<subseteq> set ms" "md_id ` set ?t \<subseteq> dp_known ?p1" using newly_terminal_sub(1)[of ms ?p1] newly_terminal_sub(2)[of ?p1 ms] fin by simp_all
  have g1: "graph_ok ?p1" and f1: "\<not> False \<Longrightarrow> plan_fits ?p1" using assms(2) mark_pending_fits by (auto simp: policy_inv_def)
  obtain s p2 where a: "absorb_all it ?t False ?p1 = Some (s, p2)" "graph_ok p2"
    by (rule absorb_all_ok[OF assms(1) g1 sub(2) f1, of False]) auto
  have g3: "graph_ok (p2\<lparr>dp_needs_recompile := True\<rparr>)" using a(2) by (simp add: graph_ok_def)
  obtain q where q: "(if s then rebuild_plan it (p2\<lparr>dp_needs_recompile := True\<rparr>) else Some p2) = Some q"
    "dp_edges q = dp_edges p2"
  proof (cases s)
    case True
    then show ?thesis using that by (auto intro: rebuild_plan_fits[OF assms(1) g3])
  qed (use that in auto)
  have "nodes (dp_edges q) \<subseteq> dp_known p \<union> products ms"
    using a(2) q(2) absorb_all_known[OF a(1)] sub(1) by (fastforce simp: graph_ok_def products_def)
  then have "card (nodes (dp_edges q)) < 2 ^ 64"
    using assms(3) card_mono[of "dp_known p \<union> products ms" "nodes (dp_edges q)"] fin by simp
  then obtain path where "critical_path_weighted it (dp_edges q) (\<lambda>_. 1) = Some (Ok path)"
    using critical_returns[OF assms(1)] a(2) q(2) by (metis graph_ok_def)
  then have "next_actions it ms p \<noteq> None" using a(1) q(1) by (simp add: next_actions_def Let_def)
  then show ?thesis by auto
qed

section \<open>Parallel limits\<close>

definition load_of :: "(limit_key \<Rightarrow> nat option) \<Rightarrow> limit_key \<Rightarrow> nat" where
  "load_of f k = (case f k of Some n \<Rightarrow> n | None \<Rightarrow> 0)"

lemma running_per_key_load:
  "load_of (running_per_key ms f) k = load_of f k + length (filter (\<lambda>m. md_status m = Running \<and> mol_key m = k) ms)"
  by (induction ms f rule: running_per_key.induct) (auto simp: load_of_def split: option.splits)

lemma admit_load:
  assumes "caps k = Some cap"
  shows "length (filter (\<lambda>i. \<exists>m. snap i = Some m \<and> mol_key m = k) (admit_within_limits caps snap run is)) + load_of run k
    \<le> max cap (load_of run k)"
proof (induction "is" arbitrary: run)
  case (Cons i "is")
  show ?case
  proof (cases "snap i")
    case (Some m)
    show ?thesis
    proof (cases "caps (mol_key m)")
      case None
      then show ?thesis using Cons[of run] Some assms by auto
    next
      case (Some c)
      define r where "r = run(mol_key m := Some (load_of run (mol_key m) + 1))"
      have l: "load_of r k = (if mol_key m = k then load_of run k + 1 else load_of run k)" by (simp add: load_of_def r_def)
      have a: "admit_within_limits caps snap run (i # is) =
          (if load_of run (mol_key m) < c then i # admit_within_limits caps snap r is else admit_within_limits caps snap run is)"
        using \<open>snap i = Some m\<close> Some by (simp add: load_of_def r_def)
      have "c = cap" if "mol_key m = k" using that Some assms by simp
      then show ?thesis using Cons[of run] Cons[of r] \<open>snap i = Some m\<close> unfolding a l by (auto split: if_splits)
    qed
  qed (use Cons[of run] in simp)
qed simp

section \<open>The compiled graph\<close>

definition linked :: "(string \<Rightarrow> cosmon_error + 'x molecule_data) \<Rightarrow> string \<Rightarrow> string \<Rightarrow> bool" where
  "linked load i j \<longleftrightarrow> (\<exists>m. load i = Ok m \<and> j \<in> set (neighbours m))"

definition link_closure :: "(string \<Rightarrow> cosmon_error + 'x molecule_data) \<Rightarrow> string list \<Rightarrow> string set" where
  "link_closure load roots = {j. \<exists>i\<in>set roots. (linked load)\<^sup>*\<^sup>* i j}"

lemma closure_root: "i \<in> set roots \<Longrightarrow> i \<in> link_closure load roots"
  by (auto simp: link_closure_def)

lemma closure_linked: "i \<in> link_closure load roots \<Longrightarrow> load i = Ok m \<Longrightarrow> set (neighbours m) \<subseteq> link_closure load roots"
  unfolding link_closure_def by (blast intro: rtranclp.rtrancl_into_rtrancl[of "linked load"] linked_def[THEN iffD2])

lemma closure_least:
  assumes "set roots \<subseteq> V" and "\<And>i m. i \<in> V \<Longrightarrow> load i = Ok m \<Longrightarrow> set (neighbours m) \<subseteq> V"
  shows "link_closure load roots \<subseteq> V"
proof
  fix j assume "j \<in> link_closure load roots"
  then obtain i where "i \<in> set roots" "(linked load)\<^sup>*\<^sup>* i j" by (auto simp: link_closure_def)
  from this(2,1) show "j \<in> V"
    by (induction rule: rtranclp_induct) (use assms in \<open>auto simp: linked_def\<close>)
qed

lemma finite_closure:
  assumes "finite {i. \<exists>m. load i = Ok m}"
  shows "finite (link_closure load roots)"
proof (rule finite_subset)
  show "link_closure load roots \<subseteq> set roots \<union> (\<Union>i\<in>{i. \<exists>m. load i = Ok m}. set (neighbours (projr (load i))))"
  proof (rule closure_least)
    show "set (neighbours m) \<subseteq> set roots \<union> (\<Union>i\<in>{i. \<exists>m. load i = Ok m}. set (neighbours (projr (load i))))"
      if "load i = Ok m" for i m using that by force
  qed blast
qed (use assms in auto)

lemma enqueue_new_split:
  "\<exists>new. enqueue_new is (v, q) = (v \<union> set is, q @ new) \<and> set new = set is - v \<and> distinct new"
proof (induction "is" arbitrary: v q)
  case Nil
  show ?case by (simp add: enqueue_new_def)
next
  case (Cons i "is")
  show ?case
  proof (cases "i \<in> v")
    case True
    then show ?thesis using Cons[of v q] by (auto simp: enqueue_new_def insert_absorb)
  next
    case False
    from Cons[of "insert i v" "q @ [i]"] obtain new where
      "enqueue_new is (insert i v, q @ [i]) = (insert i v \<union> set is, (q @ [i]) @ new)" "set new = set is - insert i v" "distinct new" by blast
    then show ?thesis using False by (intro exI[of _ "i # new"]) (auto simp: enqueue_new_def)
  qed
qed

definition links_of :: "(string \<Rightarrow> cosmon_error + 'x molecule_data) \<Rightarrow> string \<Rightarrow> molecule_link list option" where
  "links_of load i = (case load i of Inr m \<Rightarrow> Some (typed_links m) | Inl _ \<Rightarrow> None)"

text \<open>The walk with its queue: what is behind it is loaded, and everything seen is reachable.\<close>

lemma compile_walk_result:
  assumes "finite (link_closure load roots)" and "v \<subseteq> link_closure load roots" and "set q \<subseteq> v" and "distinct q"
    and "\<And>i. map_of L i = (if i \<in> v - set q then links_of load i else None)"
    and "\<And>i m. i \<in> v - set q \<Longrightarrow> load i = Ok m \<Longrightarrow> set (neighbours m) \<subseteq> v" and "set roots \<subseteq> v"
  shows "\<exists>r. compile_walk load v q L = Some r \<and>
    (case r of
       Inl e \<Rightarrow> \<exists>i\<in>link_closure load roots. \<exists>t. load i = Err e \<and> e = StoreFailure t
     | Inr L' \<Rightarrow> \<forall>i. map_of L' i = (if i \<in> link_closure load roots then links_of load i else None))"
  using assms(2-7)
proof (induction "card (link_closure load roots - v) + length q" arbitrary: v q L rule: less_induct)
  case less
  let ?R = "link_closure load roots"
  show ?case
  proof (cases q)
    case Nil
    have "?R \<subseteq> v" by (rule closure_least) (use less.prems(5,6) Nil in auto)
    then have "?R = v" using less.prems(1) by blast
    then show ?thesis using Nil less.prems(4) by (subst compile_walk.simps) simp
  next
    case (Cons i q')
    have iv: "i \<in> v" "i \<notin> set q'" "i \<in> ?R" using less.prems(1-3) Cons by auto
    show ?thesis
    proof (cases "load i")
      case (Inl e)
      show ?thesis
      proof (cases e)
        case (MoleculeNotFound j)
        have "\<exists>r. compile_walk load v q' L = Some r \<and>
          (case r of Inl e \<Rightarrow> \<exists>i\<in>?R. \<exists>t. load i = Err e \<and> e = StoreFailure t
           | Inr L' \<Rightarrow> \<forall>i. map_of L' i = (if i \<in> ?R then links_of load i else None))"
        proof (rule less.hyps)
          show "map_of L j = (if j \<in> v - set q' then links_of load j else None)" for j
            using less.prems(4)[of j] Cons Inl by (auto simp: links_of_def)
          show "set (neighbours m) \<subseteq> v" if "j \<in> v - set q'" "load j = Ok m" for j m
            using that less.prems(5)[of j m] Cons Inl by (cases "j = i") auto
        qed (use less.prems Cons in auto)
        then show ?thesis using Cons Inl MoleculeNotFound by (subst compile_walk.simps) simp
      next
        case (StoreFailure t)
        then show ?thesis using Cons Inl iv(3) by (subst compile_walk.simps) auto
      qed
    next
      case (Inr m)
      obtain new where new: "enqueue_new (neighbours m) (v, q') = (v \<union> set (neighbours m), q' @ new)"
        "set new = set (neighbours m) - v" "distinct new" using enqueue_new_split by blast
      let ?v = "v \<union> set (neighbours m)" and ?L = "AList.update i (typed_links m) L"
      have nR: "set (neighbours m) \<subseteq> ?R" using closure_linked[OF iv(3) Inr] .
      have "card (?R - v) = card (?R - ?v) + card (set new)"
        using assms(1) new(2) nR by (subst card_Un_disjoint[symmetric]) (auto intro: arg_cong[where f = card])
      then have dec: "card (?R - ?v) + length (q' @ new) < card (?R - v) + length q"
        using distinct_card[OF new(3)] Cons by simp
      have "\<exists>r. compile_walk load ?v (q' @ new) ?L = Some r \<and>
          (case r of Inl e \<Rightarrow> \<exists>i\<in>?R. \<exists>t. load i = Err e \<and> e = StoreFailure t
           | Inr L' \<Rightarrow> \<forall>i. map_of L' i = (if i \<in> ?R then links_of load i else None))"
      proof (rule less.hyps[OF dec])
        show "?v \<subseteq> ?R" using nR less.prems(1) by blast
        show "set (q' @ new) \<subseteq> ?v" "distinct (q' @ new)" using less.prems(2,3) Cons new by auto
        have behind: "?v - set (q' @ new) = insert i (v - set q)"
          using iv Cons new(2) by auto
        show "map_of ?L j = (if j \<in> ?v - set (q' @ new) then links_of load j else None)" for j
          unfolding behind using less.prems(4)[of j] Inr by (auto simp: update_conv' links_of_def)
        show "set (neighbours m') \<subseteq> ?v" if "j \<in> ?v - set (q' @ new)" "load j = Ok m'" for j m'
          using that less.prems(5)[of j m'] Inr unfolding behind by auto
        show "set roots \<subseteq> ?v" using less.prems(6) by blast
      qed
      then show ?thesis using Cons Inr new(1) by (subst compile_walk.simps) simp
    qed
  qed
qed

text \<open>The dependencies the links of the reachable molecules declare.\<close>

definition declared_deps :: "(string \<Rightarrow> cosmon_error + 'x molecule_data) \<Rightarrow> string list \<Rightarrow> (string \<times> string) set" where
  "declared_deps load roots =
     {(a, b). a \<in> link_closure load roots \<and> b \<in> link_closure load roots \<and>
        (\<exists>m n. load a = Ok m \<and> load b = Ok n \<and>
           (BlockedBy a \<in> set (typed_links n) \<or> Blocks b \<in> set (typed_links m) \<or> DecayProduct b \<in> set (typed_links m)))}"

lemma link_edges_iff:
  "(a, b) \<in> set (link_edges L i l) \<longleftrightarrow>
     (l = BlockedBy a \<and> b = i \<and> map_of L a \<noteq> None) \<or>
     (l = Blocks b \<and> a = i \<and> (\<exists>ls. map_of L b = Some ls \<and> BlockedBy i \<notin> set ls)) \<or>
     (l = DecayProduct b \<and> a = i \<and> map_of L b \<noteq> None)"
  by (cases l; cases "map_of L b") (auto simp: link_edges_def split: option.splits)

lemma compiled_edges_iff:
  "(a, b) \<in> set (compiled_edges L) \<longleftrightarrow>
     (\<exists>la lb. map_of L a = Some la \<and> map_of L b = Some lb \<and>
        (BlockedBy a \<in> set lb \<or> Blocks b \<in> set la \<or> DecayProduct b \<in> set la))"
proof -
  have k: "i \<in> set (map fst L) \<longleftrightarrow> map_of L i \<noteq> None" for i by (simp add: map_of_eq_None_iff)
  define g where "g i = concat (map (link_edges L i) (case map_of L i of Some ls \<Rightarrow> ls | None \<Rightarrow> []))" for i
  have "(a, b) \<in> set (compiled_edges L) \<longleftrightarrow> (\<exists>i\<in>set (map fst L). (a, b) \<in> set (g i))"
    by (simp add: compiled_edges_def g_def)
  also have "\<dots> \<longleftrightarrow> (\<exists>i ls l. map_of L i = Some ls \<and> l \<in> set ls \<and> (a, b) \<in> set (link_edges L i l))"
  proof -
    have "(a, b) \<in> set (g i) \<longleftrightarrow> (\<exists>l\<in>set ls. (a, b) \<in> set (link_edges L i l))" if "map_of L i = Some ls" for i ls
      using that by (simp add: g_def)
    then show ?thesis unfolding Bex_def k not_None_eq by blast
  qed
  also have "\<dots> \<longleftrightarrow> (\<exists>la lb. map_of L a = Some la \<and> map_of L b = Some lb \<and>
        (BlockedBy a \<in> set lb \<or> Blocks b \<in> set la \<or> DecayProduct b \<in> set la))" (is "?l \<longleftrightarrow> ?r")
  proof
    show "?l \<Longrightarrow> ?r" unfolding link_edges_iff by auto
    assume ?r
    then obtain la lb where ab: "map_of L a = Some la" "map_of L b = Some lb"
      "BlockedBy a \<in> set lb \<or> Blocks b \<in> set la \<or> DecayProduct b \<in> set la" by blast
    consider "BlockedBy a \<in> set lb" | "Blocks b \<in> set la" "BlockedBy a \<notin> set lb" | "DecayProduct b \<in> set la" using ab(3) by blast
    then show ?l unfolding link_edges_iff
    proof cases
      case 1
      then show "\<exists>i ls l. map_of L i = Some ls \<and> l \<in> set ls \<and> ((l = BlockedBy a \<and> b = i \<and> map_of L a \<noteq> None) \<or>
        (l = Blocks b \<and> a = i \<and> (\<exists>ls. map_of L b = Some ls \<and> BlockedBy i \<notin> set ls)) \<or> (l = DecayProduct b \<and> a = i \<and> map_of L b \<noteq> None))"
        using ab by (intro exI[of _ b] exI[of _ lb] exI[of _ "BlockedBy a"]) simp
    next
      case 2
      then show "\<exists>i ls l. map_of L i = Some ls \<and> l \<in> set ls \<and> ((l = BlockedBy a \<and> b = i \<and> map_of L a \<noteq> None) \<or>
        (l = Blocks b \<and> a = i \<and> (\<exists>ls. map_of L b = Some ls \<and> BlockedBy i \<notin> set ls)) \<or> (l = DecayProduct b \<and> a = i \<and> map_of L b \<noteq> None))"
        using ab by (intro exI[of _ a] exI[of _ la] exI[of _ "Blocks b"]) simp
    next
      case 3
      then show "\<exists>i ls l. map_of L i = Some ls \<and> l \<in> set ls \<and> ((l = BlockedBy a \<and> b = i \<and> map_of L a \<noteq> None) \<or>
        (l = Blocks b \<and> a = i \<and> (\<exists>ls. map_of L b = Some ls \<and> BlockedBy i \<notin> set ls)) \<or> (l = DecayProduct b \<and> a = i \<and> map_of L b \<noteq> None))"
        using ab by (intro exI[of _ a] exI[of _ la] exI[of _ "DecayProduct b"]) simp
    qed
  qed
  finally show ?thesis .
qed

lemma compiled_edges_declared:
  assumes "\<And>i. map_of L i = (if i \<in> link_closure load roots then links_of load i else None)"
  shows "set (compiled_edges L) = declared_deps load roots"
proof (rule set_eqI, clarify)
  fix a b
  have "map_of L i = Some ls \<longleftrightarrow> i \<in> link_closure load roots \<and> (\<exists>m. load i = Ok m \<and> ls = typed_links m)" for i ls
    using assms[of i] by (auto simp: links_of_def split: sum.splits)
  then show "(a, b) \<in> set (compiled_edges L) \<longleftrightarrow> (a, b) \<in> declared_deps load roots"
    unfolding compiled_edges_iff declared_deps_def by auto
qed

lemma policy_new_inv:
  assumes "hash_order it" and "new_with_roots it es {} roots = Some (Ok pl)" and "finite roots"
  shows "policy_inv (policy_new pl es)" and "dp_known (policy_new pl es) = roots \<union> nodes es"
proof -
  have n: "acyclic (set es)" "plan_ready pl = {n \<in> roots \<union> nodes es. preds es n \<subseteq> {}}" "plan_done pl = {}" "plan_skipped pl = {}"
    using assms(2) unfolding new_with_roots_iff[OF assms(1)] by auto
  have i: "plan_inv es {} roots pl" by (rule plan_inv_init[unfolded plan_init_def]) (use assms in blast)
  have "preds es n = {}" if "n \<notin> nodes es" for n using that by (auto simp: preds_def nodes_edges image_iff)
  then have k: "nodes es \<union> plan_ready pl = roots \<union> nodes es" using n(2) by auto
  have fn: "finite (nodes es)" by (simp add: nodes_edges)
  have "dp_known (policy_new pl es) = nodes es \<union> plan_ready pl" by (simp add: policy_new_def nodes_def)
  then show known: "dp_known (policy_new pl es) = roots \<union> nodes es" using k by simp
  have "roots \<union> nodes es \<union> nodes es = roots \<union> nodes es" by blast
  then have "plan_inv es {} (roots \<union> nodes es) pl" using i unfolding plan_inv_def by simp
  then show "policy_inv (policy_new pl es)"
    using n known fn assms(3) unfolding policy_inv_def graph_ok_def plan_fits_def known
    by (simp add: policy_new_def satisfied_def)
qed

section \<open>The policy as a state machine\<close>

text \<open>
  A policy starts from a compiled graph; then the runtime ticks, recompiles and refreshes it in
  any order, with whatever the store holds at that time, and may collect finished edges.
\<close>

definition policy_start :: "(string list \<Rightarrow> string list) \<Rightarrow> 'y dag_policy \<Rightarrow> bool" where
  "policy_start it p \<longleftrightarrow>
     (\<exists>(load :: string \<Rightarrow> cosmon_error + 'y mol) roots pl es. compile_plan it load roots = Some (Ok (pl, es)) \<and> p = policy_new pl es)"

inductive policy_step :: "(string list \<Rightarrow> string list) \<Rightarrow> 'y dag_policy \<Rightarrow> 'y dag_policy \<Rightarrow> bool" for it where
  ticked: "next_actions it ms p = Some (acts, p') \<Longrightarrow> policy_step it p p'"
| recompiled: "recompile it load p = Some (Ok p') \<Longrightarrow> policy_step it p p'"
| refreshed: "refresh_scope it load listing p = (Some (Ok p'), p1) \<Longrightarrow> policy_step it p p'"
| collected: "gc it p = Some p' \<Longrightarrow> policy_step it p p'"
| preset: "with_pre_completed it is p = Some p' \<Longrightarrow> policy_step it p p'"
| limited: "policy_step it p (with_limits ls p)"
| resident_set: "policy_step it p (with_resident_model mo p)"
| affinity_set: "policy_step it p (with_affinity f p)"
| evidence_set: "policy_step it p (with_evidence e p)"

lemma rebuild_plan_inv:
  assumes "hash_order it" and "graph_ok p" and "rebuild_plan it p = Some q"
  shows "policy_inv q"
  by (rule rebuild_plan_fits[OF assms(1,2)]) (use assms(3) in simp)

lemma compile_plan_acyclic:
  assumes "hash_order it" and "compile_plan it load roots = Some (Ok (pl, es))"
  obtains L :: loaded_links where "new_with_roots it es {} {i \<in> set roots. map_of L i \<noteq> None} = Some (Ok pl)" and "acyclic (set es)"
proof -
  obtain L :: loaded_links where n: "new_with_roots it es {} {i \<in> set roots. map_of L i \<noteq> None} = Some (Ok pl)"
  proof -
    obtain v q where vq: "enqueue_new roots ({}, []) = (v, q)" by fastforce
    obtain r where r: "compile_walk load v q [] = Some r" using assms(2) vq by (auto simp: compile_plan_def bind_eq_Some_conv)
    from assms(2) vq r obtain L where L: "r = Ok L" by (cases r) (auto simp: compile_plan_def)
    let ?n = "new_with_roots it (compiled_edges L) {} {i \<in> set roots. map_of L i \<noteq> None}"
    obtain t where "?n = Some t" using assms(2) vq r L by (auto simp: compile_plan_def Let_def)
    then show ?thesis using assms(2) vq r L that[of L]
      by (cases t) (auto simp: compile_plan_def Let_def split: cycle_error.split_asm)
  qed
  then show ?thesis using that new_with_roots_iff[OF assms(1), of es "{}" "{i \<in> set roots. map_of L i \<noteq> None}" pl] by blast
qed

lemma recompile_inv:
  assumes "hash_order it" and "finite (dp_known p)" and "recompile it load p = Some (Ok q)"
  shows "policy_inv q"
proof -
  obtain pl es where c: "compile_plan it load (it (sorted_list_of_set (dp_known p))) = Some (Ok (pl, es))"
  proof -
    obtain r where "compile_plan it load (it (sorted_list_of_set (dp_known p))) = Some r"
      using assms(3) by (auto simp: recompile_def bind_eq_Some_conv)
    then show ?thesis using assms(3) that by (cases r) (auto simp: recompile_def)
  qed
  let ?p = "p\<lparr>dp_known := dp_known p \<union> set (edge_nodes es), dp_edges := es\<rparr>"
  have "graph_ok ?p" using compile_plan_acyclic[OF assms(1) c] assms(2) by (auto simp: graph_ok_def nodes_def)
  moreover obtain r where "rebuild_plan it ?p = Some r" "q = r\<lparr>dp_needs_recompile := False\<rparr>"
    using assms(3) c by (auto simp: recompile_def)
  ultimately show ?thesis using rebuild_plan_inv[OF assms(1), of ?p r] by (simp add: policy_inv_def graph_ok_def plan_fits_def)
qed

lemma adopt_finite: "finite (dp_known (fold adopt ms p)) = finite (dp_known p)"
  by (induction ms arbitrary: p) (auto simp: adopt_def)

lemma pre_complete_inv:
  assumes "graph_ok p" and "\<not> ch \<Longrightarrow> plan_fits p" and "pre_complete is p ch = (ch', q)"
  shows "graph_ok q \<and> (\<not> ch' \<longrightarrow> plan_fits q)"
  using assms
proof (induction "is" p ch rule: pre_complete.induct)
  case (2 i "is" p ch)
  let ?p1 = "p\<lparr>dp_known := insert i (dp_known p)\<rparr>"
  show ?case
  proof (cases "i \<in> dp_completed p")
    case True
    have f: "plan_fits ?p1" if "plan_fits p"
    proof -
      have "i \<in> tracked (dp_plan p)" using that True by (auto simp: plan_fits_def plan_sets)
      then show ?thesis using that unfolding plan_fits_def plan_inv_def
        by (simp del: Un_insert_left) blast
    qed
    have g: "graph_ok ?p1" using "2.prems"(1) by (auto simp: graph_ok_def)
    have c: "pre_complete is ?p1 ch = (ch', q)" using "2.prems"(3) True by (simp add: Let_def)
    show ?thesis by (rule "2.IH"(1)[OF refl _ g _ c]) (use True f "2.prems"(2) in auto)
  next
    case False
    let ?p2 = "?p1\<lparr>dp_completed := insert i (dp_completed p), dp_plan := snd (mark_done (dp_plan p) i)\<rparr>"
    have g: "graph_ok ?p2" using "2.prems"(1) by (auto simp: graph_ok_def)
    have c: "pre_complete is ?p2 True = (ch', q)" using "2.prems"(3) False by (simp add: Let_def)
    show ?thesis by (rule "2.IH"(2)[OF refl]) (use False g c in auto)
  qed
qed simp

lemma policy_step_inv:
  assumes "hash_order it" and "policy_inv p" and "policy_step it p p'"
  shows "policy_inv p'"
  using assms(3)
proof cases
  case (ticked ms acts)
  then show ?thesis using next_actions_parts[OF assms(1,2)] by metis
next
  case (recompiled load)
  from recompile_inv[OF assms(1) _ this] show ?thesis using assms(2) by (simp add: policy_inv_def graph_ok_def)
next
  case (refreshed load listing p1)
  then obtain all where "listing = Ok all" "p1 = fold adopt all p" "recompile it load p1 = Some (Ok p')"
    by (cases listing) (auto simp: refresh_scope_def Let_def)
  then show ?thesis using recompile_inv[OF assms(1), of p1 load p'] adopt_finite[of all p] assms(2)
    by (auto simp: policy_inv_def graph_ok_def)
next
  case collected
  let ?es = "filter (\<lambda>(src, dst). \<not> (src \<in> dp_completed p \<and> dst \<in> dp_completed p)) (dp_edges p)"
  have "graph_ok (p\<lparr>dp_edges := ?es\<rparr>)"
    using assms(2) by (auto simp: policy_inv_def graph_ok_def nodes_edges intro: acyclic_subset)
  then show ?thesis using rebuild_plan_inv[OF assms(1)] collected by (simp add: gc_def)
next
  case (preset "is")
  obtain ch q where c: "pre_complete is p False = (ch, q)" by fastforce
  have "graph_ok q \<and> (\<not> ch \<longrightarrow> plan_fits q)" using pre_complete_inv[OF _ _ c] assms(2) by (simp add: policy_inv_def)
  then show ?thesis using preset c rebuild_plan_inv[OF assms(1), of q p']
    by (auto simp: with_pre_completed_def policy_inv_def split: if_splits)
qed (use assms(2) in \<open>simp_all add: policy_inv_def graph_ok_def plan_fits_def with_limits_def with_resident_model_def with_affinity_def with_evidence_def\<close>)

lemma policy_start_inv:
  fixes p :: "'y dag_policy"
  assumes "hash_order it" and "policy_start it p"
  shows "policy_inv p"
proof -
  obtain load :: "string \<Rightarrow> cosmon_error + 'y mol" and roots pl es
    where c: "compile_plan it load roots = Some (Ok (pl, es))" and p: "p = policy_new pl es"
    using assms(2) unfolding policy_start_def by blast
  obtain L :: loaded_links where "new_with_roots it es {} {i \<in> set roots. map_of L i \<noteq> None} = Some (Ok pl)"
    using compile_plan_acyclic[OF assms(1) c] by blast
  from policy_new_inv(1)[OF assms(1) this] show ?thesis by (simp add: p)
qed

interpretation dagp: invariant_system "policy_start it" "policy_step it" "\<lambda>p. hash_order it \<longrightarrow> policy_inv p" for it
  by unfold_locales (use policy_start_inv policy_step_inv in blast)+

lemma disk_finite: "finite {i. \<exists>m. load_molecule d i = Ok m}"
proof (rule finite_subset)
  show "{i. \<exists>m. load_molecule d i = Ok m} \<subseteq> (\<Union>(f, ms)\<in>set (fleet_entries d). fst ` set ms) \<union> fst ` set (legacy_entries d)"
  proof clarify
    fix i m assume "load_molecule d i = Ok m" and n: "i \<notin> fst ` set (legacy_entries d)"
    then obtain s where s: "state_json d (molecule_dir d i) i = Some s" by (auto simp: load_molecule_def split: option.splits)
    have "map_of (legacy_entries d) i = None" using n by (simp add: map_of_eq_None_iff)
    then obtain f where "fleet_entry d f i \<noteq> None" using s by (cases "molecule_dir d i") (auto split: option.splits)
    then obtain ms x where "map_of (fleet_entries d) f = Some ms" "map_of ms i = Some x" by (auto simp: fleet_entry_def split: option.splits)
    then have "(f, ms) \<in> set (fleet_entries d)" "i \<in> fst ` set ms" by (auto dest: map_of_SomeD simp: rev_image_eqI)
    then show "i \<in> (\<Union>(f, ms)\<in>set (fleet_entries d). fst ` set ms)" by auto
  qed
qed auto

section \<open>A small store\<close>

definition run_mol :: "string \<Rightarrow> molecule_status \<Rightarrow> molecule_link list \<Rightarrow> datetime option \<Rightarrow> unit mol" where
  "run_mol i st ls merged =
     \<lparr>md_id = i, fleet_id = ''f'', md_status = st, assigned_worker = None, md_current_step = 0, md_total_steps = 1,
      md_process = None, session_name = None, md_updated_at = 0, typed_links = ls, merged_at = merged, stuck_at = None,
      md_collapse_reason = None, md_collapse_cause = None, collapse_reason_kind = None, collapsed_step = None,
      collapse_receipt = None,
      md_rest = \<lparr>rf_formula_id = ''work'', rf_freeze_on_last_step = False, rf_tackled_by = None, rf_tackled_at = None, rf_other = ()\<rparr>\<rparr>"

definition small_load :: "string \<Rightarrow> cosmon_error + unit mol" where
  "small_load i =
     (if i = ''a'' then Ok (run_mol ''a'' Running [Blocks ''b''] None)
      else if i = ''b'' then Ok (run_mol ''b'' Pending [BlockedBy ''a''] None)
      else Err (MoleculeNotFound i))"

definition small_plan :: "string plan" where
  "small_plan = \<lparr>plan_edges = [(''a'', ''b'')], plan_ready = {''a''}, plan_running = {}, plan_done = {}, plan_skipped = {}\<rparr>"

lemma small_compile: "compile_plan rev small_load [''b''] = Some (Ok (small_plan, [(''a'', ''b'')]))"
  by code_simp

definition small_snapshot :: "unit mol list" where
  "small_snapshot = [run_mol ''a'' Completed [Blocks ''b''] (Some 3), run_mol ''b'' Pending [BlockedBy ''a''] None]"

definition small_policy :: "unit dag_policy" where
  "small_policy = policy_new small_plan [(''a'', ''b'')]"

definition small_capped :: "unit dag_policy" where
  "small_capped = with_limits [((''work'', 0), 1)] small_policy"

lemma small_reachable: "reachable (policy_start rev) (policy_step rev) small_policy"
  by (rule reachable.start) (use small_compile in \<open>auto simp: policy_start_def small_policy_def\<close>)

lemma small_capped_reachable: "reachable (policy_start rev) (policy_step rev) small_capped"
  unfolding small_capped_def by (rule reachable.more[OF small_reachable limited])

lemma small_tick:
  "map_option fst (next_actions rev small_snapshot small_capped) = Some [AEvolve ''b'' ''dag-policy: critical-path dispatch'']"
  by code_simp

section \<open>Properties\<close>

text \<open>
  C27. Compiling the graph: on a store with finitely many readable records the walk over the links
  ends.  Its result is an error of the store, met at a molecule the links lead to, or the
  refusal of a cycle, or a graph whose edges are exactly the dependencies that the links of the
  reachable records declare, in either direction, with a plan that fits it.
\<close>

theorem compile_plan_exact:
  assumes "hash_order it" and "finite {i. \<exists>m. load i = Ok m}"
  shows "\<exists>r. compile_plan it load roots = Some r \<and>
    (case r of
       Inl e \<Rightarrow> (\<exists>i\<in>link_closure load roots. load i = Err e) \<or> \<not> acyclic (declared_deps load roots)
     | Inr (pl, es) \<Rightarrow>
         acyclic (declared_deps load roots) \<and> set es = declared_deps load roots \<and> policy_inv (policy_new pl es) \<and>
         {i \<in> set roots. \<exists>m. load i = Ok m} \<subseteq> dp_known (policy_new pl es))"
proof -
  obtain q where q: "enqueue_new roots ({}, []) = (set roots, q)" "set q = set roots" "distinct q"
    using enqueue_new_split[of roots "{}" "[]"] by auto
  obtain r where r: "compile_walk load (set roots) q [] = Some r"
    "case r of Inl e \<Rightarrow> \<exists>i\<in>link_closure load roots. \<exists>t. load i = Err e \<and> e = StoreFailure t
     | Inr L \<Rightarrow> \<forall>i. map_of L i = (if i \<in> link_closure load roots then links_of load i else None)"
  proof -
    have "set roots \<subseteq> link_closure load roots" using closure_root by blast
    from compile_walk_result[OF finite_closure[OF assms(2)] this, of q "[]"] q(2,3) show ?thesis using that by auto
  qed
  show ?thesis
  proof (cases r)
    case (Inl e)
    then show ?thesis using q(1) r by (auto simp: compile_plan_def)
  next
    case (Inr L)
    have L: "map_of L i = (if i \<in> link_closure load roots then links_of load i else None)" for i using r(2) Inr by simp
    let ?roots = "{i \<in> set roots. map_of L i \<noteq> None}" and ?es = "compiled_edges L"
    have es: "set ?es = declared_deps load roots" by (rule compiled_edges_declared) (rule L)
    have run: "compile_plan it load roots = map_option
        (\<lambda>s. case s of Inl (CycleError n) \<Rightarrow> Err (StoreFailure (''dependency cycle in compiled DAG at molecule '' @ n)) | Inr pl \<Rightarrow> Ok (pl, ?es))
        (new_with_roots it ?es {} ?roots)"
      by (simp only: compile_plan_def Let_def q(1) prod.case r(1) Inr bind.bind_lunit sum.case)
    show ?thesis
    proof (cases "acyclic (set ?es)")
      case True
      then obtain pl where pl: "new_with_roots it ?es {} ?roots = Some (Ok pl)" using new_with_roots_iff[OF assms(1)] by blast
      have "map_of L i \<noteq> None" if "i \<in> set roots" "load i = Ok m" for i m using that L[of i] closure_root by (simp add: links_of_def)
      then have "{i \<in> set roots. \<exists>m. load i = Ok m} \<subseteq> ?roots" by blast
      then show ?thesis using run pl policy_new_inv[OF assms(1) pl] True es by auto
    next
      case False
      then obtain n where "new_with_roots it ?es {} ?roots = Some (Err (CycleError n))"
        using toposort_cyclic[OF assms(1) False] by (metis (no_types, lifting) and_then.simps(1) bind.bind_lunit new_with_roots_def)
      then show ?thesis using run False es by simp
    qed
  qed
qed

theorem compile_plan_exact_witness:
  "\<exists>pl es. compile_plan rev small_load [''b''] = Some (Ok (pl, es)) \<and> set es = declared_deps small_load [''b'']"
proof -
  have "finite {i. \<exists>m. small_load i = Ok m}"
    by (rule finite_subset[of _ "{''a'', ''b''}"]) (auto simp: small_load_def split: if_splits)
  from compile_plan_exact[OF hash_order_rev this, of "[''b'']"] small_compile show ?thesis by auto
qed

text \<open>
  C24. The policy keeps its plan true: whatever the runtime does with a policy compiled from a store,
  with whatever snapshots, the graph stays acyclic and a molecule is in flight in the plan, ready or
  running, exactly when the policy knows it, has not seen it finished, and has seen
  all its predecessors finished.
\<close>

theorem policy_plan_invariant:
  assumes "hash_order it" and "reachable (policy_start it) (policy_step it) p"
  shows "acyclic (set (dp_edges p)) \<and> nodes (dp_edges p) \<subseteq> dp_known p \<and> plan_disjoint (dp_plan p) \<and>
    plan_ready (dp_plan p) \<union> plan_running (dp_plan p) =
      {n \<in> dp_known p. n \<notin> dp_completed p \<and> preds (dp_edges p) n \<subseteq> dp_completed p}"
proof -
  have inv: "policy_inv p" using dagp.reachable_inv[OF assms(2)] assms(1) by blast
  then have g: "acyclic (set (dp_edges p))" "nodes (dp_edges p) \<subseteq> dp_known p"
    and pl: "plan_inv (dp_edges p) (plan_skipped (dp_plan p)) (dp_known p) (dp_plan p)" "satisfied (dp_plan p) = dp_completed p"
    by (simp_all add: policy_inv_def graph_ok_def plan_fits_def)
  have "plan_ready (dp_plan p) \<union> plan_running (dp_plan p) \<subseteq> dp_known p" "plan_disjoint (dp_plan p)"
    using pl(1) g(2) by (auto simp: plan_inv_def)
  then show ?thesis using g plan_inv_in_flight[OF pl(1)] pl(2) by blast
qed

theorem policy_plan_invariant_witness:
  "plan_ready small_plan \<union> plan_running small_plan =
     {n \<in> dp_known small_policy. preds [(''a'', ''b'')] n = {}}"
  using policy_plan_invariant[OF hash_order_rev small_reachable] by (simp add: small_policy_def policy_new_def)

text \<open>
  C26. What a tick dispatches: no molecule twice, and only molecules of the snapshot that are
  dispatchable (pending, without worker, blockers merged, decay parent released); and where the
  configuration limits a step of a formula, the running molecules of that step together with
  the new ones do not exceed the limit, unless more were running already.
\<close>

theorem tick_dispatch_discipline:
  assumes "hash_order it" and "reachable (policy_start it) (policy_step it) p" and "distinct (map md_id ms)"
    and "next_actions it ms p = Some (acts, p')"
  shows "\<exists>ids. acts = map (\<lambda>i. AEvolve i (dp_evidence p)) ids \<and> distinct ids \<and>
    set ids \<subseteq> md_id ` {m. dispatchable (set ms) {} m} \<and>
    (\<forall>k cap. map_of (dp_limits p) k = Some cap \<longrightarrow>
       length (filter (\<lambda>i. \<exists>m\<in>set ms. md_id m = i \<and> mol_key m = k) ids) + length (filter (\<lambda>m. md_status m = Running \<and> mol_key m = k) ms)
         \<le> max cap (length (filter (\<lambda>m. md_status m = Running \<and> mol_key m = k) ms)))"
proof -
  have inv: "policy_inv p" using dagp.reachable_inv[OF assms(2)] assms(1) by blast
  obtain q crit ids q' where q: "policy_inv q" "mset ids = mset (eligible_now ms crit q)" "acts = map (\<lambda>i. AEvolve i (dp_evidence p)) ids"
    and lim: "dp_limits q = dp_limits p"
    by (rule next_actions_parts[OF assms(1) inv assms(4)]) (auto simp: absorbed_def)
  note E = eligible_facts[OF ready_finite[OF q(1)], of ms crit]
  have set: "set ids = set (eligible_now ms crit q)" and d: "distinct ids"
    using q(2) E(1) by (metis mset_eq_setD, metis mset_eq_imp_distinct_iff)
  have f: "set (compute_from_molecules ms) = md_id ` {m. dispatchable (set ms) {} m}"
    unfolding compute_from_molecules_def using set_frontier[OF assms(3), of "[]"] by simp
  have "length (filter (\<lambda>i. \<exists>m\<in>set ms. md_id m = i \<and> mol_key m = k) ids) + length (filter (\<lambda>m. md_status m = Running \<and> mol_key m = k) ms)
         \<le> max cap (length (filter (\<lambda>m. md_status m = Running \<and> mol_key m = k) ms))" if c: "map_of (dp_limits p) k = Some cap" for k cap
  proof -
    let ?P = "\<lambda>i. \<exists>m. by_id ms i = Some m \<and> mol_key m = k"
    have P: "(\<exists>m\<in>set ms. md_id m = i \<and> mol_key m = k) \<longleftrightarrow> ?P i" for i unfolding by_id_distinct[OF assms(3)] by blast
    obtain es where e: "eligible_now ms crit q = admit_within_limits (map_of (dp_limits p)) (by_id ms) (running_per_key ms (\<lambda>_. None)) es"
    proof -
      have "dp_limits p \<noteq> []" using c by auto
      then show ?thesis using that unfolding eligible_now_def Let_def lim by simp
    qed
    have "length (filter ?P ids) = length (filter ?P (eligible_now ms crit q))"
      by (rule mset_eq_length) (simp add: q(2))
    then show ?thesis using admit_load[of "map_of (dp_limits p)" k cap "by_id ms" "running_per_key ms (\<lambda>_. None)" es] c
      running_per_key_load[of ms "\<lambda>_. None" k] unfolding P e by (simp add: load_of_def)
  qed
  then show ?thesis using q(3) d set E(2) f by (intro exI[of _ ids]) blast
qed

theorem tick_dispatch_discipline_witness:
  "''b'' \<in> md_id ` {m. dispatchable (set small_snapshot) {} m}"
proof -
  obtain p' where n: "next_actions rev small_snapshot small_capped = Some ([AEvolve ''b'' ''dag-policy: critical-path dispatch''], p')"
    using small_tick by (auto simp: map_option_eq_Some)
  have d: "distinct (map md_id small_snapshot)" by (simp add: small_snapshot_def run_mol_def)
  from tick_dispatch_discipline[OF hash_order_rev small_capped_reachable d n] obtain ids where
    ids: "[AEvolve ''b'' ''dag-policy: critical-path dispatch''] = map (\<lambda>i. AEvolve i (dp_evidence small_capped)) ids"
    "set ids \<subseteq> md_id ` {m. dispatchable (set small_snapshot) {} m}" by (elim exE conjE) iprover
  from ids(1) have "''b'' \<in> set ids" by (cases ids) auto
  then show ?thesis using ids(2) by blast
qed

lemma tick_dispatches_ready:
  assumes "hash_order it" and "policy_inv p" and "distinct (map md_id ms)" and "next_actions it ms p = Some (acts, p')" and "dp_limits p = []"
  shows "dp_completed p' = dp_completed p \<union> md_id ` {m \<in> set ms. md_id m \<in> dp_known p - dp_completed p \<and> counts_as_terminal m} \<and>
    (\<forall>m. dispatchable (set ms) {} m \<and> md_id m \<in> dp_known p' - dp_completed p' \<and> preds (dp_edges p') (md_id m) \<subseteq> dp_completed p' \<longrightarrow>
       AEvolve (md_id m) (dp_evidence p) \<in> set acts)"
proof -
  let ?T = "md_id ` {m \<in> set ms. md_id m \<in> dp_known p - dp_completed p \<and> counts_as_terminal m}"
  obtain q crit ids q' where q: "policy_inv q" "absorbed ?T p q"
    "\<And>m. m \<in> set ms \<Longrightarrow> md_status m = Pending \<Longrightarrow> md_id m \<notin> plan_running (dp_plan q)"
    "mset ids = mset (eligible_now ms crit q)" "affinity_reorder ms (eligible_now ms crit q) q = (ids, q')"
    "acts = map (\<lambda>i. AEvolve i (dp_evidence p)) ids" "p' = q'\<lparr>dp_plan := fold (\<lambda>i pl. mark_running pl i) ids (dp_plan q)\<rparr>"
  proof -
    have "finite (dp_known p)" using assms(2) by (simp add: policy_inv_def graph_ok_def)
    then have T: "md_id ` set (newly_terminal ms p) = ?T" using newly_terminal_iff[OF assms(3), of p] by auto
    show ?thesis by (rule next_actions_parts[OF assms(1,2,4), unfolded T]) (rule that)
  qed
  have same: "dp_completed p' = dp_completed q" "dp_edges p' = dp_edges q" "dp_limits q = []" "dp_completed q = dp_completed p \<union> ?T" "dp_known p' = dp_known q"
    using q(2,7) reorder_facts[OF q(5)] assms(5) by (simp_all add: absorbed_def)
  have "AEvolve (md_id m) (dp_evidence p) \<in> set acts"
    if m: "dispatchable (set ms) {} m" "md_id m \<in> dp_known p' - dp_completed p'" "preds (dp_edges p') (md_id m) \<subseteq> dp_completed p'" for m
  proof -
    have ms: "m \<in> set ms" "md_status m = Pending" using m(1) by (simp_all add: dispatchable_def)
    have "md_id m \<in> plan_ready (dp_plan q) \<union> plan_running (dp_plan q)"
      using plan_inv_in_flight[of "dp_edges q" "plan_skipped (dp_plan q)" "dp_known q" "dp_plan q" "md_id m"] q(1) m(2,3) same
      by (auto simp: policy_inv_def plan_fits_def)
    then have "md_id m \<in> plan_ready (dp_plan q)" using q(3)[OF ms] by blast
    moreover have "md_id m \<in> set (compute_from_molecules ms)"
      unfolding compute_from_molecules_def using set_frontier[OF assms(3), of "[]"] m(1) by auto
    ultimately have "md_id m \<in> set ids"
      using eligible_facts(3)[OF ready_finite[OF q(1)] same(3), of ms crit] q(4) by (metis IntI mset_eq_setD)
    then show ?thesis using q(6) by simp
  qed
  then show ?thesis using same(1,4) by blast
qed

text \<open>
  C25. A ready molecule is dispatched at once: a tick without limits dispatches every dispatchable
  molecule that the policy knows and has not seen finished and whose predecessors
  it has seen finished.  It has seen finished what it had before, and every known molecule that
  the snapshot shows completed, collapsed or frozen at its last step.  The tick always returns.
\<close>

theorem ready_molecules_are_dispatched:
  assumes "hash_order it" and "reachable (policy_start it) (policy_step it) p" and "distinct (map md_id ms)"
    and "card (dp_known p \<union> products ms) < 2 ^ 64" and "dp_limits p = []"
  shows "\<exists>acts p'. next_actions it ms p = Some (acts, p') \<and>
    dp_completed p' = dp_completed p \<union> md_id ` {m \<in> set ms. md_id m \<in> dp_known p - dp_completed p \<and> counts_as_terminal m} \<and>
    (\<forall>m. dispatchable (set ms) {} m \<and> md_id m \<in> dp_known p' - dp_completed p' \<and> preds (dp_edges p') (md_id m) \<subseteq> dp_completed p' \<longrightarrow>
       AEvolve (md_id m) (dp_evidence p) \<in> set acts)"
proof -
  have inv: "policy_inv p" using dagp.reachable_inv[OF assms(2)] assms(1) by blast
  obtain acts p' where n: "next_actions it ms p = Some (acts, p')" using next_actions_returns[OF assms(1) inv assms(4)] by blast
  from tick_dispatches_ready[OF assms(1) inv assms(3) n assms(5)] n show ?thesis by blast
qed

theorem ready_molecules_are_dispatched_witness:
  "\<exists>acts p'. next_actions rev small_snapshot small_policy = Some (acts, p') \<and> dp_completed p' = {''a''}"
proof -
  have d: "distinct (map md_id small_snapshot)" by (simp add: small_snapshot_def run_mol_def)
  have p: "dp_known small_policy = {''a'', ''b''}" "dp_completed small_policy = {}" "dp_limits small_policy = []"
    by (auto simp: small_policy_def policy_new_def small_plan_def)
  have "products small_snapshot = {''b''}" by (simp add: products_def small_snapshot_def run_mol_def List.map_filter_simps)
  then have c: "card (dp_known small_policy \<union> products small_snapshot) < 2 ^ 64" by (simp add: p insert_absorb)
  have t: "{m \<in> set small_snapshot. md_id m \<in> dp_known small_policy - dp_completed small_policy \<and> counts_as_terminal m} =
      {run_mol ''a'' Completed [Blocks ''b''] (Some 3)}"
    unfolding p by (auto simp: small_snapshot_def run_mol_def counts_as_terminal_def)
  from ready_molecules_are_dispatched[OF hash_order_rev small_reachable d c p(3)] show ?thesis
    unfolding t unfolding p by (auto simp: run_mol_def)
qed

end
