(* ===== verification/Runtime.thy ===== *)
theory Runtime
  imports DagPolicy
begin

text \<open>
  The event loop of the runtime (\<open>cosmon-runtime/src/lib.rs\<close>): a tick takes a snapshot of the
  store, resets molecules whose worker died, merges what completed, drains automated steps,
  asks the policy (\<open>DagPolicy\<close>) what to dispatch and applies it.

  The store is the file store of \<open>Store\<close>.  What the executor does, a subprocess, and what other
  processes do in the meantime, are functions on the disk: \<open>ex_between\<close> between a read of a record
  and the conditional write that follows it, \<open>te_world\<close> between two ticks.  One reading of the
  clock stands for the readings of one tick.  The loop runs over the list of its ticks; running
  out of them is a loop that still runs.  Messages on the terminal and the probe of the model
  are left out.
\<close>

section \<open>Data\<close>

datatype runtime_error =
  RtState cosmon_error
| RtUnsupported string
| RtDispatch string string
| RtDispatchRefused string string

record dispatch_pin =
  pin_adapter :: "string option"
  pin_model :: "string option"
  pin_base_branch :: "string option"

definition default_pin :: dispatch_pin where
  "default_pin = \<lparr>pin_adapter = None, pin_model = None, pin_base_branch = None\<rparr>"

definition pin_from_molecule :: "'x molecule_data \<Rightarrow> dispatch_pin" where
  "pin_from_molecule m =
     (case md_process m of
        Some pr \<Rightarrow> \<lparr>pin_adapter = mp_adapter_name pr, pin_model = mp_model pr, pin_base_branch = None\<rparr>
      | None \<Rightarrow> default_pin)"

definition is_pinned :: "dispatch_pin \<Rightarrow> bool" where
  "is_pinned pin \<longleftrightarrow> pin_adapter pin \<noteq> None"

datatype shutdown_reason =
  PolicyDrained | SignalTripped | Deadline | BudgetExhausted | MoleculeQuotaExceeded | ReasonDispatchRefused

record run_report =
  rr_reason :: shutdown_reason
  rr_ticks :: nat
  rr_actions_applied :: nat
  rr_refusal :: "(string \<times> string) option"

record runtime_config =
  max_runtime :: "nat option"
  sweep_orphan_descendants_every :: "nat option"
  liveness_recheck_every :: "nat option"

record run_bounds =
  max_actions :: "nat option"
  max_molecules :: "nat option"

type_synonym 'y rdisk = "'y run_fields disk"

text \<open>The executor and the other processes.\<close>

record 'y executor =
  ex_dispatch :: "string \<Rightarrow> dispatch_pin \<Rightarrow> 'y rdisk \<Rightarrow> (runtime_error + unit) \<times> 'y rdisk"
  ex_complete :: "string \<Rightarrow> 'y rdisk \<Rightarrow> (runtime_error + unit) \<times> 'y rdisk"
  ex_drain :: "'y mol \<Rightarrow> 'y rdisk \<Rightarrow> (runtime_error + bool) \<times> 'y rdisk"
  ex_between :: "'y rdisk \<Rightarrow> 'y rdisk"

record ('y, 'r) runtime_ctx =
  rc_order :: "string list \<Rightarrow> string list"
  rc_revision :: "'y mol \<Rightarrow> 'r"
  rc_pid :: "32 word"
  rc_executor :: "'y executor"
  rc_config :: runtime_config
  rc_bounds :: run_bounds

record 'y tick_env =
  te_tripped :: bool
  te_elapsed :: nat
  te_world :: "'y rdisk \<Rightarrow> 'y rdisk"
  te_now :: datetime
  te_session_alive :: "string \<Rightarrow> bool"
  te_worker_alive :: "32 word \<Rightarrow> (64 word) option \<Rightarrow> bool"

record 'y rt =
  rt_disk :: "'y rdisk"
  rt_policy :: "'y dag_policy"
  rt_ticks :: nat
  rt_applied :: nat
  rt_handled :: "string set"

type_synonym 'y run_end = "(runtime_error + run_report) \<times> 'y rt"

section \<open>The subprocess executor\<close>

text \<open>A command line with the changes it makes to the environment of the child.\<close>

record command_line =
  cl_args :: "string list"
  cl_env :: "(string \<times> string) list"
  cl_env_removed :: "string list"

definition apply_dispatch_pin :: "dispatch_pin \<Rightarrow> command_line \<Rightarrow> command_line" where
  "apply_dispatch_pin pin c =
     (let c1 = (case pin_base_branch pin of Some b \<Rightarrow> c\<lparr>cl_args := cl_args c @ [''--base'', b]\<rparr> | None \<Rightarrow> c)
      in case pin_adapter pin of
           None \<Rightarrow> c1
         | Some a \<Rightarrow>
             (let c2 = c1\<lparr>cl_args := cl_args c1 @ [''--adapter'', a],
                          cl_env_removed := cl_env_removed c1 @ [''ANTHROPIC_MODEL'', ''COSMON_DEFAULT_MODEL'']\<rparr>
              in case pin_model pin of Some m \<Rightarrow> c2\<lparr>cl_args := cl_args c2 @ [''--model'', m]\<rparr> | None \<Rightarrow> c2))"

definition tackle_command :: "32 word \<Rightarrow> string \<Rightarrow> dispatch_pin \<Rightarrow> command_line" where
  "tackle_command pid i pin =
     apply_dispatch_pin pin
       \<lparr>cl_args = [''tackle'', i, ''--by'', ''runtime:'' @ show_nat (unat pid)],
        cl_env = [(''COSMON_RUNTIME_ACTIVE'', ''1'')], cl_env_removed = []\<rparr>"

datatype child_result = SpawnFailed string | ChildExited "int option"

definition child_success :: "child_result \<Rightarrow> bool" where
  "child_success r \<longleftrightarrow> r = ChildExited (Some 0)"

fun tackle_failure :: "string \<Rightarrow> string \<Rightarrow> child_result \<Rightarrow> runtime_error" where
  "tackle_failure i what (SpawnFailed e) = RtDispatch i (what @ e)"
| "tackle_failure i what (ChildExited c) =
     RtDispatch i (''cs tackle exited with '' @ (case c of None \<Rightarrow> ''signal'' | Some n \<Rightarrow> show_int n))"

definition subprocess_dispatch ::
  "(command_line \<Rightarrow> 'd \<Rightarrow> child_result \<times> 'd) \<Rightarrow> 32 word \<Rightarrow> string \<Rightarrow> dispatch_pin \<Rightarrow> 'd \<Rightarrow> (runtime_error + unit) \<times> 'd" where
  "subprocess_dispatch child pid i pin d =
     (let (r, d') = child (tackle_command pid i pin) d
      in (if child_success r then Ok () else Err (tackle_failure i ''failed to spawn cs tackle: '' r), d'))"

definition subprocess_complete ::
  "(command_line \<Rightarrow> 'd \<Rightarrow> child_result \<times> 'd) \<Rightarrow> string \<Rightarrow> 'd \<Rightarrow> (runtime_error + unit) \<times> 'd" where
  "subprocess_complete child i d =
     (let (r, d') = child \<lparr>cl_args = [''done'', i], cl_env = [], cl_env_removed = []\<rparr> d
      in (case r of SpawnFailed e \<Rightarrow> Err (RtDispatch i (''cs done failed to launch: '' @ e)) | ChildExited _ \<Rightarrow> Ok (), d'))"

text \<open>\<open>formula_of\<close> is the formula file of an id, read and parsed, if both succeed.\<close>

definition subprocess_drain ::
  "(command_line \<Rightarrow> 'd \<Rightarrow> child_result \<times> 'd) \<Rightarrow> (string \<Rightarrow> formula option) \<Rightarrow> 32 word \<Rightarrow> 'y mol \<Rightarrow> 'd \<Rightarrow> (runtime_error + bool) \<times> 'd" where
  "subprocess_drain child formula_of pid m d =
     (if md_status m \<noteq> Running then (Ok False, d)
      else case formula_of (rf_formula_id (md_rest m)) of
             None \<Rightarrow> (Ok False, d)
           | Some f \<Rightarrow>
               if md_current_step m \<ge> length (steps f) then (Ok False, d)
               else if \<not> is_automated (steps f ! md_current_step m) \<and> assigned_worker m \<noteq> None then (Ok False, d)
               else let (r, d') = child (tackle_command pid (md_id m) (pin_from_molecule m)) d
                    in (if child_success r then Ok True else Err (tackle_failure (md_id m) ''drain_native_tail spawn failed: '' r), d'))"

section \<open>Liveness\<close>

text \<open>Molecules that run while their worker is dead, each with the session it had.\<close>

definition orphan_of :: "'y tick_env \<Rightarrow> 'x molecule_data \<Rightarrow> (string \<times> string) option" where
  "orphan_of te m =
     (if md_status m \<noteq> Running then None
      else case Option.bind (md_process m) (\<lambda>pr. map_option (\<lambda>pid. (pr, pid)) (mp_pid pr)) of
             Some (pr, pid) \<Rightarrow>
               if te_worker_alive te pid (mp_pid_start_time pr) then None
               else Some (md_id m, case session_name m of Some s \<Rightarrow> s | None \<Rightarrow> mp_tmux_session pr)
           | None \<Rightarrow>
               (case session_name m of
                  None \<Rightarrow> None
                | Some s \<Rightarrow> if te_session_alive te s then None else Some (md_id m, s)))"

definition orphan_scan :: "'y tick_env \<Rightarrow> 'x molecule_data list \<Rightarrow> (string \<times> string) list" where
  "orphan_scan te ms = List.map_filter (orphan_of te) ms"

text \<open>A worker is known by its process id and start time.\<close>

definition is_worker_alive :: "(32 word \<Rightarrow> (64 word) option) \<Rightarrow> 32 word \<Rightarrow> (64 word) option \<Rightarrow> bool" where
  "is_worker_alive start_time pid recorded =
     (case recorded of None \<Rightarrow> True | Some t \<Rightarrow> start_time pid = Some t)"

section \<open>Applying actions\<close>

definition claimed :: "datetime \<Rightarrow> 32 word \<Rightarrow> 'y mol \<Rightarrow> 'y mol" where
  "claimed now pid m = mark_tackled now (TackledRuntime pid) (m\<lparr>md_status := Running\<rparr>)"

definition claimable :: "'y mol \<Rightarrow> bool" where
  "claimable m \<longleftrightarrow> md_status m \<notin> {Running, Completed, Collapsed} \<and> \<not> is_human_claimed m"

definition roll_back :: "('y, 'r) runtime_ctx \<Rightarrow> datetime \<Rightarrow> string \<Rightarrow> 'y mol \<Rightarrow> 'y rdisk \<Rightarrow> 'y rdisk" where
  "roll_back c now i m d =
     (case load_molecule d i of
        Inl _ \<Rightarrow> d
      | Inr cur \<Rightarrow>
          if md_status cur = Running \<and> md_updated_at cur = md_updated_at m \<and> md_current_step cur = md_current_step m
          then let d1 = ex_between (rc_executor c) d
               in (case save_molecule_if_revision (rc_revision c) d1 i (cur\<lparr>md_status := Pending, md_updated_at := now\<rparr>) (rc_revision c cur) of
                     Inr d2 \<Rightarrow> d2
                   | Inl _ \<Rightarrow> d1)
          else d)"

definition apply_evolve :: "('y, 'r) runtime_ctx \<Rightarrow> datetime \<Rightarrow> string \<Rightarrow> 'y rdisk \<Rightarrow> (runtime_error + unit) \<times> 'y rdisk" where
  "apply_evolve c now i d =
     (case load_molecule d i of
        Inl e \<Rightarrow> (Err (RtState e), d)
      | Inr m \<Rightarrow>
          if \<not> claimable m then (Ok (), d)
          else let m1 = claimed now (rc_pid c) m; pin = pin_from_molecule m1; d0 = ex_between (rc_executor c) d
               in (case save_molecule_if_revision (rc_revision c) d0 i m1 (rc_revision c m) of
                     Inl e \<Rightarrow> (Err (RtState e), d0)
                   | Inr d1 \<Rightarrow>
                       (case ex_dispatch (rc_executor c) i pin d1 of
                          (Inr _, d2) \<Rightarrow> (Ok (), d2)
                        | (Inl e, d2) \<Rightarrow> (Err e, roll_back c now i m1 d2))))"

definition save_rt :: "'y rdisk \<Rightarrow> string \<Rightarrow> 'y mol \<Rightarrow> (runtime_error + unit) \<times> 'y rdisk" where
  "save_rt d i m = (case save_molecule d i m of Inl e \<Rightarrow> (Err (RtState e), d) | Inr d' \<Rightarrow> (Ok (), d'))"

definition apply_complete :: "datetime \<Rightarrow> string \<Rightarrow> 'y rdisk \<Rightarrow> (runtime_error + unit) \<times> 'y rdisk" where
  "apply_complete now i d =
     (case load_molecule d i of
        Inl e \<Rightarrow> (Err (RtState e), d)
      | Inr m \<Rightarrow>
          if md_status m = Completed then (Ok (), d)
          else save_rt d (md_id m) (m\<lparr>md_status := Completed, md_current_step := md_total_steps m, md_updated_at := now\<rparr>))"

definition apply_freeze :: "datetime \<Rightarrow> string \<Rightarrow> 'y rdisk \<Rightarrow> (runtime_error + unit) \<times> 'y rdisk" where
  "apply_freeze now i d =
     (case load_molecule d i of
        Inl e \<Rightarrow> (Err (RtState e), d)
      | Inr m \<Rightarrow>
          if md_status m \<noteq> Completed then (Ok (), d)
          else save_rt d (md_id m) (m\<lparr>md_status := Frozen, md_updated_at := now\<rparr>))"

definition apply_collapse :: "datetime \<Rightarrow> string \<Rightarrow> string \<Rightarrow> 'y rdisk \<Rightarrow> (runtime_error + unit) \<times> 'y rdisk" where
  "apply_collapse now i why d =
     (case load_molecule d i of
        Inl e \<Rightarrow> (Err (RtState e), d)
      | Inr m \<Rightarrow>
          if md_status m = Collapsed then (Ok (), d)
          else save_rt d (md_id m) (m\<lparr>md_status := Collapsed, md_collapse_reason := Some why, md_updated_at := now\<rparr>))"

section \<open>One tick\<close>

definition list_molecules :: "'x disk \<Rightarrow> 'x molecule_data list" where
  "list_molecules d = ml_molecules (list_molecules_report (\<lambda>_. True) d)"

definition report :: "shutdown_reason \<Rightarrow> (string \<times> string) option \<Rightarrow> 'y rt \<Rightarrow> 'y run_end + 's" where
  "report why refusal s =
     Inl (Ok \<lparr>rr_reason = why, rr_ticks = rt_ticks s, rr_actions_applied = rt_applied s, rr_refusal = refusal\<rparr>, s)"

definition go_on :: "('e + 's) option \<Rightarrow> ('s \<Rightarrow> ('e + 't) option) \<Rightarrow> ('e + 't) option" where
  "go_on x f = Option.bind x (\<lambda>r. case r of Inl e \<Rightarrow> Some (Inl e) | Inr s \<Rightarrow> f s)"

definition due :: "nat option \<Rightarrow> nat \<Rightarrow> bool" where
  "due every ticks = (case every of None \<Rightarrow> False | Some n \<Rightarrow> n > 0 \<and> ticks mod n = 0)"

definition begin_tick :: "('y, 'r) runtime_ctx \<Rightarrow> 'y tick_env \<Rightarrow> 'y rt \<Rightarrow> ('y run_end + 'y rt) option" where
  "begin_tick c te s =
     Some (if te_tripped te then report SignalTripped None s
           else if (case max_runtime (rc_config c) of None \<Rightarrow> False | Some dl \<Rightarrow> te_elapsed te \<ge> dl) then report Deadline None s
           else let s1 = s\<lparr>rt_disk := te_world te (rt_disk s), rt_ticks := rt_ticks s + 1\<rparr>
                in if (case max_molecules (rc_bounds c) of None \<Rightarrow> False | Some n \<Rightarrow> length (list_molecules (rt_disk s1)) > n)
                   then report MoleculeQuotaExceeded None s1 else Inr s1)"

definition refresh :: "('y, 'r) runtime_ctx \<Rightarrow> 'y rt \<Rightarrow> ('y run_end + 'y rt) option" where
  "refresh c s =
     (case refresh_scope (rc_order c) (load_molecule (rt_disk s)) (Ok (list_molecules (rt_disk s))) (rt_policy s) of
        (None, _) \<Rightarrow> None
      | (Some (Inl e), p1) \<Rightarrow> Some (Inl (Err (RtState e), s\<lparr>rt_policy := p1\<rparr>))
      | (Some (Inr p2), _) \<Rightarrow> Some (Inr (s\<lparr>rt_policy := p2\<rparr>)))"

definition sweep :: "('y, 'r) runtime_ctx \<Rightarrow> 'y rt \<Rightarrow> ('y run_end + 'y rt) option" where
  "sweep c s = (if due (sweep_orphan_descendants_every (rc_config c)) (rt_ticks s) then refresh c s else Some (Inr s))"

fun reset_orphans :: "datetime \<Rightarrow> (string \<times> string) list \<Rightarrow> 'y rt \<Rightarrow> bool \<Rightarrow> 'y rt \<times> bool" where
  "reset_orphans now [] s any = (s, any)"
| "reset_orphans now ((i, _) # os) s any =
     (if \<not> tracks_molecule (rt_policy s) i then reset_orphans now os s any
      else case load_molecule (rt_disk s) i of
             Inl _ \<Rightarrow> reset_orphans now os s any
           | Inr latest \<Rightarrow>
               if md_status latest \<noteq> Running then reset_orphans now os s any
               else case save_molecule (rt_disk s) i
                           (latest\<lparr>md_status := Pending, assigned_worker := None, session_name := None, md_updated_at := now\<rparr>) of
                      Inl _ \<Rightarrow> reset_orphans now os s any
                    | Inr d \<Rightarrow> reset_orphans now os (s\<lparr>rt_disk := d\<rparr>) True)"

definition recheck :: "('y, 'r) runtime_ctx \<Rightarrow> 'y tick_env \<Rightarrow> 'y mol list \<Rightarrow> 'y rt \<Rightarrow> 'y rt \<times> bool" where
  "recheck c te ms s =
     (if due (liveness_recheck_every (rc_config c)) (rt_ticks s) then reset_orphans (te_now te) (orphan_scan te ms) s False else (s, False))"

text \<open>The stamp that the branch of a completed molecule has landed.\<close>

definition stamp_merged :: "datetime \<Rightarrow> string \<Rightarrow> 'y rdisk \<Rightarrow> 'y rdisk \<times> bool" where
  "stamp_merged now i d =
     (case load_molecule d i of
        Inl _ \<Rightarrow> (d, False)
      | Inr latest \<Rightarrow>
          if merged_at latest \<noteq> None then (d, False)
          else case save_molecule d i (latest\<lparr>merged_at := Some now\<rparr>) of Inl _ \<Rightarrow> (d, False) | Inr d' \<Rightarrow> (d', True))"

fun handle_completions ::
  "('y, 'r) runtime_ctx \<Rightarrow> datetime \<Rightarrow> 'y mol list \<Rightarrow> 'y rt \<Rightarrow> bool \<Rightarrow> ('y run_end + 'y rt \<times> bool) option" where
  "handle_completions c now [] s stamped = Some (Inr (s, stamped))"
| "handle_completions c now (m # ms) s stamped =
     (if md_status m \<noteq> Completed \<or> \<not> tracks_molecule (rt_policy s) (md_id m) \<or> md_id m \<in> rt_handled s
      then handle_completions c now ms s stamped
      else let (r, d1) = ex_complete (rc_executor c) (md_id m) (rt_disk s);
               (d2, st) = (case r of Inr _ \<Rightarrow> stamp_merged now (md_id m) d1 | Inl _ \<Rightarrow> (d1, False));
               s1 = s\<lparr>rt_disk := d2, rt_handled := insert (md_id m) (rt_handled s)\<rparr>
           in if rf_freeze_on_last_step (md_rest m)
              then (case apply_freeze now (md_id m) d2 of
                      (Inl e, d3) \<Rightarrow> Some (Inl (Err e, s1\<lparr>rt_disk := d3\<rparr>))
                    | (Inr _, d3) \<Rightarrow> handle_completions c now ms (s1\<lparr>rt_disk := d3\<rparr>) (stamped \<or> st))
              else handle_completions c now ms s1 (stamped \<or> st))"

fun drain_tails :: "('y, 'r) runtime_ctx \<Rightarrow> 'y mol list \<Rightarrow> 'y rt \<Rightarrow> 'y rt" where
  "drain_tails c [] s = s"
| "drain_tails c (m # ms) s =
     (if md_status m \<noteq> Running \<or> \<not> tracks_molecule (rt_policy s) (md_id m) then drain_tails c ms s
      else case ex_drain (rc_executor c) m (rt_disk s) of
             (Inr True, d) \<Rightarrow> drain_tails c ms (s\<lparr>rt_disk := d, rt_applied := rt_applied s + 1\<rparr>)
           | (_, d) \<Rightarrow> drain_tails c ms (s\<lparr>rt_disk := d\<rparr>))"

text \<open>Asking the policy, with a second question when it wants to be recompiled.\<close>

definition decide_actions :: "('y, 'r) runtime_ctx \<Rightarrow> 'y mol list \<Rightarrow> 'y rt \<Rightarrow> ('y run_end + runtime_action list \<times> 'y rt) option" where
  "decide_actions c ms s =
     Option.bind (next_actions (rc_order c) ms (rt_policy s)) (\<lambda>(acts, p1).
       if \<not> dp_needs_recompile p1 then Some (Inr (acts, s\<lparr>rt_policy := p1\<rparr>))
       else Option.bind (recompile (rc_order c) (load_molecule (rt_disk s)) p1) (\<lambda>r.
         case r of
           Inl e \<Rightarrow> Some (Inl (Err (RtState e), s\<lparr>rt_policy := p1\<rparr>))
         | Inr p2 \<Rightarrow> map_option (\<lambda>(acts2, p3). Inr (acts2, s\<lparr>rt_policy := p3\<rparr>)) (next_actions (rc_order c) ms p2)))"

definition choose_actions :: "('y, 'r) runtime_ctx \<Rightarrow> 'y mol list \<Rightarrow> 'y rt \<Rightarrow> ('y run_end + runtime_action list \<times> 'y rt) option" where
  "choose_actions c ms s =
     go_on (decide_actions c ms s) (\<lambda>(acts, s1).
       if acts \<noteq> [] \<or> list_ex (\<lambda>m. md_status m = Running) ms then Some (Inr (acts, s1))
       else go_on (refresh c s1) (\<lambda>s2.
         go_on (decide_actions c (list_molecules (rt_disk s2)) s2) (\<lambda>(acts2, s3).
           if acts2 = [] then Some (report PolicyDrained None s3) else Some (Inr (acts2, s3)))))"

fun apply_actions ::
  "('y, 'r) runtime_ctx \<Rightarrow> datetime \<Rightarrow> runtime_action list \<Rightarrow> 'y rt \<Rightarrow> string list \<Rightarrow> 'y run_end + 'y rt \<times> string list" where
  "apply_actions c now [] s dispatched = Inr (s, dispatched)"
| "apply_actions c now (a # as) s dispatched =
     (if (case max_actions (rc_bounds c) of None \<Rightarrow> False | Some n \<Rightarrow> rt_applied s \<ge> n) then report BudgetExhausted None s
      else case a of
             ANoOp \<Rightarrow> apply_actions c now as (s\<lparr>rt_applied := rt_applied s + 1\<rparr>) dispatched
           | ANucleate _ _ \<Rightarrow> Inl (Err (RtUnsupported ''Nucleate''), s)
           | AEvolve i _ \<Rightarrow>
               (case apply_evolve c now i (rt_disk s) of
                  (Inr _, d) \<Rightarrow> apply_actions c now as (s\<lparr>rt_disk := d, rt_applied := rt_applied s + 1\<rparr>) (dispatched @ [i])
                | (Inl (RtDispatch _ _), d) \<Rightarrow> apply_actions c now as (s\<lparr>rt_disk := d\<rparr>) dispatched
                | (Inl (RtDispatchRefused j why), d) \<Rightarrow> report ReasonDispatchRefused (Some (j, why)) (s\<lparr>rt_disk := d\<rparr>)
                | (Inl e, d) \<Rightarrow> Inl (Err e, s\<lparr>rt_disk := d\<rparr>))
           | AComplete i _ \<Rightarrow>
               (case apply_complete now i (rt_disk s) of
                  (Inr _, d) \<Rightarrow> apply_actions c now as (s\<lparr>rt_disk := d, rt_applied := rt_applied s + 1\<rparr>) dispatched
                | (Inl e, d) \<Rightarrow> Inl (Err e, s\<lparr>rt_disk := d\<rparr>))
           | ACollapse i why \<Rightarrow>
               (case apply_collapse now i why (rt_disk s) of
                  (Inr _, d) \<Rightarrow> apply_actions c now as (s\<lparr>rt_disk := d, rt_applied := rt_applied s + 1\<rparr>) dispatched
                | (Inl e, d) \<Rightarrow> Inl (Err e, s\<lparr>rt_disk := d\<rparr>)))"

fun freeze_dispatched :: "datetime \<Rightarrow> string list \<Rightarrow> 'y rt \<Rightarrow> 'y run_end + 'y rt" where
  "freeze_dispatched now [] s = Inr s"
| "freeze_dispatched now (i # is) s =
     (case load_molecule (rt_disk s) i of
        Inl _ \<Rightarrow> freeze_dispatched now is s
      | Inr m \<Rightarrow>
          if md_status m = Completed \<and> rf_freeze_on_last_step (md_rest m)
          then (case apply_freeze now i (rt_disk s) of
                  (Inl e, d) \<Rightarrow> Inl (Err e, s\<lparr>rt_disk := d\<rparr>)
                | (Inr _, d) \<Rightarrow> freeze_dispatched now is (s\<lparr>rt_disk := d\<rparr>))
          else freeze_dispatched now is s)"

definition run_one_tick :: "('y, 'r) runtime_ctx \<Rightarrow> 'y tick_env \<Rightarrow> 'y rt \<Rightarrow> ('y run_end + 'y rt) option" where
  "run_one_tick c te s =
     go_on (begin_tick c te s) (\<lambda>s1.
       let snapshot = list_molecules (rt_disk s1)
       in go_on (sweep c s1) (\<lambda>s2.
          let (s3, reset_any) = recheck c te snapshot s2
          in go_on (handle_completions c (te_now te) snapshot s3 False) (\<lambda>(s4, stamped_any).
             let snapshot2 = (if stamped_any \<or> reset_any then list_molecules (rt_disk s4) else snapshot);
                 s5 = drain_tails c snapshot2 s4
             in go_on (choose_actions c snapshot2 s5) (\<lambda>(acts, s6).
                go_on (Some (apply_actions c (te_now te) acts s6 [])) (\<lambda>(s7, dispatched).
                  Some (freeze_dispatched (te_now te) dispatched s7))))))"

fun run_loop :: "('y, 'r) runtime_ctx \<Rightarrow> 'y tick_env list \<Rightarrow> 'y rt \<Rightarrow> ('y run_end + 'y rt) option" where
  "run_loop c [] s = Some (Inr s)"
| "run_loop c (te # tes) s = go_on (run_one_tick c te s) (run_loop c tes)"

definition run_runtime :: "('y, 'r) runtime_ctx \<Rightarrow> 'y tick_env list \<Rightarrow> 'y dag_policy \<Rightarrow> 'y rdisk \<Rightarrow> ('y run_end + 'y rt) option" where
  "run_runtime c tes p d =
     run_loop c tes \<lparr>rt_disk = d, rt_policy = p, rt_ticks = 0, rt_applied = 0, rt_handled = {}\<rparr>"

section \<open>Conditional saves\<close>

lemma save_if_revision:
  assumes "load_molecule d i = Ok cur" and "\<not> leaves_collapsed cur m"
  shows "save_molecule_if_revision revision d i m (revision cur) =
    (case io_fault d of None \<Rightarrow> Ok (write_file d (fleet_id m) i m) | Some e \<Rightarrow> Err (StoreFailure e))"
  using assms by (auto simp: save_molecule_if_revision_def write_molecule_checked_def load_molecule_def split: option.splits sum.splits)

lemma save_if_revision_Ok:
  assumes "save_molecule_if_revision revision d i m e = Ok d'"
  obtains cur where "load_molecule d i = Ok cur" "revision cur = e" "io_fault d = None" "\<not> leaves_collapsed cur m"
    "d' = write_file d (fleet_id m) i m"
  using write_checked_Ok[OF assms[unfolded save_molecule_if_revision_def]] assms
  by (auto simp: save_molecule_if_revision_def write_molecule_checked_def split: option.splits)

lemma refused_save:
  assumes "\<forall>x. revision x = revision m \<longrightarrow> x = m" and "io_fault d \<noteq> None \<or> load_molecule d i \<noteq> Ok m"
  obtains e where "save_molecule_if_revision revision d i m' (revision m) = Err e"
proof (cases "save_molecule_if_revision revision d i m' (revision m)")
  case (Inr d1)
  then obtain x where "load_molecule d i = Ok x" "revision x = revision m" "io_fault d = None" by (rule save_if_revision_Ok)
  then show ?thesis using assms by auto
qed (use that in blast)

lemma updated_load:
  assumes "disk_wf d" and "load_molecule d i = Ok cur" and "md_id m = md_id cur" and "fleet_id m = fleet_id cur"
  shows "disk_wf (write_file d (fleet_id m) i m)"
    and "load_molecule (write_file d (fleet_id m) i m) j = (if j = i then Ok m else load_molecule d j)"
proof -
  have id: "md_id m = i" using assms(1-3) by (auto elim: load_Ok_cases)
  have free: "fleet_entry d g i \<noteq> None \<Longrightarrow> g = fleet_id m" for g using load_Ok_free[OF assms(1,2)] assms(4) by simp
  show "disk_wf (write_file d (fleet_id m) i m)"
    and "load_molecule (write_file d (fleet_id m) i m) j = (if j = i then Ok m else load_molecule d j)"
    by (rule write_file_wf[OF assms(1) id free] write_file_load[OF assms(1) id free], simp)+
qed

lemma claimed_frame [simp]:
  "md_id (claimed now pid m) = md_id m" "fleet_id (claimed now pid m) = fleet_id m" "md_status (claimed now pid m) = Running"
  "pin_from_molecule (claimed now pid m) = pin_from_molecule m" "md_current_step (claimed now pid m) = md_current_step m"
  "md_updated_at (claimed now pid m) = now"
  by (simp_all add: claimed_def mark_tackled_def pin_from_molecule_def)

section \<open>The steps of a run\<close>

text \<open>
  What the loop does to its state, one effect at a time; \<open>T\<close> are the ticks that may occur.
  A run is a sequence of these steps.
\<close>

inductive rt_step :: "('y, 'r) runtime_ctx \<Rightarrow> 'y tick_env set \<Rightarrow> 'y rt \<Rightarrow> 'y rt \<Rightarrow> bool" for c T where
  new_tick: "te \<in> T \<Longrightarrow> rt_step c T s (s\<lparr>rt_disk := te_world te (rt_disk s), rt_ticks := rt_ticks s + 1\<rparr>)"
| policy: "policy_step (rc_order c) (rt_policy s) p \<Longrightarrow> rt_step c T s (s\<lparr>rt_policy := p\<rparr>)"
| saved: "load_molecule (rt_disk s) i = Ok m \<Longrightarrow> md_id m' = md_id m \<Longrightarrow> fleet_id m' = fleet_id m \<Longrightarrow> j = i \<or> j = md_id m \<Longrightarrow>
    save_molecule (rt_disk s) j m' = Ok d \<Longrightarrow> rt_step c T s (s\<lparr>rt_disk := d\<rparr>)"
| completion: "ex_complete (rc_executor c) i (rt_disk s) = (r, d) \<Longrightarrow>
    rt_step c T s (s\<lparr>rt_disk := d, rt_handled := insert i (rt_handled s)\<rparr>)"
| drained: "ex_drain (rc_executor c) m (rt_disk s) = (r, d) \<Longrightarrow>
    rt_step c T s (s\<lparr>rt_disk := d, rt_applied := rt_applied s + (if r = Ok True then 1 else 0)\<rparr>)"
| evolved: "\<forall>n. max_actions (rc_bounds c) = Some n \<longrightarrow> rt_applied s < n \<Longrightarrow> apply_evolve c now i (rt_disk s) = (r, d) \<Longrightarrow>
    rt_step c T s (s\<lparr>rt_disk := d, rt_applied := rt_applied s + (if isl r then 0 else 1)\<rparr>)"

fun end_state :: "'y run_end + 'y rt \<Rightarrow> 'y rt" where
  "end_state (Inl (_, s)) = s"
| "end_state (Inr s) = s"

text \<open>What the report of a run that started in \<open>s\<close> and ended in \<open>s'\<close> vouches for.\<close>

definition told :: "('y, 'r) runtime_ctx \<Rightarrow> 'y tick_env set \<Rightarrow> 'y rt \<Rightarrow> run_report \<Rightarrow> 'y rt \<Rightarrow> bool" where
  "told c T s rep s' \<longleftrightarrow>
     rr_ticks rep = rt_ticks s' \<and> rr_actions_applied rep = rt_applied s' \<and>
     (case rr_reason rep of
        BudgetExhausted \<Rightarrow> \<exists>n. max_actions (rc_bounds c) = Some n \<and> n \<le> rt_applied s'
      | MoleculeQuotaExceeded \<Rightarrow> \<exists>n. max_molecules (rc_bounds c) = Some n \<and> n < length (list_molecules (rt_disk s'))
      | PolicyDrained \<Rightarrow> \<exists>s2. (rt_step c T)\<^sup>*\<^sup>* s s2 \<and> decide_actions c (list_molecules (rt_disk s2)) s2 = Some (Inr ([], s'))
      | _ \<Rightarrow> True)"

lemma told_after: "(rt_step c T)\<^sup>*\<^sup>* s t \<Longrightarrow> told c T t rep s' \<Longrightarrow> told c T s rep s'"
  by (cases "rr_reason rep") (auto simp: told_def intro: rtranclp_trans)

text \<open>An error in the middle of a recompilation leaves the policy behind in an intermediate state.\<close>

fun leads :: "('y, 'r) runtime_ctx \<Rightarrow> 'y tick_env set \<Rightarrow> 'y rt \<Rightarrow> 'y run_end + 'y rt \<Rightarrow> bool" where
  "leads c T s (Inr s') = (rt_step c T)\<^sup>*\<^sup>* s s'"
| "leads c T s (Inl (Inr rep, s')) = ((rt_step c T)\<^sup>*\<^sup>* s s' \<and> told c T s rep s')"
| "leads c T s (Inl (Inl e, s')) = (\<exists>p. (rt_step c T)\<^sup>*\<^sup>* s (s'\<lparr>rt_policy := p\<rparr>))"

lemma rt_self [simp]: "s\<lparr>rt_policy := rt_policy s\<rparr> = s" "s\<lparr>rt_disk := rt_disk s\<rparr> = s"
  "s\<lparr>rt_handled := h, rt_disk := d\<rparr> = s\<lparr>rt_disk := d, rt_handled := h\<rparr>"
  by simp_all

lemma leads_end:
  assumes "(rt_step c T)\<^sup>*\<^sup>* s s'"
  shows "leads c T s (Inl (Inl e, s'))"
proof -
  have "(rt_step c T)\<^sup>*\<^sup>* s (s'\<lparr>rt_policy := rt_policy s'\<rparr>)" using assms by simp
  then show ?thesis unfolding leads.simps by (rule exI)
qed

lemma leads_report [simp]:
  "leads c T s (report why x s') = ((rt_step c T)\<^sup>*\<^sup>* s s' \<and>
     told c T s \<lparr>rr_reason = why, rr_ticks = rt_ticks s', rr_actions_applied = rt_applied s', rr_refusal = x\<rparr> s')"
  by (simp add: report_def)

lemma leads_after: "(rt_step c T)\<^sup>*\<^sup>* s t \<Longrightarrow> leads c T t r \<Longrightarrow> leads c T s r"
  by (cases "(c, T, t, r)" rule: leads.cases) (auto intro: rtranclp_trans told_after)

lemma one_step: "rt_step c T s t \<Longrightarrow> (rt_step c T)\<^sup>*\<^sup>* s t"
  by (rule r_into_rtranclp)

lemma go_on_Some:
  assumes "go_on x f = Some r"
  obtains e where "x = Some (Inl e)" "r = Inl e" | a where "x = Some (Inr a)" "f a = Some r"
proof (cases x)
  case (Some y)
  then show ?thesis using assms that by (cases y) (auto simp: go_on_def)
qed (use assms in \<open>simp add: go_on_def\<close>)

lemma saved_rt:
  "save_rt (rt_disk s) (md_id m) m' = (r, d) \<Longrightarrow> load_molecule (rt_disk s) i = Ok m \<Longrightarrow> md_id m' = md_id m \<Longrightarrow> fleet_id m' = fleet_id m \<Longrightarrow>
     (rt_step c T)\<^sup>*\<^sup>* s (s\<lparr>rt_disk := d\<rparr>)"
  by (cases "save_molecule (rt_disk s) (md_id m) m'") (auto simp: save_rt_def intro: rt_step.saved)

lemma freeze_steps: "apply_freeze now i (rt_disk s) = (r, d) \<Longrightarrow> (rt_step c T)\<^sup>*\<^sup>* s (s\<lparr>rt_disk := d\<rparr>)"
  by (cases "load_molecule (rt_disk s) i") (auto simp: apply_freeze_def intro: saved_rt split: if_splits)

lemma stamp_steps:
  assumes "stamp_merged now i (rt_disk s) = (d, b)"
  shows "(rt_step c T)\<^sup>*\<^sup>* s (s\<lparr>rt_disk := d\<rparr>)"
proof (cases "\<exists>m. load_molecule (rt_disk s) i = Ok m \<and> merged_at m = None \<and> save_molecule (rt_disk s) i (m\<lparr>merged_at := Some now\<rparr>) = Ok d")
  case True
  then obtain m where m: "load_molecule (rt_disk s) i = Ok m" "save_molecule (rt_disk s) i (m\<lparr>merged_at := Some now\<rparr>) = Ok d" by blast
  have "rt_step c T s (s\<lparr>rt_disk := d\<rparr>)" by (rule rt_step.saved[OF m(1) _ _ _ m(2)]) simp_all
  then show ?thesis by (rule r_into_rtranclp)
next
  case False
  then have "d = rt_disk s" using assms by (auto simp: stamp_merged_def split: sum.splits if_splits)
  then show ?thesis by simp
qed

lemma begin_steps: "te \<in> T \<Longrightarrow> begin_tick c te s = Some r \<Longrightarrow> leads c T s r"
  using rt_step.new_tick[of te T c s] by (auto simp: begin_tick_def Let_def told_def split: if_splits option.splits)

lemma refresh_steps: "refresh c s = Some r \<Longrightarrow> leads c T s r"
proof -
  let ?r = "refresh_scope (rc_order c) (load_molecule (rt_disk s)) (Ok (list_molecules (rt_disk s))) (rt_policy s)"
  assume a: "refresh c s = Some r"
  obtain x p1 where r: "?r = (Some x, p1)" using a by (cases ?r) (auto simp: refresh_def split: option.splits)
  show ?thesis
  proof (cases x)
    case (Inl e)
    then have "r = Inl (Err (RtState e), s\<lparr>rt_policy := p1\<rparr>)" using a r by (simp add: refresh_def)
    moreover have "(rt_step c T)\<^sup>*\<^sup>* s (s\<lparr>rt_policy := p1, rt_policy := rt_policy s\<rparr>)" by simp
    ultimately show ?thesis by (metis leads.simps(3))
  next
    case (Inr p2)
    then have "policy_step (rc_order c) (rt_policy s) p2" using r by (auto intro: policy_step.refreshed)
    then show ?thesis using a r Inr one_step[OF rt_step.policy[of c s p2 T]] by (auto simp: refresh_def)
  qed
qed

lemma sweep_steps: "sweep c s = Some r \<Longrightarrow> leads c T s r"
  by (auto simp: sweep_def intro: refresh_steps split: if_splits)

lemma reset_steps: "reset_orphans now os s any = (s', any') \<Longrightarrow> (rt_step c T)\<^sup>*\<^sup>* s s'"
proof (induction now os s any arbitrary: s' any' rule: reset_orphans.induct)
  case (2 now i ses os s any)
  show ?case
  proof (cases "tracks_molecule (rt_policy s) i \<and> (\<exists>m. load_molecule (rt_disk s) i = Ok m \<and> md_status m = Running)")
    case True
    then obtain m where m: "tracks_molecule (rt_policy s) i" "load_molecule (rt_disk s) i = Ok m" "md_status m = Running" by blast
    let ?m = "m\<lparr>md_status := Pending, assigned_worker := None, session_name := None, md_updated_at := now\<rparr>"
    show ?thesis
    proof (cases "save_molecule (rt_disk s) i ?m")
      case (Inl e)
      then show ?thesis using "2.IH"(4)[OF _ m(2)] "2.prems" m by simp
    next
      case (Inr d)
      have "rt_step c T s (s\<lparr>rt_disk := d\<rparr>)" by (rule rt_step.saved[OF m(2) _ _ _ Inr]) simp_all
      moreover have "(rt_step c T)\<^sup>*\<^sup>* (s\<lparr>rt_disk := d\<rparr>) s'" using "2.IH"(5)[OF _ m(2)] "2.prems" m Inr by simp
      ultimately show ?thesis by (rule converse_rtranclp_into_rtranclp)
    qed
  next
    case False
    then show ?thesis using "2.IH" "2.prems" by (cases "load_molecule (rt_disk s) i") (auto split: if_splits)
  qed
qed simp

lemma recheck_steps: "recheck c te ms s = (s', b) \<Longrightarrow> (rt_step c T)\<^sup>*\<^sup>* s s'"
  by (auto simp: recheck_def intro: reset_steps split: if_splits)

definition forget :: "('e + 's \<times> 'b) \<Rightarrow> 'e + 's" where
  "forget = map_sum id fst"

lemma forget_simps [simp]: "forget (Inl e) = Inl e" "forget (Inr (s, b)) = Inr s"
  by (simp_all add: forget_def)

lemma completions_steps: "handle_completions c now ms s b = Some r \<Longrightarrow> leads c T s (forget r)"
proof (induction ms arbitrary: s b)
  case (Cons m ms)
  show ?case
  proof (cases "md_status m \<noteq> Completed \<or> \<not> tracks_molecule (rt_policy s) (md_id m) \<or> md_id m \<in> rt_handled s")
    case False
    obtain x d1 where x: "ex_complete (rc_executor c) (md_id m) (rt_disk s) = (x, d1)" by fastforce
    let ?s0 = "s\<lparr>rt_disk := d1, rt_handled := insert (md_id m) (rt_handled s)\<rparr>"
    obtain d2 st where st: "(case x of Inr _ \<Rightarrow> stamp_merged now (md_id m) d1 | Inl _ \<Rightarrow> (d1, False)) = (d2, st)" by fastforce
    let ?s1 = "s\<lparr>rt_disk := d2, rt_handled := insert (md_id m) (rt_handled s)\<rparr>"
    have "(rt_step c T)\<^sup>*\<^sup>* ?s0 ?s1" using st stamp_steps[of now "md_id m" ?s0 d2 st c T] by (cases x) auto
    then have s1: "(rt_step c T)\<^sup>*\<^sup>* s ?s1" using rt_step.completion[OF x, of T] by (rule converse_rtranclp_into_rtranclp[rotated])
    show ?thesis
    proof (cases "rf_freeze_on_last_step (md_rest m)")
      case True
      obtain y d3 where y: "apply_freeze now (md_id m) d2 = (y, d3)" by fastforce
      have s2: "(rt_step c T)\<^sup>*\<^sup>* s (?s1\<lparr>rt_disk := d3\<rparr>)" using s1 freeze_steps[of now "md_id m" ?s1 y d3 c T] y by (auto intro: rtranclp_trans)
      show ?thesis
      proof (cases y)
        case (Inl e)
        then show ?thesis using Cons.prems False x st y True leads_end[OF s2] by auto
      next
        case (Inr u)
        then have "handle_completions c now ms (?s1\<lparr>rt_disk := d3\<rparr>) (b \<or> st) = Some r" using Cons.prems False x st y True by simp
        from leads_after[OF s2 Cons.IH[OF this]] show ?thesis .
      qed
    next
      case no: False
      then have "handle_completions c now ms ?s1 (b \<or> st) = Some r" using Cons.prems False x st by simp
      from leads_after[OF s1 Cons.IH[OF this]] show ?thesis .
    qed
  qed (use Cons in simp)
qed auto

lemma drain_steps: "(rt_step c T)\<^sup>*\<^sup>* s (drain_tails c ms s)"
proof (induction ms arbitrary: s)
  case (Cons m ms)
  obtain x d where x: "ex_drain (rc_executor c) m (rt_disk s) = (x, d)" by fastforce
  let ?s = "s\<lparr>rt_disk := d, rt_applied := rt_applied s + (if x = Ok True then 1 else 0)\<rparr>"
  have "drain_tails c (m # ms) s = drain_tails c ms (if md_status m \<noteq> Running \<or> \<not> tracks_molecule (rt_policy s) (md_id m) then s else ?s)"
    using x by (auto split: sum.split bool.split)
  moreover have "(rt_step c T)\<^sup>*\<^sup>* s (drain_tails c ms ?s)"
    using rt_step.drained[OF x] Cons.IH by (rule converse_rtranclp_into_rtranclp)
  ultimately show ?case using Cons.IH by auto
qed simp

definition only_evolves :: "runtime_action list \<Rightarrow> bool" where
  "only_evolves acts \<longleftrightarrow> (\<exists>ids ev. acts = map (\<lambda>i. AEvolve i ev) ids)"

lemma next_actions_evolves: "next_actions it ms p = Some (acts, p') \<Longrightarrow> only_evolves acts"
  by (auto simp: next_actions_def Let_def dispatch_marked_def only_evolves_def bind_eq_Some_conv case_prod_unfold)

fun chosen :: "('e + runtime_action list \<times> 's) \<Rightarrow> bool" where
  "chosen (Inl e) = True"
| "chosen (Inr (acts, s)) = only_evolves acts"

definition settle :: "('e + 'a \<times> 's) \<Rightarrow> 'e + 's" where
  "settle = map_sum id snd"

lemma settle_simps [simp]: "settle (Inl e) = Inl e" "settle (Inr (b, s)) = Inr s"
  by (simp_all add: settle_def)

lemma decide_steps:
  assumes "decide_actions c ms s = Some r"
  shows "leads c T s (settle r) \<and> chosen r"
proof -
  obtain acts p1 where n: "next_actions (rc_order c) ms (rt_policy s) = Some (acts, p1)"
    using assms by (auto simp: decide_actions_def bind_eq_Some_conv)
  note st = rt_step.policy[of c s p1 T, OF policy_step.ticked[OF n]]
  show ?thesis
  proof (cases "dp_needs_recompile p1")
    case False
    then show ?thesis using assms n st next_actions_evolves[OF n] by (auto simp: decide_actions_def)
  next
    case True
    obtain x where x: "recompile (rc_order c) (load_molecule (rt_disk s)) p1 = Some x"
      using assms n True by (auto simp: decide_actions_def bind_eq_Some_conv)
    show ?thesis
    proof (cases x)
      case (Inl e)
      then show ?thesis using assms n True x leads_end[OF one_step[OF st]] by (auto simp: decide_actions_def)
    next
      case (Inr p2)
      obtain acts2 p3 where n2: "next_actions (rc_order c) ms p2 = Some (acts2, p3)" and r: "r = Inr (acts2, s\<lparr>rt_policy := p3\<rparr>)"
        using assms n True x Inr by (auto simp: decide_actions_def)
      have "rt_step c T (s\<lparr>rt_policy := p1\<rparr>) (s\<lparr>rt_policy := p2\<rparr>)"
        using rt_step.policy[of c "s\<lparr>rt_policy := p1\<rparr>" p2 T] policy_step.recompiled[of "rc_order c" _ p1 p2] x Inr by simp
      moreover have "rt_step c T (s\<lparr>rt_policy := p2\<rparr>) (s\<lparr>rt_policy := p3\<rparr>)"
        using rt_step.policy[of c "s\<lparr>rt_policy := p2\<rparr>" p3 T] policy_step.ticked[OF n2] by simp
      ultimately show ?thesis using st r next_actions_evolves[OF n2] by (auto intro: converse_rtranclp_into_rtranclp)
    qed
  qed
qed

lemma choose_steps:
  assumes "choose_actions c ms s = Some r"
  shows "leads c T s (settle r) \<and> chosen r"
  using assms unfolding choose_actions_def
proof (cases rule: go_on_Some)
  case (1 e)
  then show ?thesis using decide_steps[of c ms s "Inl e" T] by simp
next
  case (2 a)
  obtain acts s1 where a: "a = (acts, s1)" by fastforce
  have d: "(rt_step c T)\<^sup>*\<^sup>* s s1" "only_evolves acts" using decide_steps[of c ms s "Inr a" T] 2(1) a by auto
  show ?thesis
  proof (cases "acts \<noteq> [] \<or> list_ex (\<lambda>m. md_status m = Running) ms")
    case True
    then show ?thesis using 2(2) a d by auto
  next
    case False
    then have g: "go_on (refresh c s1) (\<lambda>s2. go_on (decide_actions c (list_molecules (rt_disk s2)) s2) (\<lambda>(acts2, s3).
           if acts2 = [] then Some (report PolicyDrained None s3) else Some (Inr (acts2, s3)))) = Some r"
      using 2(2) a by simp
    then show ?thesis
    proof (cases rule: go_on_Some)
      case (1 e)
      then show ?thesis using leads_after[OF d(1) refresh_steps[of c s1 "Inl e" T]] by simp
    next
      case r: (2 s2)
      have s2: "(rt_step c T)\<^sup>*\<^sup>* s s2" using leads_after[OF d(1) refresh_steps[OF r(1), of T]] by simp
      show ?thesis using r(2)
      proof (cases rule: go_on_Some)
        case (1 e)
        then show ?thesis using leads_after[OF s2] decide_steps[OF 1(1), of T] by simp
      next
        case (2 b)
        obtain acts2 s3 where b: "b = (acts2, s3)" by fastforce
        have "(rt_step c T)\<^sup>*\<^sup>* s2 s3" "only_evolves acts2" using decide_steps[OF 2(1), of T] b by auto
        then have "(rt_step c T)\<^sup>*\<^sup>* s s3" "only_evolves acts2" using s2 by auto
        then show ?thesis using 2 b s2 by (auto simp: report_def told_def split: if_splits)
      qed
    qed
  qed
qed

lemma apply_steps: "apply_actions c now (map (\<lambda>i. AEvolve i ev) ids) s dis = r \<Longrightarrow> leads c T s (forget r)"
proof (induction ids arbitrary: s dis)
  case (Cons i ids)
  show ?case
  proof (cases "\<exists>n. max_actions (rc_bounds c) = Some n \<and> rt_applied s \<ge> n")
    case True
    then have "r = report BudgetExhausted None s" using Cons.prems by (auto split: option.splits)
    then show ?thesis using True by (simp add: report_def told_def)
  next
    case False
    then have free: "\<forall>n. max_actions (rc_bounds c) = Some n \<longrightarrow> rt_applied s < n" by (auto simp: not_le)
    obtain x d where x: "apply_evolve c now i (rt_disk s) = (x, d)" by fastforce
    note st = rt_step.evolved[OF free x, of T]
    show ?thesis
    proof (cases x)
      case (Inr u)
      have "apply_actions c now (map (\<lambda>i. AEvolve i ev) ids) (s\<lparr>rt_disk := d, rt_applied := rt_applied s + 1\<rparr>) (dis @ [i]) = r"
        using Cons.prems False x Inr by (auto split: option.splits)
      from leads_after[OF one_step[OF st] Cons.IH] this show ?thesis by (simp add: Inr)
    next
      case (Inl e)
      have s': "rt_step c T s (s\<lparr>rt_disk := d\<rparr>)" using st Inl by simp
      show ?thesis
      proof (cases e)
        case (RtDispatch j why)
        then have "apply_actions c now (map (\<lambda>i. AEvolve i ev) ids) (s\<lparr>rt_disk := d\<rparr>) dis = r"
          using Cons.prems False x Inl by (auto split: option.splits)
        from leads_after[OF one_step[OF s'] Cons.IH[OF this]] show ?thesis .
      next
        case (RtDispatchRefused j why)
        then have "r = report ReasonDispatchRefused (Some (j, why)) (s\<lparr>rt_disk := d\<rparr>)"
          using Cons.prems False x Inl by (auto split: option.splits)
        then show ?thesis using s' by (simp add: report_def told_def)
      qed (use Cons.prems False x Inl leads_end[OF one_step[OF s']] in \<open>auto split: option.splits\<close>)
    qed
  qed
qed auto

lemma freeze_dispatched_steps: "freeze_dispatched now is s = r \<Longrightarrow> leads c T s r"
proof (induction now "is" s arbitrary: r rule: freeze_dispatched.induct)
  case (2 now i "is" s)
  show ?case
  proof (cases "\<exists>m. load_molecule (rt_disk s) i = Ok m \<and> md_status m = Completed \<and> rf_freeze_on_last_step (md_rest m)")
    case True
    then obtain m where m: "load_molecule (rt_disk s) i = Ok m" "md_status m = Completed" "rf_freeze_on_last_step (md_rest m)" by blast
    obtain x d where x: "apply_freeze now i (rt_disk s) = (x, d)" by fastforce
    note st = freeze_steps[OF x, of c T]
    show ?thesis
    proof (cases x)
      case (Inl e)
      then show ?thesis using "2.prems" m x leads_end[OF st] by auto
    next
      case (Inr u)
      then have f: "freeze_dispatched now is (s\<lparr>rt_disk := d\<rparr>) = r" using "2.prems" m x by simp
      have "leads c T (s\<lparr>rt_disk := d\<rparr>) r" by (rule "2.IH"(2)[OF m(1) _ x[symmetric] Inr f]) (use m in simp)
      from leads_after[OF st this] show ?thesis .
    qed
  next
    case False
    then show ?thesis using "2.IH"(1,3) "2.prems" by (cases "load_molecule (rt_disk s) i") (auto split: if_splits)
  qed
qed auto

lemma tick_steps:
  assumes "te \<in> T" and "run_one_tick c te s = Some r"
  shows "leads c T s r"
  using assms(2) unfolding run_one_tick_def
proof (cases rule: go_on_Some)
  case (1 e)
  then show ?thesis using begin_steps[OF assms(1)] by blast
next
  case b: (2 s1)
  let ?snap = "list_molecules (rt_disk s1)"
  have s1: "(rt_step c T)\<^sup>*\<^sup>* s s1" using begin_steps[OF assms(1) b(1)] by simp
  from b(2)[unfolded Let_def] show ?thesis
  proof (cases rule: go_on_Some)
    case (1 e)
    then show ?thesis using leads_after[OF s1 sweep_steps[OF 1(1)]] by simp
  next
    case w: (2 s2)
    obtain s3 any where k: "recheck c te ?snap s2 = (s3, any)" by fastforce
    have s3: "(rt_step c T)\<^sup>*\<^sup>* s s3" using s1 sweep_steps[OF w(1), of T] recheck_steps[OF k, of T] by simp
    from w(2)[unfolded k prod.case] show ?thesis
    proof (cases rule: go_on_Some)
      case (1 e)
      then show ?thesis using leads_after[OF s3 completions_steps[OF 1(1)]] by simp
    next
      case h: (2 x)
      obtain s4 st where x: "x = (s4, st)" by fastforce
      let ?snap2 = "if st \<or> any then list_molecules (rt_disk s4) else ?snap" and ?s5 = "drain_tails c (if st \<or> any then list_molecules (rt_disk s4) else ?snap) s4"
      have "leads c T s (forget (Inr x :: 'a run_end + _))" using leads_after[OF s3 completions_steps[OF h(1)]] .
      then have "(rt_step c T)\<^sup>*\<^sup>* s s4" unfolding x by simp
      then have s5: "(rt_step c T)\<^sup>*\<^sup>* s ?s5" by (rule rtranclp_trans) (rule drain_steps)
      from h(2)[unfolded x prod.case] show ?thesis
      proof (cases rule: go_on_Some)
        case (1 e)
        then show ?thesis using leads_after[OF s5] choose_steps[OF 1(1), of T] by simp
      next
        case a: (2 y)
        obtain acts s6 where y: "y = (acts, s6)" by fastforce
        have "leads c T ?s5 (settle (Inr y :: 'a run_end + _))" "chosen (Inr y :: 'a run_end + _)" using choose_steps[OF a(1), of T] by blast+
        then have s6: "(rt_step c T)\<^sup>*\<^sup>* s s6" "only_evolves acts" using s5 y by auto
        then obtain ids ev where acts: "acts = map (\<lambda>i. AEvolve i ev) ids" by (auto simp: only_evolves_def)
        have ap: "leads c T s (forget (apply_actions c (te_now te) acts s6 []))"
          unfolding acts by (rule leads_after[OF s6(1) apply_steps[OF refl]])
        from a(2)[unfolded y prod.case] show ?thesis
        proof (cases rule: go_on_Some)
          case (1 e)
          then show ?thesis using ap by simp
        next
          case f: (2 z)
          obtain s7 ds where z: "z = (s7, ds)" by fastforce
          have "apply_actions c (te_now te) acts s6 [] = Inr (s7, ds)" using f(1) z by simp
          from ap[unfolded this] have "(rt_step c T)\<^sup>*\<^sup>* s s7" by simp
          moreover have "freeze_dispatched (te_now te) ds s7 = r" using f(2) z by simp
          ultimately show ?thesis using leads_after freeze_dispatched_steps by blast
        qed
      qed
    qed
  qed
qed

lemma loop_steps: "set tes \<subseteq> T \<Longrightarrow> run_loop c tes s = Some r \<Longrightarrow> leads c T s r"
proof (induction tes arbitrary: s)
  case (Cons te tes)
  from Cons.prems(2) have "go_on (run_one_tick c te s) (run_loop c tes) = Some r" by simp
  then show ?case
  proof (cases rule: go_on_Some)
    case (1 e)
    then show ?thesis using tick_steps[of te T c s "Inl e"] Cons.prems(1) by simp
  next
    case (2 t)
    have "(rt_step c T)\<^sup>*\<^sup>* s t" using tick_steps[of te T c s "Inr t"] 2(1) Cons.prems(1) by simp
    moreover have "leads c T t r" using Cons.IH 2(2) Cons.prems(1) by simp
    ultimately show ?thesis by (rule leads_after)
  qed
qed auto

section \<open>Runs and the store\<close>

text \<open>
  The executor and the other processes change the disk only the way the store allows, and a
  revision, a digest of the record, tells records of different fleets apart.
\<close>

definition tells_fleets :: "('x molecule_data \<Rightarrow> 'r) \<Rightarrow> bool" where
  "tells_fleets revision \<longleftrightarrow> (\<forall>x y. revision x = revision y \<longrightarrow> fleet_id x = fleet_id y)"

definition proper :: "('y, string) runtime_ctx \<Rightarrow> 'y tick_env set \<Rightarrow> bool" where
  "proper c T \<longleftrightarrow>
     tells_fleets (rc_revision c) \<and>
     (\<forall>i pin d. store_step\<^sup>*\<^sup>* d (snd (ex_dispatch (rc_executor c) i pin d))) \<and>
     (\<forall>i d. store_step\<^sup>*\<^sup>* d (snd (ex_complete (rc_executor c) i d))) \<and>
     (\<forall>m d. store_step\<^sup>*\<^sup>* d (snd (ex_drain (rc_executor c) m d))) \<and>
     (\<forall>d. store_step\<^sup>*\<^sup>* d (ex_between (rc_executor c) d)) \<and>
     (\<forall>te\<in>T. \<forall>d. store_step\<^sup>*\<^sup>* d (te_world te d))"

lemma store_step_wf: "disk_wf d \<Longrightarrow> store_step d d' \<Longrightarrow> disk_wf d'"
proof (erule store_step.cases)
  fix e da
  assume "d' = da\<lparr>io_fault := e\<rparr>" "d = da" "disk_wf d"
  then show ?thesis by (auto simp: disk_wf_def)
next
  fix da j c m d''
  assume a: "d = da" "d' = d''" "load_molecule da j = Ok c" "md_id m = j" "fleet_id m = fleet_id c"
    "save_molecule da j m = Ok d''" "disk_wf d"
  have "d'' = write_file da (fleet_id m) j m" using a(6) write_checked_Ok(1) by (simp add: save_molecule_def) blast
  moreover have "md_id c = j" using a(1,3,7) by (auto elim: load_Ok_cases)
  ultimately show ?thesis using updated_load(1)[of da j c m] a by simp
next
  fix da j c m e d'' and revision :: "'a molecule_data \<Rightarrow> string"
  assume a: "d = da" "d' = d''" "load_molecule da j = Ok c" "md_id m = j" "fleet_id m = fleet_id c"
    "save_molecule_if_revision revision da j m e = Ok d''" "disk_wf d"
  have "d'' = write_file da (fleet_id m) j m" using a(6) by (rule save_if_revision_Ok)
  moreover have "md_id c = j" using a(1,3,7) by (auto elim: load_Ok_cases)
  ultimately show ?thesis using updated_load(1)[of da j c m] a by simp
next
  fix da j m d''
  assume a: "d = da" "d' = d''" "\<forall>f. fleet_entry da f j = None" "md_id m = j" "save_molecule da j m = Ok d''" "disk_wf d"
  have "d'' = write_file da (fleet_id m) j m" using a(5) write_checked_Ok(1) by (simp add: save_molecule_def) blast
  then show ?thesis using write_file_wf[of da m j] a by simp
qed (use files.verb_frame(1) in blast)+

interpretation disks: invariant_system disk_wf store_step disk_wf
  by unfold_locales (auto intro: store_step_wf)

lemma conditional_save_step:
  fixes c :: "('y, string) runtime_ctx"
  assumes "tells_fleets (rc_revision c)" and "disk_wf d0" and "md_id cur = i" and "md_id m = md_id cur" and "fleet_id m = fleet_id cur"
    and "save_molecule_if_revision (rc_revision c) d0 i m (rc_revision c cur) = Ok d'"
  shows "store_step d0 (d' :: 'y rdisk)"
proof -
  obtain x where x: "load_molecule d0 i = Ok x" "rc_revision c x = rc_revision c cur" using assms(6) by (rule save_if_revision_Ok)
  have "fleet_id m = fleet_id x" using assms(1,5) x(2) unfolding tells_fleets_def by metis
  then show ?thesis using store_step.update_if[OF x(1) _ _ assms(6)] assms(3,4) by simp
qed

lemma roll_back_history:
  assumes "proper c T" and "disk_wf d"
  shows "store_step\<^sup>*\<^sup>* d (roll_back c now i m d)"
proof (cases "load_molecule d i")
  case (Inr cur)
  let ?d1 = "ex_between (rc_executor c) d" and ?m = "cur\<lparr>md_status := Pending, md_updated_at := now\<rparr>"
  have d1: "store_step\<^sup>*\<^sup>* d ?d1" and i: "tells_fleets (rc_revision c)" using assms(1) by (simp_all add: proper_def)
  have id: "md_id cur = i" using assms(2) Inr by (auto elim: load_Ok_cases)
  have "store_step\<^sup>*\<^sup>* d d2" if s: "save_molecule_if_revision (rc_revision c) ?d1 i ?m (rc_revision c cur) = Ok d2" for d2
    using rtranclp.rtrancl_into_rtrancl[OF d1 conditional_save_step[OF i disks.steps_inv[OF d1 assms(2)] id _ _ s]] by simp
  then show ?thesis using Inr d1 by (auto simp: roll_back_def Let_def split: sum.split)
qed (simp add: roll_back_def)

lemma evolve_history:
  assumes "proper c T" and "disk_wf d" and "apply_evolve c now i d = (r, d')"
  shows "store_step\<^sup>*\<^sup>* d d'"
proof (cases "\<exists>m. load_molecule d i = Ok m \<and> claimable m")
  case True
  then obtain m where m: "load_molecule d i = Ok m" "claimable m" by blast
  let ?d0 = "ex_between (rc_executor c) d" and ?m = "claimed now (rc_pid c) m"
  have d0: "store_step\<^sup>*\<^sup>* d ?d0" and i: "tells_fleets (rc_revision c)"
    and ex: "store_step\<^sup>*\<^sup>* x (snd (ex_dispatch (rc_executor c) j pin x))" for x j pin using assms(1) by (simp_all add: proper_def)
  show ?thesis
  proof (cases "save_molecule_if_revision (rc_revision c) ?d0 i ?m (rc_revision c m)")
    case (Inl e)
    then show ?thesis using assms(3) m d0 by (simp add: apply_evolve_def Let_def)
  next
    case (Inr d1)
    have id: "md_id m = i" using assms(2) m(1) by (auto elim: load_Ok_cases)
    have d1: "store_step\<^sup>*\<^sup>* d d1"
      using rtranclp.rtrancl_into_rtrancl[OF d0 conditional_save_step[OF i disks.steps_inv[OF d0 assms(2)] id _ _ Inr]] by simp
    obtain x d2 where x: "ex_dispatch (rc_executor c) i (pin_from_molecule m) d1 = (x, d2)" by fastforce
    have d2: "store_step\<^sup>*\<^sup>* d d2" using d1 ex[of d1 i "pin_from_molecule m"] x by (auto intro: rtranclp_trans)
    have "store_step\<^sup>*\<^sup>* d (roll_back c now i ?m d2)"
      using d2 roll_back_history[OF assms(1) disks.steps_inv[OF d2 assms(2)]] by (rule rtranclp_trans)
    then show ?thesis using assms(3) m Inr x d2 by (cases x) (auto simp: apply_evolve_def Let_def)
  qed
next
  case False
  then show ?thesis using assms(3) by (cases "load_molecule d i") (auto simp: apply_evolve_def)
qed

lemma rt_step_history:
  assumes "proper c T" and "disk_wf (rt_disk s)" and "rt_step c T s t"
  shows "store_step\<^sup>*\<^sup>* (rt_disk s) (rt_disk t)"
  using assms(3)
proof cases
  case (saved i m m' j d)
  have "md_id m = i" using assms(2) saved(2) by (auto elim: load_Ok_cases)
  then have "store_step (rt_disk s) d" using store_step.update[of "rt_disk s" i m m' d] saved by auto
  then show ?thesis using saved(1) by simp
next
  case (completion i r d)
  have "store_step\<^sup>*\<^sup>* (rt_disk s) (snd (ex_complete (rc_executor c) i (rt_disk s)))" using assms(1) by (simp add: proper_def)
  then show ?thesis using completion by simp
next
  case (drained m r d)
  have "store_step\<^sup>*\<^sup>* (rt_disk s) (snd (ex_drain (rc_executor c) m (rt_disk s)))" using assms(1) by (simp add: proper_def)
  then show ?thesis using drained by simp
next
  case (evolved now i r d)
  then show ?thesis using evolve_history[OF assms(1,2)] by simp
qed (use assms(1) in \<open>simp_all add: proper_def\<close>)

lemma steps_history:
  assumes "proper c T" and "disk_wf (rt_disk s)" and "(rt_step c T)\<^sup>*\<^sup>* s t"
  shows "store_step\<^sup>*\<^sup>* (rt_disk s) (rt_disk t)"
  using assms(3)
proof (induction rule: rtranclp_induct)
  case (step t u)
  have "disk_wf (rt_disk t)" using disks.steps_inv[OF step.IH assms(2)] .
  then show ?case using step.IH rt_step_history[OF assms(1) _ step.hyps(2)] by (metis rtranclp_trans)
qed simp

lemma leads_history:
  assumes "proper c T" and "disk_wf (rt_disk s)" and "leads c T s r"
  shows "store_step\<^sup>*\<^sup>* (rt_disk s) (rt_disk (end_state r))"
  using assms(3)
proof (cases "(c, T, s, r)" rule: leads.cases)
  case (3 c' T' s' e t)
  then obtain p where "(rt_step c T)\<^sup>*\<^sup>* s (t\<lparr>rt_policy := p\<rparr>)" using assms(3) by auto
  from steps_history[OF assms(1,2) this] show ?thesis using 3 by simp
qed (use steps_history[OF assms(1,2)] in auto)

section \<open>Runs and the policy\<close>




section \<open>A small run\<close>

definition run_disk :: "unit mol list \<Rightarrow> unit rdisk" where
  "run_disk ms = \<lparr>fleet_entries = [(''f'', map (\<lambda>m. (md_id m, Some (Ok m))) ms)], legacy_entries = [], io_fault = None\<rparr>"

definition still_executor :: "unit executor" where
  "still_executor = \<lparr>ex_dispatch = (\<lambda>i pin d. (Ok (), d)), ex_complete = (\<lambda>i d. (Ok (), d)), ex_drain = (\<lambda>m d. (Ok False, d)), ex_between = id\<rparr>"

definition small_ctx :: "nat option \<Rightarrow> (unit, string) runtime_ctx" where
  "small_ctx b =
     \<lparr>rc_order = rev, rc_revision = fleet_id, rc_pid = 7, rc_executor = still_executor,
      rc_config = \<lparr>max_runtime = None, sweep_orphan_descendants_every = None, liveness_recheck_every = Some 1\<rparr>,
      rc_bounds = \<lparr>max_actions = b, max_molecules = None\<rparr>\<rparr>"

definition quiet_tick :: "unit tick_env" where
  "quiet_tick =
     \<lparr>te_tripped = False, te_elapsed = 0, te_world = id, te_now = 5, te_session_alive = (\<lambda>_. True), te_worker_alive = (\<lambda>_ _. True)\<rparr>"

definition two_mols :: "unit rdisk" where
  "two_mols = run_disk [run_mol ''a'' Collapsed [Blocks ''b''] None, run_mol ''b'' Pending [BlockedBy ''a''] None]"

lemma run_disk_wf:
  assumes "\<forall>m\<in>set ms. fleet_id m = ''f''"
  shows "disk_wf (run_disk ms)"
proof (rule disk_wfI)
  show "fleet_id c = f \<and> md_id c = j" if "fleet_entry (run_disk ms) f j = Some (Some (Ok c))" for f j c
    using that assms by (auto simp: run_disk_def fleet_entry_def split: if_splits dest!: map_of_SomeD)
  show "f = g" if "fleet_entry (run_disk ms) f j = Some x" "fleet_entry (run_disk ms) g j = Some y" for f g j x y
    using that by (auto simp: run_disk_def fleet_entry_def split: if_splits)
qed (simp_all add: run_disk_def)

lemma small_proper: "proper (small_ctx b) {quiet_tick}"
  by (simp add: proper_def small_ctx_def still_executor_def quiet_tick_def tells_fleets_def)

definition summary :: "('y run_end + 'y rt) option \<Rightarrow> (shutdown_reason option \<times> nat \<times> nat) option" where
  "summary r = map_option (\<lambda>x.
     (case x of Inl (Inr rep, _) \<Rightarrow> Some (rr_reason rep) | _ \<Rightarrow> None, rt_ticks (end_state x), rt_applied (end_state x))) r"

lemma small_run: "summary (run_runtime (small_ctx (Some 1)) [quiet_tick, quiet_tick] small_policy two_mols) = Some (Some PolicyDrained, 1, 0)"
  by code_simp

section \<open>Properties\<close>

text \<open>
  C17. A run is a history of the store: as long as the executor and the other processes write
  through the store, everything a run of the runtime does to the disk, however it ends, is a
  sequence of the store's own steps.  So a molecule that was collapsed before is collapsed
  after, with the same receipt.
\<close>

theorem run_is_store_history:
  assumes "proper c (set tes)" and "disk_wf d" and "run_runtime c tes p d = Some r"
  shows "store_step\<^sup>*\<^sup>* d (rt_disk (end_state r)) \<and> (\<forall>i rc. collapsed_with i rc d \<longrightarrow> collapsed_with i rc (rt_disk (end_state r)))"
proof -
  let ?s = "\<lparr>rt_disk = d, rt_policy = p, rt_ticks = 0, rt_applied = 0, rt_handled = {}\<rparr>"
  have l: "leads c (set tes) ?s r" using loop_steps[of tes "set tes" c ?s r] assms(3) by (simp add: run_runtime_def)
  have "store_step\<^sup>*\<^sup>* d (rt_disk (end_state r))" using leads_history[OF assms(1) _ l] assms(2) by simp
  then show ?thesis using collapse.steps_inv by blast
qed

theorem run_is_store_history_witness:
  "\<exists>r. run_runtime (small_ctx (Some 1)) [quiet_tick, quiet_tick] small_policy two_mols = Some r \<and>
     collapsed_with ''a'' None (rt_disk (end_state r))"
proof -
  obtain r where r: "run_runtime (small_ctx (Some 1)) [quiet_tick, quiet_tick] small_policy two_mols = Some r"
    using small_run by (auto simp: summary_def)
  have wf: "disk_wf two_mols" unfolding two_mols_def by (rule run_disk_wf) (simp add: run_mol_def)
  have "collapsed_with ''a'' None two_mols"
    unfolding collapsed_with_def
    by (simp add: wf) (simp add: two_mols_def run_disk_def run_mol_def load_molecule_def molecule_dir_def fleet_entry_def)
  moreover have "proper (small_ctx (Some 1)) (set [quiet_tick, quiet_tick])" using small_proper by simp
  ultimately show ?thesis using run_is_store_history[OF _ wf r] r by blast
qed

text \<open>
  The budget holds: with a bound on the actions, and an executor that has no automated steps to
  drain, no run applies more actions than the bound, and a run that reports the budget as
  exhausted has applied exactly that many.
\<close>

theorem run_within_budget:
  assumes "max_actions (rc_bounds c) = Some n" and "\<forall>m d. fst (ex_drain (rc_executor c) m d) \<noteq> Ok True"
    and "run_runtime c tes p d = Some r"
  shows "rt_applied (end_state r) \<le> n \<and>
    (\<forall>rep s. r = Inl (Ok rep, s) \<and> rr_reason rep = BudgetExhausted \<longrightarrow> rr_actions_applied rep = n)"
proof -
  let ?s = "\<lparr>rt_disk = d, rt_policy = p, rt_ticks = 0, rt_applied = 0, rt_handled = {}\<rparr>"
  have l: "leads c (set tes) ?s r" using loop_steps[of tes "set tes" c ?s r] assms(3) by (simp add: run_runtime_def)
  have one: "rt_applied t \<le> n" if "rt_step c T s t" "rt_applied s \<le> n" for T s t
    using that assms(1)
  proof cases
    case (drained m x e)
    have "x \<noteq> Ok True" using assms(2) drained(2) by (metis fst_conv)
    then show ?thesis using drained that(2) by simp
  qed auto
  have many: "rt_applied t \<le> n" if "(rt_step c T)\<^sup>*\<^sup>* s t" "rt_applied s \<le> n" for T s t
    using that by (induction rule: rtranclp_induct) (auto intro: one)
  have le: "rt_applied (end_state r) \<le> n"
    using l many[of "set tes" ?s] by (cases "(c, set tes, ?s, r)" rule: leads.cases) (fastforce intro: many)+
  moreover have "rr_actions_applied rep = n" if "r = Inl (Ok rep, s)" "rr_reason rep = BudgetExhausted" for rep s
    using l le that assms(1) by (simp add: told_def)
  ultimately show ?thesis by blast
qed

theorem run_within_budget_witness:
  "\<exists>r. run_runtime (small_ctx (Some 1)) [quiet_tick, quiet_tick] small_policy two_mols = Some r \<and> rt_applied (end_state r) \<le> 1"
proof -
  obtain r where r: "run_runtime (small_ctx (Some 1)) [quiet_tick, quiet_tick] small_policy two_mols = Some r"
    using small_run by (auto simp: summary_def)
  have "max_actions (rc_bounds (small_ctx (Some 1))) = Some 1" "\<forall>m d. fst (ex_drain (rc_executor (small_ctx (Some 1))) m d) \<noteq> Ok True"
    by (simp_all add: small_ctx_def still_executor_def)
  from run_within_budget[OF this r] r show ?thesis by blast
qed



text \<open>
  C19. Dispatching a molecule is a claim: one that is running, finished or claimed by a person is left
  alone.  Otherwise the record is marked as running and tackled by this runtime, provided
  it still has the revision that was read; if it changed in between, nothing of this is written
  and nothing is dispatched.  The executor runs with the claim in the store and every other
  record as it was.
\<close>

theorem dispatch_claims_first:
  fixes now :: datetime
  assumes "disk_wf (ex_between (rc_executor c) d)" and "load_molecule d i = Ok m"
    and "\<forall>x. rc_revision c x = rc_revision c m \<longrightarrow> x = m"
  defines "d0 \<equiv> ex_between (rc_executor c) d" and "m1 \<equiv> m\<lparr>md_status := Running, md_updated_at := now,
    md_rest := (md_rest m)\<lparr>rf_tackled_by := Some (TackledRuntime (rc_pid c)), rf_tackled_at := Some now\<rparr>\<rparr>"
  shows "if md_status m \<in> {Running, Completed, Collapsed} \<or> rf_tackled_by (md_rest m) = Some TackledHuman then apply_evolve c now i d = (Ok (), d)
    else if io_fault d0 \<noteq> None \<or> load_molecule d0 i \<noteq> Ok m then \<exists>e. apply_evolve c now i d = (Err (RtState e), d0)
    else \<exists>d1. disk_wf d1 \<and> load_molecule d1 i = Ok m1 \<and> (\<forall>j. j \<noteq> i \<longrightarrow> load_molecule d1 j = load_molecule d0 j) \<and>
      apply_evolve c now i d =
        (case ex_dispatch (rc_executor c) i (pin_from_molecule m) d1 of
           (Inr _, d2) \<Rightarrow> (Ok (), d2)
         | (Inl e, d2) \<Rightarrow> (Err e, roll_back c now i m1 d2))"
proof (cases "claimable m")
  case True
  then have free: "\<not> (md_status m \<in> {Running, Completed, Collapsed} \<or> rf_tackled_by (md_rest m) = Some TackledHuman)"
    by (auto simp: claimable_def is_human_claimed_def)
  have m1: "m1 = claimed now (rc_pid c) m" by (simp add: m1_def claimed_def mark_tackled_def)
  let ?save = "save_molecule_if_revision (rc_revision c) d0 i m1 (rc_revision c m)"
  have run: "apply_evolve c now i d =
      (case ?save of
         Inl e \<Rightarrow> (Err (RtState e), d0)
       | Inr d1 \<Rightarrow> (case ex_dispatch (rc_executor c) i (pin_from_molecule m) d1 of (Inr _, d2) \<Rightarrow> (Ok (), d2) | (Inl e, d2) \<Rightarrow> (Err e, roll_back c now i m1 d2)))"
    unfolding d0_def m1 apply_evolve_def Let_def claimed_frame(4) using assms(2) True by simp
  show ?thesis
  proof (cases "io_fault d0 \<noteq> None \<or> load_molecule d0 i \<noteq> Ok m")
    case bad: True
    then obtain e where "?save = Err e" by (rule refused_save[OF assms(3)])
    then show ?thesis unfolding if_not_P[OF free] using run bad by simp
  next
    case False
    let ?d1 = "write_file d0 (fleet_id m1) i m1"
    have "\<not> leaves_collapsed m m1" using True by (simp add: leaves_collapsed_def claimable_def m1)
    then have save: "?save = Ok ?d1" using save_if_revision[of d0 i m m1 "rc_revision c"] False by simp
    have "disk_wf d0" "load_molecule d0 i = Ok m" "md_id m1 = md_id m" "fleet_id m1 = fleet_id m"
      using assms(1) False by (simp_all add: d0_def m1)
    note w = updated_load[OF this]
    show ?thesis unfolding if_not_P[OF free] using run save w(1) w(2)[of i] w(2) False by (auto intro!: exI[of _ ?d1])
  qed
qed (use assms(2) in \<open>auto simp: apply_evolve_def claimable_def is_human_claimed_def\<close>)

definition pending_a :: "unit mol" where
  "pending_a = run_mol ''a'' Pending [] None"

lemma run_disk_one [simp]: "load_molecule (run_disk [m]) j = (if j = md_id m then Ok m else Err (MoleculeNotFound j))"
  by (simp add: run_disk_def load_molecule_def molecule_dir_def fleet_entry_def)

theorem dispatch_claims_first_witness:
  "\<exists>d1. load_molecule d1 ''a'' = Ok (claimed 5 7 pending_a) \<and> apply_evolve (small_ctx None\<lparr>rc_revision := \<lambda>m. if m = pending_a then ''x'' else ''y''\<rparr>) 5 ''a'' (run_disk [pending_a]) = (Ok (), d1)"
proof -
  let ?c = "small_ctx None\<lparr>rc_revision := \<lambda>m. if m = pending_a then ''x'' else ''y''\<rparr>"
  have b: "ex_between (rc_executor ?c) (run_disk [pending_a]) = run_disk [pending_a]" by (simp add: small_ctx_def still_executor_def)
  have wf: "disk_wf (ex_between (rc_executor ?c) (run_disk [pending_a]))" unfolding b by (rule run_disk_wf) (simp add: pending_a_def run_mol_def)
  have id: "md_id pending_a = ''a''" "md_status pending_a = Pending" "rf_tackled_by (md_rest pending_a) = None" by (simp_all add: pending_a_def run_mol_def)
  have l: "load_molecule (run_disk [pending_a]) ''a'' = Ok pending_a" using id by simp
  have f: "io_fault (run_disk [pending_a]) = None" by (simp add: run_disk_def)
  have r: "\<forall>x. rc_revision ?c x = rc_revision ?c pending_a \<longrightarrow> x = pending_a" by simp
  have ex: "ex_dispatch (rc_executor ?c) i pin d = (Ok (), d)" for i pin d by (simp add: small_ctx_def still_executor_def)
  have pid: "rc_pid ?c = 7" by (simp add: small_ctx_def)
  from dispatch_claims_first[OF wf l r, of 5] show ?thesis
    unfolding b ex pid using id l f by (auto simp: claimed_def mark_tackled_def)
qed

text \<open>
  A dispatch that failed is undone, and only that: if the record is still the claim as it was
  written, it becomes pending again and every other record stays; if anything else moved the
  molecule in the meantime, its record is left as it is.
\<close>

theorem failed_dispatch_is_undone:
  assumes "disk_wf (ex_between (rc_executor c) d)" and "load_molecule d i = Ok cur"
    and "\<forall>x. rc_revision c x = rc_revision c cur \<longrightarrow> x = cur"
  defines "d0 \<equiv> ex_between (rc_executor c) d"
  shows "if \<not> (md_status cur = Running \<and> md_updated_at cur = md_updated_at m \<and> md_current_step cur = md_current_step m)
    then roll_back c now i m d = d
    else if io_fault d0 \<noteq> None \<or> load_molecule d0 i \<noteq> Ok cur then roll_back c now i m d = d0
    else load_molecule (roll_back c now i m d) i = Ok (cur\<lparr>md_status := Pending, md_updated_at := now\<rparr>) \<and>
      (\<forall>j. j \<noteq> i \<longrightarrow> load_molecule (roll_back c now i m d) j = load_molecule d0 j)"
proof (cases "md_status cur = Running \<and> md_updated_at cur = md_updated_at m \<and> md_current_step cur = md_current_step m")
  case True
  let ?m = "cur\<lparr>md_status := Pending, md_updated_at := now\<rparr>"
  let ?save = "save_molecule_if_revision (rc_revision c) d0 i ?m (rc_revision c cur)"
  have run: "roll_back c now i m d = (case ?save of Inr d2 \<Rightarrow> d2 | Inl _ \<Rightarrow> d0)"
    unfolding d0_def roll_back_def Let_def using assms(2) True by simp
  show ?thesis
  proof (cases "io_fault d0 \<noteq> None \<or> load_molecule d0 i \<noteq> Ok cur")
    case bad: True
    then obtain e where "?save = Err e" by (rule refused_save[OF assms(3)])
    then show ?thesis using run True bad by simp
  next
    case False
    let ?d1 = "write_file d0 (fleet_id ?m) i ?m"
    have "\<not> leaves_collapsed cur ?m" using True by (simp add: leaves_collapsed_def)
    then have "?save = Ok ?d1" using save_if_revision[of d0 i cur ?m "rc_revision c"] False by simp
    then have r: "roll_back c now i m d = ?d1" using run by simp
    have "disk_wf d0" "load_molecule d0 i = Ok cur" "md_id ?m = md_id cur" "fleet_id ?m = fleet_id cur"
      using assms(1) False by (simp_all add: d0_def)
    note w = updated_load(2)[OF this]
    show ?thesis unfolding r using w[of i] w True False by auto
  qed
qed (use assms(2) in \<open>auto simp: roll_back_def\<close>)

theorem failed_dispatch_is_undone_witness:
  "\<exists>cur. load_molecule (roll_back (small_ctx None\<lparr>rc_revision := \<lambda>m. if m = claimed 5 7 pending_a then ''x'' else ''y''\<rparr>) 9 ''a''
     (claimed 5 7 pending_a) (run_disk [claimed 5 7 pending_a])) ''a'' = Ok cur \<and> md_status cur = Pending"
proof -
  let ?m = "claimed 5 7 pending_a" and ?c = "small_ctx None\<lparr>rc_revision := \<lambda>m. if m = claimed 5 7 pending_a then ''x'' else ''y''\<rparr>"
  have b: "ex_between (rc_executor ?c) (run_disk [?m]) = run_disk [?m]" by (simp add: small_ctx_def still_executor_def)
  have wf: "disk_wf (ex_between (rc_executor ?c) (run_disk [?m]))" unfolding b by (rule run_disk_wf) (simp add: pending_a_def run_mol_def)
  have id: "md_id ?m = ''a''" by (simp add: pending_a_def run_mol_def)
  have l: "load_molecule (run_disk [?m]) ''a'' = Ok ?m" using id by simp
  have f: "io_fault (run_disk [?m]) = None" by (simp add: run_disk_def)
  have r: "\<forall>x. rc_revision ?c x = rc_revision ?c ?m \<longrightarrow> x = ?m" by simp
  from failed_dispatch_is_undone[OF wf l r, of ?m 9] show ?thesis unfolding b using l f by auto
qed

definition freed :: "datetime \<Rightarrow> 'x molecule_data \<Rightarrow> 'x molecule_data" where
  "freed now m = m\<lparr>md_status := Pending, assigned_worker := None, session_name := None, md_updated_at := now\<rparr>"

lemma reset_orphans_exact:
  assumes "disk_wf (rt_disk s)" and "io_fault (rt_disk s) = None" and "reset_orphans now os s any = (s', any')"
  shows "disk_wf (rt_disk s') \<and> io_fault (rt_disk s') = None \<and> rt_policy s' = rt_policy s \<and>
    load_molecule (rt_disk s') j =
      (case load_molecule (rt_disk s) j of
         Inl e \<Rightarrow> Err e
       | Inr x \<Rightarrow> Ok (if j \<in> fst ` set os \<and> tracks_molecule (rt_policy s) j \<and> md_status x = Running then freed now x else x))"
  using assms
proof (induction os arbitrary: s any)
  case Nil
  then show ?case by (auto split: sum.splits)
next
  case (Cons o1 os)
  obtain i ses where o1: "o1 = (i, ses)" by fastforce
  show ?case
  proof (cases "tracks_molecule (rt_policy s) i \<and> (\<exists>m. load_molecule (rt_disk s) i = Ok m \<and> md_status m = Running)")
    case True
    then obtain m where m: "tracks_molecule (rt_policy s) i" "load_molecule (rt_disk s) i = Ok m" "md_status m = Running" by blast
    let ?d = "write_file (rt_disk s) (fleet_id (freed now m)) i (freed now m)"
    have f: "md_id (freed now m) = md_id m" "fleet_id (freed now m) = fleet_id m" "md_status (freed now m) = Pending" by (simp_all add: freed_def)
    have save: "save_molecule (rt_disk s) i (freed now m) = Ok ?d"
      by (rule save_succeeds[OF Cons.prems(2) m(2)]) (simp add: leaves_collapsed_def m(3))
    note w = updated_load[OF Cons.prems(1) m(2) f(1,2)]
    have next_run: "reset_orphans now os (s\<lparr>rt_disk := ?d\<rparr>) True = (s', any')"
      using Cons.prems(3) m save o1 by (simp add: freed_def)
    have wf: "disk_wf (rt_disk (s\<lparr>rt_disk := ?d\<rparr>))" "io_fault (rt_disk (s\<lparr>rt_disk := ?d\<rparr>)) = None"
      using w(1) Cons.prems(2) by (simp_all add: write_file_def)
    note IH = Cons.IH[OF wf next_run]
    show ?thesis
    proof (cases "j = i")
      case True
      then show ?thesis using IH w(2)[of j] m f o1 by simp
    next
      case False
      then show ?thesis using IH w(2)[of j] o1 by (auto split: sum.splits)
    qed
  next
    case False
    then have "reset_orphans now os s any = (s', any')" using Cons.prems(3) o1 by (cases "load_molecule (rt_disk s) i") (auto split: if_splits)
    from Cons.IH[OF Cons.prems(1,2) this] show ?thesis using False o1 by (auto split: sum.splits)
  qed
qed

lemma orphans_dead: "i \<in> fst ` set (orphan_scan te ms) \<longleftrightarrow> (\<exists>m\<in>set ms. md_id m = i \<and> orphan_of te m \<noteq> None)"
proof -
  have "orphan_of te m = Some (i, ses) \<Longrightarrow> md_id m = i" for m :: "'b molecule_data" and i ses
    by (auto simp: orphan_of_def split: if_splits option.splits)
  then show ?thesis unfolding orphan_scan_def by (force simp: in_map_filter)
qed

text \<open>
  C20. The liveness check frees exactly the dead: on a tick where it is due, a molecule becomes
  pending again, without worker and session, exactly when the snapshot shows it running with a
  dead worker, the policy tracks it and its record still says running.  Every other record is
  unchanged, completed ones among them, and on the other ticks nothing happens.
\<close>

theorem dead_workers_are_freed:
  assumes "disk_wf (rt_disk s)" and "io_fault (rt_disk s) = None" and "recheck c te ms s = (s', any)"
  shows "load_molecule (rt_disk s') j =
    (case load_molecule (rt_disk s) j of
       Inl e \<Rightarrow> Err e
     | Inr x \<Rightarrow>
         Ok (if due (liveness_recheck_every (rc_config c)) (rt_ticks s) \<and> (\<exists>m\<in>set ms. md_id m = j \<and> orphan_of te m \<noteq> None) \<and>
                tracks_molecule (rt_policy s) j \<and> md_status x = Running
             then x\<lparr>md_status := Pending, assigned_worker := None, session_name := None, md_updated_at := te_now te\<rparr> else x))"
proof (cases "due (liveness_recheck_every (rc_config c)) (rt_ticks s)")
  case True
  then have "reset_orphans (te_now te) (orphan_scan te ms) s False = (s', any)" using assms(3) by (simp add: recheck_def)
  from reset_orphans_exact[OF assms(1,2) this, of j] show ?thesis using True orphans_dead[of j te ms]
    by (auto simp: freed_def split: sum.splits)
next
  case False
  then show ?thesis using assms(3) by (auto simp: recheck_def split: sum.splits)
qed

theorem dead_workers_are_freed_witness:
  "let m = (run_mol ''a'' Running [] None)\<lparr>session_name := Some ''t''\<rparr>;
       s = \<lparr>rt_disk = run_disk [m], rt_policy = small_policy, rt_ticks = 3, rt_applied = 0, rt_handled = {}\<rparr>;
       s' = fst (recheck (small_ctx None) (quiet_tick\<lparr>te_session_alive := \<lambda>_. False\<rparr>) [m] s)
   in map_sum id md_status (load_molecule (rt_disk s') ''a'') = Ok Pending"
proof -
  let ?m = "(run_mol ''a'' Running [] None)\<lparr>session_name := Some ''t''\<rparr>"
  let ?s = "\<lparr>rt_disk = run_disk [?m], rt_policy = small_policy, rt_ticks = 3, rt_applied = 0, rt_handled = {}\<rparr>"
  let ?te = "quiet_tick\<lparr>te_session_alive := \<lambda>_. False\<rparr>"
  obtain s' any where r: "recheck (small_ctx None) ?te [?m] ?s = (s', any)" by fastforce
  have wf: "disk_wf (rt_disk ?s)" by (simp, rule run_disk_wf) (simp add: run_mol_def)
  have f: "io_fault (rt_disk ?s) = None" by (simp add: run_disk_def)
  have k: "md_id ?m = ''a''" "md_status ?m = Running" "orphan_of ?te ?m \<noteq> None" "tracks_molecule small_policy ''a''"
    by (simp_all add: run_mol_def orphan_of_def quiet_tick_def tracks_molecule_def small_policy_def policy_new_def small_plan_def)
  have d: "due (liveness_recheck_every (rc_config (small_ctx None))) 3" by (simp add: due_def small_ctx_def)
  from dead_workers_are_freed[OF wf f r, of "''a''"] show ?thesis using k d r by (simp add: Let_def)
qed

text \<open>
  C39. A merge that failed counts as landed: when \<open>cs done\<close> starts but exits with an error, the
  completion of the molecule is still stamped as merged, so that its dependents are released
  although its branch is not in their base.
\<close>

theorem failed_merge_is_stamped:
  assumes "disk_wf (rt_disk s)" and "io_fault (rt_disk s) = None" and "load_molecule (rt_disk s) (md_id m) = Ok m"
    and "md_status m = Completed" and "merged_at m = None" and "\<not> rf_freeze_on_last_step (md_rest m)"
    and "tracks_molecule (rt_policy s) (md_id m)" and "md_id m \<notin> rt_handled s"
    and "ex_complete (rc_executor c) = subprocess_complete child"
    and "child \<lparr>cl_args = [''done'', md_id m], cl_env = [], cl_env_removed = []\<rparr> (rt_disk s) = (ChildExited (Some 1), rt_disk s)"
  shows "\<exists>s'. handle_completions c now [m] s False = Some (Inr (s', True)) \<and>
    load_molecule (rt_disk s') (md_id m) = Ok (m\<lparr>merged_at := Some now\<rparr>) \<and>
    blocker_done (insert (m\<lparr>merged_at := Some now\<rparr>) M) (md_id m)"
proof -
  let ?m = "m\<lparr>merged_at := Some now\<rparr>"
  let ?d = "write_file (rt_disk s) (fleet_id ?m) (md_id m) ?m"
  have save: "save_molecule (rt_disk s) (md_id m) ?m = Ok ?d"
    by (rule save_succeeds[OF assms(2,3)]) (simp add: leaves_collapsed_def assms(4))
  have c: "subprocess_complete child (md_id m) (rt_disk s) = (Ok (), rt_disk s)" using assms(10) by (simp add: subprocess_complete_def)
  have st: "stamp_merged now (md_id m) (rt_disk s) = (?d, True)" using assms(3,5) save by (simp add: stamp_merged_def)
  have "load_molecule ?d (md_id m) = Ok ?m" using updated_load(2)[OF assms(1,3), of ?m "md_id m"] by simp
  then show ?thesis using assms(4,6-9) c st by (simp add: blocker_done_def)
qed

definition done_fails :: "command_line \<Rightarrow> 'd \<Rightarrow> child_result \<times> 'd" where
  "done_fails cl d = (ChildExited (Some 1), d)"

theorem failed_merge_is_stamped_witness:
  "let m = run_mol ''a'' Completed [] None;
       s = \<lparr>rt_disk = run_disk [m], rt_policy = small_policy, rt_ticks = 3, rt_applied = 0, rt_handled = {}\<rparr>;
       c = small_ctx None\<lparr>rc_executor := still_executor\<lparr>ex_complete := subprocess_complete done_fails\<rparr>\<rparr>
   in \<exists>s'. handle_completions c 9 [m] s False = Some (Inr (s', True)) \<and>
        load_molecule (rt_disk s') ''a'' = Ok (m\<lparr>merged_at := Some 9\<rparr>)"
proof -
  let ?m = "run_mol ''a'' Completed [] None" and ?c = "small_ctx None\<lparr>rc_executor := still_executor\<lparr>ex_complete := subprocess_complete done_fails\<rparr>\<rparr>"
  let ?s = "\<lparr>rt_disk = run_disk [?m], rt_policy = small_policy, rt_ticks = 3, rt_applied = 0, rt_handled = {}\<rparr>"
  have wf: "disk_wf (rt_disk ?s)" by (simp, rule run_disk_wf) (simp add: run_mol_def)
  have f: "io_fault (rt_disk ?s) = None" by (simp add: run_disk_def)
  have i: "md_id ?m = ''a''" by (simp add: run_mol_def)
  have a: "load_molecule (rt_disk ?s) (md_id ?m) = Ok ?m" "md_status ?m = Completed" "merged_at ?m = None" "\<not> rf_freeze_on_last_step (md_rest ?m)"
    "tracks_molecule (rt_policy ?s) (md_id ?m)" "md_id ?m \<notin> rt_handled ?s" "ex_complete (rc_executor ?c) = subprocess_complete done_fails"
    by (simp_all add: run_mol_def tracks_molecule_def small_policy_def policy_new_def small_plan_def)
  have x: "done_fails \<lparr>cl_args = [''done'', md_id ?m], cl_env = [], cl_env_removed = []\<rparr> (rt_disk ?s) = (ChildExited (Some 1), rt_disk ?s)"
    by (simp add: done_fails_def)
  from failed_merge_is_stamped[OF wf f a x, of 9] show ?thesis unfolding Let_def i by blast
qed

definition working :: "unit mol" where
  "working = run_mol ''a'' Running [] None"

lemma waiting_policy: "next_actions rev [working] small_policy = Some ([], small_policy)"
proof -
  have n: "newly_terminal [working] small_policy = []" and f: "compute_from_molecules [working] = []" by code_simp+
  obtain r where r: "critical_path_weighted rev (dp_edges small_policy) (\<lambda>_. 1) = Some r"
  proof -
    have "critical_path_weighted rev (dp_edges small_policy) (\<lambda>_. 1) \<noteq> None" by code_simp
    then show ?thesis using that by blast
  qed
  have e: "eligible_now [working] x small_policy = []" for x
    using f by (simp add: eligible_now_def small_policy_def policy_new_def)
  have m: "mark_pending_ready [working] small_policy = small_policy" by (simp add: mark_pending_ready_def working_def run_mol_def)
  have a: "affinity_reorder [working] [] small_policy = ([], small_policy)" by (simp add: affinity_reorder_def small_policy_def policy_new_def)
  show ?thesis by (simp add: next_actions_def m n e r a dispatch_marked_def)
qed

lemma waiting_tick:
  assumes "rt_disk s = run_disk [working]" and "rt_policy s = small_policy"
  shows "run_one_tick (small_ctx b) quiet_tick s = Some (Inr (s\<lparr>rt_ticks := rt_ticks s + 1\<rparr>))"
proof -
  let ?s1 = "s\<lparr>rt_ticks := rt_ticks s + 1\<rparr>"
  have l: "list_molecules (run_disk [working]) = [working]" by code_simp
  have w: "md_status working = Running" "orphan_of quiet_tick working = None" by (simp_all add: working_def run_mol_def orphan_of_def)
  have d: "dp_needs_recompile small_policy = False" by (simp add: small_policy_def policy_new_def)
  have s1: "s\<lparr>rt_disk := rt_disk s, rt_ticks := rt_ticks s + 1\<rparr> = ?s1" by simp
  have b: "begin_tick (small_ctx b) quiet_tick s = Some (Inr ?s1)"
    by (simp add: begin_tick_def quiet_tick_def small_ctx_def Let_def)
  have k: "recheck (small_ctx b) quiet_tick [working] ?s1 = (?s1, False)"
    by (simp add: recheck_def orphan_scan_def List.map_filter_simps w)
  have t: "drain_tails (small_ctx b) [working] ?s1 = ?s1"
    using w by (simp add: small_ctx_def still_executor_def)
  have c: "decide_actions (small_ctx b) [working] ?s1 = Some (Inr ([], ?s1))"
    using waiting_policy assms(2) d by (simp add: decide_actions_def small_ctx_def)
  show ?thesis
    unfolding run_one_tick_def b go_on_def
    using k t c w l assms by (simp add: sweep_def due_def choose_actions_def go_on_def small_ctx_def)
qed

text \<open>
  The budget does not end a run by itself: with a budget of one action, a store whose only
  molecule is running, and a worker that never finishes, the loop is still running after
  any number of ticks and has applied nothing.
\<close>

theorem budget_does_not_end_a_waiting_run:
  "\<exists>s. run_runtime (small_ctx (Some 1)) (replicate k quiet_tick) small_policy (run_disk [working]) = Some (Inr s) \<and>
     rt_ticks s = k \<and> rt_applied s = 0"
proof -
  have "run_loop (small_ctx (Some 1)) (replicate k quiet_tick) s = Some (Inr (s\<lparr>rt_ticks := rt_ticks s + k\<rparr>))"
    if "rt_disk s = run_disk [working]" "rt_policy s = small_policy" for s
    using that
  proof (induction k arbitrary: s)
    case (Suc k)
    have "run_loop (small_ctx (Some 1)) (replicate k quiet_tick) (s\<lparr>rt_ticks := rt_ticks s + 1\<rparr>) =
        Some (Inr (s\<lparr>rt_ticks := rt_ticks s + 1 + k\<rparr>))" using Suc.IH[of "s\<lparr>rt_ticks := rt_ticks s + 1\<rparr>"] Suc.prems by simp
    then show ?case using waiting_tick[OF Suc.prems] by (simp add: go_on_def)
  qed simp
  then show ?thesis by (simp add: run_runtime_def)
qed

end
