(* ===== verification/Fleet.thy ===== *)
theory Fleet
  imports Worker "HOL-Library.AList"
begin

text \<open>
  The roster of workers and its two files: the records \<open>WorkerData\<close> and \<open>Fleet\<close>
  (\<open>cosmon-state/src/lib.rs\<close>), clearances (\<open>cosmon-core/src/clearance.rs\<close>) and the part of the file
  store that writes a fleet as a durable half and a runtime overlay and merges them again
  (\<open>cosmon-filestore/src/lib.rs\<close>).

  A file is what reading and parsing it gives.  The hash maps are association lists with
  distinct keys.  Each of the two atomic writes of a save may fail, which is a field of the
  files; the process may then go on.
\<close>

section \<open>Clearances\<close>

datatype clearance = ClRead | ClWrite | ClExecute

fun clearance_rank :: "clearance \<Rightarrow> nat" where
  "clearance_rank ClRead = 0"
| "clearance_rank ClWrite = 1"
| "clearance_rank ClExecute = 2"

instantiation clearance :: linorder
begin

definition less_eq_clearance_def: "a \<le> b \<longleftrightarrow> clearance_rank a \<le> clearance_rank b"

definition less_clearance_def: "a < b \<longleftrightarrow> clearance_rank a < clearance_rank b"

instance
proof
  fix a b :: clearance
  show "a \<le> b \<Longrightarrow> b \<le> a \<Longrightarrow> a = b" by (cases a; cases b) (simp_all add: less_eq_clearance_def)
qed (auto simp: less_eq_clearance_def less_clearance_def)

end

fun clearance_text :: "clearance \<Rightarrow> string" where
  "clearance_text ClRead = ''read''"
| "clearance_text ClWrite = ''write''"
| "clearance_text ClExecute = ''execute''"

definition clearance_from_str :: "string \<Rightarrow> parse_enum_error + clearance" where
  "clearance_from_str s =
     (if s = ''read'' then Ok ClRead
      else if s = ''write'' then Ok ClWrite
      else if s = ''execute'' then Ok ClExecute
      else Err \<lparr>type_name = ''Clearance'', bad_value = s\<rparr>)"

interpretation clearance_codec: text_codec clearance_text clearance_from_str
proof unfold_locales
  fix a show "clearance_from_str (clearance_text a) = Ok a" by (cases a) (simp_all add: clearance_from_str_def)
qed

section \<open>The roster\<close>

record worker_data =
  wd_id :: string
  wd_agent_id :: string
  wd_role :: agent_role
  wd_clearance :: clearance
  wd_status :: worker_status
  wd_worker_role :: worker_role
  wd_desired :: desired_state
  wd_repo :: "string option"
  wd_current_molecule :: "string option"
  wd_updated_at :: datetime
  wd_preempted_by :: "string option"
  wd_frozen_molecule :: "string option"
  wd_frozen_at :: "datetime option"
  wd_restart_count :: u32

definition worker_data_new :: "datetime \<Rightarrow> string \<Rightarrow> string \<Rightarrow> agent_role \<Rightarrow> clearance \<Rightarrow> worker_status \<Rightarrow> worker_data" where
  "worker_data_new now i agent r cl st =
     \<lparr>wd_id = i, wd_agent_id = agent, wd_role = r, wd_clearance = cl, wd_status = st,
      wd_worker_role = derive_worker_role r i, wd_desired = DRunning, wd_repo = None, wd_current_molecule = None,
      wd_updated_at = now, wd_preempted_by = None, wd_frozen_molecule = None, wd_frozen_at = None, wd_restart_count = 0\<rparr>"

record repo_data =
  rd_name :: string
  rd_path :: string

record fleet =
  fl_workers :: "(string \<times> worker_data) list"
  fl_repos :: "(string \<times> repo_data) list"
  attention_budget :: "nat option"

definition default_fleet :: fleet where
  "default_fleet = \<lparr>fl_workers = [], fl_repos = [], attention_budget = None\<rparr>"

definition promote_role :: "worker_data \<Rightarrow> worker_data" where
  "promote_role w =
     (if wd_worker_role w = Cognition \<and> derive_worker_role (wd_role w) (wd_id w) \<noteq> Cognition
      then w\<lparr>wd_worker_role := derive_worker_role (wd_role w) (wd_id w)\<rparr> else w)"

definition reconcile_worker_roles :: "fleet \<Rightarrow> fleet" where
  "reconcile_worker_roles f = f\<lparr>fl_workers := map (\<lambda>(i, w). (i, promote_role w)) (fl_workers f)\<rparr>"

section \<open>The two files\<close>

record runtime_worker =
  rw_repo :: "string option"
  rw_restart_count :: u32

type_synonym overlay = "(string \<times> runtime_worker) list"

text \<open>
  The roster file is absent, unreadable with an error, or a fleet.  The overlay may also hold
  text that does not parse, which a reader ignores.
\<close>

record fleet_files =
  ff_durable :: "(string + fleet) option"
  ff_runtime :: "(string + overlay option) option"
  ff_durable_fault :: "string option"
  ff_runtime_fault :: "string option"

definition split_fleet_for_persist :: "fleet \<Rightarrow> fleet \<times> overlay" where
  "split_fleet_for_persist f =
     (f\<lparr>fl_workers := map (\<lambda>(i, w). (i, w\<lparr>wd_repo := None, wd_restart_count := 0\<rparr>)) (fl_workers f)\<rparr>,
      map (\<lambda>(i, w). (i, \<lparr>rw_repo = wd_repo w, rw_restart_count = wd_restart_count w\<rparr>))
        (filter (\<lambda>(i, w). wd_repo w \<noteq> None \<or> wd_restart_count w \<noteq> 0) (fl_workers f)))"

fun apply_overlay :: "overlay \<Rightarrow> (string \<times> worker_data) list \<Rightarrow> (string \<times> worker_data) list" where
  "apply_overlay [] ws = ws"
| "apply_overlay ((i, rw) # os) ws =
     apply_overlay os
       (map (\<lambda>(j, w). (j, if j = i then w\<lparr>wd_repo := rw_repo rw, wd_restart_count := rw_restart_count rw\<rparr> else w)) ws)"

definition merge_runtime_overlay :: "(string + overlay option) option \<Rightarrow> fleet \<Rightarrow> string + fleet" where
  "merge_runtime_overlay file f =
     (case file of
        None \<Rightarrow> Ok f
      | Some (Inl e) \<Rightarrow> Err e
      | Some (Inr None) \<Rightarrow> Ok f
      | Some (Inr (Some os)) \<Rightarrow> Ok (f\<lparr>fl_workers := apply_overlay os (fl_workers f)\<rparr>))"

definition load_fleet :: "fleet_files \<Rightarrow> string + fleet" where
  "load_fleet ff =
     (case ff_durable ff of
        None \<Rightarrow> Ok default_fleet
      | Some (Inl e) \<Rightarrow> Err e
      | Some (Inr f) \<Rightarrow> merge_runtime_overlay (ff_runtime ff) (reconcile_worker_roles f))"

definition save_fleet :: "fleet \<Rightarrow> fleet_files \<Rightarrow> (string + unit) \<times> fleet_files" where
  "save_fleet f ff =
     (let (durable, runtime) = split_fleet_for_persist f
      in case ff_durable_fault ff of
           Some e \<Rightarrow> (Err e, ff)
         | None \<Rightarrow>
             (let ff1 = ff\<lparr>ff_durable := Some (Ok durable)\<rparr>
              in case ff_runtime_fault ff1 of
                   Some e \<Rightarrow> (Err e, ff1)
                 | None \<Rightarrow> (Ok (), ff1\<lparr>ff_runtime := Some (Ok (Some runtime))\<rparr>)))"

section \<open>Reading back\<close>

definition with_overlay :: "(string \<rightharpoonup> runtime_worker) \<Rightarrow> string \<Rightarrow> worker_data \<Rightarrow> worker_data" where
  "with_overlay over i w =
     (case over i of None \<Rightarrow> w | Some rw \<Rightarrow> w\<lparr>wd_repo := rw_repo rw, wd_restart_count := rw_restart_count rw\<rparr>)"

lemma apply_overlay_map:
  assumes "distinct (map fst os)"
  shows "apply_overlay os ws = map (\<lambda>(i, w). (i, with_overlay (map_of os) i w)) ws"
  using assms
proof (induction os ws rule: apply_overlay.induct)
  case (2 i rw os ws)
  have "map_of os i = None" using "2.prems" by (simp add: map_of_eq_None_iff)
  then show ?case using 2 by (auto simp: with_overlay_def split: option.splits)
qed (simp add: with_overlay_def case_prod_unfold)

lemma overlay_of_split:
  assumes "distinct (map fst (fl_workers f))"
  shows "distinct (map fst (snd (split_fleet_for_persist f)))"
    and "(i, w) \<in> set (fl_workers f) \<Longrightarrow> map_of (snd (split_fleet_for_persist f)) i =
      (if wd_repo w \<noteq> None \<or> wd_restart_count w \<noteq> 0 then Some \<lparr>rw_repo = wd_repo w, rw_restart_count = wd_restart_count w\<rparr> else None)"
proof -
  let ?keep = "\<lambda>(i :: string, w :: worker_data). wd_repo w \<noteq> None \<or> wd_restart_count w \<noteq> 0"
  have fst: "map fst (snd (split_fleet_for_persist f)) = map fst (filter ?keep (fl_workers f))"
    by (simp add: split_fleet_for_persist_def case_prod_unfold)
  show d: "distinct (map fst (snd (split_fleet_for_persist f)))"
    unfolding fst using assms by (rule distinct_map_filter)
  show "map_of (snd (split_fleet_for_persist f)) i =
      (if wd_repo w \<noteq> None \<or> wd_restart_count w \<noteq> 0 then Some \<lparr>rw_repo = wd_repo w, rw_restart_count = wd_restart_count w\<rparr> else None)"
    if m: "(i, w) \<in> set (fl_workers f)"
  proof (cases "?keep (i, w)")
    case True
    then have "(i, \<lparr>rw_repo = wd_repo w, rw_restart_count = wd_restart_count w\<rparr>) \<in> set (snd (split_fleet_for_persist f))"
      using m by (force simp: split_fleet_for_persist_def)
    then show ?thesis using True d by simp
  next
    case False
    have "i \<notin> fst ` set (filter ?keep (fl_workers f))" using False m assms by (auto dest: eq_key_imp_eq_value)
    then have "map_of (snd (split_fleet_for_persist f)) i = None"
      unfolding map_of_eq_None_iff using fst by (metis list.set_map)
    then show ?thesis using False by simp
  qed
qed

lemma promote_frame [simp]:
  "wd_repo (promote_role w) = wd_repo w" "wd_restart_count (promote_role w) = wd_restart_count w"
  "promote_role (w\<lparr>wd_repo := r, wd_restart_count := n\<rparr>) = (promote_role w)\<lparr>wd_repo := r, wd_restart_count := n\<rparr>"
  by (simp_all add: promote_role_def)

lemma load_after_durable:
  assumes "ff_durable ff = Some (Ok (fst (split_fleet_for_persist f)))" and "ff_runtime ff = Some (Ok (Some os))" and "distinct (map fst os)"
  shows "load_fleet ff = Ok (f\<lparr>fl_workers :=
    map (\<lambda>(i, w). (i, with_overlay (map_of os) i ((promote_role w)\<lparr>wd_repo := None, wd_restart_count := 0\<rparr>))) (fl_workers f)\<rparr>)"
  using assms by (simp add: load_fleet_def merge_runtime_overlay_def split_fleet_for_persist_def reconcile_worker_roles_def apply_overlay_map case_prod_unfold comp_def)

section \<open>Properties\<close>

text \<open>
  C23. Saving a fleet and loading it gives the fleet back, with the roles of workers that predate
  the role field filled in: the split into two files loses nothing.
\<close>

theorem fleet_round_trip:
  assumes "distinct (map fst (fl_workers f))" and "save_fleet f ff = (Ok (), ff')"
  shows "load_fleet ff' = Ok (reconcile_worker_roles f)"
proof -
  obtain d os where s: "split_fleet_for_persist f = (d, os)" by fastforce
  have ff': "ff_durable ff' = Some (Ok (fst (split_fleet_for_persist f)))" "ff_runtime ff' = Some (Ok (Some os))"
    using assms(2) s by (auto simp: save_fleet_def Let_def split: option.splits)
  note o = overlay_of_split[OF assms(1), unfolded s snd_conv]
  have "with_overlay (map_of os) i ((promote_role w)\<lparr>wd_repo := None, wd_restart_count := 0\<rparr>) = promote_role w"
    if "(i, w) \<in> set (fl_workers f)" for i w
  proof -
    have "wd_repo w = None \<Longrightarrow> wd_restart_count w = 0 \<Longrightarrow> (promote_role w)\<lparr>wd_repo := None, wd_restart_count := 0\<rparr> = promote_role w"
      using promote_frame(1,2)[of w] by (cases "promote_role w") simp
    moreover have "(promote_role w)\<lparr>wd_repo := wd_repo w, wd_restart_count := wd_restart_count w\<rparr> = promote_role w"
      using promote_frame(1,2)[of w] by (cases "promote_role w") simp
    ultimately show ?thesis using o(2)[OF that] by (simp add: with_overlay_def)
  qed
  then have "map (\<lambda>(i, w). (i, with_overlay (map_of os) i ((promote_role w)\<lparr>wd_repo := None, wd_restart_count := 0\<rparr>))) (fl_workers f) =
      map (\<lambda>(i, w). (i, promote_role w)) (fl_workers f)" by (intro map_cong) auto
  then show ?thesis unfolding load_after_durable[OF ff' o(1)] reconcile_worker_roles_def by simp
qed

definition sample_worker :: "string \<Rightarrow> worker_data" where
  "sample_worker i = (worker_data_new 3 i ''tackle'' Implementation ClWrite WActive)\<lparr>wd_repo := Some ''wt'', wd_restart_count := 2\<rparr>"

definition sample_fleet :: fleet where
  "sample_fleet = \<lparr>fl_workers = [(''a'', sample_worker ''a''), (''runtime-b'', (sample_worker ''runtime-b'')\<lparr>wd_worker_role := Cognition\<rparr>)],
     fl_repos = [], attention_budget = None\<rparr>"

definition fresh_files :: fleet_files where
  "fresh_files = \<lparr>ff_durable = None, ff_runtime = None, ff_durable_fault = None, ff_runtime_fault = None\<rparr>"

theorem fleet_round_trip_witness:
  "load_fleet (snd (save_fleet sample_fleet fresh_files)) = Ok (reconcile_worker_roles sample_fleet) \<and>
   wd_worker_role (snd (fl_workers (reconcile_worker_roles sample_fleet) ! 1)) = Runtime"
proof -
  have d: "distinct (map fst (fl_workers sample_fleet))" by (simp add: sample_fleet_def)
  have s: "save_fleet sample_fleet fresh_files = (Ok (), snd (save_fleet sample_fleet fresh_files))"
    by (simp add: save_fleet_def fresh_files_def Let_def case_prod_unfold)
  have "wd_worker_role (snd (fl_workers (reconcile_worker_roles sample_fleet) ! 1)) = Runtime" by code_simp
  with fleet_round_trip[OF d s] show ?thesis by blast
qed

text \<open>
  A save of the fleet that breaks off leaves one roster or the other: whichever of the two writes
  fails, the durable fields of every worker, and so who is in the fleet, are entirely those
  before the save or entirely those saved.
\<close>

definition durable_view :: "fleet \<Rightarrow> fleet" where
  "durable_view f = fst (split_fleet_for_persist f)"

lemma overlay_durable: "map (\<lambda>(i, w). (i, w\<lparr>wd_repo := None, wd_restart_count := 0\<rparr>)) (apply_overlay os ws) =
    map (\<lambda>(i, w). (i, w\<lparr>wd_repo := None, wd_restart_count := 0\<rparr>)) ws"
  by (induction os ws rule: apply_overlay.induct) (simp_all add: case_prod_unfold comp_def)

lemma merge_durable: "merge_runtime_overlay file f = Ok g \<Longrightarrow> durable_view g = durable_view f"
  by (auto simp: merge_runtime_overlay_def durable_view_def split_fleet_for_persist_def overlay_durable split: option.splits sum.splits)

theorem broken_save_keeps_one_roster:
  assumes "save_fleet f ff = (r, ff')" and "load_fleet ff' = Ok g"
  shows "load_fleet ff' = load_fleet ff \<or> durable_view g = durable_view (reconcile_worker_roles f)"
proof (cases "ff_durable_fault ff")
  case (Some e)
  then have "ff' = ff" using assms(1) by (simp add: save_fleet_def case_prod_unfold)
  then show ?thesis by simp
next
  case None
  then have "ff_durable ff' = Some (Ok (durable_view f))"
    using assms(1) by (auto simp: save_fleet_def durable_view_def Let_def case_prod_unfold split: option.splits)
  then have "merge_runtime_overlay (ff_runtime ff') (reconcile_worker_roles (durable_view f)) = Ok g"
    using assms(2) by (simp add: load_fleet_def)
  from merge_durable[OF this] show ?thesis
    by (simp add: durable_view_def reconcile_worker_roles_def split_fleet_for_persist_def case_prod_unfold comp_def)
qed

theorem broken_save_keeps_one_roster_witness:
  "durable_view (case load_fleet (snd (save_fleet sample_fleet (fresh_files\<lparr>ff_runtime_fault := Some ''full''\<rparr>))) of Inr g \<Rightarrow> g | Inl _ \<Rightarrow> default_fleet) =
   durable_view (reconcile_worker_roles sample_fleet)"
proof -
  let ?ff = "fresh_files\<lparr>ff_runtime_fault := Some ''full''\<rparr>"
  obtain r ff' where s: "save_fleet sample_fleet ?ff = (r, ff')" by fastforce
  have "load_fleet ff' \<noteq> load_fleet ?ff \<and> (\<exists>g. load_fleet ff' = Ok g)"
    using s by (auto simp: save_fleet_def fresh_files_def load_fleet_def sample_fleet_def split_fleet_for_persist_def reconcile_worker_roles_def
        merge_runtime_overlay_def default_fleet_def)
  then obtain g where g: "load_fleet ff' \<noteq> load_fleet ?ff" "load_fleet ff' = Ok g" by blast
  from broken_save_keeps_one_roster[OF s g(2)] g s show ?thesis by simp
qed

text \<open>
  The first save of a roster of the old layout can lose the runtime fields: they are stripped
  from the roster file before the overlay is written, so when the second write fails no file
  has them any more.
\<close>

theorem broken_first_save_loses_runtime_fields:
  assumes "ff_runtime ff = None" and "ff_durable_fault ff = None" and "ff_runtime_fault ff = Some e"
    and "save_fleet f ff = (r, ff')"
  shows "\<exists>g. load_fleet ff' = Ok g \<and> (\<forall>(i, w)\<in>set (fl_workers g). wd_repo w = None \<and> wd_restart_count w = 0) \<and>
    map fst (fl_workers g) = map fst (fl_workers f)"
proof -
  have "ff_durable ff' = Some (Ok (durable_view f))" "ff_runtime ff' = None"
    using assms by (auto simp: save_fleet_def durable_view_def Let_def case_prod_unfold)
  then show ?thesis
    by (auto simp: load_fleet_def merge_runtime_overlay_def reconcile_worker_roles_def durable_view_def split_fleet_for_persist_def)
qed

theorem broken_first_save_loses_runtime_fields_witness:
  "\<exists>g. load_fleet (snd (save_fleet sample_fleet (fresh_files\<lparr>ff_durable := Some (Ok sample_fleet), ff_runtime_fault := Some ''full''\<rparr>))) = Ok g \<and>
     map (wd_repo \<circ> snd) (fl_workers g) = [None, None] \<and> map (wd_repo \<circ> snd) (fl_workers sample_fleet) = [Some ''wt'', Some ''wt'']"
proof -
  let ?ff = "fresh_files\<lparr>ff_durable := Some (Ok sample_fleet), ff_runtime_fault := Some ''full''\<rparr>"
  obtain r ff' where s: "save_fleet sample_fleet ?ff = (r, ff')" by fastforce
  have "ff_runtime ?ff = None" "ff_durable_fault ?ff = None" "ff_runtime_fault ?ff = Some ''full''" by (simp_all add: fresh_files_def)
  from broken_first_save_loses_runtime_fields[OF this s] obtain g where g: "load_fleet ff' = Ok g"
    "\<forall>(i, w)\<in>set (fl_workers g). wd_repo w = None \<and> wd_restart_count w = 0" "map fst (fl_workers g) = map fst (fl_workers sample_fleet)" by blast
  then obtain x y where "fl_workers g = [x, y]" by (auto simp: sample_fleet_def)
  then have "map (wd_repo \<circ> snd) (fl_workers g) = [None, None]" using g(2) by (auto simp: case_prod_unfold)
  moreover have "map (wd_repo \<circ> snd) (fl_workers sample_fleet) = [Some ''wt'', Some ''wt'']" by (simp add: sample_fleet_def sample_worker_def)
  ultimately show ?thesis using g(1) s by simp
qed

end
