(* ===== verification/DispatchLedger.thy ===== *)
theory DispatchLedger
  imports Runtime RunState Fleet
begin

text \<open>
  The dispatch ledger (\<open>cosmon-runtime/src/dispatch_ledger.rs\<close>): a dispatch is written to the
  molecule's record, to the fleet and to the event log before its worker is spawned, and undone
  when the spawn does not happen.  It works on the file store (\<open>Store\<close>) and the fleet files
  (\<open>Fleet\<close>); the projection of a process status (\<open>cosmon-core/src/process.rs\<close>) is here too.

  The fields of a record that only this code reads are \<open>ledger_fields\<close>.  A path is the list of
  its components.  One reading of the clock stands for those of one call.  The fleet lock keeps
  out the other users of that lock; what processes that do not take it do to the disk between a
  read and the write that follows is the argument \<open>w\<close>.
\<close>

section \<open>Data\<close>

record 'z ledger_fields =
  lf_tags :: "string list"
  lf_assigned_role :: "agent_role option"
  lf_rest :: 'z

type_synonym 'z lmol = "'z ledger_fields mol"

type_synonym 'z ldisk = "'z ledger_fields run_fields disk"

datatype dispatch_ledger_error =
  LedgerState cosmon_error
| ClaimLost string string string
| ClaimChanged molecule_status
| WorkerSpawnedEmit string string

datatype loop_ownership = LoopExternal | LoopCosmon

type_synonym path = "string list"

record dispatch_record =
  dr_transport :: "string option"
  dr_worker :: string
  dr_session_name :: string
  dr_adapter :: string
  dr_loop_ownership :: loop_ownership
  dr_model :: "string option"
  dr_tackled_by :: tackled_by
  dr_worktree_path :: path
  dr_repo_root :: path

record dispatch_recorded =
  dd_molecule :: string
  dd_worker :: string

record worker_spawned =
  ws_transport :: "string option"
  ws_worker_id :: string
  ws_molecule :: "string option"
  ws_session_name :: string
  ws_role :: string
  ws_adapter_name :: string
  ws_loop_ownership :: loop_ownership

record 'z ledger =
  lg_disk :: "'z ldisk"
  lg_fleet :: fleet_files
  lg_events :: "worker_spawned list"
  lg_locators :: "(string \<times> (string \<times> string option)) list"
  lg_lock_fault :: "string option"
  lg_emit_fault :: "string option"
  lg_locator_fault :: bool

section \<open>Processes\<close>

definition process_new :: "datetime \<Rightarrow> string \<Rightarrow> string \<Rightarrow> molecule_process" where
  "process_new now w s =
     \<lparr>mp_worker_id = w, mp_tmux_session = s, mp_started_at = now, mp_pid = None, mp_pid_start_time = None,
      mp_adapter_name = None, mp_model = None, mp_transport = None, mp_status = WActive, mp_terminal = None,
      mp_worker_launch = None, mp_worktree_path = None\<rparr>"

definition process_is_active :: "molecule_process \<Rightarrow> bool" where
  "process_is_active p \<longleftrightarrow> mp_status p \<in> {WStarting, WActive, WPaused}"

definition bind_process :: "datetime \<Rightarrow> molecule_process \<Rightarrow> 'x molecule_data \<Rightarrow> 'x molecule_data" where
  "bind_process now p m =
     m\<lparr>assigned_worker := Some (mp_worker_id p), session_name := Some (mp_tmux_session p), md_updated_at := now, md_process := Some p\<rparr>"

text \<open>The status a probe implies: a dead process is stale at once, a silent one after two probes.\<close>

definition project_process_status :: "worker_status \<Rightarrow> witness \<Rightarrow> datetime \<Rightarrow> nat \<Rightarrow> worker_status" where
  "project_process_status prev wit now ttl =
     (let effective = (if process wit = Alive \<and> is_stale wit now ttl then Unknown else process wit)
      in case effective of
           Alive \<Rightarrow> WActive
         | Dead \<Rightarrow> WStale
         | Unknown \<Rightarrow> if prev = WUnresponsive \<or> prev = WStale then WStale else WUnresponsive)"

section \<open>Paths\<close>

definition path_text :: "path \<Rightarrow> string" where
  "path_text p = join_with ''/'' p"

definition make_relative :: "path \<Rightarrow> path \<Rightarrow> string" where
  "make_relative p base = path_text (if prefix base p then drop (length base) p else p)"

section \<open>Recording\<close>

definition ledger_save_fleet :: "fleet \<Rightarrow> 'z ledger \<Rightarrow> (string + unit) \<times> 'z ledger" where
  "ledger_save_fleet f lg = (let (r, ff) = save_fleet f (lg_fleet lg) in (r, lg\<lparr>lg_fleet := ff\<rparr>))"

definition fleet_or_default :: "'z ledger \<Rightarrow> fleet" where
  "fleet_or_default lg = (case load_fleet (lg_fleet lg) of Inr f \<Rightarrow> f | Inl _ \<Rightarrow> default_fleet)"

definition tackle_worker :: "datetime \<Rightarrow> dispatch_record \<Rightarrow> 'z lmol \<Rightarrow> worker_data" where
  "tackle_worker now r m =
     (worker_data_new now (dr_worker r) ''tackle'' (case lf_assigned_role (rf_other (md_rest m)) of Some x \<Rightarrow> x | None \<Rightarrow> Implementation)
        ClWrite WActive)
       \<lparr>wd_desired := DRunning, wd_repo := Some (make_relative (dr_worktree_path r) (dr_repo_root r)), wd_current_molecule := Some (md_id m)\<rparr>"

definition spawned_event :: "dispatch_record \<Rightarrow> 'z lmol \<Rightarrow> worker_data \<Rightarrow> worker_spawned" where
  "spawned_event r m w =
     \<lparr>ws_transport = Option.bind (md_process m) mp_transport, ws_worker_id = dr_worker r, ws_molecule = Some (md_id m),
      ws_session_name = dr_worker r, ws_role = agent_role_text (wd_role w), ws_adapter_name = dr_adapter r,
      ws_loop_ownership = dr_loop_ownership r\<rparr>"

definition register_tackle_worker :: "datetime \<Rightarrow> dispatch_record \<Rightarrow> 'z lmol \<Rightarrow> 'z ledger \<Rightarrow> (dispatch_ledger_error + unit) \<times> 'z ledger" where
  "register_tackle_worker now r m lg =
     (let f = fleet_or_default lg;
          w = tackle_worker now r m
      in case ledger_save_fleet (f\<lparr>fl_workers := AList.update (dr_worker r) w (fl_workers f)\<rparr>) lg of
           (Inl e, lg1) \<Rightarrow> (Err (LedgerState (StoreFailure e)), lg1)
         | (Inr _, lg1) \<Rightarrow>
             (case lg_emit_fault lg1 of
                Some e \<Rightarrow> (Err (WorkerSpawnedEmit (dr_worker r) e), lg1)
              | None \<Rightarrow>
                  (Ok (),
                   lg1\<lparr>lg_events := lg_events lg1 @ [spawned_event r m w]\<rparr>)))"

text \<open>The dispatch fields of \<open>prior\<close> put back into \<open>cur\<close>.\<close>

definition restored :: "datetime \<Rightarrow> 'z lmol \<Rightarrow> 'z lmol \<Rightarrow> 'z lmol" where
  "restored now prior cur =
     cur\<lparr>md_status := (if md_status cur = Running then md_status prior else md_status cur),
         md_process := md_process prior, assigned_worker := assigned_worker prior, session_name := session_name prior,
         md_rest := (md_rest cur)\<lparr>rf_tackled_by := rf_tackled_by (md_rest prior), rf_tackled_at := rf_tackled_at (md_rest prior)\<rparr>,
         md_updated_at := now\<rparr>"

definition undo_committed_writes :: "datetime \<Rightarrow> 'z lmol \<Rightarrow> string \<Rightarrow> 'z ledger \<Rightarrow> 'z ledger" where
  "undo_committed_writes now prior w lg =
     (let f = fleet_or_default lg;
          lg1 = snd (ledger_save_fleet (f\<lparr>fl_workers := AList.delete w (fl_workers f)\<rparr>) lg)
      in case load_molecule (lg_disk lg1) (md_id prior) of
           Inl _ \<Rightarrow> lg1
         | Inr cur \<Rightarrow>
             if map_option mp_worker_id (md_process cur) = Some w
             then (case save_molecule (lg_disk lg1) (md_id prior) (restored now prior cur) of
                     Inr d \<Rightarrow> lg1\<lparr>lg_disk := d\<rparr>
                   | Inl _ \<Rightarrow> lg1)
             else lg1)"

definition claim_fields_differ :: "'z lmol \<Rightarrow> 'z lmol \<Rightarrow> bool" where
  "claim_fields_differ cur m \<longleftrightarrow>
     md_status cur \<noteq> md_status m \<or> lf_tags (rf_other (md_rest cur)) \<noteq> lf_tags (rf_other (md_rest m)) \<or>
     assigned_worker cur \<noteq> assigned_worker m \<or> session_name cur \<noteq> session_name m \<or>
     rf_tackled_by (md_rest cur) \<noteq> rf_tackled_by (md_rest m) \<or> rf_tackled_at (md_rest cur) \<noteq> rf_tackled_at (md_rest m)"

definition claim_refused :: "'z lmol \<Rightarrow> 'z lmol \<Rightarrow> dispatch_ledger_error option" where
  "claim_refused cur m =
     (if md_process cur \<noteq> md_process m
      then Some (case md_process cur of
                   Some p \<Rightarrow>
                     ClaimLost (mp_worker_id p) (case mp_adapter_name p of Some a \<Rightarrow> a | None \<Rightarrow> ''unknown'')
                       (case mp_model p of Some mo \<Rightarrow> mo | None \<Rightarrow> ''adapter default (unrecorded)'')
                 | None \<Rightarrow> ClaimChanged (md_status cur))
      else if claim_fields_differ cur m then Some (ClaimChanged (md_status cur))
      else None)"

definition dispatch_process :: "datetime \<Rightarrow> dispatch_record \<Rightarrow> molecule_process" where
  "dispatch_process now r =
     (process_new now (dr_worker r) (dr_session_name r))
       \<lparr>mp_adapter_name := Some (dr_adapter r), mp_model := dr_model r, mp_worktree_path := Some (path_text (dr_worktree_path r)),
        mp_transport := dr_transport r\<rparr>"

definition dispatched_record :: "datetime \<Rightarrow> dispatch_record \<Rightarrow> 'z lmol \<Rightarrow> 'z lmol" where
  "dispatched_record now r cur =
     mark_tackled now (dr_tackled_by r)
       (bind_process now (dispatch_process now r)
         (cur\<lparr>md_status := (if md_status cur \<in> {Pending, Queued, Frozen} then Running else md_status cur)\<rparr>))"

definition save_session_locator :: "string \<Rightarrow> dispatch_record \<Rightarrow> 'z ledger \<Rightarrow> 'z ledger" where
  "save_session_locator i r lg =
     (if lg_locator_fault lg then lg
      else lg\<lparr>lg_locators := AList.update i (path_text (dr_worktree_path r), Some (dr_adapter r)) (lg_locators lg)\<rparr>)"

definition commit_dispatch ::
  "('z ldisk \<Rightarrow> 'z ldisk) \<Rightarrow> datetime \<Rightarrow> dispatch_record \<Rightarrow> 'z lmol \<Rightarrow> 'z ledger
     \<Rightarrow> (dispatch_ledger_error + 'z lmol \<times> dispatch_recorded) \<times> 'z ledger" where
  "commit_dispatch w now r m lg =
     (case lg_lock_fault lg of
        Some e \<Rightarrow> (Err (LedgerState (StoreFailure e)), lg)
      | None \<Rightarrow>
          (case load_molecule (lg_disk lg) (md_id m) of
             Inl e \<Rightarrow> (Err (LedgerState e), lg)
           | Inr cur \<Rightarrow>
               (case claim_refused cur m of
                  Some e \<Rightarrow> (Err e, lg)
                | None \<Rightarrow>
                    (let upd = dispatched_record now r cur;
                         lg0 = lg\<lparr>lg_disk := w (lg_disk lg)\<rparr>
                     in case save_molecule (lg_disk lg0) (md_id m) upd of
                          Inl e \<Rightarrow> (Err (LedgerState e), lg0)
                        | Inr d \<Rightarrow>
                            (case register_tackle_worker now r upd (lg0\<lparr>lg_disk := d\<rparr>) of
                               (Inl e, lg2) \<Rightarrow> (Err e, undo_committed_writes now cur (dr_worker r) lg2)
                             | (Inr _, lg2) \<Rightarrow>
                                 (Ok (upd, \<lparr>dd_molecule = md_id m, dd_worker = dr_worker r\<rparr>), save_session_locator (md_id m) r lg2))))))"

section \<open>After the spawn\<close>

definition stamp_pid_witness :: "datetime \<Rightarrow> string \<Rightarrow> 32 word \<Rightarrow> (64 word) option \<Rightarrow> 'z ledger \<Rightarrow> bool \<times> 'z ledger" where
  "stamp_pid_witness now i pid start lg =
     (if lg_lock_fault lg \<noteq> None then (False, lg)
      else case load_molecule (lg_disk lg) i of
             Inl _ \<Rightarrow> (False, lg)
           | Inr m \<Rightarrow>
               (case md_process m of
                  None \<Rightarrow> (False, lg)
                | Some p \<Rightarrow>
                    (let p1 = p\<lparr>mp_pid := Some pid\<rparr>;
                         p2 = (case start of Some t \<Rightarrow> p1\<lparr>mp_pid_start_time := Some t\<rparr> | None \<Rightarrow> p1)
                     in case save_molecule (lg_disk lg) i (bind_process now p2 m) of
                          Inl _ \<Rightarrow> (False, lg)
                        | Inr d \<Rightarrow> (True, lg\<lparr>lg_disk := d\<rparr>))))"

text \<open>\<open>w1\<close> and \<open>w2\<close> are what other processes do after the read of the revision and of the record.\<close>

definition stamp_terminal_witness ::
  "('z lmol \<Rightarrow> 'r) \<Rightarrow> ('z ldisk \<Rightarrow> 'z ldisk) \<Rightarrow> ('z ldisk \<Rightarrow> 'z ldisk) \<Rightarrow> string \<Rightarrow> molecule_process option \<Rightarrow> string \<Rightarrow> 'z ledger \<Rightarrow> bool \<times> 'z ledger" where
  "stamp_terminal_witness revision w1 w2 i expected identity lg =
     (if lg_lock_fault lg \<noteq> None then (False, lg)
      else case load_molecule (lg_disk lg) i of
             Inl _ \<Rightarrow> (False, lg)
           | Inr m0 \<Rightarrow>
               (let lg1 = lg\<lparr>lg_disk := w1 (lg_disk lg)\<rparr>
                in case load_molecule (lg_disk lg1) i of
                     Inl _ \<Rightarrow> (False, lg1)
                   | Inr m \<Rightarrow>
                       if expected = None \<or> md_process m \<noteq> expected then (False, lg1)
                       else case md_process m of
                              None \<Rightarrow> (False, lg1)
                            | Some p \<Rightarrow>
                                (let lg2 = lg1\<lparr>lg_disk := w2 (lg_disk lg1)\<rparr>
                                 in case save_molecule_if_revision revision (lg_disk lg2) i
                                           (m\<lparr>md_process := Some (p\<lparr>mp_terminal := Some identity\<rparr>)\<rparr>) (revision m0) of
                                      Inl _ \<Rightarrow> (False, lg2)
                                    | Inr d \<Rightarrow> (True, lg2\<lparr>lg_disk := d\<rparr>))))"

definition rollback_dispatch :: "datetime \<Rightarrow> 'z lmol \<Rightarrow> string \<Rightarrow> 'z ledger \<Rightarrow> 'z ledger" where
  "rollback_dispatch now prior w lg = (if lg_lock_fault lg = None then undo_committed_writes now prior w lg else lg)"

datatype rollback_result = NotUndone | Undone | MoleculeRestoredFleetCleanupFailed string

definition same_incarnation :: "molecule_process \<Rightarrow> molecule_process \<Rightarrow> bool" where
  "same_incarnation p q \<longleftrightarrow> mp_worker_id p = mp_worker_id q \<and> mp_started_at p = mp_started_at q \<and> mp_transport p = mp_transport q"

definition rollback_dispatch_incarnation ::
  "('z lmol \<Rightarrow> 'r) \<Rightarrow> ('z ldisk \<Rightarrow> 'z ldisk) \<Rightarrow> ('z ldisk \<Rightarrow> 'z ldisk) \<Rightarrow> datetime \<Rightarrow> 'z lmol \<Rightarrow> molecule_process \<Rightarrow> 'z ledger
     \<Rightarrow> rollback_result \<times> 'z ledger" where
  "rollback_dispatch_incarnation revision w1 w2 now prior expected lg =
     (if lg_lock_fault lg \<noteq> None then (NotUndone, lg)
      else case load_molecule (lg_disk lg) (md_id prior) of
             Inl _ \<Rightarrow> (NotUndone, lg)
           | Inr m0 \<Rightarrow>
               (let lg1 = lg\<lparr>lg_disk := w1 (lg_disk lg)\<rparr>
                in case load_molecule (lg_disk lg1) (md_id prior) of
                     Inl _ \<Rightarrow> (NotUndone, lg1)
                   | Inr cur \<Rightarrow>
                       if (case md_process cur of None \<Rightarrow> True | Some p \<Rightarrow> \<not> same_incarnation p expected) then (NotUndone, lg1)
                       else (let lg2 = lg1\<lparr>lg_disk := w2 (lg_disk lg1)\<rparr>
                             in case save_molecule_if_revision revision (lg_disk lg2) (md_id prior) (restored now prior cur) (revision m0) of
                                  Inl _ \<Rightarrow> (NotUndone, lg2)
                                | Inr d \<Rightarrow>
                                    (let lg3 = lg2\<lparr>lg_disk := d\<rparr>
                                     in case load_fleet (lg_fleet lg3) of
                                          Inl e \<Rightarrow> (MoleculeRestoredFleetCleanupFailed e, lg3)
                                        | Inr f \<Rightarrow>
                                            (case ledger_save_fleet (f\<lparr>fl_workers := AList.delete (mp_worker_id expected) (fl_workers f)\<rparr>) lg3 of
                                               (Inl e, lg4) \<Rightarrow> (MoleculeRestoredFleetCleanupFailed e, lg4)
                                             | (Inr _, lg4) \<Rightarrow> (Undone, lg4))))))"

section \<open>Live sessions nobody recorded\<close>

record unrecorded_dispatch =
  ud_molecule :: string
  ud_session_name :: string
  ud_status :: molecule_status

definition is_unrecorded_candidate :: "molecule_status \<Rightarrow> bool" where
  "is_unrecorded_candidate st \<longleftrightarrow> st \<notin> {Running, Frozen}"

definition scan_unrecorded_dispatches ::
  "('x molecule_data \<Rightarrow> string) \<Rightarrow> (string \<Rightarrow> bool) \<Rightarrow> 'x molecule_data list \<Rightarrow> unrecorded_dispatch list" where
  "scan_unrecorded_dispatches expected_session live_session ms =
     List.map_filter
       (\<lambda>m. if live_session (expected_session m)
            then Some \<lparr>ud_molecule = md_id m, ud_session_name = expected_session m, ud_status = md_status m\<rparr> else None)
       (filter (\<lambda>m. is_unrecorded_candidate (md_status m)) ms)"

definition operator_line :: "unrecorded_dispatch \<Rightarrow> string" where
  "operator_line u =
     ''molecule '' @ ud_molecule u @ '' reads `'' @ as_str (ud_status u) @ ''` but its worker session `'' @ ud_session_name u @
     ''` is alive and working. Nothing recorded the dispatch, so the worker cannot run `cs evolve` and its progress is not being counted. Its commits are still real '' @
     em_dash @ '' look at branch `feat/'' @ ud_molecule u @
     ''`. Either let it finish and merge that branch by hand, or restart it under a recorded dispatch with `cs tackle '' @ ud_molecule u @
     '' --force` (which kills the session and loses its in-flight context, not its commits).''"

section \<open>The fleet through its files\<close>

definition roster_ok :: "fleet_files \<Rightarrow> bool" where
  "roster_ok ff \<longleftrightarrow> (\<forall>f. ff_durable ff = Some (Ok f) \<longrightarrow> distinct (map fst (fl_workers f)))"

lemma promote_idem [simp]: "promote_role (promote_role w) = promote_role w"
  by (simp add: promote_role_def)

lemma keys_apply_overlay [simp]: "map fst (apply_overlay os ws) = map fst ws"
  by (induction os ws rule: apply_overlay.induct) (simp_all add: case_prod_unfold comp_def)

lemma promoted_overlay:
  assumes "\<forall>(i, w)\<in>set ws. promote_role w = w"
  shows "\<forall>(i, w)\<in>set (apply_overlay os ws). promote_role w = w"
  using assms
proof (induction os ws rule: apply_overlay.induct)
  case (2 i rw os ws)
  show ?case unfolding apply_overlay.simps by (rule "2.IH") (use "2.prems" in auto)
qed simp

lemma reconcile_id: "\<forall>(i, w)\<in>set (fl_workers f). promote_role w = w \<Longrightarrow> reconcile_worker_roles f = f"
proof -
  assume "\<forall>(i, w)\<in>set (fl_workers f). promote_role w = w"
  then have "map (\<lambda>(i, w). (i, promote_role w)) (fl_workers f) = fl_workers f" by (intro map_idI) auto
  then show ?thesis by (simp add: reconcile_worker_roles_def)
qed

lemma loaded_fleet:
  assumes "roster_ok ff" and "load_fleet ff = Ok f"
  shows "distinct (map fst (fl_workers f))" and "\<forall>(i, w)\<in>set (fl_workers f). promote_role w = w"
proof -
  have "distinct (map fst (fl_workers f)) \<and> (\<forall>(i, w)\<in>set (fl_workers f). promote_role w = w)"
  proof (cases "ff_durable ff")
    case None
    then show ?thesis using assms(2) by (auto simp: load_fleet_def default_fleet_def)
  next
    case (Some x)
    then obtain g where g: "ff_durable ff = Some (Ok g)" using assms(2) by (cases x) (auto simp: load_fleet_def)
    let ?g = "reconcile_worker_roles g"
    have keys: "map fst (fl_workers ?g) = map fst (fl_workers g)" by (simp add: reconcile_worker_roles_def case_prod_unfold comp_def)
    have p: "\<forall>(i, w)\<in>set (fl_workers ?g). promote_role w = w" by (auto simp: reconcile_worker_roles_def)
    have d: "distinct (map fst (fl_workers ?g))" using assms(1) g keys by (simp add: roster_ok_def)
    have "f = ?g \<or> (\<exists>os. f = ?g\<lparr>fl_workers := apply_overlay os (fl_workers ?g)\<rparr>)"
      using assms(2) g by (auto simp: load_fleet_def merge_runtime_overlay_def split: option.splits sum.splits)
    then show ?thesis
    proof (elim disjE exE)
      fix os assume f: "f = ?g\<lparr>fl_workers := apply_overlay os (fl_workers ?g)\<rparr>"
      have "fl_workers f = apply_overlay os (fl_workers ?g)" by (simp add: f)
      then show ?thesis using d promoted_overlay[OF p, of os] keys_apply_overlay[of os "fl_workers ?g"] by metis
    qed (use p d in blast)
  qed
  then show "distinct (map fst (fl_workers f))" and "\<forall>(i, w)\<in>set (fl_workers f). promote_role w = w" by blast+
qed

lemma saved_fleet:
  assumes "distinct (map fst (fl_workers f))" and "\<forall>(i, w)\<in>set (fl_workers f). promote_role w = w" and "ff_durable_fault ff = None" and "ff_runtime_fault ff = None"
  shows "\<exists>ff'. save_fleet f ff = (Ok (), ff') \<and> load_fleet ff' = Ok f \<and> roster_ok ff' \<and> ff_durable_fault ff' = None \<and> ff_runtime_fault ff' = None"
proof -
  obtain ff' where s: "save_fleet f ff = (Ok (), ff')" "ff_durable_fault ff' = None" "ff_runtime_fault ff' = None"
    using assms(3,4) by (auto simp: save_fleet_def Let_def case_prod_unfold)
  have "roster_ok ff'" using s(1) assms(1)
    by (auto simp: save_fleet_def Let_def roster_ok_def split_fleet_for_persist_def case_prod_unfold comp_def split: option.splits)
  then show ?thesis using s fleet_round_trip[OF assms(1) s(1)] reconcile_id[OF assms(2)] by auto
qed

lemma tackle_worker_promoted [simp]: "promote_role (tackle_worker now r m) = tackle_worker now r m"
  by (simp add: promote_role_def tackle_worker_def worker_data_new_def)

section \<open>The record of a dispatch\<close>

lemma dispatched_frame [simp]:
  "md_id (dispatched_record now r m) = md_id m" "fleet_id (dispatched_record now r m) = fleet_id m"
  "md_process (dispatched_record now r m) = Some (dispatch_process now r)"
  "md_status (dispatched_record now r m) = (if md_status m \<in> {Pending, Queued, Frozen} then Running else md_status m)"
  by (simp_all add: dispatched_record_def mark_tackled_def bind_process_def)


lemma dispatch_process_worker [simp]: "mp_worker_id (dispatch_process now r) = dr_worker r"
  by (simp add: dispatch_process_def process_new_def)

text \<open>Registering a worker when the fleet can be read and both its files can be written.\<close>

lemma register_ok:
  assumes "roster_ok (lg_fleet lg)" and "load_fleet (lg_fleet lg) = Ok f"
    and "ff_durable_fault (lg_fleet lg) = None" and "ff_runtime_fault (lg_fleet lg) = None"
  shows "\<exists>ff'. load_fleet ff' = Ok (f\<lparr>fl_workers := AList.update (dr_worker r) (tackle_worker now r m) (fl_workers f)\<rparr>) \<and> roster_ok ff' \<and>
    ff_durable_fault ff' = None \<and> ff_runtime_fault ff' = None \<and>
    (case lg_emit_fault lg of
       Some e \<Rightarrow> register_tackle_worker now r m lg = (Err (WorkerSpawnedEmit (dr_worker r) e), lg\<lparr>lg_fleet := ff'\<rparr>)
     | None \<Rightarrow> \<exists>ev. ws_worker_id ev = dr_worker r \<and> ws_molecule ev = Some (md_id m) \<and>
         register_tackle_worker now r m lg = (Ok (), lg\<lparr>lg_fleet := ff', lg_events := lg_events lg @ [ev]\<rparr>))"
proof -
  let ?f = "f\<lparr>fl_workers := AList.update (dr_worker r) (tackle_worker now r m) (fl_workers f)\<rparr>"
  note l = loaded_fleet[OF assms(1,2)]
  have "distinct (map fst (fl_workers ?f))" using l(1) by (simp add: distinct_update)
  moreover have "\<forall>(i, w)\<in>set (fl_workers ?f). promote_role w = w"
  proof (clarify)
    fix i w assume "(i, w) \<in> set (fl_workers ?f)"
    then have "map_of (fl_workers ?f) i = Some w" using \<open>distinct (map fst (fl_workers ?f))\<close> by simp
    then show "promote_role w = w" using l by (auto simp: update_conv split: if_splits dest!: map_of_SomeD)
  qed
  ultimately obtain ff' where s: "save_fleet ?f (lg_fleet lg) = (Ok (), ff')" "load_fleet ff' = Ok ?f" "roster_ok ff'"
    "ff_durable_fault ff' = None" "ff_runtime_fault ff' = None" using saved_fleet[OF _ _ assms(3,4)] by blast
  have "register_tackle_worker now r m lg = (case lg_emit_fault lg of
      Some e \<Rightarrow> (Err (WorkerSpawnedEmit (dr_worker r) e), lg\<lparr>lg_fleet := ff'\<rparr>)
    | None \<Rightarrow> (Ok (), lg\<lparr>lg_fleet := ff', lg_events := lg_events lg @ [spawned_event r m (tackle_worker now r m)]\<rparr>))"
    using s(1) assms(2) by (simp add: register_tackle_worker_def fleet_or_default_def ledger_save_fleet_def Let_def split: option.split)
  moreover have "ws_worker_id (spawned_event r m (tackle_worker now r m)) = dr_worker r" "ws_molecule (spawned_event r m (tackle_worker now r m)) = Some (md_id m)"
    by (simp_all add: spawned_event_def)
  ultimately show ?thesis using s(2-5) by (cases "lg_emit_fault lg") (intro exI[of _ ff'] conjI; auto)+
qed



section \<open>Properties\<close>

text \<open>
  A dispatch that could be recorded is recorded everywhere before the worker exists: the
  molecule's record is running, bound to the worker and claimed; the fleet has the worker, active
  and on this molecule; the event log has its spawn; and no other record, worker or event has
  changed.
\<close>

theorem committed_dispatch_is_recorded:
  assumes "disk_wf (lg_disk lg)" and "io_fault (lg_disk lg) = None" and "load_molecule (lg_disk lg) (md_id m) = Ok cur"
    and "claim_refused cur m = None" and "md_status cur \<in> {Pending, Queued, Frozen, Running}"
    and "roster_ok (lg_fleet lg)" and "load_fleet (lg_fleet lg) = Ok f"
    and "ff_durable_fault (lg_fleet lg) = None" and "ff_runtime_fault (lg_fleet lg) = None"
    and "lg_lock_fault lg = None" and "lg_emit_fault lg = None"
  shows "\<exists>upd tok lg' f'. commit_dispatch id now r m lg = (Ok (upd, tok), lg') \<and>
    (\<forall>j. load_molecule (lg_disk lg') j = (if j = md_id m then Ok upd else load_molecule (lg_disk lg) j)) \<and>
    md_status upd = Running \<and> map_option mp_worker_id (md_process upd) = Some (dr_worker r) \<and>
    assigned_worker upd = Some (dr_worker r) \<and> session_name upd = Some (dr_session_name r) \<and> rf_tackled_by (md_rest upd) = Some (dr_tackled_by r) \<and>
    load_fleet (lg_fleet lg') = Ok f' \<and>
    (\<forall>j. j \<noteq> dr_worker r \<longrightarrow> map_of (fl_workers f') j = map_of (fl_workers f) j) \<and>
    (\<exists>wd. map_of (fl_workers f') (dr_worker r) = Some wd \<and> wd_status wd = WActive \<and> wd_current_molecule wd = Some (md_id m)) \<and>
    (\<exists>ev. lg_events lg' = lg_events lg @ [ev] \<and> ws_worker_id ev = dr_worker r \<and> ws_molecule ev = Some (md_id m))"
proof -
  let ?u = "dispatched_record now r cur"
  let ?d = "write_file (lg_disk lg) (fleet_id ?u) (md_id m) ?u"
  have id: "md_id cur = md_id m" using assms(1,3) by (auto elim: load_Ok_cases)
  have save: "save_molecule (lg_disk lg) (md_id m) ?u = Ok ?d"
    by (rule save_succeeds[OF assms(2,3)]) (use assms(5) in \<open>auto simp: leaves_collapsed_def\<close>)
  have load: "load_molecule ?d j = (if j = md_id m then Ok ?u else load_molecule (lg_disk lg) j)" for j
    using updated_load(2)[OF assms(1,3), of ?u j] by simp
  let ?lg = "lg\<lparr>lg_disk := ?d\<rparr>"
  obtain ff' ev where reg: "load_fleet ff' = Ok (f\<lparr>fl_workers := AList.update (dr_worker r) (tackle_worker now r ?u) (fl_workers f)\<rparr>)"
    "ws_worker_id ev = dr_worker r" "ws_molecule ev = Some (md_id m)"
    "register_tackle_worker now r ?u ?lg = (Ok (), ?lg\<lparr>lg_fleet := ff', lg_events := lg_events lg @ [ev]\<rparr>)"
    using register_ok[of ?lg f r now ?u] assms(6-9,11) id by auto
  have run: "commit_dispatch id now r m lg =
      (Ok (?u, \<lparr>dd_molecule = md_id m, dd_worker = dr_worker r\<rparr>), save_session_locator (md_id m) r (?lg\<lparr>lg_fleet := ff', lg_events := lg_events lg @ [ev]\<rparr>))"
    using assms(3,4,10) save reg(4) by (simp add: commit_dispatch_def Let_def)
  have sl: "lg_disk (save_session_locator i r x) = lg_disk x" "lg_fleet (save_session_locator i r x) = lg_fleet x"
    "lg_events (save_session_locator i r x) = lg_events x" for i and x :: "'a ledger" by (simp_all add: save_session_locator_def)
  have u: "assigned_worker ?u = Some (dr_worker r)" "session_name ?u = Some (dr_session_name r)" "rf_tackled_by (md_rest ?u) = Some (dr_tackled_by r)"
    by (simp_all add: dispatched_record_def mark_tackled_def bind_process_def dispatch_process_def process_new_def)
  have w: "wd_status (tackle_worker now r ?u) = WActive" "wd_current_molecule (tackle_worker now r ?u) = Some (md_id m)"
    using id by (simp_all add: tackle_worker_def worker_data_new_def)
  show ?thesis
    by (rule exI[of _ ?u], rule exI[of _ "\<lparr>dd_molecule = md_id m, dd_worker = dr_worker r\<rparr>"],
        rule exI[of _ "save_session_locator (md_id m) r (?lg\<lparr>lg_fleet := ff', lg_events := lg_events lg @ [ev]\<rparr>)"],
        rule exI[of _ "f\<lparr>fl_workers := AList.update (dr_worker r) (tackle_worker now r ?u) (fl_workers f)\<rparr>"])
      (use run load u w reg(1-3) assms(5) in \<open>auto simp: sl update_conv\<close>)
qed

definition demo_record :: "string \<Rightarrow> dispatch_record" where
  "demo_record w =
     \<lparr>dr_transport = None, dr_worker = w, dr_session_name = w, dr_adapter = ''claude'', dr_loop_ownership = LoopExternal, dr_model = None,
      dr_tackled_by = TackledHuman, dr_worktree_path = ['''', ''repo'', ''wt''], dr_repo_root = ['''', ''repo'']\<rparr>"

definition demo_mol :: "unit lmol" where
  "demo_mol =
     \<lparr>md_id = ''a'', fleet_id = ''f'', md_status = Pending, assigned_worker = None, md_current_step = 0, md_total_steps = 1,
      md_process = None, session_name = None, md_updated_at = 0, typed_links = [], merged_at = None, stuck_at = None,
      md_collapse_reason = None, md_collapse_cause = None, collapse_reason_kind = None, collapsed_step = None, collapse_receipt = None,
      md_rest = \<lparr>rf_formula_id = ''work'', rf_freeze_on_last_step = False, rf_tackled_by = None, rf_tackled_at = None,
        rf_other = \<lparr>lf_tags = [], lf_assigned_role = None, lf_rest = ()\<rparr>\<rparr>\<rparr>"

definition demo_ldisk :: "unit ldisk" where
  "demo_ldisk = \<lparr>fleet_entries = [(''f'', [(''a'', Some (Ok demo_mol))])], legacy_entries = [], io_fault = None\<rparr>"

definition demo_ledger :: "unit ledger" where
  "demo_ledger = \<lparr>lg_disk = demo_ldisk, lg_fleet = snd (save_fleet sample_fleet fresh_files), lg_events = [], lg_locators = [],
     lg_lock_fault = None, lg_emit_fault = None, lg_locator_fault = False\<rparr>"

lemma demo_facts:
  "disk_wf (lg_disk demo_ledger)" "io_fault (lg_disk demo_ledger) = None" "load_molecule (lg_disk demo_ledger) (md_id demo_mol) = Ok demo_mol"
  "claim_refused demo_mol demo_mol = None" "md_status demo_mol = Pending"
  "roster_ok (lg_fleet demo_ledger)" "load_fleet (lg_fleet demo_ledger) = Ok (reconcile_worker_roles sample_fleet)"
  "ff_durable_fault (lg_fleet demo_ledger) = None" "ff_runtime_fault (lg_fleet demo_ledger) = None"
  "lg_lock_fault demo_ledger = None" "lg_emit_fault demo_ledger = None"
proof -
  show "disk_wf (lg_disk demo_ledger)"
    by (rule disk_wfI) (auto simp: demo_ledger_def demo_ldisk_def demo_mol_def fleet_entry_def split: if_splits)
  show "load_fleet (lg_fleet demo_ledger) = Ok (reconcile_worker_roles sample_fleet)" by code_simp
  show "roster_ok (lg_fleet demo_ledger)"
    by (simp add: roster_ok_def demo_ledger_def save_fleet_def fresh_files_def sample_fleet_def split_fleet_for_persist_def)
qed (simp_all add: demo_ledger_def demo_ldisk_def demo_mol_def load_molecule_def molecule_dir_def fleet_entry_def
      claim_refused_def claim_fields_differ_def save_fleet_def fresh_files_def Let_def case_prod_unfold)

theorem committed_dispatch_is_recorded_witness:
  "\<exists>upd tok lg'. commit_dispatch id 5 (demo_record ''w'') demo_mol demo_ledger = (Ok (upd, tok), lg') \<and> load_molecule (lg_disk lg') ''a'' = Ok upd \<and>
     md_status upd = Running \<and> length (lg_events lg') = 1"
proof -
  have s: "md_status demo_mol \<in> {Pending, Queued, Frozen, Running}" by (simp add: demo_facts(5))
  have e: "lg_events demo_ledger = []" "md_id demo_mol = ''a''" by (simp_all add: demo_ledger_def demo_mol_def)
  obtain upd tok lg' f' where c: "commit_dispatch id 5 (demo_record ''w'') demo_mol demo_ledger = (Ok (upd, tok), lg')"
    and l: "\<forall>j. load_molecule (lg_disk lg') j = (if j = md_id demo_mol then Ok upd else load_molecule (lg_disk demo_ledger) j)"
    and u: "md_status upd = Running" and ev: "\<exists>ev. lg_events lg' = lg_events demo_ledger @ [ev] \<and> ws_worker_id ev = dr_worker (demo_record ''w'') \<and> ws_molecule ev = Some (md_id demo_mol)"
    using committed_dispatch_is_recorded[OF demo_facts(1-4) s demo_facts(6-11), of 5 "demo_record ''w''"] by (elim exE conjE) iprover
  have "load_molecule (lg_disk lg') ''a'' = Ok upd" using l e(2) by simp
  moreover have "length (lg_events lg') = 1" using ev e(1) by auto
  ultimately show ?thesis using c u by blast
qed



text \<open>
  C22. Two dispatchers that read the same record cannot both have it: once one of them has committed, the
  commit of the other is refused, names the worker that won, and changes nothing.
\<close>

theorem second_dispatch_is_refused:
  assumes "disk_wf (lg_disk lg)" and "commit_dispatch id now1 r1 m lg = (Ok (upd, tok), lg1)"
    and "md_process m \<noteq> Some (dispatch_process now1 r1)"
  shows "commit_dispatch w2 now2 r2 m lg1 =
    (Err (ClaimLost (dr_worker r1) (dr_adapter r1) (case dr_model r1 of Some mo \<Rightarrow> mo | None \<Rightarrow> ''adapter default (unrecorded)'')), lg1)"
proof -
  obtain cur where cur: "load_molecule (lg_disk lg) (md_id m) = Ok cur" "lg_lock_fault lg = None" "claim_refused cur m = None"
    using assms(2) by (auto simp: commit_dispatch_def split: option.splits sum.splits)
  let ?u = "dispatched_record now1 r1 cur"
  obtain d where d: "save_molecule (lg_disk lg) (md_id m) ?u = Ok d"
    using assms(2) cur by (cases "save_molecule (lg_disk lg) (md_id m) ?u") (auto simp: commit_dispatch_def Let_def)
  obtain x lg2 where x: "register_tackle_worker now1 r1 ?u (lg\<lparr>lg_disk := d\<rparr>) = (x, lg2)" by fastforce
  then have lg1: "lg1 = save_session_locator (md_id m) r1 lg2" using assms(2) cur d by (cases x) (auto simp: commit_dispatch_def Let_def)
  have "lg_disk lg2 = d \<and> lg_lock_fault lg2 = None" using x cur(2)
    by (auto simp: register_tackle_worker_def ledger_save_fleet_def Let_def split: sum.splits option.splits prod.splits)
  then have same: "lg_disk lg1 = d" "lg_lock_fault lg1 = None" using lg1 by (simp_all add: save_session_locator_def)
  have "d = write_file (lg_disk lg) (fleet_id ?u) (md_id m) ?u" using write_checked_Ok(1)[OF d[unfolded save_molecule_def]] .
  then have "load_molecule (lg_disk lg1) (md_id m) = Ok ?u" using updated_load(2)[OF assms(1) cur(1), of ?u "md_id m"] same by simp
  moreover have "claim_refused ?u m =
      Some (ClaimLost (dr_worker r1) (dr_adapter r1) (case dr_model r1 of Some mo \<Rightarrow> mo | None \<Rightarrow> ''adapter default (unrecorded)''))"
  proof -
    have "mp_adapter_name (dispatch_process now1 r1) = Some (dr_adapter r1)" "mp_model (dispatch_process now1 r1) = dr_model r1"
      by (simp_all add: dispatch_process_def)
    then show ?thesis using assms(3) by (auto simp: claim_refused_def)
  qed
  ultimately show ?thesis using same(2) by (simp add: commit_dispatch_def)
qed

theorem second_dispatch_is_refused_witness:
  "\<exists>upd tok lg1. commit_dispatch id 5 (demo_record ''w'') demo_mol demo_ledger = (Ok (upd, tok), lg1) \<and>
     commit_dispatch id 6 (demo_record ''v'') demo_mol lg1 = (Err (ClaimLost ''w'' ''claude'' ''adapter default (unrecorded)''), lg1)"
proof -
  obtain upd tok lg1 where c: "commit_dispatch id 5 (demo_record ''w'') demo_mol demo_ledger = (Ok (upd, tok), lg1)"
  proof -
    have "\<not> isl (fst (commit_dispatch id 5 (demo_record ''w'') demo_mol demo_ledger))" by code_simp
    then show ?thesis using that by (cases "commit_dispatch id 5 (demo_record ''w'') demo_mol demo_ledger"; cases "fst (commit_dispatch id 5 (demo_record ''w'') demo_mol demo_ledger)") auto
  qed
  have "md_process demo_mol \<noteq> Some (dispatch_process 5 (demo_record ''w''))" by (simp add: demo_mol_def)
  from second_dispatch_is_refused[OF demo_facts(1) c this, of id 6 "demo_record ''v''"] c show ?thesis by (simp add: demo_record_def)
qed

text \<open>
  C40. A freeze in the middle of a dispatch is lost: the freeze verb does not take the fleet lock, so when it
  freezes the molecule after the dispatch has read the record and before it writes it, the plain
  save of the dispatch makes the molecule running again although its freeze was acknowledged.
\<close>

theorem freeze_lost_in_dispatch:
  assumes "disk_wf (lg_disk lg)" and "io_fault (lg_disk lg) = None" and "load_molecule (lg_disk lg) (md_id m) = Ok m"
    and "md_status m = Pending" and "roster_ok (lg_fleet lg)" and "load_fleet (lg_fleet lg) = Ok f"
    and "ff_durable_fault (lg_fleet lg) = None" and "ff_runtime_fault (lg_fleet lg) = None"
    and "lg_lock_fault lg = None" and "lg_emit_fault lg = None"
    and "freeze_op file_store t (md_id m) why (lg_disk lg) = (Ok v, frozen, evs)" and "io_fault frozen = None"
  shows "md_status (case load_molecule frozen (md_id m) of Inr x \<Rightarrow> x | Inl _ \<Rightarrow> m) = Frozen \<and>
    (\<exists>upd tok lg'. commit_dispatch (\<lambda>_. frozen) now r m lg = (Ok (upd, tok), lg') \<and>
       load_molecule (lg_disk lg') (md_id m) = Ok upd \<and> md_status upd = Running)"
proof -
  let ?fz = "m\<lparr>md_status := Frozen, md_updated_at := t\<rparr>" and ?u = "dispatched_record now r m"
  have "sp_load file_store (lg_disk lg) (md_id m) = Ok m" using assms(3) by (simp add: file_store_def)
  from files.freeze_Ok[OF assms(1) this assms(11), of "md_id m"] have fz: "disk_wf frozen" "load_molecule frozen (md_id m) = Ok ?fz"
    using assms(4) by (simp_all add: file_store_def)
  let ?d = "write_file frozen (fleet_id ?u) (md_id m) ?u"
  have save: "save_molecule frozen (md_id m) ?u = Ok ?d"
    by (rule save_succeeds[OF assms(12) fz(2)]) (simp add: leaves_collapsed_def)
  have load: "load_molecule ?d (md_id m) = Ok ?u" using updated_load(2)[OF fz, of ?u "md_id m"] by simp
  let ?lg = "lg\<lparr>lg_disk := ?d\<rparr>"
  obtain ff' ev where reg: "register_tackle_worker now r ?u ?lg = (Ok (), ?lg\<lparr>lg_fleet := ff', lg_events := lg_events lg @ [ev]\<rparr>)"
    using register_ok[of ?lg f r now ?u] assms(5-8,10) by auto
  have "claim_refused m m = None" by (simp add: claim_refused_def claim_fields_differ_def)
  then have "commit_dispatch (\<lambda>_. frozen) now r m lg = (Ok (?u, \<lparr>dd_molecule = md_id m, dd_worker = dr_worker r\<rparr>),
      save_session_locator (md_id m) r (?lg\<lparr>lg_fleet := ff', lg_events := lg_events lg @ [ev]\<rparr>))"
    using assms(3,9) save reg by (simp add: commit_dispatch_def Let_def)
  moreover have "lg_disk (save_session_locator (md_id m) r (?lg\<lparr>lg_fleet := ff', lg_events := lg_events lg @ [ev]\<rparr>)) = ?d"
    by (simp add: save_session_locator_def)
  ultimately show ?thesis using load fz(2) assms(4) by auto
qed

theorem freeze_lost_in_dispatch_witness:
  "\<exists>upd tok lg'. commit_dispatch (\<lambda>_. fst (snd (freeze_op file_store 4 ''a'' None demo_ldisk))) 5 (demo_record ''w'') demo_mol demo_ledger = (Ok (upd, tok), lg') \<and>
     md_status upd = Running"
proof -
  obtain v fz evs where z: "freeze_op file_store 4 ''a'' None demo_ldisk = (Ok v, fz, evs)" "io_fault fz = None"
    by (simp add: freeze_op_def file_store_def load_molecule_def molecule_dir_def fleet_entry_def demo_ldisk_def demo_mol_def
        save_molecule_def write_molecule_checked_def leaves_collapsed_def write_file_def Let_def)
  have i: "md_id demo_mol = ''a''" "lg_disk demo_ledger = demo_ldisk" by (simp_all add: demo_mol_def demo_ledger_def)
  from freeze_lost_in_dispatch[OF demo_facts(1-3,5-11), unfolded i, OF z, of 5 "demo_record ''w''"] show ?thesis unfolding z by auto
qed

text \<open>
  Undoing a launch never undoes a later one: the rollback of an incarnation writes nothing to the
  molecule unless its record is bound to the same incarnation of the process and still has the
  revision that was read; then the dispatch fields are those from before and the rest is kept.
\<close>

theorem rollback_respects_incarnation:
  assumes "disk_wf (w2 (lg_disk lg))" and "\<forall>x y. revision x = revision y \<longrightarrow> x = y"
    and "rollback_dispatch_incarnation revision id w2 now prior expected lg = (res, lg')"
  shows "if res = NotUndone then lg_disk lg' \<in> {lg_disk lg, w2 (lg_disk lg)} \<and> lg_fleet lg' = lg_fleet lg
    else \<exists>cur p. load_molecule (w2 (lg_disk lg)) (md_id prior) = Ok cur \<and> md_process cur = Some p \<and> same_incarnation p expected \<and>
      (\<forall>j. load_molecule (lg_disk lg') j = (if j = md_id prior then Ok (restored now prior cur) else load_molecule (w2 (lg_disk lg)) j))"
proof (cases "lg_lock_fault lg = None \<and> (\<exists>cur p. load_molecule (lg_disk lg) (md_id prior) = Ok cur \<and> md_process cur = Some p \<and> same_incarnation p expected)")
  case False
  then have "res = NotUndone \<and> lg' = lg" using assms(3)
    by (auto simp: rollback_dispatch_incarnation_def Let_def split: sum.splits option.splits if_splits)
  then show ?thesis by simp
next
  case True
  then obtain cur p where c: "lg_lock_fault lg = None" "load_molecule (lg_disk lg) (md_id prior) = Ok cur" "md_process cur = Some p" "same_incarnation p expected" by blast
  let ?m = "restored now prior cur" and ?d = "w2 (lg_disk lg)"
  show ?thesis
  proof (cases "save_molecule_if_revision revision ?d (md_id prior) ?m (revision cur)")
    case (Inl e)
    then have "res = NotUndone \<and> lg' = lg\<lparr>lg_disk := ?d\<rparr>" using assms(3) c by (simp add: rollback_dispatch_incarnation_def Let_def)
    then show ?thesis by simp
  next
    case (Inr d)
    obtain x where x: "load_molecule ?d (md_id prior) = Ok x" "revision x = revision cur" "d = write_file ?d (fleet_id ?m) (md_id prior) ?m"
      using Inr by (rule save_if_revision_Ok)
    have "x = cur" using assms(2) x(2) by blast
    have f: "md_id ?m = md_id x" "fleet_id ?m = fleet_id x" using \<open>x = cur\<close> by (simp_all add: restored_def)
    have load: "load_molecule d j = (if j = md_id prior then Ok ?m else load_molecule ?d j)" for j
      using updated_load(2)[OF assms(1) x(1) f, of j] x(3) by simp
    have "lg_disk lg' = d \<and> res \<noteq> NotUndone" using assms(3) c Inr
      by (auto simp: rollback_dispatch_incarnation_def ledger_save_fleet_def Let_def split: sum.splits prod.splits)
    then show ?thesis using c x(1) \<open>x = cur\<close> load by auto
  qed
qed

definition bound_mol :: "unit lmol" where
  "bound_mol = dispatched_record 5 (demo_record ''w'') demo_mol"

theorem rollback_respects_incarnation_witness:
  "\<exists>lg'. rollback_dispatch_incarnation (\<lambda>m. m) id id 9 demo_mol (dispatch_process 5 (demo_record ''w''))
       (demo_ledger\<lparr>lg_disk := write_file demo_ldisk ''f'' ''a'' bound_mol\<rparr>) = (Undone, lg') \<and>
     load_molecule (lg_disk lg') ''a'' = Ok (restored 9 demo_mol bound_mol)"
proof -
  let ?d = "write_file demo_ldisk ''f'' ''a'' bound_mol"
  let ?lg = "demo_ledger\<lparr>lg_disk := ?d\<rparr>"
  have i: "md_id demo_mol = ''a''" "fleet_id demo_mol = ''f''" "lg_disk demo_ledger = demo_ldisk" by (simp_all add: demo_mol_def demo_ledger_def)
  have b: "md_id bound_mol = md_id demo_mol" "fleet_id bound_mol = fleet_id demo_mol" by (simp_all add: bound_mol_def)
  note l = updated_load[OF demo_facts(1,3) b, unfolded i b]
  let ?run = "rollback_dispatch_incarnation (\<lambda>m. m) id id 9 demo_mol (dispatch_process 5 (demo_record ''w'')) ?lg"
  have r: "fst ?run = Undone" by code_simp
  then obtain lg' where run: "?run = (Undone, lg')" by (metis prod.collapse)
  have wf: "disk_wf (id (lg_disk ?lg))" using l(1) by simp
  have k: "load_molecule (id (lg_disk ?lg)) (md_id demo_mol) = Ok bound_mol" using l(2)[of "''a''"] i by simp
  from rollback_respects_incarnation[OF wf _ run] k i show ?thesis using run by auto
qed

end
