(* ===== verification/Spec2Isabelle.thy ===== *)
theory Spec2Isabelle
  imports Plan Scc GraphOps CriticalPath RunState Evolve Supervisor StoreLog Lease Scheduler EventLog Runtime DispatchLedger
begin

text \<open>
  Verification of the core of cosmon, a fleet orchestrator for coding agents written in Rust.
  The unit of work is a molecule: it is nucleated from a formula (an ordered set of steps),
  dispatched to a worker when its blockers have completed, evolved step by step, and closed
  by completion or collapse.  The theories model the code of the following crates; file names
  below are relative to \<open>src/crates\<close>.

  \<^bold>\<open>How the parts interact.\<close>  A formula is parsed and its steps are sorted by the dependency
  graph (\<open>Formula\<close> over \<open>Graph\<close>); a molecule runs through the steps by the evolve transition
  (\<open>Evolve\<close>, \<open>Molecule\<close>).  The runtime loop (\<open>Runtime\<close>) asks its policy (\<open>DagPolicy\<close>) what to
  dispatch; the policy compiles the stored links into a graph, keeps an execution plan over it
  (\<open>Plan\<close>), prunes and extends it (\<open>GraphOps\<close>) and ranks it (\<open>CriticalPath\<close>).  Records of
  molecules live in the file store, from which the frontier of dispatchable molecules is
  projected and on which the verbs work (\<open>Store\<close>).  Every verb appends events to a log that
  the trace validator replays (\<open>Verify\<close>; both together in \<open>StoreLog\<close> and here).  Workers are
  reconciled between desired and observed state (\<open>Worker\<close>, \<open>RunState\<close>), and the resident
  daemons are kept alive by a supervisor (\<open>Supervisor\<close>).  A molecule is closed from outside by
  the collapse verb, at most once per idempotency key (\<open>CollapseContract\<close>, \<open>Collapse\<close>), and on a
  mission under co-pilotage only by the session that holds the lease (\<open>Lease\<close>).  Recurring
  patrols are launched by a scheduler that a timer runs (\<open>Cron\<close>, \<open>Scheduler\<close>).

  \<^bold>\<open>Theories and the code they model.\<close>
  \<^item> \<open>Prelude\<close>: results, hash iteration order, finite acyclic relations, reachable states and
    the locale \<open>invariant_system\<close> every state machine below interprets.
  \<^item> \<open>RustStd\<close>: the parts of the Rust standard library the code uses (strings as bytes,
    decimal numbers, saturating arithmetic) and the locale \<open>text_codec\<close> of a
    \<open>Display\<close>/\<open>FromStr\<close> pair.
  \<^item> \<open>Graph\<close> (\<open>cosmon-graph/src/lib.rs\<close>): Kahn's sort with \<open>partial_function (option)\<close>, where
    \<open>None\<close> is a panic or a loop that does not end, and the ready frontier.  Shown: it always
    returns, with an order if and only if the graph is acyclic; the order is a permutation
    that respects every edge; the result does not depend on the hasher.
  \<^item> \<open>Plan\<close> (\<open>plan.rs\<close>): the plan as a state machine under arbitrary interleavings of its
    calls.  Shown: its invariant, that its ready and running nodes are the frontier of the
    satisfied ones, and that a drained plan has completed everything.
  \<^item> \<open>GraphOps\<close> (\<open>mutation.rs\<close>, \<open>affinity.rs\<close>), \<open>CriticalPath\<close> (\<open>critical_path.rs\<close>, with 64-bit
    weights and the assumption that the total does not overflow).
  \<^item> \<open>Ids\<close> (\<open>cosmon-core/src/id.rs\<close>), \<open>Formula\<close> (\<open>formula.rs\<close>, \<open>adapter_capability.rs\<close>), \<open>Evolve\<close>
    (\<open>evolve.rs\<close>).  Shown: what parsing accepts, that parsing always returns, and that the
    steps of every parsed formula can be evolved in order to completion.
  \<^item> \<open>Molecule\<close> (\<open>molecule.rs\<close>): the typestate molecule as one record per state and its
    refinement of the status table.  \<open>Worker\<close> (\<open>worker.rs\<close>, \<open>agent.rs\<close>,
    \<open>reconcile/molecule.rs\<close>), \<open>RunState\<close> (\<open>run_state.rs\<close>).
  \<^item> \<open>Verify\<close> (\<open>cosmon-verify/src\<close>): the replayed scheduler state and the seven invariants,
    each an interpretation of the locale \<open>trace_invariant\<close>.  Shown: the validator certifies
    exactly the legal traces, and what a certified trace guarantees.
  \<^item> \<open>Store\<close> (\<open>cosmon-filestore/src/lib.rs\<close>, \<open>cosmon-state/src/frontier.rs\<close>,
    \<open>cosmon-state/src/ops\<close>): the disk, the locale \<open>state_store\<close> of what the verbs expect of a
    store, its interpretation on the file store, the verbs freeze, thaw and stuck, listing and
    the frontier projection.  Shown: collapse is final, conditional saves exclude each other,
    the frontier is exactly the set of dispatchable molecules.
  \<^item> \<open>CollapseContract\<close> (\<open>collapse_contract.rs\<close>) and \<open>Collapse\<close> (\<open>ops/collapse.rs\<close> and the key
    records of the file store): the decision table and the keyed collapse with every point
    where the process may die or another writer may act, over the locale \<open>keyed_store\<close>,
    interpreted on the file store.  Shown: a key collapses at most once, a crash at any point
    is settled by a retry, and that a completion between decision and write is overwritten.
  \<^item> \<open>Lease\<close> (\<open>pilot_lease.rs\<close>, \<open>operator_attestation.rs\<close>, \<open>pilot_lease_store.rs\<close>,
    \<open>pilot_gesture.rs\<close>): leases, the signed text, the ledgers as text files, and the guard that
    is the authority of a collapse.  Shown: the signed text determines the transfer, a
    superseded epoch is dead whatever is appended, a takeover works, and a keyed collapse of a
    leased mission is the holder's.
  \<^item> \<open>Cron\<close> and \<open>Scheduler\<close> (\<open>cosmon-scheduler/src\<close>): cron expressions as 64-bit sets with a
    reference reading, the tick, dispatch, sunset and one run of the program.  Shown: when a
    patrol fires, that a sunset is final, that patrols do not disturb one another.
  \<^item> \<open>EventLog\<close> (\<open>cosmon-state/src/event_log.rs\<close>, \<open>quality_band.rs\<close>): the log as the text of a file,
    writers with cached numbers and a checkpoint file, the incremental tail and the resumable
    reader.  Shown: any number of writers number the events without gap or repetition, a resumed
    writer equals one that walks the whole file, the readers hand out every complete line once.
  \<^item> \<open>DagPolicy\<close> (\<open>cosmon-runtime/src/dag_policy.rs\<close>): the links of the stored molecules compiled
    into a dependency graph, the plan kept over it and the decision of one tick.  Shown: the
    compiled graph is the one the links declare, the plan stays true whatever the snapshots
    show, a tick dispatches only dispatchable molecules within the limits, and without limits
    all that are ready.
  \<^item> \<open>Runtime\<close> (\<open>cosmon-runtime/src/lib.rs\<close>): the event loop over that policy and the file store,
    with executor and other processes as functions on the disk.  A run is shown to be a sequence
    of small steps; from that: a run is a history of the store, it respects its budget, a
    drained run leaves nothing ready.  Also: dispatching is a claim that a failure undoes, the
    liveness check frees exactly the dead, and a failed merge is stamped as landed.
  \<^item> \<open>Fleet\<close> (\<open>cosmon-state/src/lib.rs\<close>, \<open>cosmon-filestore/src/lib.rs\<close>): the roster of workers and its
    two files.  Shown: a save reads back, a broken save leaves one roster or the other.
  \<^item> \<open>DispatchLedger\<close> (\<open>cosmon-runtime/src/dispatch_ledger.rs\<close>): a dispatch recorded on the molecule,
    in the fleet and in the log before its worker exists.  Shown: it is recorded everywhere or
    nothing of it is left, a second dispatcher is refused, an undo respects a later dispatch,
    and a freeze in the middle of one is lost.
  \<^item> \<open>Scc\<close> (\<open>cosmon-graph/src/scc.rs\<close>): the iterative Tarjan search.  Shown: it returns exactly
    the strongly connected components.
  \<^item> \<open>StoreLog\<close> and this theory: the events of the verbs replayed by the validator.
  \<^item> \<open>Supervisor\<close> (\<open>cosmon-daemon-supervisor/src\<close>): configuration, policies, child typestate,
    reload diff, one pass of the event loop, reload and shutdown.  Shown: the table invariant
    in every reachable state, which daemons a pass may spawn, the crash-loop valve, and what
    reload and shutdown do.

  \<^bold>\<open>Conventions.\<close>  \<open>Result\<close> is a sum (\<open>Err\<close> left, \<open>Ok\<close> right); a panic or divergence is \<open>None\<close>.
  \<open>u32\<close> and \<open>u64\<close> are words where the code's arithmetic could wrap; lengths and indices are
  natural numbers.  A string is the list of its bytes as characters.  A \<open>BTreeMap\<close> is a sorted
  association list; iteration over a hash container is a permutation passed as an argument.
  Code that is not part of the repository is an argument: TOML and JSON decoding, the content
  digest, random numbers, Unicode lower-casing, \<open>chrono\<close> arithmetic, the operating system.  No
  loop is bounded by fuel: loops are structural, have a termination measure, or are partial
  functions whose results are proved to exist; the two waiting loops of the shutdown run over
  the list of their polls.

  \<^bold>\<open>Not modelled.\<close>  Terminal, process and network input and output, the command line, the HTTP
  and JSON-RPC layers, rendering, git and archive integration; how a file lock is waited for.  Of the library code, still open in the order of the plan: nucleation and the other
  verbs, the rebuild of the store from the log.
\<close>

section \<open>Properties that span components\<close>





end
